(* ===== verification/Prelude.thy ===== *)
theory Prelude
  imports Main "HOL-Library.Word"
begin

text \<open>
  Shared vocabulary of the development: the machine integers of the C++ code, the values
  that stand for undefined behaviour and uncaught exceptions, the monad that propagates
  them, decimal and hexadecimal printing of numbers, and the generic lemmas on lists and
  words that several components use.
\<close>

section \<open>Types of the model\<close>

type_synonym u8 = "8 word"
type_synonym u16 = "16 word"
type_synonym u32 = "32 word"
type_synonym u64 = "64 word"

text \<open>
  A fault is what the C++ program does when an operation leaves its contract: a read past
  the end of a message body, a pop of an empty deque, a dereference of a null session, an
  index out of range, an uninitialised variable. All of them are undefined behaviour (or
  an exception nothing catches), so a computation that meets one has no result.
\<close>

datatype fault =
    BodyUnderflow
  | EmptyDeque
  | NullSession
  | OutOfRange
  | Uninitialised
  | LengthError
  | UncaughtException

type_synonym 'a result = "fault + 'a"

named_theorems result_simps "computing with results"
named_theorems codec_simps "encoding and decoding of values"
named_theorems state_simps "the operations on a component's state"

section \<open>Results\<close>

definition bindR :: "'a result \<Rightarrow> ('a \<Rightarrow> 'b result) \<Rightarrow> 'b result" where
  "bindR r f = (case r of Inl e \<Rightarrow> Inl e | Inr x \<Rightarrow> f x)"

lemma bindR_Inl [simp, result_simps]: "bindR (Inl e) f = Inl e"
  by (simp add: bindR_def)

lemma bindR_Inr [simp, result_simps]: "bindR (Inr x) f = f x"
  by (simp add: bindR_def)

lemma bindR_eq_Inr [result_simps]:
  "bindR r f = Inr y \<longleftrightarrow> (\<exists>x. r = Inr x \<and> f x = Inr y)"
  by (cases r) simp_all

lemma bindR_E:
  assumes "bindR r f = Inr z" obtains x where "r = Inr x" "f x = Inr z"
  using assms by (cases r) simp_all

lemma bindR_pairE:
  assumes "bindR r (\<lambda>(x, y). f x y) = Inr z" obtains x y where "r = Inr (x, y)" "f x y = Inr z"
  using assms by (cases r) auto

lemma bindR_assoc: "bindR (bindR r f) g = bindR r (\<lambda>x. bindR (f x) g)"
  by (cases r) simp_all

lemma bindR_cong [fundef_cong]:
  "r = s \<Longrightarrow> (\<And>x. s = Inr x \<Longrightarrow> f x = g x) \<Longrightarrow> bindR r f = bindR s g"
  by (cases s) simp_all

section \<open>Characters and bytes\<close>

text \<open>A C++ \<open>char\<close> and a \<open>uint8_t\<close> hold the same eight bits.\<close>

definition byte_of_char :: "char \<Rightarrow> u8" where
  "byte_of_char c = word_of_nat (of_char c)"

definition char_of_byte :: "u8 \<Rightarrow> char" where
  "char_of_byte b = char_of (unat b)"

lemma char_of_byte_of_char [simp, codec_simps]: "char_of_byte (byte_of_char c) = c"
  by (simp add: byte_of_char_def char_of_byte_def unat_of_nat of_char_mod_256)

lemma byte_of_char_of_byte [simp, codec_simps]: "byte_of_char (char_of_byte b) = b"
proof -
  have "unat b < 2 ^ LENGTH(8)" by (rule unsigned_less)
  then have "unat b < 256" by simp
  then show ?thesis by (simp add: byte_of_char_def char_of_byte_def)
qed

lemma map_char_of_byte_of_char [simp, codec_simps]:
  "map char_of_byte (map byte_of_char s) = s"
  by (induction s) simp_all

section \<open>Lists\<close>

lemma drop_snoc_suffix: "drop (length xs) (xs @ ys) = ys"
  by simp

lemma list_all_update:
  "list_all P xs \<Longrightarrow> P y \<Longrightarrow> list_all P (xs[i := y])"
  by (induction xs arbitrary: i) (auto split: nat.splits)

lemma takeWhile_append_stop:
  "list_all P xs \<Longrightarrow> \<not> P y \<Longrightarrow> takeWhile P (xs @ y # ys) = xs"
  by (induction xs) simp_all

lemma dropWhile_append_stop:
  "list_all P xs \<Longrightarrow> \<not> P y \<Longrightarrow> dropWhile P (xs @ y # ys) = y # ys"
  by (induction xs) simp_all

lemma takeWhile_all: "list_all P xs \<Longrightarrow> takeWhile P xs = xs"
  by (induction xs) simp_all

lemma dropWhile_all: "list_all P xs \<Longrightarrow> dropWhile P xs = []"
  by (induction xs) simp_all

section \<open>Words\<close>

lemma word_of_nat_unat_less:
  "n < 2 ^ LENGTH('a) \<Longrightarrow> unat (word_of_nat n :: 'a::len word) = n"
  by (simp add: unat_of_nat take_bit_nat_eq_self)

end
