(* ===== verification/Std_Map.thy ===== *)
theory Std_Map
  imports Prelude
begin

text \<open>
  The model of the standard library's \<open>std::map\<close>: the entries in ascending order of their
  keys, each key once. The operations are the ones the node uses: \<open>find\<close>, \<open>operator[]\<close> as
  an assignment, \<open>erase\<close>, \<open>upper_bound\<close>, \<open>size\<close> and the iteration in key order. The locale
  \<open>dictionary\<close> states what every client relies on; \<open>std_map\<close> provides it.
\<close>

section \<open>The interface\<close>

locale dictionary =
  fixes find_in :: "'m \<Rightarrow> 'k \<Rightarrow> 'v option"
    and store :: "'k \<Rightarrow> 'v \<Rightarrow> 'm \<Rightarrow> 'm"
    and remove :: "'k \<Rightarrow> 'm \<Rightarrow> 'm"
    and wf :: "'m \<Rightarrow> bool"
  assumes find_store: "wf m \<Longrightarrow> find_in (store k v m) = (find_in m)(k \<mapsto> v)"
    and find_remove: "wf m \<Longrightarrow> find_in (remove k m) = (find_in m)(k := None)"
    and wf_store: "wf m \<Longrightarrow> wf (store k v m)"
    and wf_remove: "wf m \<Longrightarrow> wf (remove k m)"
    and wf_ext: "wf m \<Longrightarrow> wf n \<Longrightarrow> find_in m = find_in n \<Longrightarrow> m = n"
begin

lemma store_twice: "wf m \<Longrightarrow> store k v (store k u m) = store k v m"
  by (rule wf_ext) (simp_all add: wf_store find_store)

lemma store_commute:
  "wf m \<Longrightarrow> k \<noteq> l \<Longrightarrow> store k v (store l u m) = store l u (store k v m)"
  by (rule wf_ext) (simp_all add: wf_store find_store fun_upd_twist)

lemma remove_store: "wf m \<Longrightarrow> find_in m k = None \<Longrightarrow> remove k (store k v m) = m"
  by (rule wf_ext) (auto simp: wf_store wf_remove find_store find_remove)

lemma store_same: "wf m \<Longrightarrow> find_in m k = Some v \<Longrightarrow> store k v m = m"
  by (rule wf_ext) (auto simp: wf_store find_store)

lemma remove_absent: "wf m \<Longrightarrow> find_in m k = None \<Longrightarrow> remove k m = m"
  by (rule wf_ext) (auto simp: wf_remove find_remove)

end

section \<open>The ordered map\<close>

type_synonym ('k, 'v) std_map = "('k \<times> 'v) list"

definition map_wf :: "('k::linorder, 'v) std_map \<Rightarrow> bool" where
  "map_wf m \<longleftrightarrow> sorted_wrt (<) (map fst m)"

fun map_find :: "('k::linorder, 'v) std_map \<Rightarrow> 'k \<Rightarrow> 'v option" where
  "map_find [] k = None"
| "map_find (e # m) k = (if fst e = k then Some (snd e) else map_find m k)"

fun map_store :: "'k::linorder \<Rightarrow> 'v \<Rightarrow> ('k, 'v) std_map \<Rightarrow> ('k, 'v) std_map" where
  "map_store k v [] = [(k, v)]"
| "map_store k v (e # m) =
     (if fst e < k then e # map_store k v m
      else if fst e = k then (k, v) # m
      else (k, v) # e # m)"

definition map_erase :: "'k::linorder \<Rightarrow> ('k, 'v) std_map \<Rightarrow> ('k, 'v) std_map" where
  "map_erase k m = filter (\<lambda>e. fst e \<noteq> k) m"

fun map_upper_bound :: "('k::linorder, 'v) std_map \<Rightarrow> 'k \<Rightarrow> ('k \<times> 'v) option" where
  "map_upper_bound [] k = None"
| "map_upper_bound (e # m) k = (if k < fst e then Some e else map_upper_bound m k)"

subsection \<open>Lookup, store and erase\<close>

lemma map_wf_Nil [simp, intro]: "map_wf []"
  by (simp add: map_wf_def)

lemma map_wf_Cons: "map_wf (e # m) \<longleftrightarrow> (\<forall>k \<in> fst ` set m. fst e < k) \<and> map_wf m"
  by (simp add: map_wf_def)

lemma map_find_None: "map_find m k = None \<longleftrightarrow> k \<notin> fst ` set m"
  by (induction m) auto

lemma map_find_in_set: "map_find m k = Some v \<Longrightarrow> (k, v) \<in> set m"
  by (induction m) (auto split: if_splits)

lemma map_find_set: "map_wf m \<Longrightarrow> (k, v) \<in> set m \<Longrightarrow> map_find m k = Some v"
  by (induction m) (force simp: map_wf_Cons)+

lemma map_find_store [simp]: "map_find (map_store k v m) = (map_find m)(k \<mapsto> v)"
  by (induction m) (auto simp: fun_eq_iff)

lemma map_find_erase [simp]: "map_find (map_erase k m) = (map_find m)(k := None)"
  by (induction m) (auto simp: map_erase_def fun_eq_iff)

lemma set_map_store: "set (map_store k v m) \<subseteq> insert (k, v) (set m)"
  by (induction m) auto

lemma keys_map_store: "fst ` set (map_store k v m) = insert k (fst ` set m)"
  by (induction m) auto

lemma map_wf_store [simp, intro]: "map_wf m \<Longrightarrow> map_wf (map_store k v m)"
  by (induction m) (force simp: map_wf_Cons keys_map_store)+

lemma map_wf_erase [simp, intro]: "map_wf m \<Longrightarrow> map_wf (map_erase k m)"
  by (induction m) (auto simp: map_wf_Cons map_erase_def)

lemma length_map_erase_less: "map_find m k = Some v \<Longrightarrow> length (map_erase k m) < length m"
  by (auto simp: map_erase_def dest: map_find_in_set intro!: length_filter_less)

lemma map_wf_ext_aux:
  "map_wf m \<Longrightarrow> map_wf n \<Longrightarrow> set m = set n \<Longrightarrow> m = n"
proof (induction m arbitrary: n)
  case Nil
  then show ?case by simp
next
  case (Cons e m)
  then obtain f n' where n: "n = f # n'" by (cases n) auto
  have "e = f"
  proof (rule ccontr)
    assume ne: "e \<noteq> f"
    with Cons.prems(3) n have "e \<in> set n'" and "f \<in> set m" by auto
    with Cons.prems(1,2) n have "fst f < fst e" and "fst e < fst f"
      by (auto simp: map_wf_Cons)
    then show False by simp
  qed
  moreover have "e \<notin> set m" and "f \<notin> set n'"
    using Cons.prems(1,2) n by (auto simp: map_wf_Cons)
  ultimately have "set m = set n'" using Cons.prems(3) n by auto
  with Cons n \<open>e = f\<close> show ?case by (simp add: map_wf_Cons)
qed

lemma map_wf_ext:
  assumes "map_wf m" and "map_wf n" and "map_find m = map_find n"
  shows "m = n"
proof (rule map_wf_ext_aux [OF assms(1,2)])
  have "(k, v) \<in> set m \<longleftrightarrow> (k, v) \<in> set n" for k v
    using assms by (metis map_find_in_set map_find_set)
  then show "set m = set n" by auto
qed

interpretation std_map: dictionary map_find map_store map_erase map_wf
  by unfold_locales (auto intro: map_wf_ext)

subsection \<open>The least key above a bound\<close>

lemma map_upper_bound_Some:
  "map_wf m \<Longrightarrow> map_upper_bound m k = Some (l, v) \<Longrightarrow>
     map_find m l = Some v \<and> k < l \<and> (\<forall>j \<in> fst ` set m. k < j \<longrightarrow> l \<le> j)"
  by (induction m) (force simp: map_wf_Cons split: if_splits)+

lemma map_upper_bound_None:
  "map_upper_bound m k = None \<longleftrightarrow> (\<forall>j \<in> fst ` set m. j \<le> k)"
  by (induction m) (auto simp: not_less)

lemma map_upper_bound_greater: "map_upper_bound m k = Some e \<Longrightarrow> k < fst e"
  by (induction m) (auto split: if_splits)

end
