(* ===== verification/Types_Enum.thy ===== *)
theory Types_Enum
  imports Prelude
begin

text \<open>
  \<open>netlib_typesenum.h\<close>: the message types and the 16-bit codes the compiler gives them, in
  the order of the declaration. The enumeration is ordered by these codes.
\<close>

datatype types_enum =
    EmptyMsg
  | PingMsgType
  | PongMsgType
  | FileBeginPullMsgType
  | FileRequestMsgType
  | FileBodyMsgType
  | FileBodyRespMsgType
  | FileEndMsgType
  | FileRequestEndMsgType
  | ConnectionRequestMsgType
  | ConnectionResponseMsgType
  | NewConnectionRequestMsgType
  | NewConnectionResponseMsgType
  | NewExtConnectionRequestMsgType
  | NewExtConnectionResponseMsgType
  | PathRequestPushMsgType
  | PathResponsePullMsgType
  | PathAddressPushMsgType

definition all_types :: "types_enum list" where
  "all_types =
     [EmptyMsg, PingMsgType, PongMsgType,
      FileBeginPullMsgType, FileRequestMsgType, FileBodyMsgType, FileBodyRespMsgType,
      FileEndMsgType, FileRequestEndMsgType,
      ConnectionRequestMsgType, ConnectionResponseMsgType,
      NewConnectionRequestMsgType, NewConnectionResponseMsgType,
      NewExtConnectionRequestMsgType, NewExtConnectionResponseMsgType,
      PathRequestPushMsgType, PathResponsePullMsgType, PathAddressPushMsgType]"

fun index_in :: "'a \<Rightarrow> 'a list \<Rightarrow> nat" where
  "index_in x [] = 0"
| "index_in x (y # ys) = (if x = y then 0 else Suc (index_in x ys))"

definition type_index :: "types_enum \<Rightarrow> nat" where
  "type_index t = index_in t all_types"

definition code_of_type :: "types_enum \<Rightarrow> u16" where
  "code_of_type t = word_of_nat (type_index t)"

text \<open>Reading a 16-bit header field as an enumerator: only 18 of the codes name one.\<close>

definition type_of_code :: "u16 \<Rightarrow> types_enum option" where
  "type_of_code c =
     (if unat c < length all_types then Some (all_types ! unat c) else None)"

lemma length_all_types [simp]: "length all_types = 18"
  by (simp add: all_types_def)

lemma index_in_nth: "distinct xs \<Longrightarrow> n < length xs \<Longrightarrow> index_in (xs ! n) xs = n"
  by (induction xs arbitrary: n) (auto simp: nth_Cons split: nat.splits)

lemma nth_index_in: "x \<in> set xs \<Longrightarrow> index_in x xs < length xs \<and> xs ! index_in x xs = x"
  by (induction xs) auto

lemma in_all_types [simp]: "t \<in> set all_types"
  by (cases t) (simp_all add: all_types_def)

lemma distinct_all_types [simp]: "distinct all_types"
  by (simp add: all_types_def)

lemma type_index_less: "type_index t < 18"
  using nth_index_in [OF in_all_types [of t]] by (simp add: type_index_def)

lemma nth_type_index [simp]: "all_types ! type_index t = t"
  using nth_index_in [OF in_all_types [of t]] by (simp add: type_index_def)

lemma unat_code_of_type [simp]: "unat (code_of_type t) = type_index t"
  using type_index_less [of t]
  by (simp add: code_of_type_def word_of_nat_unat_less)

lemma type_of_code_of_type [simp, codec_simps]: "type_of_code (code_of_type t) = Some t"
  using type_index_less [of t] by (simp add: type_of_code_def)

lemma code_of_type_of_code: "type_of_code c = Some t \<Longrightarrow> code_of_type t = c"
  by (auto simp: type_of_code_def code_of_type_def type_index_def index_in_nth
      split: if_splits)

lemma type_index_inject [simp]: "type_index s = type_index t \<longleftrightarrow> s = t"
  by (metis nth_type_index)

instantiation types_enum :: linorder
begin

definition less_eq_types_enum :: "types_enum \<Rightarrow> types_enum \<Rightarrow> bool" where
  "less_eq_types_enum s t \<longleftrightarrow> type_index s \<le> type_index t"

definition less_types_enum :: "types_enum \<Rightarrow> types_enum \<Rightarrow> bool" where
  "less_types_enum s t \<longleftrightarrow> type_index s < type_index t"

instance
  by standard (auto simp: less_eq_types_enum_def less_types_enum_def)

end

text \<open>A code is accepted exactly when it is at most 17, the bound the session checks.\<close>

lemma type_of_code_valid: "(\<exists>t. type_of_code c = Some t) \<longleftrightarrow> unat c \<le> 17"
  by (auto simp: type_of_code_def)

end
