(* ===== verification/Byte_Order.thy ===== *)
theory Byte_Order
  imports Prelude
begin

text \<open>
  Integers as sequences of bytes. The targets of the build are little-endian, so the memory
  image of an integer lists its bytes from the lowest; SHA-1 reads its words from the
  highest, the same sequence reversed.
\<close>

definition le_bytes :: "'a::len word \<Rightarrow> u8 list" where
  "le_bytes w = map (\<lambda>i. ucast (drop_bit (8 * i) w)) [0..<LENGTH('a) div 8]"

fun le_word :: "u8 list \<Rightarrow> 'a::len word" where
  "le_word [] = 0"
| "le_word (b # bs) = or (ucast b) (push_bit 8 (le_word bs))"

lemma length_le_bytes [simp]: "length (le_bytes (w :: 'a::len word)) = LENGTH('a) div 8"
  by (simp add: le_bytes_def)

lemma bit_le_word:
  "bit (le_word bs :: 'a::len word) n \<longleftrightarrow>
     n < LENGTH('a) \<and> n div 8 < length bs \<and> bit (bs ! (n div 8)) (n mod 8)"
proof (induction bs arbitrary: n)
  case Nil
  then show ?case by simp
next
  case (Cons b bs)
  show ?case
  proof (cases "n < 8")
    case True
    then show ?thesis by (auto simp: bit_simps)
  next
    case False
    define m where "m = n - 8"
    with False have n: "n = m + 8" by simp
    have nb: "\<not> bit b n" using False bit_imp_le_length [of b n] by auto
    have dm: "n div 8 = Suc (m div 8)" "n mod 8 = m mod 8" by (simp_all add: n)
    have "bit (le_word (b # bs) :: 'a word) n \<longleftrightarrow>
        n < LENGTH('a) \<and> bit (le_word bs :: 'a word) m"
      using nb False by (auto simp: bit_simps m_def)
    moreover have "n < LENGTH('a) \<Longrightarrow> m < LENGTH('a)" by (simp add: n)
    ultimately show ?thesis using Cons.IH [of m] by (auto simp: dm)
  qed
qed

lemma le_word_le_bytes:
  assumes "8 dvd LENGTH('a)"
  shows "le_word (le_bytes w) = (w :: 'a::len word)"
proof (rule bit_word_eqI)
  fix n assume n: "n < LENGTH('a)"
  then have q: "n div 8 < LENGTH('a) div 8"
    using assms by (auto elim: dvdE)
  have "8 * (n div 8) + n mod 8 = n" by simp
  with n q show "bit (le_word (le_bytes w) :: 'a word) n = bit w n"
    by (simp add: bit_le_word) (simp add: le_bytes_def bit_simps)
qed

lemma le_bytes_le_word:
  assumes "length bs = LENGTH('a) div 8"
  shows "le_bytes (le_word bs :: 'a::len word) = bs"
proof (rule nth_equalityI)
  show "length (le_bytes (le_word bs :: 'a word)) = length bs" using assms by simp
next
  fix i assume "i < length (le_bytes (le_word bs :: 'a word))"
  then have i: "i < LENGTH('a) div 8" by simp
  show "le_bytes (le_word bs :: 'a word) ! i = bs ! i"
  proof (rule bit_word_eqI)
    fix n assume "n < LENGTH(8)"
    then have n: "n < 8" by simp
    with i have "8 * i + n < LENGTH('a)" by linarith
    with i n assms show "bit (le_bytes (le_word bs :: 'a word) ! i) n = bit (bs ! i) n"
      by (simp add: le_bytes_def bit_simps bit_le_word)
  qed
qed

end
