(* ===== verification/Message_Codec.thy ===== *)
theory Message_Codec
  imports Types_Enum Byte_Order
begin

text \<open>
  \<open>netlib_message.h\<close>: a message is a header (type and size) and a body of bytes. The shift
  operators append the memory image of a value to the body and take it off the end again,
  so a message is a stack: what was written last is read first. The targets are
  little-endian, which fixes the memory image of an integer. A read from a body that is
  too short copies from before the buffer and then throws inside a function that returns
  nothing on that path: undefined behaviour, here the fault \<open>BodyUnderflow\<close>.
\<close>

section \<open>Values with a fixed memory image\<close>

text \<open>
  The template parameter \<open>D\<close> of the shift operators is a type whose values \<open>memcpy\<close> copies:
  its size, its image and how an image is read back.
\<close>

record 'd pod =
  pod_size :: nat
  pod_image :: "'d \<Rightarrow> u8 list"
  pod_read :: "u8 list \<Rightarrow> 'd"

definition word_pod :: "'a::len word pod" where
  "word_pod = \<lparr>pod_size = LENGTH('a) div 8, pod_image = le_bytes, pod_read = le_word\<rparr>"

definition bool_pod :: "bool pod" where
  "bool_pod = \<lparr>pod_size = 1, pod_image = (\<lambda>b. [of_bool b]), pod_read = (\<lambda>bs. bs \<noteq> [0])\<rparr>"

definition char_pod :: "char pod" where
  "char_pod = \<lparr>pod_size = 1, pod_image = (\<lambda>c. [byte_of_char c]),
     pod_read = (\<lambda>bs. case bs of [] \<Rightarrow> CHR 0x00 | b # _ \<Rightarrow> char_of_byte b)\<rparr>"

section \<open>Messages\<close>

record 't message_header =
  hdr_id :: 't
  hdr_size :: u32

record 't message =
  m_header :: "'t message_header"
  m_body :: "u8 list"

definition new_message :: "'t \<Rightarrow> 't message" where
  "new_message t = \<lparr>m_header = \<lparr>hdr_id = t, hdr_size = 0\<rparr>, m_body = []\<rparr>"

definition getId :: "'t message \<Rightarrow> 't" where
  "getId msg = hdr_id (m_header msg)"

definition getSize :: "'t message \<Rightarrow> u32" where
  "getSize msg = hdr_size (m_header msg)"

definition clear_message :: "'t message \<Rightarrow> 't message" where
  "clear_message msg = msg\<lparr>m_header := (m_header msg)\<lparr>hdr_size := 0\<rparr>, m_body := []\<rparr>"

definition empty_message :: "'t message \<Rightarrow> bool" where
  "empty_message msg \<longleftrightarrow> hdr_size (m_header msg) = 0"

text \<open>Every write and read ends by storing the new length of the body in the header.\<close>

definition set_body :: "u8 list \<Rightarrow> 't message \<Rightarrow> 't message" where
  "set_body bs msg =
     msg\<lparr>m_header := (m_header msg)\<lparr>hdr_size := word_of_nat (length bs)\<rparr>, m_body := bs\<rparr>"

definition put :: "'d pod \<Rightarrow> 'd \<Rightarrow> 't message \<Rightarrow> 't message" where
  "put p x msg = set_body (m_body msg @ pod_image p x) msg"

definition get :: "'d pod \<Rightarrow> 't message \<Rightarrow> ('d \<times> 't message) result" where
  "get p msg =
     (if length (m_body msg) < pod_size p then Inl BodyUnderflow
      else let newSz = length (m_body msg) - pod_size p
           in Inr (pod_read p (drop newSz (m_body msg)), set_body (take newSz (m_body msg)) msg))"

definition put_vector :: "'d pod \<Rightarrow> 'd list \<Rightarrow> 't message \<Rightarrow> 't message" where
  "put_vector p xs msg =
     put word_pod (word_of_nat (length xs) :: u32) (fold (put p) xs msg)"

text \<open>
  The read of a vector fills it from its last element to its first: the elements read so
  far are the accumulator.
\<close>

fun get_items :: "'d pod \<Rightarrow> nat \<Rightarrow> 'd list \<Rightarrow> 't message \<Rightarrow> ('d list \<times> 't message) result" where
  "get_items p 0 xs msg = Inr (xs, msg)"
| "get_items p (Suc k) xs msg =
     bindR (get p msg) (\<lambda>(x, msg'). get_items p k (x # xs) msg')"

definition get_vector :: "'d pod \<Rightarrow> 't message \<Rightarrow> ('d list \<times> 't message) result" where
  "get_vector p msg =
     bindR (get word_pod msg) (\<lambda>(sz :: u32, msg'). get_items p (unat sz) [] msg')"

definition put_string :: "string \<Rightarrow> 't message \<Rightarrow> 't message" where
  "put_string s msg = put_vector char_pod s msg"

definition get_string :: "'t message \<Rightarrow> (string \<times> 't message) result" where
  "get_string msg = bindR (get_vector char_pod msg) (\<lambda>(vec, msg'). Inr (vec, msg'))"

definition put_bool :: "bool \<Rightarrow> 't message \<Rightarrow> 't message" where
  "put_bool = put bool_pod"

definition get_bool :: "'t message \<Rightarrow> (bool \<times> 't message) result" where
  "get_bool = get bool_pod"

definition put_word :: "'a::len word \<Rightarrow> 't message \<Rightarrow> 't message" where
  "put_word = put word_pod"

definition get_word :: "'t message \<Rightarrow> ('a::len word \<times> 't message) result" where
  "get_word = get word_pod"

section \<open>The contract of a memory image\<close>

text \<open>
  Every type the node sends has images of one size that read back to the value written.
  Integers and characters have no other images (\<open>canonical_pod\<close>); a \<open>bool\<close> has: any byte
  but 0 reads as true.
\<close>

definition msg_wf :: "'t message \<Rightarrow> bool" where
  "msg_wf msg \<longleftrightarrow> hdr_size (m_header msg) = word_of_nat (length (m_body msg))"

lemma msg_wf_new [simp, codec_simps]: "msg_wf (new_message t)"
  by (simp add: msg_wf_def new_message_def)

lemma msg_wf_set_body [simp, codec_simps]: "msg_wf (set_body bs msg)"
  by (simp add: msg_wf_def set_body_def)

lemma msg_wf_clear [simp, codec_simps]: "msg_wf (clear_message msg)"
  by (simp add: msg_wf_def clear_message_def)

lemma msg_wf_put [simp, codec_simps]: "msg_wf (put p x msg)"
  by (simp add: put_def)

lemma m_body_set_body [simp, codec_simps]: "m_body (set_body bs msg) = bs"
  by (simp add: set_body_def)

lemma hdr_id_set_body [simp, codec_simps]: "hdr_id (m_header (set_body bs msg)) = hdr_id (m_header msg)"
  by (simp add: set_body_def)

lemma set_body_twice [simp, codec_simps]: "set_body bs (set_body cs msg) = set_body bs msg"
  by (simp add: set_body_def)

lemma set_body_same: "msg_wf msg \<Longrightarrow> set_body (m_body msg) msg = msg"
  by (simp add: msg_wf_def set_body_def)

lemma m_body_put: "m_body (put p x msg) = m_body msg @ pod_image p x"
  by (simp add: put_def)

lemma hdr_id_put [simp, codec_simps]: "hdr_id (m_header (put p x msg)) = hdr_id (m_header msg)"
  by (simp add: put_def)

lemma get_underflow: "get p msg = Inl e \<longleftrightarrow> e = BodyUnderflow \<and> length (m_body msg) < pod_size p"
  by (auto simp: get_def Let_def)

lemma get_Inr_body:
  "get p msg = Inr (x, msg') \<Longrightarrow>
     msg_wf msg' \<and> hdr_id (m_header msg') = hdr_id (m_header msg) \<and>
     length (m_body msg) = length (m_body msg') + pod_size p \<and>
     m_body msg' = take (length (m_body msg')) (m_body msg)"
  by (auto simp: get_def Let_def split: if_splits)

locale pod_codec =
  fixes p :: "'d pod"
  assumes length_image: "length (pod_image p x) = pod_size p"
    and read_image: "pod_read p (pod_image p x) = x"
begin

lemma get_put: "msg_wf msg \<Longrightarrow> get p (put p x msg) = Inr (x, msg)"
  by (simp add: get_def put_def length_image read_image set_body_same)

lemma msg_wf_fold_put: "msg_wf msg \<Longrightarrow> msg_wf (fold (put p) xs msg)"
  by (induction xs arbitrary: msg) simp_all

lemma get_items_fold_put:
  "msg_wf msg \<Longrightarrow> get_items p (length xs) ys (fold (put p) xs msg) = Inr (xs @ ys, msg)"
  by (induction xs arbitrary: ys rule: rev_induct) (simp_all add: get_put msg_wf_fold_put)

lemma length_body_fold_put:
  "length (m_body (fold (put p) xs msg)) = length (m_body msg) + length xs * pod_size p"
  by (induction xs arbitrary: msg) (simp_all add: m_body_put length_image)

lemma body_fold_put:
  "m_body (fold (put p) xs msg) = m_body msg @ concat (map (pod_image p) xs)"
  by (induction xs arbitrary: msg) (simp_all add: m_body_put)

end

locale canonical_pod = pod_codec +
  assumes image_read: "length bs = pod_size p \<Longrightarrow> pod_image p (pod_read p bs) = bs"
begin

lemma put_get: "msg_wf msg \<Longrightarrow> get p msg = Inr (x, msg') \<Longrightarrow> put p x msg' = msg"
  by (auto simp: get_def put_def Let_def image_read set_body_same split: if_splits)

end

lemma canonical_word_pod: "8 dvd LENGTH('a) \<Longrightarrow> canonical_pod (word_pod :: 'a::len word pod)"
  by unfold_locales (auto simp: word_pod_def le_word_le_bytes le_bytes_le_word)

interpretation u8_pod: canonical_pod "word_pod :: u8 pod"
  by (rule canonical_word_pod) simp

interpretation u16_pod: canonical_pod "word_pod :: u16 pod"
  by (rule canonical_word_pod) simp

interpretation u32_pod: canonical_pod "word_pod :: u32 pod"
  by (rule canonical_word_pod) simp

interpretation u64_pod: canonical_pod "word_pod :: u64 pod"
  by (rule canonical_word_pod) simp

interpretation bool_pod: pod_codec bool_pod
  by unfold_locales (simp_all add: bool_pod_def)

interpretation char_pod: canonical_pod char_pod
  by unfold_locales (auto simp: char_pod_def split: list.splits)

section \<open>Round trips\<close>

lemma get_vector_put_vector:
  assumes "pod_codec p" and "msg_wf msg" and "length xs < 2 ^ 32"
  shows "get_vector p (put_vector p xs msg) = Inr (xs, msg)"
proof -
  have wf: "msg_wf (fold (put p) xs msg)"
    using assms(1,2) by (rule pod_codec.msg_wf_fold_put)
  have sz: "unat (word_of_nat (length xs) :: u32) = length xs"
    using assms(3) by (simp add: word_of_nat_unat_less)
  show ?thesis
    by (simp add: get_vector_def put_vector_def u32_pod.get_put wf sz
        pod_codec.get_items_fold_put [OF assms(1,2)])
qed

text \<open>
  Sizes along a sequence of writes: what the receiver has to be able to take off again.
\<close>

lemma m_body_put_vector:
  "m_body (put_vector p xs msg) =
     m_body (fold (put p) xs msg) @ le_bytes (word_of_nat (length xs) :: u32)"
  by (simp add: put_vector_def m_body_put word_pod_def)

lemma length_m_body_put_string:
  "length (m_body (put_string s msg)) = length (m_body msg) + length s + 4"
  by (simp add: put_string_def m_body_put_vector char_pod.length_body_fold_put)
    (simp add: char_pod_def)

lemma msg_wf_put_string [simp, codec_simps]: "msg_wf (put_string s msg)"
  by (simp add: put_string_def put_vector_def)

lemma msg_wf_put_word [simp, codec_simps]: "msg_wf (put_word w msg)"
  by (simp add: put_word_def)

lemma msg_wf_put_bool [simp, codec_simps]: "msg_wf (put_bool b msg)"
  by (simp add: put_bool_def)

lemma get_string_put_string [codec_simps]:
  "msg_wf msg \<Longrightarrow> length s < 2 ^ 32 \<Longrightarrow> get_string (put_string s msg) = Inr (s, msg)"
  by (simp add: get_string_def put_string_def get_vector_put_vector
      [OF char_pod.pod_codec_axioms])

lemma get_word_put_word_u8 [simp, codec_simps]:
  "msg_wf msg \<Longrightarrow> get_word (put_word (w :: u8) msg) = Inr (w, msg)"
  by (simp add: get_word_def put_word_def u8_pod.get_put)

lemma get_word_put_word_u16 [simp, codec_simps]:
  "msg_wf msg \<Longrightarrow> get_word (put_word (w :: u16) msg) = Inr (w, msg)"
  by (simp add: get_word_def put_word_def u16_pod.get_put)

lemma get_word_put_word_u64 [simp, codec_simps]:
  "msg_wf msg \<Longrightarrow> get_word (put_word (w :: u64) msg) = Inr (w, msg)"
  by (simp add: get_word_def put_word_def u64_pod.get_put)

lemma get_bool_put_bool [simp, codec_simps]:
  "msg_wf msg \<Longrightarrow> get_bool (put_bool b msg) = Inr (b, msg)"
  by (simp add: get_bool_def put_bool_def bool_pod.get_put)

lemma length_m_body_put_word:
  "length (m_body (put_word (w :: 'a::len word) msg)) = length (m_body msg) + LENGTH('a) div 8"
  by (simp add: put_word_def m_body_put word_pod_def)

lemma length_m_body_put_bool:
  "length (m_body (put_bool b msg)) = Suc (length (m_body msg))"
  by (simp add: put_bool_def m_body_put bool_pod_def)

lemma hdr_id_put_string [simp, codec_simps]:
  "hdr_id (m_header (put_string s msg)) = hdr_id (m_header msg)"
proof -
  have "hdr_id (m_header (fold (put char_pod) s msg)) = hdr_id (m_header msg)"
    by (induction s arbitrary: msg) simp_all
  then show ?thesis by (simp add: put_string_def put_vector_def)
qed

lemma hdr_id_put_word [simp, codec_simps]:
  "hdr_id (m_header (put_word w msg)) = hdr_id (m_header msg)"
  by (simp add: put_word_def)

lemma hdr_id_put_bool [simp, codec_simps]:
  "hdr_id (m_header (put_bool b msg)) = hdr_id (m_header msg)"
  by (simp add: put_bool_def)

lemma byte_put_back: "msg_wf msg \<Longrightarrow> get_word msg = Inr (w :: u8, msg') \<Longrightarrow> put_word w msg' = msg"
  unfolding get_word_def put_word_def by (rule u8_pod.put_get)

lemma get_items_wf: "get_items p k xs msg = Inr (ys, msg') \<Longrightarrow> msg_wf msg \<Longrightarrow> msg_wf msg'"
proof (induction k arbitrary: xs msg)
  case (Suc k)
  then obtain x m where "get p msg = Inr (x, m)" "get_items p k (x # xs) m = Inr (ys, msg')"
    by (auto simp: bindR_eq_Inr)
  with Suc.IH [of "x # xs" m] get_Inr_body [of p msg x m] show ?case by simp
qed simp

lemma get_string_wf: "get_string msg = Inr (s, msg') \<Longrightarrow> msg_wf msg'"
proof -
  assume "get_string msg = Inr (s, msg')"
  then obtain k :: u32 and m where "get word_pod msg = Inr (k, m)" "get_items char_pod (unat k) [] m = Inr (s, msg')"
    by (auto simp: get_string_def get_vector_def bindR_eq_Inr)
  with get_Inr_body show ?thesis by (metis get_items_wf)
qed

lemma get_word_wf: "get_word msg = Inr (w, msg') \<Longrightarrow> msg_wf msg'"
  using get_Inr_body [of word_pod msg w msg'] by (simp add: get_word_def)

section \<open>Faults of a short body\<close>

lemma get_Inr_iff:
  "(\<exists>y. get p msg = Inr y) \<longleftrightarrow> pod_size p \<le> length (m_body msg)"
  by (auto simp: get_def Let_def)



text \<open>
  A read of \<open>k\<close> characters takes the last \<open>k\<close> bytes of the body in one piece, or faults.
\<close>

lemma get_items_char:
  "msg_wf msg \<Longrightarrow>
   get_items char_pod k xs msg =
     (let n = length (m_body msg) in
      if n < k then Inl BodyUnderflow
      else Inr (map char_of_byte (drop (n - k) (m_body msg)) @ xs,
                set_body (take (n - k) (m_body msg)) msg))"
proof (induction k arbitrary: xs msg)
  case 0
  then show ?case by (simp add: set_body_same)
next
  case (Suc k)
  let ?n = "length (m_body msg)"
  show ?case
  proof (cases "?n = 0")
    case True
    then show ?thesis by (simp add: get_def char_pod_def)
  next
    case False
    then obtain bs b where bs: "m_body msg = bs @ [b]" by (cases "m_body msg" rule: rev_cases) auto
    then have "get char_pod msg = Inr (char_of_byte b, set_body bs msg)"
      by (simp add: get_def char_pod_def)
    then show ?thesis
      using bs by (simp add: Suc.IH Let_def Suc_diff_le not_less)
  qed
qed

lemma get_items_put_back:
  "msg_wf msg \<Longrightarrow> get_items char_pod k xs msg = Inr (ys, msg') \<Longrightarrow>
     \<exists>s. ys = s @ xs \<and> length s = k \<and> fold (put char_pod) s msg' = msg"
proof (induction k arbitrary: xs msg)
  case 0
  then show ?case by simp
next
  case (Suc k)
  obtain x m where x: "get char_pod msg = Inr (x, m)"
    and m: "get_items char_pod k (x # xs) m = Inr (ys, msg')"
    using Suc.prems(2) by (auto simp: bindR_eq_Inr)
  have "msg_wf m" using get_Inr_body [OF x] by simp
  from Suc.IH [OF this m] obtain s where
    "ys = s @ x # xs" "length s = k" "fold (put char_pod) s msg' = m" by auto
  then show ?case
    using char_pod.put_get [OF Suc.prems(1) x] by (intro exI [of _ "s @ [x]"]) simp
qed

text \<open>
  Reading a string (or a vector of characters) from a received body either takes off
  exactly the bytes of the length field and of that many characters, or runs off the
  front of the body; it runs off exactly when the body has fewer than four bytes, or fewer
  bytes before the length field than the field announces. Every other body is accepted, and
  what is left of the message is well formed, whatever its header said before.
\<close>

theorem get_string_total:
  "get_string msg =
     (let n = length (m_body msg);
          k = unat (le_word (drop (n - 4) (m_body msg)) :: u32)
      in if n < 4 \<or> n - 4 < k then Inl BodyUnderflow
         else Inr (map char_of_byte (take k (drop (n - 4 - k) (m_body msg))),
                   set_body (take (n - 4 - k) (m_body msg)) msg))"
proof -
  let ?n = "length (m_body msg)"
  let ?sz = "le_word (drop (?n - 4) (m_body msg)) :: u32"
  let ?m = "set_body (take (?n - 4) (m_body msg)) msg"
  have word: "get word_pod msg = (if ?n < 4 then Inl BodyUnderflow else Inr (?sz, ?m))"
    by (simp add: get_def word_pod_def Let_def)
  have items: "get_items char_pod (unat ?sz) [] ?m =
      (if min ?n (?n - 4) < unat ?sz then Inl BodyUnderflow
       else Inr (map char_of_byte (drop (?n - 4 - unat ?sz) (take (?n - 4) (m_body msg))),
                 set_body (take (?n - 4 - unat ?sz) (m_body msg)) msg))"
    by (subst get_items_char) (simp_all add: Let_def min_def)
  show ?thesis
  proof (cases "?n < 4")
    case True
    then show ?thesis by (simp add: get_string_def get_vector_def word)
  next
    case False
    then have "get_string msg = bindR (get_items char_pod (unat ?sz) [] ?m) (\<lambda>(vec, msg'). Inr (vec, msg'))"
      by (simp add: get_string_def get_vector_def word)
    moreover have "\<not> ?n - 4 < k \<Longrightarrow>
        drop (?n - 4 - k) (take (?n - 4) (m_body msg)) = take k (drop (?n - 4 - k) (m_body msg))" for k
      using False by (simp add: drop_take del: diff_diff_left)
    ultimately show ?thesis using False by (simp add: items Let_def)
  qed
qed

text \<open>
  What one node writes with the shift operators another node reads back: a string of
  fewer than \<open>2 ^ 32\<close> characters pushed on a well-formed message is popped as the same
  string and leaves the message, header size included, exactly as it was before the write.
  The body grows by the string and its four-byte length field.
\<close>

theorem put_string_get_string:
  "msg_wf msg \<Longrightarrow> length s < 2 ^ 32 \<Longrightarrow>
     get_string (put_string s msg) = Inr (s, msg) \<and>
     length (m_body (put_string s msg)) = length (m_body msg) + length s + 4"
  by (simp add: get_string_put_string length_m_body_put_string)

lemma put_string_get_string_witness:
  "get_string (put_string ''0.1b'' (new_message ConnectionRequestMsgType)) =
     Inr (''0.1b'', new_message ConnectionRequestMsgType) \<and>
   length (m_body (put_string ''0.1b'' (new_message ConnectionRequestMsgType))) = 8"
  using put_string_get_string [of "new_message ConnectionRequestMsgType" "''0.1b''"]
  by (simp add: new_message_def msg_wf_def)

lemma string_put_back:
  "msg_wf msg \<Longrightarrow> get_string msg = Inr (s, msg') \<Longrightarrow> put_string s msg' = msg"
proof -
  assume wf: "msg_wf msg" and get: "get_string msg = Inr (s, msg')"
  obtain k :: u32 and m where k: "get word_pod msg = Inr (k, m)"
    and s: "get_items char_pod (unat k) [] m = Inr (s, msg')"
    using get by (auto simp: get_string_def get_vector_def bindR_eq_Inr)
  have m: "put word_pod k m = msg" and wf': "msg_wf m"
    using u32_pod.put_get [OF wf k] get_Inr_body [OF k] by simp_all
  have "fold (put char_pod) s msg' = m \<and> length s = unat k"
    using get_items_put_back [OF wf' s] by simp
  then show ?thesis by (simp add: put_string_def put_vector_def m)
qed

text \<open>
  The other direction, which is what lets a relaying node put back what it has taken
  off: whenever a string can be read from a well-formed message, writing it again restores
  the message bit for bit.
\<close>

theorem get_string_put_back:
  "msg_wf msg \<Longrightarrow> get_string msg = Inr (s, msg') \<Longrightarrow> put_string s msg' = msg"
  by (rule string_put_back)

lemma get_string_put_back_witness:
  "put_string ''ab'' (new_message EmptyMsg) = set_body [97, 98, 2, 0, 0, 0] (new_message EmptyMsg)"
  by (rule get_string_put_back) (code_simp+)
end
