(* ===== verification/Safe_Queue.thy ===== *)
theory Safe_Queue
  imports Prelude
begin

text \<open>
  \<open>netlib_safequeue.h\<close>: a deque behind a mutex. Each operation holds the lock for its whole
  body, so it is one atomic step; \<open>front\<close>, \<open>back\<close> and the two pops of an empty deque are
  undefined (\<open>EmptyDeque\<close>). The locale states the contract of the end the node appends to
  and the end it takes from; a consumer that tests \<open>empty\<close> before each pop is safe against
  any number of producers.
\<close>

section \<open>The queue\<close>

record 'a safe_queue =
  deque :: "'a list"

definition new_queue :: "'a safe_queue" where
  "new_queue = \<lparr>deque = []\<rparr>"

definition queue_front :: "'a safe_queue \<Rightarrow> 'a result" where
  "queue_front q = (case deque q of [] \<Rightarrow> Inl EmptyDeque | x # _ \<Rightarrow> Inr x)"

definition queue_back :: "'a safe_queue \<Rightarrow> 'a result" where
  "queue_back q = (case rev (deque q) of [] \<Rightarrow> Inl EmptyDeque | x # _ \<Rightarrow> Inr x)"

definition push_back :: "'a \<Rightarrow> 'a safe_queue \<Rightarrow> 'a safe_queue" where
  "push_back x q = q\<lparr>deque := deque q @ [x]\<rparr>"

definition push_front :: "'a \<Rightarrow> 'a safe_queue \<Rightarrow> 'a safe_queue" where
  "push_front x q = q\<lparr>deque := x # deque q\<rparr>"

definition queue_empty :: "'a safe_queue \<Rightarrow> bool" where
  "queue_empty q \<longleftrightarrow> deque q = []"

definition queue_size :: "'a safe_queue \<Rightarrow> nat" where
  "queue_size q = length (deque q)"

definition queue_clear :: "'a safe_queue \<Rightarrow> 'a safe_queue" where
  "queue_clear q = q\<lparr>deque := []\<rparr>"

definition pop_front :: "'a safe_queue \<Rightarrow> ('a \<times> 'a safe_queue) result" where
  "pop_front q =
     (case deque q of [] \<Rightarrow> Inl EmptyDeque | x # xs \<Rightarrow> Inr (x, q\<lparr>deque := xs\<rparr>))"

definition pop_back :: "'a safe_queue \<Rightarrow> ('a \<times> 'a safe_queue) result" where
  "pop_back q =
     (case rev (deque q) of [] \<Rightarrow> Inl EmptyDeque
      | x # xs \<Rightarrow> Inr (x, q\<lparr>deque := rev xs\<rparr>))"

section \<open>The contract: first in, first out\<close>

locale fifo =
  fixes push :: "'a \<Rightarrow> 'q \<Rightarrow> 'q"
    and pop :: "'q \<Rightarrow> ('a \<times> 'q) result"
    and is_empty :: "'q \<Rightarrow> bool"
    and contents :: "'q \<Rightarrow> 'a list"
  assumes contents_push: "contents (push x q) = contents q @ [x]"
    and pop_Cons: "contents q = x # xs \<Longrightarrow> \<exists>q'. pop q = Inr (x, q') \<and> contents q' = xs"
    and is_empty_iff: "is_empty q \<longleftrightarrow> contents q = []"
begin

lemma contents_fold_push: "contents (fold push xs q) = contents q @ xs"
  by (induction xs arbitrary: q) (simp_all add: contents_push)

lemma pop_not_empty: "\<not> is_empty q \<Longrightarrow> \<exists>x q'. pop q = Inr (x, q') \<and> contents q = x # contents q'"
proof -
  assume "\<not> is_empty q"
  then obtain x xs where "contents q = x # xs" by (auto simp: is_empty_iff neq_Nil_conv)
  with pop_Cons [OF this] show ?thesis by auto
qed

lemma pop_after_push:
  "pop q = Inr (x, q') \<Longrightarrow> contents q \<noteq> [] \<Longrightarrow>
     \<exists>q''. pop (push y q) = Inr (x, q'') \<and> contents q'' = contents q' @ [y]"
proof -
  assume pop: "pop q = Inr (x, q')" and "contents q \<noteq> []"
  then obtain z zs where zs: "contents q = z # zs" by (auto simp: neq_Nil_conv)
  with pop pop_Cons [OF zs] have "z = x" and "contents q' = zs" by auto
  with pop_Cons [of "push y q" z "zs @ [y]"] zs show ?thesis by (simp add: contents_push)
qed

end

interpretation safe_queue: fifo push_back pop_front queue_empty "deque :: 'a safe_queue \<Rightarrow> 'a list"
  by unfold_locales (auto simp: push_back_def pop_front_def queue_empty_def)

text \<open>The same contract holds for the other direction, which nothing in the node uses.\<close>

interpretation safe_queue_rev: fifo push_front pop_back queue_empty
    "\<lambda>q :: 'a safe_queue. rev (deque q)"
  by unfold_locales (auto simp: push_front_def pop_back_def queue_empty_def)

lemma push_front_pop_front: "pop_front (push_front x q) = Inr (x, q)"
  by (simp add: pop_front_def push_front_def)

lemma front_is_popped: "pop_front q = Inr (x, q') \<Longrightarrow> queue_front q = Inr x"
  by (auto simp: queue_front_def pop_front_def split: list.splits)

section \<open>One consumer, many producers\<close>

text \<open>
  The network thread pushes while the update thread runs
  \<open>while (!empty()) { pop_front(); ... }\<close>. The consumer's two calls are separate critical
  sections, so a push can come between them. \<open>consumer\<close> is the state of that loop: about to
  test, or about to pop.
\<close>

datatype consumer = AtTest | AtPop | Finished

record 'a shared =
  sh_queue :: "'a safe_queue"
  sh_consumer :: consumer
  sh_taken :: "'a list"
  sh_pushed :: "'a list"
  sh_fault :: bool

inductive queue_step :: "'a shared \<Rightarrow> 'a shared \<Rightarrow> bool" where
  produce: "queue_step s
     (s\<lparr>sh_queue := push_back x (sh_queue s), sh_pushed := sh_pushed s @ [x]\<rparr>)"
| test: "sh_consumer s = AtTest \<Longrightarrow> queue_step s
     (s\<lparr>sh_consumer := (if queue_empty (sh_queue s) then Finished else AtPop)\<rparr>)"
| take_ok: "sh_consumer s = AtPop \<Longrightarrow> pop_front (sh_queue s) = Inr (x, q) \<Longrightarrow> queue_step s
     (s\<lparr>sh_queue := q, sh_consumer := AtTest, sh_taken := sh_taken s @ [x]\<rparr>)"
| take_fault: "sh_consumer s = AtPop \<Longrightarrow> pop_front (sh_queue s) = Inl e \<Longrightarrow> queue_step s
     (s\<lparr>sh_consumer := Finished, sh_fault := True\<rparr>)"

definition start_shared :: "'a safe_queue \<Rightarrow> 'a shared" where
  "start_shared q = \<lparr>sh_queue = q, sh_consumer = AtTest, sh_taken = [], sh_pushed = [],
     sh_fault = False\<rparr>"

inductive queue_reachable :: "'a safe_queue \<Rightarrow> 'a shared \<Rightarrow> bool" for q where
  start: "queue_reachable q (start_shared q)"
| step: "queue_reachable q s \<Longrightarrow> queue_step s t \<Longrightarrow> queue_reachable q t"

definition shared_inv :: "'a safe_queue \<Rightarrow> 'a shared \<Rightarrow> bool" where
  "shared_inv q s \<longleftrightarrow>
     sh_taken s @ deque (sh_queue s) = deque q @ sh_pushed s \<and>
     (sh_consumer s = AtPop \<longrightarrow> deque (sh_queue s) \<noteq> []) \<and> \<not> sh_fault s"

lemma shared_inv_step: "queue_step s t \<Longrightarrow> shared_inv q s \<Longrightarrow> shared_inv q t"
  by (induction rule: queue_step.induct)
    (auto simp: shared_inv_def push_back_def queue_empty_def pop_front_def split: list.splits)

lemma shared_inv_start: "shared_inv q (start_shared q)"
  by (simp add: shared_inv_def start_shared_def)

lemma reachable_shared_inv: "queue_reachable q s \<Longrightarrow> shared_inv q s"
  by (induction rule: queue_reachable.induct) (blast intro: shared_inv_start shared_inv_step)+

text \<open>
  C17. The update thread's drain loop tests the queue and pops it in two separate critical
  sections while the network thread pushes. Whatever the interleaving, the pop never meets
  an empty deque (so the loop never runs into undefined behaviour), what the loop has taken
  so far followed by what is still queued is what was queued at the start followed by
  everything pushed since, in order, and while the loop is between its test and its pop
  there is an element to take.
\<close>

theorem drain_loop_safe:
  "queue_reachable q s \<Longrightarrow>
     \<not> sh_fault s \<and>
     sh_taken s @ deque (sh_queue s) = deque q @ sh_pushed s \<and>
     (sh_consumer s = AtPop \<longrightarrow> (\<exists>x q'. pop_front (sh_queue s) = Inr (x, q')))"
  using reachable_shared_inv [of q s] safe_queue.pop_not_empty [of "sh_queue s"]
  by (auto simp: shared_inv_def queue_empty_def)

definition drained :: "nat shared" where
  "drained = \<lparr>sh_queue = push_back 9 (new_queue\<lparr>deque := []\<rparr>), sh_consumer = AtTest, sh_taken = [7],
     sh_pushed = [9], sh_fault = False\<rparr>"

lemma drained_reachable: "queue_reachable \<lparr>deque = [7]\<rparr> drained"
proof -
  let ?q = "\<lparr>deque = [7::nat]\<rparr>"
  let ?s0 = "start_shared ?q"
  let ?s1 = "?s0\<lparr>sh_consumer := AtPop\<rparr>"
  let ?s2 = "?s1\<lparr>sh_queue := push_back 9 (sh_queue ?s1), sh_pushed := sh_pushed ?s1 @ [9]\<rparr>"
  have "queue_step ?s0 ?s1"
    using queue_step.test [of ?s0] by (simp add: start_shared_def queue_empty_def)
  moreover have "queue_step ?s1 ?s2" by (rule queue_step.produce)
  moreover have "queue_step ?s2 drained"
    using queue_step.take_ok [of ?s2 7 "\<lparr>deque = [9]\<rparr>"]
    by (simp add: start_shared_def drained_def pop_front_def push_back_def new_queue_def)
  ultimately show ?thesis by (meson queue_reachable.intros)
qed

lemma drain_loop_safe_witness:
  "\<not> sh_fault drained \<and> sh_taken drained @ deque (sh_queue drained) = [7, 9]"
  using drain_loop_safe [OF drained_reachable] by (simp add: drained_def)

end
