(* ===== verification/Std_Stream.thy ===== *)
theory Std_Stream
  imports Prelude
begin

text \<open>
  What the file system uses of the standard streams: decimal output of numbers
  (\<open>std::to_string\<close>, \<open>operator<<\<close>), formatted input of words and numbers (\<open>operator>>\<close>) with
  the fail bit, and the files themselves as a map from paths to contents. Text and binary
  mode are the same here: the line end is one character.
\<close>

section \<open>Decimal numbers\<close>

definition digit_char :: "nat \<Rightarrow> char" where
  "digit_char d = char_of (48 + d)"

fun to_string :: "nat \<Rightarrow> string" where
  "to_string n = (if n < 10 then [] else to_string (n div 10)) @ [digit_char (n mod 10)]"

declare to_string.simps [simp del]

definition is_digit :: "char \<Rightarrow> bool" where
  "is_digit c \<longleftrightarrow> 48 \<le> (of_char c :: nat) \<and> (of_char c :: nat) \<le> 57"

definition digits_value :: "string \<Rightarrow> nat" where
  "digits_value ds = foldl (\<lambda>v c. 10 * v + (of_char c - 48)) 0 ds"

lemma of_char_digit: "d < 10 \<Longrightarrow> of_char (digit_char d) = 48 + d"
  by (simp add: digit_char_def)

lemma is_digit_digit_char: "d < 10 \<Longrightarrow> is_digit (digit_char d)"
  by (simp add: is_digit_def of_char_digit)

lemma to_string_digits: "list_all is_digit (to_string n)"
  by (induction n rule: to_string.induct)
    (subst to_string.simps, simp add: is_digit_digit_char)

lemma to_string_not_Nil [simp]: "to_string n \<noteq> []"
  by (subst to_string.simps) simp

lemma digits_value_to_string [simp]: "digits_value (to_string n) = n"
proof (induction n rule: to_string.induct)
  case (1 n)
  then show ?case
    by (subst to_string.simps) (auto simp: digits_value_def of_char_digit)
qed

lemma to_string_inject [simp]: "to_string m = to_string n \<longleftrightarrow> m = n"
  by (metis digits_value_to_string)

section \<open>Formatted input\<close>

definition is_space :: "char \<Rightarrow> bool" where
  "is_space c \<longleftrightarrow> (of_char c :: nat) \<in> {9, 10, 11, 12, 13, 32}"

record istream =
  is_rest :: string
  is_fail :: bool

type_synonym files = "string \<rightharpoonup> string"

definition open_in :: "files \<Rightarrow> string \<Rightarrow> istream" where
  "open_in fs path =
     (case fs path of None \<Rightarrow> \<lparr>is_rest = [], is_fail = True\<rparr>
      | Some content \<Rightarrow> \<lparr>is_rest = content, is_fail = False\<rparr>)"

text \<open>
  Every formatted read first skips white space; at the end of the input it fails and leaves
  the variable as it was.
\<close>

definition skip_space :: "istream \<Rightarrow> istream" where
  "skip_space s =
     (if is_fail s then s
      else let t = dropWhile is_space (is_rest s) in \<lparr>is_rest = t, is_fail = (t = [])\<rparr>)"

definition read_string :: "istream \<Rightarrow> string \<Rightarrow> string \<times> istream" where
  "read_string s old =
     (let t = skip_space s
      in if is_fail t then (old, t)
         else (takeWhile (\<lambda>c. \<not> is_space c) (is_rest t),
               t\<lparr>is_rest := dropWhile (\<lambda>c. \<not> is_space c) (is_rest t)\<rparr>))"

text \<open>
  An unsigned number: an optional sign, then digits. No digit gives 0, a number of more than
  64 bits the largest value, both with the fail bit; a minus sign negates modulo \<open>2\<^sup>6\<^sup>4\<close>.
\<close>

definition read_u64 :: "istream \<Rightarrow> u64 \<Rightarrow> u64 \<times> istream" where
  "read_u64 s old =
     (let t = skip_space s
      in if is_fail t then (old, t)
         else let neg = (hd (is_rest t) = CHR ''-'');
                  signed = neg \<or> hd (is_rest t) = CHR ''+'';
                  u = (if signed then tl (is_rest t) else is_rest t);
                  ds = takeWhile is_digit u;
                  rest = dropWhile is_digit u
              in if ds = [] then (0, \<lparr>is_rest = rest, is_fail = True\<rparr>)
                 else if 2 ^ 64 \<le> digits_value ds then (- 1, \<lparr>is_rest = rest, is_fail = True\<rparr>)
                 else ((if neg then - word_of_nat (digits_value ds)
                        else word_of_nat (digits_value ds)),
                       \<lparr>is_rest = rest, is_fail = False\<rparr>))"

text \<open>A variable that was never assigned keeps no value when the read fails at once.\<close>

definition read_u64_fresh :: "istream \<Rightarrow> (u64 \<times> istream) result" where
  "read_u64_fresh s =
     (if is_fail (skip_space s) then Inl Uninitialised else Inr (read_u64 s 0))"

lemma span_append:
  assumes "list_all P xs" and "r = [] \<or> \<not> P (hd r)"
  shows "takeWhile P (xs @ r) = xs" and "dropWhile P (xs @ r) = r"
proof -
  have "takeWhile P (xs @ r) = xs \<and> dropWhile P (xs @ r) = r"
    using assms by (induction xs) (cases r; simp)+
  then show "takeWhile P (xs @ r) = xs" and "dropWhile P (xs @ r) = r" by simp_all
qed

subsection \<open>Reading back what was written\<close>

definition word_text :: "string \<Rightarrow> bool" where
  "word_text w \<longleftrightarrow> w \<noteq> [] \<and> list_all (\<lambda>c. \<not> is_space c) w"

lemma digit_not_space: "is_digit c \<Longrightarrow> \<not> is_space c"
  by (auto simp: is_digit_def is_space_def)

lemma word_text_to_string [simp]: "word_text (to_string n)"
  using to_string_digits [of n] by (auto simp: word_text_def list_all_iff digit_not_space)

lemma skip_space_word:
  "list_all is_space ws \<Longrightarrow> word_text w \<Longrightarrow>
     skip_space \<lparr>is_rest = ws @ w @ r, is_fail = False\<rparr> = \<lparr>is_rest = w @ r, is_fail = False\<rparr>"
  by (cases w) (simp_all add: skip_space_def word_text_def Let_def dropWhile_append_stop)

lemma read_string_word:
  assumes "list_all is_space ws" and "word_text w" and "r = [] \<or> is_space (hd r)"
  shows "read_string \<lparr>is_rest = ws @ w @ r, is_fail = False\<rparr> old =
    (w, \<lparr>is_rest = r, is_fail = False\<rparr>)"
proof -
  have "list_all (\<lambda>c. \<not> is_space c) w" using assms(2) by (simp add: word_text_def)
  from span_append [OF this, of r] assms(3)
  have "takeWhile (\<lambda>c. \<not> is_space c) (w @ r) = w \<and> dropWhile (\<lambda>c. \<not> is_space c) (w @ r) = r"
    by auto
  then show ?thesis by (simp add: read_string_def skip_space_word [OF assms(1,2)] Let_def)
qed

lemma hd_to_string: "is_digit (hd (to_string n))"
  using to_string_digits [of n] by (cases "to_string n") auto

lemma sign_not_digit: "is_digit c \<Longrightarrow> c \<noteq> CHR ''-'' \<and> c \<noteq> CHR ''+''"
  by (auto simp: is_digit_def)

lemma read_u64_number:
  assumes "list_all is_space ws" and "n < 2 ^ 64" and "r = [] \<or> is_space (hd r)"
  shows "read_u64 \<lparr>is_rest = ws @ to_string n @ r, is_fail = False\<rparr> old =
    (word_of_nat n, \<lparr>is_rest = r, is_fail = False\<rparr>)"
proof -
  have "r = [] \<or> \<not> is_digit (hd r)" using assms(3) by (auto dest: digit_not_space)
  note d = span_append [OF to_string_digits [of n] this]
  have "hd (to_string n @ r) \<noteq> CHR ''-''" "hd (to_string n @ r) \<noteq> CHR ''+''"
    using hd_to_string [of n] by (auto dest: sign_not_digit)
  with d assms(2) show ?thesis
    by (simp add: read_u64_def skip_space_word [OF assms(1)] Let_def)
qed

lemma read_u64_fresh_number:
  assumes "list_all is_space ws" and "n < 2 ^ 64" and "r = [] \<or> is_space (hd r)"
  shows "read_u64_fresh \<lparr>is_rest = ws @ to_string n @ r, is_fail = False\<rparr> =
    Inr (word_of_nat n, \<lparr>is_rest = r, is_fail = False\<rparr>)"
  by (simp add: read_u64_fresh_def skip_space_word [OF assms(1)] read_u64_number [OF assms])

end
