(* ===== verification/Net_Address.thy ===== *)
theory Net_Address
  imports Std_Stream Byte_Order
begin

text \<open>
  Addresses as the node uses them: \<open>asio::ip::address_v4\<close> with its conversions to bytes,
  integers and text, and \<open>asio::ip::udp::endpoint\<close> with its order. The text form is the one
  \<open>detail/impl/socket_ops.ipp\<close> spells out for targets without a system call for it: four
  decimal numbers with dots, read with \<open>sscanf\<close>; the system calls of the other targets are
  documented to agree with it on dotted addresses.
\<close>

section \<open>IPv4 addresses\<close>

text \<open>
  An address is kept as the integer in host order that \<open>to_uint\<close> and \<open>to_ulong\<close> return; the
  bytes are in network order, the highest first.
\<close>

type_synonym address_v4 = u32

definition v4_to_bytes :: "address_v4 \<Rightarrow> u8 list" where
  "v4_to_bytes a = rev (le_bytes a)"

definition v4_from_bytes :: "u8 list \<Rightarrow> address_v4" where
  "v4_from_bytes bs = le_word (rev bs)"

lemma v4_from_to_bytes [simp, codec_simps]: "v4_from_bytes (v4_to_bytes a) = a"
  by (simp add: v4_from_bytes_def v4_to_bytes_def le_word_le_bytes)

lemma v4_to_from_bytes [codec_simps]:
  "length bs = 4 \<Longrightarrow> v4_to_bytes (v4_from_bytes bs) = bs"
  by (simp add: v4_from_bytes_def v4_to_bytes_def le_bytes_le_word)

lemma length_v4_to_bytes [simp]: "length (v4_to_bytes a) = 4"
  by (simp add: v4_to_bytes_def)

text \<open>The loop \<open>res = (res << 8) + byte\<close> that assembles an integer from network order.\<close>

definition net_fold :: "u8 list \<Rightarrow> 'a::len word" where
  "net_fold bs = fold (\<lambda>b res. push_bit 8 res + ucast b) bs 0"

lemma shift_add_byte:
  "push_bit 8 (x :: 'a::len word) + ucast (b :: u8) = or (ucast b) (push_bit 8 x)"
proof -
  have "\<not> bit b n" if "8 \<le> n" for n
    using that bit_imp_le_length [of b n] by auto
  then have "push_bit 8 x + ucast b = or (push_bit 8 x) (ucast b)"
    by (intro disjunctive_add) (auto simp: bit_simps)
  then show ?thesis by (simp add: or.commute)
qed

lemma net_fold_le_word: "net_fold bs = le_word (rev bs)"
  by (induction bs rule: rev_induct) (simp_all add: net_fold_def shift_add_byte)

section \<open>Text form\<close>

definition inet_ntop_v4 :: "u8 list \<Rightarrow> string" where
  "inet_ntop_v4 bytes =
     to_string (unat (bytes ! 0)) @ ''.'' @ to_string (unat (bytes ! 1)) @ ''.'' @
     to_string (unat (bytes ! 2)) @ ''.'' @ to_string (unat (bytes ! 3))"

text \<open>\<open>%u\<close> of \<open>sscanf\<close>: white space, an optional sign, at least one digit.\<close>

definition scan_u :: "string \<Rightarrow> (u32 \<times> string) option" where
  "scan_u s =
     (let t = dropWhile is_space s;
          neg = (t \<noteq> [] \<and> hd t = CHR ''-'');
          signed = (neg \<or> t \<noteq> [] \<and> hd t = CHR ''+'');
          u = (if signed then tl t else t);
          ds = takeWhile is_digit u
      in if ds = [] then None
         else Some (if neg then - word_of_nat (digits_value ds) else word_of_nat (digits_value ds),
                    dropWhile is_digit u))"

fun scan_dot :: "string \<Rightarrow> string option" where
  "scan_dot [] = None"
| "scan_dot (c # s) = (if c = CHR ''.'' then Some s else None)"

definition bindO :: "'a option \<Rightarrow> ('a \<Rightarrow> 'b option) \<Rightarrow> 'b option" where
  "bindO x f = (case x of None \<Rightarrow> None | Some y \<Rightarrow> f y)"

lemma bindO_simps [simp]: "bindO None f = None" "bindO (Some x) f = f x"
  by (simp_all add: bindO_def)

definition inet_pton_v4 :: "string \<Rightarrow> u8 list option" where
  "inet_pton_v4 src =
     bindO (scan_u src) (\<lambda>(b0, s). bindO (scan_dot s) (\<lambda>s.
     bindO (scan_u s) (\<lambda>(b1, s). bindO (scan_dot s) (\<lambda>s.
     bindO (scan_u s) (\<lambda>(b2, s). bindO (scan_dot s) (\<lambda>s.
     bindO (scan_u s) (\<lambda>(b3, s).
       if b0 > 255 \<or> b1 > 255 \<or> b2 > 255 \<or> b3 > 255 then None
       else Some [ucast b0, ucast b1, ucast b2, ucast b3])))))))"

definition v4_to_string :: "address_v4 \<Rightarrow> string" where
  "v4_to_string a = inet_ntop_v4 (v4_to_bytes a)"

text \<open>\<open>None\<close> where \<open>make_address_v4\<close> (and \<open>from_string\<close>, which calls it) throws.\<close>

definition make_address_v4 :: "string \<Rightarrow> address_v4 option" where
  "make_address_v4 s = map_option v4_from_bytes (inet_pton_v4 s)"

lemma to_string_not_space: "dropWhile is_space (to_string n @ r) = to_string n @ r"
  using word_text_to_string [of n] by (cases "to_string n") (simp_all add: word_text_def)

lemma scan_u_to_string:
  assumes "r = [] \<or> \<not> is_digit (hd r)"
  shows "scan_u (to_string n @ r) = Some (word_of_nat n, r)"
proof -
  have "hd (to_string n @ r) \<noteq> CHR ''-''" "hd (to_string n @ r) \<noteq> CHR ''+''"
    using hd_to_string [of n] by (auto dest: sign_not_digit)
  then show ?thesis
    using span_append [OF to_string_digits [of n] assms]
    by (simp add: scan_u_def to_string_not_space Let_def)
qed

lemma unat_ucast_u8: "unat (ucast (b :: u8) :: u32) = unat b"
  by (rule word_of_nat_unat_less [where 'a = 32, of "unat b", simplified])
    (rule less_trans [OF unsigned_less [of b]], simp)

lemma u8_in_u32: "(ucast (b :: u8) :: u32) \<le> 255"
proof -
  have "unat b < 2 ^ LENGTH(8)" by (rule unsigned_less)
  then show ?thesis by (simp add: word_le_nat_alt unat_ucast_u8)
qed

lemma ucast_u8_u32_u8 [simp]: "(ucast (ucast (b :: u8) :: u32) :: u8) = b"
  by (rule bit_word_eqI) (simp add: bit_simps)

lemma inet_pton_ntop [codec_simps]:
  assumes "length bytes = 4"
  shows "inet_pton_v4 (inet_ntop_v4 bytes) = Some bytes"
proof -
  obtain a b c d where bytes: "bytes = [a, b, c, d]"
    using assms by (auto simp: length_Suc_conv numeral_eq_Suc)
  have w: "(word_of_nat (unat (x :: u8)) :: u32) = ucast x" for x
    by simp
  have dot: "\<not> is_digit CHR ''.''" by (simp add: is_digit_def)
  have le: "\<not> 255 < (ucast (x :: u8) :: u32)" for x
    using u8_in_u32 [of x] by simp
  show ?thesis
    using dot scan_u_to_string [of "[]"]
    by (simp add: bytes inet_pton_v4_def inet_ntop_v4_def scan_u_to_string le w)
qed

lemma make_address_v4_to_string [simp, codec_simps]:
  "make_address_v4 (v4_to_string a) = Some a"
  by (simp add: make_address_v4_def v4_to_string_def inet_pton_ntop)

text \<open>An address is short enough to be sent as a string.\<close>

lemma length_to_string: "length (to_string n) \<le> Suc n"
proof (induction n rule: to_string.induct)
  case (1 n)
  show ?case
  proof (cases "n < 10")
    case False
    then have "Suc (n div 10) \<le> n" by linarith
    with 1 [OF False] False show ?thesis by (subst to_string.simps) simp
  qed (subst to_string.simps, simp)
qed

lemma length_v4_to_string [simp]: "length (v4_to_string a) < 4294967296"
proof -
  have "length (to_string (unat (b :: u8))) \<le> 256" for b
  proof -
    have "unat b < 2 ^ LENGTH(8)" by (rule unsigned_less)
    then show ?thesis using length_to_string [of "unat b"] by simp
  qed
  from this [of "v4_to_bytes a ! 0"] this [of "v4_to_bytes a ! 1"] this [of "v4_to_bytes a ! 2"]
    this [of "v4_to_bytes a ! 3"]
  show ?thesis by (simp add: v4_to_string_def inet_ntop_v4_def)
qed

section \<open>Endpoints\<close>

datatype endpoint = Endpoint (ep_addr: address_v4) (ep_port: u16)

text \<open>The default endpoint: any address, port 0.\<close>

definition no_endpoint :: endpoint where
  "no_endpoint = Endpoint 0 0"

definition ep_less :: "endpoint \<Rightarrow> endpoint \<Rightarrow> bool" where
  "ep_less e1 e2 =
     (if ep_addr e1 < ep_addr e2 then True
      else if ep_addr e1 \<noteq> ep_addr e2 then False
      else ep_port e1 < ep_port e2)"

instantiation endpoint :: linorder
begin

definition less_endpoint :: "endpoint \<Rightarrow> endpoint \<Rightarrow> bool" where
  "less_endpoint = ep_less"

definition less_eq_endpoint :: "endpoint \<Rightarrow> endpoint \<Rightarrow> bool" where
  "less_eq_endpoint e1 e2 = (e1 = e2 \<or> e1 < e2)"

instance
  by intro_classes (auto simp: less_endpoint_def ep_less_def less_eq_endpoint_def endpoint.expand split: if_splits)

end

definition endpoint_to_string :: "endpoint \<Rightarrow> string" where
  "endpoint_to_string e = v4_to_string (ep_addr e) @ '':'' @ to_string (unat (ep_port e))"

end
