(* ===== verification/Nat_Killer.thy ===== *)
theory Nat_Killer
  imports Net_Address
begin

text \<open>
  \<open>netlib_natkiller.h\<close>: the session with the STUN server that tells the node its public
  endpoint. It sends a binding request, takes the mapped address out of the answer, waits
  five seconds and starts again until it is stopped. Every completion handler of the
  asynchronous calls is a function; \<open>st_pending\<close> lists the operations that are under way.
\<close>

section \<open>State\<close>

datatype stun_op =
    StunSend endpoint "u8 list"
  | StunReceive
  | StunTimer nat

record stun_session =
  st_ep :: endpoint
  st_tempEp :: endpoint
  st_realEp :: endpoint
  reqString :: "u8 list"
  ansString :: "u8 list"
  isRunning :: bool
  st_pending :: "stun_op list"

definition stun_request :: "u8 list" where
  "stun_request = [0, 1, 0, 0, 30, 180, 81, 146, 9, 82, 31, 207, 116, 119, 214, 159, 145, 171, 162, 112]"

text \<open>
  The constructor resolves the host and throws when it has no address; \<open>resolved\<close> is what
  the resolver returned.
\<close>

definition new_stun_session :: "endpoint option \<Rightarrow> stun_session result" where
  "new_stun_session resolved =
     (case resolved of None \<Rightarrow> Inl UncaughtException
      | Some ep \<Rightarrow> Inr \<lparr>st_ep = ep, st_tempEp = no_endpoint, st_realEp = no_endpoint,
          reqString = stun_request, ansString = replicate 32 0, isRunning = True,
          st_pending = []\<rparr>)"

section \<open>Reading the answer\<close>

definition getIpFromBytes :: "stun_session \<Rightarrow> string" where
  "getIpFromBytes st =
     fold (\<lambda>i res. res @ to_string (unat (ansString st ! i)) @ (if i \<noteq> 31 then ''.'' else []))
       [28..<32] []"

definition getPortFromBytes :: "stun_session \<Rightarrow> u32" where
  "getPortFromBytes st =
     fold (\<lambda>i res. push_bit 8 res + ucast (ansString st ! i)) [24..<28] 0"

text \<open>A datagram fills the buffer from the start; what it does not reach keeps its bytes.\<close>

definition fill :: "u8 list \<Rightarrow> u8 list \<Rightarrow> u8 list" where
  "fill buffer bytes = take (length buffer) bytes @ drop (length bytes) buffer"

text \<open>The part that \<open>getAnswer\<close> and \<open>start\<close> share: the endpoint takes the port modulo \<open>2 ^ 16\<close>.\<close>

definition take_answer :: "endpoint \<Rightarrow> u8 list \<Rightarrow> stun_session \<Rightarrow> stun_session result" where
  "take_answer from_ep bytes st =
     (let st = st\<lparr>ansString := fill (ansString st) bytes, st_tempEp := from_ep\<rparr>
      in if st_tempEp st = st_ep st
         then (case make_address_v4 (getIpFromBytes st) of
                 None \<Rightarrow> Inl UncaughtException
               | Some a \<Rightarrow> Inr (st\<lparr>st_realEp := Endpoint a (ucast (getPortFromBytes st))\<rparr>))
         else Inr st)"

section \<open>The cycle\<close>

definition stun_start_op :: "stun_op \<Rightarrow> stun_session \<Rightarrow> stun_session" where
  "stun_start_op op st = st\<lparr>st_pending := st_pending st @ [op]\<rparr>"

definition sendRequest :: "stun_session \<Rightarrow> stun_session" where
  "sendRequest st =
     (if \<not> isRunning st then st else stun_start_op (StunSend (st_ep st) (reqString st)) st)"

definition getAnswer :: "stun_session \<Rightarrow> stun_session" where
  "getAnswer st = stun_start_op StunReceive st"

text \<open>The handler of the send, of the receive and of the timer; \<open>er\<close> is the error code.\<close>

definition on_request_sent :: "bool \<Rightarrow> stun_session \<Rightarrow> stun_session" where
  "on_request_sent er st = (if \<not> er \<and> isRunning st then getAnswer st else st)"

definition on_answer :: "bool \<Rightarrow> endpoint \<Rightarrow> u8 list \<Rightarrow> stun_session \<Rightarrow> stun_session result" where
  "on_answer er from_ep bytes st =
     (if er then Inr (st\<lparr>ansString := fill (ansString st) bytes, st_tempEp := from_ep\<rparr>)
      else if \<not> isRunning st
      then Inr (st\<lparr>ansString := fill (ansString st) bytes, st_tempEp := from_ep\<rparr>)
      else bindR (take_answer from_ep bytes st) (\<lambda>st. Inr (stun_start_op (StunTimer 5000) st)))"

definition on_stun_timer :: "bool \<Rightarrow> stun_session \<Rightarrow> stun_session" where
  "on_stun_timer ec st = (if \<not> ec \<and> isRunning st then sendRequest st else st)"

definition getEndpoint :: "stun_session \<Rightarrow> endpoint" where
  "getEndpoint st = st_realEp st"

text \<open>
  \<open>start\<close> sends and receives synchronously, so it blocks until a datagram arrives; \<open>None\<close>
  stands for an error of one of the two calls, which throws.
\<close>

definition stun_start :: "(endpoint \<times> u8 list) option \<Rightarrow> stun_session \<Rightarrow> stun_session result" where
  "stun_start answer st =
     (case answer of None \<Rightarrow> Inl UncaughtException
      | Some (from_ep, bytes) \<Rightarrow>
          bindR (take_answer from_ep bytes st) (\<lambda>st. Inr (sendRequest st)))"

definition stun_stop :: "stun_session \<Rightarrow> stun_session" where
  "stun_stop st = st\<lparr>isRunning := False\<rparr>"

section \<open>What an answer is read as\<close>

text \<open>
  A binding response of RFC 3489 whose first attribute is MAPPED-ADDRESS: 20 bytes of
  header, type and length of the attribute, a zero byte, the family, the port and the
  address in network order.
\<close>

definition binding_response :: "u8 list \<Rightarrow> endpoint \<Rightarrow> u8 list" where
  "binding_response head ep =
     head @ [0, 1, 0, 8, 0, 1] @ rev (le_bytes (ep_port ep)) @ v4_to_bytes (ep_addr ep)"

lemma getIpFromBytes_eq:
  "length (ansString st) = 32 \<Longrightarrow>
     getIpFromBytes st = inet_ntop_v4 (drop 28 (ansString st))"
  by (simp add: getIpFromBytes_def inet_ntop_v4_def upt_rec)

lemma getIpFromBytes_parses:
  "length (ansString st) = 32 \<Longrightarrow>
     make_address_v4 (getIpFromBytes st) = Some (v4_from_bytes (drop 28 (ansString st)))"
  by (simp add: getIpFromBytes_eq make_address_v4_def inet_pton_ntop)

lemma getPortFromBytes_eq:
  assumes "length (ansString st) = 32"
  shows "(ucast (getPortFromBytes st) :: u16) = le_word [ansString st ! 27, ansString st ! 26]"
proof -
  let ?a = "\<lambda>i. ansString st ! i"
  have "getPortFromBytes st = net_fold [?a 24, ?a 25, ?a 26, ?a 27]"
    by (simp add: getPortFromBytes_def net_fold_def upt_rec)
  then have "getPortFromBytes st = le_word [?a 27, ?a 26, ?a 25, ?a 24]"
    by (simp add: net_fold_le_word)
  moreover have "(ucast (le_word [a, b, c, d] :: u32) :: u16) = le_word [a, b]" for a b c d
  proof (rule bit_word_eqI)
    fix n assume "n < LENGTH(16)"
    then have "n < 16" by simp
    then have "n div 8 < 2" by (simp add: div_less_iff_less_mult)
    then have "n div 8 = 0 \<or> n div 8 = 1" by linarith
    with \<open>n < 16\<close> show "bit (ucast (le_word [a, b, c, d] :: u32) :: u16) n = bit (le_word [a, b] :: u16) n"
      by (auto simp: bit_simps bit_le_word simp del: le_word.simps)
  qed
  ultimately show ?thesis by simp
qed

lemma length_fill [simp]: "length (fill buffer bytes) = length buffer"
  by (simp add: fill_def min_def)

lemma fill_full: "length bytes = length buffer \<Longrightarrow> fill buffer bytes = bytes"
  by (simp add: fill_def)

definition stun_ok :: "stun_session \<Rightarrow> bool" where
  "stun_ok st \<longleftrightarrow> length (ansString st) = 32 \<and> reqString st = stun_request"

lemma take_answer_total:
  "stun_ok st \<Longrightarrow> take_answer from_ep bytes st =
     Inr (let ans = fill (ansString st) bytes in
       st\<lparr>ansString := ans, st_tempEp := from_ep,
          st_realEp := (if from_ep = st_ep st
            then Endpoint (v4_from_bytes (drop 28 ans)) (le_word [ans ! 27, ans ! 26])
            else st_realEp st)\<rparr>)"
  by (simp add: take_answer_def stun_ok_def getIpFromBytes_parses getPortFromBytes_eq Let_def)

section \<open>Runs\<close>

text \<open>
  A step completes one pending operation, with any error code and, for a receive, any
  datagram from anywhere; or it stops the session, which the connecting thread may do at
  any moment.
\<close>

definition stun_complete :: "stun_op \<Rightarrow> stun_session \<Rightarrow> stun_session" where
  "stun_complete op st = st\<lparr>st_pending := remove1 op (st_pending st)\<rparr>"

inductive stun_step :: "stun_session \<Rightarrow> stun_session result \<Rightarrow> bool" where
  sent: "StunSend ep bytes \<in> set (st_pending st) \<Longrightarrow>
     stun_step st (Inr (on_request_sent er (stun_complete (StunSend ep bytes) st)))"
| got: "StunReceive \<in> set (st_pending st) \<Longrightarrow>
     stun_step st (on_answer er from_ep bytes (stun_complete StunReceive st))"
| timer: "StunTimer ms \<in> set (st_pending st) \<Longrightarrow>
     stun_step st (Inr (on_stun_timer ec (stun_complete (StunTimer ms) st)))"
| stop: "stun_step st (Inr (stun_stop st))"

inductive stun_reachable :: "stun_session \<Rightarrow> stun_session result \<Rightarrow> bool" for st0 where
  stun_start: "stun_reachable st0 (Inr st0)"
| stun_next: "stun_reachable st0 (Inr st) \<Longrightarrow> stun_step st r \<Longrightarrow> stun_reachable st0 r"

inductive_cases stun_stepE: "stun_step st r"

definition stun_inv :: "stun_session \<Rightarrow> stun_session \<Rightarrow> bool" where
  "stun_inv st0 st \<longleftrightarrow> stun_ok st \<and> length (st_pending st) \<le> 1 \<and> st_ep st = st_ep st0"

lemma stun_ok_update [simp]:
  "stun_ok (st\<lparr>st_pending := ops\<rparr>) = stun_ok st"
  "stun_ok (st\<lparr>isRunning := b\<rparr>) = stun_ok st"
  "stun_ok (st\<lparr>st_realEp := ep\<rparr>) = stun_ok st"
  "stun_ok (st\<lparr>st_tempEp := ep\<rparr>) = stun_ok st"
  "stun_ok (st\<lparr>ansString := fill (ansString st) bytes\<rparr>) = stun_ok st"
  by (simp_all add: stun_ok_def)

lemmas stun_handlers = on_request_sent_def on_answer_def on_stun_timer_def stun_complete_def
  sendRequest_def getAnswer_def stun_start_op_def stun_stop_def

lemma length_remove1_one: "x \<in> set xs \<Longrightarrow> length xs \<le> 1 \<Longrightarrow> remove1 x xs = []"
  by (cases xs) auto

lemma stun_inv_step:
  assumes "stun_step st r" and "stun_inv st0 st"
  shows "\<exists>st'. r = Inr st' \<and> stun_inv st0 st'"
  using assms
proof (cases rule: stun_step.cases)
  case (sent ep bytes er)
  with assms(2) show ?thesis
    by (auto simp: stun_inv_def stun_handlers length_remove1_one)
next
  case (got er from_ep bytes)
  with assms(2) show ?thesis
    by (auto simp: stun_inv_def stun_handlers length_remove1_one take_answer_total Let_def stun_ok_def)
next
  case (timer ms ec)
  with assms(2) show ?thesis
    by (auto simp: stun_inv_def stun_handlers length_remove1_one)
next
  case stop
  with assms(2) show ?thesis by (auto simp: stun_inv_def stun_handlers)
qed

lemma stun_inv_reachable:
  "stun_reachable st0 r \<Longrightarrow> stun_inv st0 st0 \<Longrightarrow> \<exists>st. r = Inr st \<and> stun_inv st0 st"
  by (induction rule: stun_reachable.induct) (auto dest: stun_inv_step)

lemma stopped_step:
  assumes "stun_step st (Inr st')" and "\<not> isRunning st" and "length (st_pending st) \<le> 1"
  shows "\<not> isRunning st' \<and> (st' = st \<or> st_pending st' = [])"
  using assms(1)
proof (cases rule: stun_step.cases)
  case (sent ep bytes er)
  with assms(2,3) show ?thesis by (simp add: stun_handlers length_remove1_one)
next
  case (got er from_ep bytes)
  with assms(2,3) show ?thesis by (simp add: stun_handlers length_remove1_one split: if_splits)
next
  case (timer ms ec)
  with assms(2,3) show ?thesis by (simp add: stun_handlers length_remove1_one)
next
  case stop
  with assms(2) show ?thesis by (simp add: stun_stop_def)
qed

definition stun_fresh :: "endpoint \<Rightarrow> stun_session" where
  "stun_fresh ep = (case new_stun_session (Some ep) of Inr st \<Rightarrow> sendRequest st | Inl _ \<Rightarrow> undefined)"

lemma stun_inv_fresh: "stun_inv (stun_fresh ep) (stun_fresh ep)"
  by (simp add: stun_fresh_def new_stun_session_def stun_inv_def stun_handlers stun_ok_def)

text \<open>
  C21. From a session that has sent its first request, under any order of completions, any
  error codes and any datagrams of any length from any sender, no handler ever throws or
  reads outside the answer buffer; there is at most one operation under way, so the cycle
  never forks; and a stopped session starts nothing new: completing an operation after
  \<open>stop\<close> leaves none.
\<close>

theorem stun_cycle_safe:
  "stun_reachable (stun_fresh ep) r \<Longrightarrow>
     \<exists>st. r = Inr st \<and> length (ansString st) = 32 \<and> st_ep st = ep \<and> length (st_pending st) \<le> 1 \<and>
       (\<forall>st'. \<not> isRunning st \<and> stun_step st (Inr st') \<longrightarrow>
          \<not> isRunning st' \<and> (st' = st \<or> st_pending st' = []))"
proof -
  assume "stun_reachable (stun_fresh ep) r"
  from stun_inv_reachable [OF this stun_inv_fresh] obtain st where
    r: "r = Inr st" and inv: "stun_inv (stun_fresh ep) st" by blast
  have "st_ep (stun_fresh ep) = ep"
    by (simp add: stun_fresh_def new_stun_session_def stun_handlers)
  moreover have "\<forall>st'. \<not> isRunning st \<and> stun_step st (Inr st') \<longrightarrow>
      \<not> isRunning st' \<and> (st' = st \<or> st_pending st' = [])"
    using inv stopped_step [of st] by (auto simp: stun_inv_def)
  ultimately show ?thesis using inv unfolding r by (simp add: stun_inv_def stun_ok_def)
qed

definition stun_late_answer :: stun_session where
  "stun_late_answer = \<lparr>st_ep = Endpoint 1 19302, st_tempEp = Endpoint 2 7, st_realEp = no_endpoint,
     reqString = stun_request, ansString = 9 # replicate 31 0, isRunning = False, st_pending = []\<rparr>"

lemma stun_late_answer_reachable:
  "stun_reachable (stun_fresh (Endpoint 1 19302)) (Inr stun_late_answer)"
proof -
  let ?s0 = "stun_fresh (Endpoint 1 19302)"
  let ?s1 = "?s0\<lparr>st_pending := [StunReceive]\<rparr>"
  let ?s2 = "?s1\<lparr>isRunning := False\<rparr>"
  note fresh = stun_fresh_def new_stun_session_def stun_handlers
  have "stun_step ?s0 (Inr ?s1)"
    using stun_step.sent [of "Endpoint 1 19302" stun_request ?s0 False] by (simp add: fresh)
  moreover have "stun_step ?s1 (Inr ?s2)"
    using stun_step.stop [of ?s1] by (simp add: stun_stop_def)
  moreover have "stun_step ?s2 (Inr stun_late_answer)"
    using stun_step.got [of ?s2 False "Endpoint 2 7" "[9]"]
    by (simp add: fresh stun_late_answer_def fill_def numeral_eq_Suc)
  ultimately show ?thesis by (meson stun_reachable.intros)
qed

lemma stun_cycle_safe_witness:
  "\<exists>st. Inr stun_late_answer = (Inr st :: stun_session result) \<and> length (ansString st) = 32 \<and>
     length (st_pending st) \<le> 1"
  using stun_cycle_safe [OF stun_late_answer_reachable] by blast

text \<open>
  The answer of the STUN server is read the way RFC 3489 lays it out: a binding response
  whose first attribute is the mapped address gives the session exactly the endpoint the
  server saw, and arms the five-second timer; every other endpoint the node keeps is left
  alone. The port goes through 32 bits with the family byte above it, and the conversion to
  16 bits drops that byte.
\<close>

theorem stun_answer_decoded:
  "stun_ok st \<Longrightarrow> isRunning st \<Longrightarrow> length head = 20 \<Longrightarrow>
     on_answer False (st_ep st) (binding_response head ep) st =
       Inr (st\<lparr>ansString := binding_response head ep, st_tempEp := st_ep st, st_realEp := ep,
               st_pending := st_pending st @ [StunTimer 5000]\<rparr>)"
proof -
  assume ok: "stun_ok st" and run: "isRunning st" and head: "length head = 20"
  let ?b = "binding_response head ep"
  have len: "length ?b = 32" using head by (simp add: binding_response_def)
  have "drop 28 ?b = v4_to_bytes (ep_addr ep)"
    using head by (simp add: binding_response_def)
  moreover have "[?b ! 27, ?b ! 26] = le_bytes (ep_port ep)"
  proof -
    obtain x y where xy: "le_bytes (ep_port ep) = [x, y]"
    proof -
      have "length (le_bytes (ep_port ep)) = Suc (Suc 0)" by simp
      with that show ?thesis by (auto simp: length_Suc_conv simp del: length_le_bytes)
    qed
    have "?b ! n = ([0, 1, 0, 8, 0, 1] @ [y, x] @ v4_to_bytes (ep_addr ep)) ! (n - 20)" if "20 \<le> n" for n
      using head that by (simp add: binding_response_def xy nth_append)
    from this [of 26] this [of 27] show ?thesis by (simp add: xy)
  qed
  then have "(le_word [?b ! 27, ?b ! 26] :: u16) = ep_port ep"
    by (simp add: le_word_le_bytes del: le_word.simps)
  moreover have "fill (ansString st) ?b = ?b"
    using ok len by (simp add: fill_full stun_ok_def)
  ultimately show ?thesis
    using ok run
    by (simp add: on_answer_def take_answer_total Let_def stun_start_op_def del: le_word.simps)
qed

lemma stun_answer_decoded_witness:
  "\<exists>st'. on_answer False (Endpoint 1 19302)
      (binding_response (replicate 20 0) (Endpoint 0x5DB8D822 4660)) (stun_fresh (Endpoint 1 19302)) = Inr st' \<and>
    getEndpoint st' = Endpoint 0x5DB8D822 4660"
  using stun_answer_decoded [of "stun_fresh (Endpoint 1 19302)" "replicate 20 0" "Endpoint 0x5DB8D822 4660"]
  by (simp add: stun_fresh_def new_stun_session_def stun_handlers stun_ok_def getEndpoint_def)

end
