(* ===== verification/Session.thy ===== *)
theory Session
  imports Std_Map Message_Codec Safe_Queue Nat_Killer
begin

text \<open>
  \<open>netlib_session.h\<close>: one UDP session with one peer. It adds to every message an id and a
  flag, sends a message as two datagrams (header, body), keeps what it has sent until the
  peer acknowledges it, repeats the oldest unacknowledged message, and hands the messages of
  the peer to the server's queue in the order of their ids. The template is used with one
  type of message ids, which the model fixes.

  The functions that the code passes to asio as completion handlers are run by \<open>complete\<close>;
  \<open>s_pending\<close> lists the operations under way and \<open>s_wire\<close> the datagrams handed to the
  socket, oldest first. A call of \<open>clock()\<close> and the outcome of a synchronous send come from
  the environment of the call. A throw of a synchronous send leaves a handler and ends the
  program (\<open>UncaughtException\<close>).
\<close>

section \<open>Constants and state\<close>

text \<open>On the target a second has 1000 clock ticks.\<close>

definition CLOCKS_PER_SEC :: nat where
  "CLOCKS_PER_SEC = 1000"

definition MAX_TIME_OUT :: nat where
  "MAX_TIME_OUT = 20"

definition MAX_NO_ANSWER :: nat where
  "MAX_NO_ANSWER = 200"

definition MAX_PACKET_SIZE :: u32 where
  "MAX_PACKET_SIZE = 32768"

definition MAX_PACKET_ID :: u16 where
  "MAX_PACKET_ID = 17"

type_synonym msg = "types_enum message"

datatype session_type = DefaultSession | FileSession

datatype session_op =
    SendHeader "u8 list"
  | SendBody "u8 list"
  | RecvHeader
  | RecvBody
  | RepeatWait bool
  | PingWait
  | ConnectTo endpoint
  | PostRead
  | PostClose

record mem_msg =
  mem_msg :: msg
  mem_time :: nat

record session =
  s_id :: u16
  s_open :: bool
  s_stun :: stun_session
  queueOut :: "msg safe_queue"
  tempMsgOut :: msg
  queueIn :: "msg list"
  tempMsgIn :: msg
  m_latestMsg :: "mem_msg safe_queue"
  lastSentId :: u64
  lastGotId :: u64
  currentId :: u64
  is_writing :: bool
  shouldPong :: bool
  m_maxPong :: u64
  shouldPing :: bool
  pongType :: types_enum
  pingType :: types_enum
  m_isConnected :: bool
  m_lastClock :: nat
  remoteEp :: endpoint
  tempEp :: endpoint
  m_futureMsgMap :: "(u16, msg) std_map"
  m_type :: session_type
  s_pending :: "session_op list"
  s_wire :: "u8 list list"

record env =
  now :: nat
  sends_ok :: bool

definition new_session :: "nat \<Rightarrow> stun_session \<Rightarrow> u16 \<Rightarrow> types_enum \<Rightarrow> session" where
  "new_session time stun i pong_type =
     \<lparr>s_id = i, s_open = True, s_stun = stun, queueOut = new_queue,
      tempMsgOut = new_message EmptyMsg, queueIn = [], tempMsgIn = new_message EmptyMsg,
      m_latestMsg = new_queue, lastSentId = 0, lastGotId = 0, currentId = 0,
      is_writing = False, shouldPong = False, m_maxPong = 0, shouldPing = False,
      pongType = pong_type, pingType = EmptyMsg, m_isConnected = False, m_lastClock = time,
      remoteEp = no_endpoint, tempEp = no_endpoint, m_futureMsgMap = [],
      m_type = DefaultSession, s_pending = [], s_wire = []\<rparr>"

section \<open>The header on the wire\<close>

text \<open>
  The memory image of \<open>MessageHeader<TypesEnum>\<close>: the 16-bit id, two bytes of padding and the
  32-bit size. The padding is whatever the memory holds; a sender writes 0 here.
\<close>

definition HEADER_BYTES :: nat where
  "HEADER_BYTES = 8"

definition header_image :: "types_enum message_header \<Rightarrow> u8 list" where
  "header_image h = le_bytes (code_of_type (hdr_id h)) @ [0, 0] @ le_bytes (hdr_size h)"

definition wire_id :: "u8 list \<Rightarrow> u16" where
  "wire_id bytes = le_word (take 2 bytes)"

definition wire_size :: "u8 list \<Rightarrow> u32" where
  "wire_size bytes = le_word (drop 4 bytes)"

section \<open>Asynchronous operations and the socket\<close>

definition start_op :: "session_op \<Rightarrow> session \<Rightarrow> session" where
  "start_op op s = s\<lparr>s_pending := s_pending s @ [op]\<rparr>"

definition to_wire :: "u8 list \<Rightarrow> session \<Rightarrow> session" where
  "to_wire bytes s = s\<lparr>s_wire := s_wire s @ [bytes]\<rparr>"

text \<open>The synchronous \<open>socket_.send\<close> throws when the socket is closed or reports an error.\<close>

definition socket_send :: "env \<Rightarrow> u8 list \<Rightarrow> session \<Rightarrow> session result" where
  "socket_send e bytes s =
     (if s_open s \<and> sends_ok e then Inr (to_wire bytes s) else Inl UncaughtException)"

definition isConnected :: "session \<Rightarrow> bool" where
  "isConnected s \<longleftrightarrow> s_open s"

definition isActive :: "session \<Rightarrow> bool" where
  "isActive s \<longleftrightarrow> m_isConnected s"

definition getSessionId :: "session \<Rightarrow> u16" where
  "getSessionId s = s_id s"

definition getRealEp :: "session \<Rightarrow> endpoint" where
  "getRealEp s = getEndpoint (s_stun s)"

text \<open>Closing the socket makes every pending operation complete with an error.\<close>

definition disconnect :: "session \<Rightarrow> session" where
  "disconnect s = (if \<not> s_open s then s else s\<lparr>s_open := False\<rparr>)"

definition asyncDisconnect :: "session \<Rightarrow> session" where
  "asyncDisconnect s = (if isConnected s then start_op PostClose s else s)"

definition startListening :: "session \<Rightarrow> session" where
  "startListening s = start_op PostRead s"

definition connectWithEndpoint :: "endpoint \<Rightarrow> types_enum \<Rightarrow> session \<Rightarrow> session" where
  "connectWithEndpoint ep ping_type s =
     start_op (ConnectTo ep)
       (s\<lparr>pingType := ping_type, s_stun := stun_stop (s_stun s), remoteEp := ep\<rparr>)"

definition checkAble :: "env \<Rightarrow> session \<Rightarrow> bool" where
  "checkAble e s \<longleftrightarrow>
     \<not> (m_isConnected s \<and> now e - m_lastClock s > MAX_TIME_OUT * CLOCKS_PER_SEC \<or> \<not> isConnected s)"

section \<open>Sending\<close>

definition sendNoAnswer :: "env \<Rightarrow> msg \<Rightarrow> session \<Rightarrow> (msg \<times> session) result" where
  "sendNoAnswer e m s =
     (let m = put_bool False m in
      bindR (socket_send e (header_image (m_header m)) s) (\<lambda>s.
      bindR (socket_send e (m_body m) s) (\<lambda>s.
      bindR (get_bool m) (\<lambda>(f, m). Inr (m, s)))))"

definition ping :: "env \<Rightarrow> types_enum \<Rightarrow> session \<Rightarrow> session result" where
  "ping e ping_type s =
     (if \<not> is_writing s
      then (let s = s\<lparr>pingType := ping_type\<rparr> in
            bindR (sendNoAnswer e (new_message (pingType s)) s) (\<lambda>(m, s).
              Inr (s\<lparr>shouldPing := False\<rparr>)))
      else Inr (s\<lparr>shouldPing := True\<rparr>))"

definition pong :: "env \<Rightarrow> u64 \<Rightarrow> session \<Rightarrow> session result" where
  "pong e msgId s =
     bindR (sendNoAnswer e (put_word msgId (new_message (pongType s))) s) (\<lambda>(m, s).
       Inr (s\<lparr>shouldPong := False\<rparr>))"

definition tryPong :: "env \<Rightarrow> u64 \<Rightarrow> session \<Rightarrow> session result" where
  "tryPong e msgId s =
     (if \<not> is_writing s then pong e (max msgId (m_maxPong s)) s
      else Inr (s\<lparr>m_maxPong := max msgId (m_maxPong s), shouldPong := True\<rparr>))"

definition writeHeader :: "session \<Rightarrow> session result" where
  "writeHeader s =
     bindR (pop_front (queueOut s)) (\<lambda>(m, q).
       Inr (start_op (SendHeader (header_image (m_header m)))
         (s\<lparr>is_writing := True, queueOut := q, tempMsgOut := m\<rparr>)))"

definition writeBody :: "session \<Rightarrow> session" where
  "writeBody s = start_op (SendBody (m_body (tempMsgOut s))) s"

text \<open>
  The message comes back to the caller without the id and the flag; \<open>currentId\<close> is read back
  from it.
\<close>

definition send :: "msg \<Rightarrow> session \<Rightarrow> (msg \<times> session) result" where
  "send m s =
     (let s = s\<lparr>currentId := currentId s + 1\<rparr>;
          m = put_bool True (put_word (currentId s) m);
          s = s\<lparr>queueOut := push_back m (queueOut s)\<rparr>
      in bindR (if \<not> is_writing s \<and> m_isConnected s then writeHeader s else Inr s) (\<lambda>s.
         bindR (get_bool m) (\<lambda>(f, m).
         bindR (get_word m) (\<lambda>(i, m). Inr (m, s\<lparr>currentId := i\<rparr>)))))"

text \<open>The end of \<open>endOfWriting\<close>, after a delayed acknowledgement has gone out.\<close>

definition after_writing :: "env \<Rightarrow> bool \<Rightarrow> u64 \<Rightarrow> session \<Rightarrow> session result" where
  "after_writing e shouldWait msgId s =
     (if shouldWait
      then (if msgId = lastSentId s + 1
            then Inr (s\<lparr>lastSentId := lastSentId s + 1,
                        m_latestMsg := push_back \<lparr>mem_msg = tempMsgOut s, mem_time = now e\<rparr> (m_latestMsg s)\<rparr>)
            else Inr s)
      else bindR (if shouldPing s then ping e (pingType s) s else Inr s) (\<lambda>s.
           if \<not> queue_empty (queueOut s) \<and> m_isConnected s then writeHeader s else Inr s))"

definition endOfWriting :: "env \<Rightarrow> session \<Rightarrow> session result" where
  "endOfWriting e s =
     bindR (get_bool (tempMsgOut s)) (\<lambda>(shouldWait, m).
     bindR (get_word m) (\<lambda>(msgId, m).
       let s = s\<lparr>tempMsgOut := put_bool shouldWait (put_word msgId m), is_writing := False\<rparr>
       in bindR (if shouldPong s then pong e (m_maxPong s) s else Inr s)
            (after_writing e shouldWait msgId)))"

section \<open>Timers\<close>

text \<open>
  \<open>expires_after\<close> cancels the waits of the same timer: their handlers run at once with
  \<open>operation_aborted\<close>. \<open>RepeatWait True\<close> is such a cancelled wait.
\<close>

definition checkRepeat :: "session \<Rightarrow> session" where
  "checkRepeat s =
     start_op (RepeatWait False)
       (s\<lparr>s_pending := map (\<lambda>op. case op of RepeatWait _ \<Rightarrow> RepeatWait True | _ \<Rightarrow> op) (s_pending s)\<rparr>)"

text \<open>The handler of the repeat timer never looks at its error code.\<close>

definition on_repeat :: "env \<Rightarrow> session \<Rightarrow> session" where
  "on_repeat e s =
     checkRepeat
       (case deque (m_latestMsg s) of
          [] \<Rightarrow> s
        | front # rest \<Rightarrow>
            if m_isConnected s \<and> now e > MAX_NO_ANSWER + mem_time front
            then s\<lparr>m_latestMsg := \<lparr>deque = front\<lparr>mem_time := now e\<rparr> # rest\<rparr>,
                   queueOut := push_front (mem_msg front) (queueOut s)\<rparr>
            else s)"

definition pingCycle :: "session \<Rightarrow> session" where
  "pingCycle s = start_op PingWait s"

definition on_ping_timer :: "env \<Rightarrow> bool \<Rightarrow> session \<Rightarrow> session result" where
  "on_ping_timer e ec s =
     (if ec then Inr s
      else if \<not> checkAble e s then Inr (disconnect s)
      else bindR (if queue_empty (queueOut s) \<or> \<not> m_isConnected s then ping e (pingType s) s else Inr s)
        (\<lambda>s. Inr (pingCycle (if \<not> is_writing s then checkRepeat s else s))))"

section \<open>Receiving\<close>

definition readHeader :: "session \<Rightarrow> session" where
  "readHeader s = start_op RecvHeader s"

definition readBody :: "session \<Rightarrow> session" where
  "readBody s = start_op RecvBody s"

text \<open>
  An acknowledgement of everything up to \<open>p\<close>: the loop pops while \<open>p\<close> and what is kept exceed
  the last id sent, in 64-bit arithmetic.
\<close>

function drop_acked :: "u64 \<Rightarrow> u64 \<Rightarrow> mem_msg safe_queue \<Rightarrow> mem_msg safe_queue result" where
  "drop_acked p lastSent q =
     (if p + word_of_nat (queue_size q) > lastSent
      then (case pop_front q of Inl e \<Rightarrow> Inl e | Inr (_, q') \<Rightarrow> drop_acked p lastSent q')
      else Inr q)"
  by pat_completeness auto
termination
  by (relation "measure (\<lambda>(p, l, q). length (deque q))")
    (auto simp: pop_front_def split: list.splits)

declare drop_acked.simps [simp del]

text \<open>
  The messages that have become deliverable leave the map, whose keys have 16 bits; \<open>delta\<close>
  counts them, in 16 bits.
\<close>

function deliver_ready :: "u16 \<Rightarrow> session \<Rightarrow> u16 \<times> session" where
  "deliver_ready delta s =
     (let key = ucast (lastGotId s + 1) in
      case map_find (m_futureMsgMap s) key of
        None \<Rightarrow> (delta, s)
      | Some m \<Rightarrow> deliver_ready (delta + 1)
          (s\<lparr>queueIn := queueIn s @ [m], m_futureMsgMap := map_erase key (m_futureMsgMap s),
             lastGotId := lastGotId s + 1\<rparr>))"
  by pat_completeness auto
termination
  by (relation "measure (\<lambda>(d, s). length (m_futureMsgMap s))")
    (auto simp: length_map_erase_less)

declare deliver_ready.simps [simp del]

definition handle_pong :: "session \<Rightarrow> session result" where
  "handle_pong s =
     bindR (get_word (tempMsgIn s)) (\<lambda>(p, m).
     bindR (drop_acked p (lastSentId s) (m_latestMsg s)) (\<lambda>q.
       Inr (s\<lparr>tempMsgIn := m, m_latestMsg := q\<rparr>)))"

definition handle_message :: "env \<Rightarrow> bool \<Rightarrow> session \<Rightarrow> session result" where
  "handle_message e shouldAnswer s =
     bindR (get_word (tempMsgIn s)) (\<lambda>(msgId, m).
     let s = s\<lparr>tempMsgIn := m\<rparr> in
     bindR (if shouldAnswer \<and> msgId \<le> lastGotId s + 1 then tryPong e msgId s else Inr s) (\<lambda>s.
     let s = (if msgId \<ge> lastGotId s + 1
              then s\<lparr>m_futureMsgMap := map_store (ucast msgId) (tempMsgIn s) (m_futureMsgMap s)\<rparr>
              else s)
     in case deliver_ready 0 s of
          (delta, s) \<Rightarrow> if delta > 1 then tryPong e (lastGotId s) s else Inr s))"

text \<open>The three parts of \<open>endOfReading\<close>: before, at and after the branch on the message type.\<close>

definition mark_alive :: "env \<Rightarrow> session \<Rightarrow> session" where
  "mark_alive e s =
     (let s = s\<lparr>m_lastClock := now e\<rparr>;
          s = (if \<not> m_isConnected s then checkRepeat s else s)
      in s\<lparr>m_isConnected := True\<rparr>)"

definition dispatch_frame :: "env \<Rightarrow> bool \<Rightarrow> session \<Rightarrow> session result" where
  "dispatch_frame e shouldAnswer s =
     (if getId (tempMsgIn s) = pongType s then handle_pong s
      else if getId (tempMsgIn s) \<noteq> pingType s then handle_message e shouldAnswer s
      else Inr s)"

definition after_frame :: "env \<Rightarrow> session \<Rightarrow> session result" where
  "after_frame e s =
     (let s = s\<lparr>tempMsgIn := clear_message (tempMsgIn s)\<rparr> in
      bindR (if \<not> is_writing s \<and> shouldPong s then pong e (m_maxPong s) s else Inr s) (\<lambda>s.
      bindR (if \<not> is_writing s \<and> \<not> queue_empty (queueOut s) then writeHeader s else Inr s) (\<lambda>s.
      Inr (readHeader s))))"

definition endOfReading :: "env \<Rightarrow> session \<Rightarrow> session result" where
  "endOfReading e s =
     bindR (get_bool (tempMsgIn s)) (\<lambda>(shouldAnswer, m).
     bindR (dispatch_frame e shouldAnswer (mark_alive e (s\<lparr>tempMsgIn := m\<rparr>))) (after_frame e))"

text \<open>
  A datagram that arrived for \<open>readHeader\<close>: \<open>bytes\<close> is what the system put into the 8 bytes of
  the header. A rejected header stays in memory in the code and is overwritten by the next
  one before anything reads it; the model keeps the previous one.
\<close>

definition on_header :: "env \<Rightarrow> endpoint \<Rightarrow> u8 list \<Rightarrow> session \<Rightarrow> session result" where
  "on_header e from_ep bytes s =
     (let s = s\<lparr>tempEp := from_ep\<rparr>;
          s = (if \<not> m_isConnected s \<and> ep_addr (tempEp s) = ep_addr (remoteEp s)
               then s\<lparr>remoteEp := tempEp s\<rparr> else s)
      in if tempEp s \<noteq> remoteEp s then Inr (readHeader s)
         else if length bytes \<noteq> HEADER_BYTES \<or> wire_size bytes > MAX_PACKET_SIZE \<or>
                 wire_id bytes > MAX_PACKET_ID
         then Inr (readHeader s)
         else case type_of_code (wire_id bytes) of
                None \<Rightarrow> Inr (readHeader s)
              | Some t \<Rightarrow>
                  let n = unat (wire_size bytes);
                      body = m_body (tempMsgIn s)
                  in if n > 0
                     then Inr (readBody (s\<lparr>tempMsgIn :=
                            \<lparr>m_header = \<lparr>hdr_id = t, hdr_size = wire_size bytes\<rparr>,
                             m_body = take n body @ replicate (n - length body) 0\<rparr>\<rparr>))
                     else endOfReading e (s\<lparr>tempMsgIn :=
                            \<lparr>m_header = \<lparr>hdr_id = t, hdr_size = 0\<rparr>, m_body = body\<rparr>\<rparr>))"

definition on_body :: "env \<Rightarrow> endpoint \<Rightarrow> u8 list \<Rightarrow> session \<Rightarrow> session result" where
  "on_body e from_ep bytes s =
     (let s = s\<lparr>tempEp := from_ep,
                tempMsgIn := (tempMsgIn s)\<lparr>m_body := fill (m_body (tempMsgIn s)) bytes\<rparr>\<rparr>
      in if tempEp s \<noteq> remoteEp s then Inr (readBody s)
         else if length bytes \<noteq> length (m_body (tempMsgIn s)) then Inr (readHeader s)
         else endOfReading e s)"

section \<open>Completions\<close>

datatype completion =
    Success
  | Failure
  | Received endpoint "u8 list"

fun handle :: "env \<Rightarrow> session_op \<Rightarrow> completion \<Rightarrow> session \<Rightarrow> session result" where
  "handle e (SendHeader bytes) Failure s = Inr (disconnect s)"
| "handle e (SendHeader bytes) _ s =
     (let s = to_wire bytes s
      in if length (m_body (tempMsgOut s)) > 0 then Inr (writeBody s) else endOfWriting e s)"
| "handle e (SendBody bytes) Failure s = Inr (disconnect s)"
| "handle e (SendBody bytes) _ s = endOfWriting e (to_wire bytes s)"
| "handle e RecvHeader (Received ep bytes) s = on_header e ep bytes s"
| "handle e RecvHeader _ s = Inr (disconnect s)"
| "handle e RecvBody (Received ep bytes) s = on_body e ep bytes s"
| "handle e RecvBody _ s = Inr (disconnect s)"
| "handle e (RepeatWait aborted) _ s = Inr (on_repeat e s)"
| "handle e PingWait c s = on_ping_timer e (c = Failure) s"
| "handle e (ConnectTo ep) Failure s = Inr s"
| "handle e (ConnectTo ep) _ s = Inr (pingCycle (startListening s))"
| "handle e PostRead _ s = Inr (readHeader s)"
| "handle e PostClose _ s = Inr (s\<lparr>s_open := False\<rparr>)"

definition complete :: "env \<Rightarrow> session_op \<Rightarrow> completion \<Rightarrow> session \<Rightarrow> session result" where
  "complete e op c s = handle e op c (s\<lparr>s_pending := remove1 op (s_pending s)\<rparr>)"

end
