(* ===== verification/Session_Receive.thy ===== *)
theory Session_Receive
  imports Session
begin

text \<open>
  The receiving half of a session: what \<open>endOfReading\<close> makes of a sequence of message frames.
  The specification is a set of ids: the peer's \<open>i\<close>-th message is \<open>hist i\<close>, and the node has
  to deliver \<open>hist 1\<close>, \<open>hist 2\<close>, \<dots> as far as it has received them without a gap.
\<close>

section \<open>The specification\<close>

text \<open>The last id of the gap-free prefix that continues from \<open>n\<close> with the ids received.\<close>

function gap_free :: "nat list \<Rightarrow> nat \<Rightarrow> nat" where
  "gap_free ids n = (if Suc n \<in> set ids then gap_free (removeAll (Suc n) ids) (Suc n) else n)"
  by pat_completeness auto
termination
  by (relation "measure (\<lambda>(ids, n). length ids)") (auto intro: length_removeAll_less)

declare gap_free.simps [simp del]

lemma gap_free_spec:
  "n \<le> gap_free ids n \<and> {n<..gap_free ids n} \<subseteq> set ids \<and> Suc (gap_free ids n) \<notin> set ids"
proof (induction ids n rule: gap_free.induct)
  case (1 ids n)
  show ?case
  proof (cases "Suc n \<in> set ids")
    case True
    then have eq: "gap_free ids n = gap_free (removeAll (Suc n) ids) (Suc n)"
      by (subst gap_free.simps) simp
    from 1 [OF True] have ih: "Suc n \<le> gap_free ids n"
      "{Suc n<..gap_free ids n} \<subseteq> set ids" "Suc (gap_free ids n) \<notin> set ids - {Suc n}"
      by (auto simp: eq)
    have "{n<..gap_free ids n} \<subseteq> insert (Suc n) {Suc n<..gap_free ids n}" by auto
    with ih True show ?thesis by auto
  next
    case False
    then have "gap_free ids n = n" by (subst gap_free.simps) simp
    with False show ?thesis by simp
  qed
qed

lemma gap_free_unique:
  assumes "n \<le> g" and "{n<..g} \<subseteq> set ids" and "Suc g \<notin> set ids"
  shows "gap_free ids n = g"
proof -
  let ?h = "gap_free ids n"
  from gap_free_spec [of n ids] have h: "n \<le> ?h" "{n<..?h} \<subseteq> set ids" "Suc ?h \<notin> set ids"
    by simp_all
  have "\<not> ?h < g" using assms(2) h by (auto simp: subset_iff)
  moreover have "\<not> g < ?h" using assms h(2) by (auto simp: subset_iff)
  ultimately show ?thesis by simp
qed

text \<open>The map's keys have 16 bits: an id must lie within \<open>2 ^ 16\<close> of what has been delivered.\<close>

fun in_window :: "nat list \<Rightarrow> nat list \<Rightarrow> bool" where
  "in_window got [] = True"
| "in_window got (i # ids) \<longleftrightarrow>
     1 \<le> i \<and> i \<le> gap_free got 0 + 65536 \<and> Suc i < 2 ^ 64 \<and> in_window (i # got) ids"

section \<open>The loop that delivers\<close>

definition key_of :: "nat \<Rightarrow> u16" where
  "key_of i = word_of_nat i"

lemma key_of_eq: "key_of i = key_of j \<longleftrightarrow> i mod 65536 = j mod 65536"
  by (simp add: key_of_def word_of_nat_eq_iff take_bit_eq_mod)

lemma key_of_inject:
  assumes "n < i" and "i \<le> n + 65536" and "n < j" and "j \<le> n + 65536"
  shows "key_of i = key_of j \<longleftrightarrow> i = j"
proof
  assume "key_of i = key_of j"
  then have eq: "i mod 65536 = j mod 65536" by (simp add: key_of_eq add.commute)
  have "a = b" if "a mod 65536 = b mod 65536" "a \<le> b" "b < a + 65536" for a b :: nat
  proof -
    have "(b - a) mod 65536 = 0"
      using that(1,2) by (metis mod_eq_dvd_iff_nat mod_0_imp_dvd dvd_imp_mod_0)
    moreover have "b - a < 65536" using that(2,3) by simp
    ultimately show ?thesis using that(2) by simp
  qed
  from this [of i j] this [of j i] show "i = j" using eq assms by linarith
qed simp

lemma ucast_word_of_nat: "ucast (word_of_nat k :: u64) = key_of k"
  unfolding key_of_def by (rule bit_word_eqI) (auto simp: bit_simps)

lemma ucast_next_key: "ucast (word_of_nat n + 1 :: u64) = key_of (Suc n)"
proof -
  have "word_of_nat n + 1 = (word_of_nat (Suc n) :: u64)" by simp
  then show ?thesis by (simp only: ucast_word_of_nat)
qed

text \<open>
  The map holds exactly the ids received beyond the delivered prefix \<open>n\<close>.
\<close>

definition waiting :: "(nat \<Rightarrow> msg) \<Rightarrow> nat set \<Rightarrow> nat \<Rightarrow> (u16, msg) std_map \<Rightarrow> bool" where
  "waiting hist R n m \<longleftrightarrow>
     (\<forall>i \<in> R. n < i \<longrightarrow> i \<le> n + 65536 \<and> Suc i < 2 ^ 64 \<and> map_find m (key_of i) = Some (hist i)) \<and>
     (\<forall>k x. map_find m k = Some x \<longrightarrow> (\<exists>i \<in> R. n < i \<and> k = key_of i))"

lemma waiting_next:
  assumes "waiting hist R n m" and "Suc n < 2 ^ 64"
  shows "map_find m (ucast (word_of_nat n + 1 :: u64)) =
    (if Suc n \<in> R then Some (hist (Suc n)) else None)"
proof -
  note key = ucast_next_key [of n]
  show ?thesis
  proof (cases "Suc n \<in> R")
    case True
    with assms(1) show ?thesis unfolding key by (simp add: waiting_def)
  next
    case False
    have "map_find m (key_of (Suc n)) = None"
    proof (rule ccontr)
      assume "map_find m (key_of (Suc n)) \<noteq> None"
      then obtain x where "map_find m (key_of (Suc n)) = Some x" by auto
      with assms(1) obtain i where i: "i \<in> R" "n < i" "key_of (Suc n) = key_of i"
        unfolding waiting_def by blast
      with assms(1) have "i \<le> n + 65536" by (auto simp: waiting_def)
      with i key_of_inject [of n "Suc n" i] have "i = Suc n" by simp
      with i(1) False show False by simp
    qed
    with False show ?thesis unfolding key by simp
  qed
qed

lemma waiting_deliver:
  assumes "waiting hist R n m" and "Suc n \<in> R"
  shows "waiting hist R (Suc n) (map_erase (key_of (Suc n)) m)"
  unfolding waiting_def
proof (intro conjI ballI allI impI)
  fix i assume i: "i \<in> R" "Suc n < i"
  with assms(1) have "i \<le> n + 65536" "map_find m (key_of i) = Some (hist i)" "Suc i < 2 ^ 64"
    by (auto simp: waiting_def)
  moreover from this i key_of_inject [of n i "Suc n"] have "key_of i \<noteq> key_of (Suc n)" by auto
  ultimately show "i \<le> Suc n + 65536" "Suc i < 2 ^ 64"
    "map_find (map_erase (key_of (Suc n)) m) (key_of i) = Some (hist i)" by simp_all
next
  fix k x assume "map_find (map_erase (key_of (Suc n)) m) k = Some x"
  then have k: "k \<noteq> key_of (Suc n)" "map_find m k = Some x" by (auto split: if_splits)
  with assms(1) obtain i where "i \<in> R" "n < i" "k = key_of i" unfolding waiting_def by blast
  with k(1) show "\<exists>i \<in> R. Suc n < i \<and> k = key_of i" by (metis Suc_lessI)
qed

lemma deliver_ready_spec:
  assumes "waiting hist (set ids) n (m_futureMsgMap s)" and "lastGotId s = word_of_nat n"
    and "Suc n < 2 ^ 64"
  shows "\<exists>m'. waiting hist (set ids) (gap_free ids n) m' \<and> Suc (gap_free ids n) < 2 ^ 64 \<and>
    deliver_ready delta s = (delta + word_of_nat (gap_free ids n - n),
      s\<lparr>queueIn := queueIn s @ map hist [Suc n..<Suc (gap_free ids n)], m_futureMsgMap := m',
        lastGotId := word_of_nat (gap_free ids n)\<rparr>)"
  using assms
proof (induction delta s arbitrary: n rule: deliver_ready.induct)
  case (1 delta s)
  let ?g = "gap_free ids n"
  have found: "map_find (m_futureMsgMap s) (ucast (lastGotId s + 1)) =
      (if Suc n \<in> set ids then Some (hist (Suc n)) else None)"
    using waiting_next [OF "1.prems"(1,3)] "1.prems"(2) by simp
  have key: "ucast (lastGotId s + 1) = key_of (Suc n)"
    using ucast_next_key [of n] "1.prems"(2) by simp
  show ?case
  proof (cases "Suc n \<in> set ids")
    case False
    then have "?g = n" by (intro gap_free_unique) auto
    moreover have "deliver_ready delta s = (delta, s)"
      using False by (subst deliver_ready.simps) (simp add: found [unfolded key] key Let_def)
    ultimately show ?thesis using "1.prems"
      by (intro exI [of _ "m_futureMsgMap s"]) simp
  next
    case True
    let ?s = "s\<lparr>queueIn := queueIn s @ [hist (Suc n)],
        m_futureMsgMap := map_erase (key_of (Suc n)) (m_futureMsgMap s),
        lastGotId := lastGotId s + 1\<rparr>"
    have unfold: "deliver_ready delta s = deliver_ready (delta + 1) ?s"
      using True by (subst deliver_ready.simps) (simp add: found [unfolded key] key Let_def)
    have lt: "Suc (Suc n) < 2 ^ 64" using "1.prems"(1) True by (auto simp: waiting_def)
    have "Suc n \<le> ?g"
      using gap_free_spec [of n ids] True by (metis Suc_leI le_neq_implies_less)
    moreover have "{Suc n<..?g} \<subseteq> {n<..?g}" by auto
    ultimately have g: "gap_free ids (Suc n) = ?g"
      using gap_free_spec [of n ids] by (intro gap_free_unique) auto
    have "waiting hist (set ids) (Suc n) (m_futureMsgMap ?s)"
      using waiting_deliver [OF "1.prems"(1) True] by simp
    moreover have "lastGotId ?s = word_of_nat (Suc n)" using "1.prems"(2) by simp
    ultimately obtain m' where m': "waiting hist (set ids) ?g m'" "Suc ?g < 2 ^ 64"
      "deliver_ready (delta + 1) ?s = (delta + 1 + word_of_nat (?g - Suc n),
        ?s\<lparr>queueIn := queueIn ?s @ map hist [Suc (Suc n)..<Suc ?g], m_futureMsgMap := m',
          lastGotId := word_of_nat ?g\<rparr>)"
      using "1.IH" [OF refl, of "hist (Suc n)" "Suc n"] True lt found unfolding key g by auto
    have "[Suc n..<Suc ?g] = Suc n # [Suc (Suc n)..<Suc ?g]"
      using \<open>Suc n \<le> ?g\<close> by (simp add: upt_rec)
    moreover have "delta + 1 + word_of_nat (?g - Suc n) = delta + word_of_nat (?g - n)"
    proof -
      have "?g - n = Suc (?g - Suc n)" using \<open>Suc n \<le> ?g\<close> by simp
      then show ?thesis by simp
    qed
    ultimately show ?thesis using m' unfolding unfold by (intro exI [of _ m']) simp
  qed
qed

section \<open>Sending when the socket works\<close>

definition can_send :: "env \<Rightarrow> session \<Rightarrow> bool" where
  "can_send e s \<longleftrightarrow> s_open s \<and> sends_ok e"

lemma sendNoAnswer_eq:
  "can_send e s \<Longrightarrow> msg_wf m \<Longrightarrow>
     sendNoAnswer e m s = Inr (m, s\<lparr>s_wire := s_wire s @
       [header_image (m_header (put_bool False m)), m_body (put_bool False m)]\<rparr>)"
  by (simp add: sendNoAnswer_def socket_send_def to_wire_def can_send_def Let_def)

definition pong_frame :: "u64 \<Rightarrow> session \<Rightarrow> u8 list list" where
  "pong_frame p s =
     (let m = put_bool False (put_word p (new_message (pongType s)))
      in [header_image (m_header m), m_body m])"

lemma pong_eq:
  "can_send e s \<Longrightarrow>
     pong e p s = Inr (s\<lparr>s_wire := s_wire s @ pong_frame p s, shouldPong := False\<rparr>)"
  by (simp add: pong_def sendNoAnswer_eq pong_frame_def Let_def)

lemma tryPong_eq:
  "can_send e s \<Longrightarrow>
     tryPong e p s = Inr
       (if is_writing s
        then s\<lparr>m_maxPong := max p (m_maxPong s), shouldPong := True\<rparr>
        else s\<lparr>s_wire := s_wire s @ pong_frame (max p (m_maxPong s)) s, shouldPong := False\<rparr>)"
  by (simp add: tryPong_def pong_eq)

text \<open>Fields of the sending half may change while the receiving half of the state is fixed.\<close>

definition same_receiver :: "session \<Rightarrow> session \<Rightarrow> bool" where
  "same_receiver s t \<longleftrightarrow> queueIn t = queueIn s \<and> lastGotId t = lastGotId s \<and>
     m_futureMsgMap t = m_futureMsgMap s \<and> s_open t = s_open s \<and> pongType t = pongType s \<and>
     pingType t = pingType s"

lemma same_receiver_refl [simp]: "same_receiver s s"
  by (simp add: same_receiver_def)

lemma same_receiver_trans: "same_receiver s t \<Longrightarrow> same_receiver t u \<Longrightarrow> same_receiver s u"
  by (simp add: same_receiver_def)

lemma tryPong_receiver:
  "can_send e s \<Longrightarrow> \<exists>t. tryPong e p s = Inr t \<and> same_receiver s t \<and> tempMsgIn t = tempMsgIn s"
  by (simp add: tryPong_eq same_receiver_def)

lemma writeHeader_receiver:
  "\<not> queue_empty (queueOut s) \<Longrightarrow> \<exists>t. writeHeader s = Inr t \<and> same_receiver s t"
  using safe_queue.pop_not_empty [of "queueOut s"]
  by (auto simp: writeHeader_def start_op_def same_receiver_def)

lemma can_send_same_receiver: "can_send e s \<Longrightarrow> same_receiver s t \<Longrightarrow> can_send e t"
  by (simp add: can_send_def same_receiver_def)

lemma after_frame_receiver:
  assumes "can_send e s"
  shows "\<exists>t. after_frame e s = Inr t \<and> same_receiver s t"
proof -
  let ?s = "s\<lparr>tempMsgIn := clear_message (tempMsgIn s)\<rparr>"
  have "can_send e ?s" using assms by (simp add: can_send_def)
  then have "\<exists>u. (if \<not> is_writing ?s \<and> shouldPong ?s then pong e (m_maxPong ?s) ?s else Inr ?s) = Inr u \<and>
      same_receiver s u"
    by (simp add: pong_eq same_receiver_def)
  then obtain u where
    u: "(if \<not> is_writing ?s \<and> shouldPong ?s then pong e (m_maxPong ?s) ?s else Inr ?s) = Inr u"
    "same_receiver s u" by blast
  have "\<exists>v. (if \<not> is_writing u \<and> \<not> queue_empty (queueOut u) then writeHeader u else Inr u) = Inr v \<and>
      same_receiver u v"
    using writeHeader_receiver [of u] by simp
  then obtain v where v: "(if \<not> is_writing u \<and> \<not> queue_empty (queueOut u) then writeHeader u else Inr u) = Inr v"
    "same_receiver u v" by blast
  have "after_frame e s = Inr (readHeader v)"
    unfolding after_frame_def Let_def by (simp only: u(1) v(1) bindR_Inr)
  with u(2) v(2) show ?thesis
    by (auto simp: same_receiver_def readHeader_def start_op_def)
qed

section \<open>One frame\<close>

text \<open>What the peer sends for its \<open>i\<close>-th message, with the flag that asks for an answer.\<close>

definition frame :: "(nat \<Rightarrow> msg) \<Rightarrow> bool \<Rightarrow> nat \<Rightarrow> msg" where
  "frame hist flag i = put_bool flag (put_word (word_of_nat i :: u64) (hist i))"

definition recv_frame :: "(nat \<Rightarrow> msg) \<Rightarrow> env \<times> bool \<times> nat \<Rightarrow> session \<Rightarrow> session result" where
  "recv_frame hist f s =
     (case f of (e, flag, i) \<Rightarrow> endOfReading e (s\<lparr>tempMsgIn := frame hist flag i\<rparr>))"

definition app_message :: "session \<Rightarrow> msg \<Rightarrow> bool" where
  "app_message s m \<longleftrightarrow> msg_wf m \<and> getId m \<noteq> pongType s \<and> getId m \<noteq> pingType s"

definition receiver_at :: "(nat \<Rightarrow> msg) \<Rightarrow> nat list \<Rightarrow> session \<Rightarrow> bool" where
  "receiver_at hist got s \<longleftrightarrow>
     waiting hist (set got) (gap_free got 0) (m_futureMsgMap s) \<and>
     lastGotId s = word_of_nat (gap_free got 0) \<and> Suc (gap_free got 0) < 2 ^ 64 \<and>
     queueIn s = map hist [1..<Suc (gap_free got 0)]"

lemma gap_free_insert: "gap_free (i # got) (gap_free got 0) = gap_free (i # got) 0"
proof (rule sym, rule gap_free_unique)
  let ?g = "gap_free got 0" and ?h = "gap_free (i # got) (gap_free got 0)"
  note g = gap_free_spec [of 0 got] and h = gap_free_spec [of ?g "i # got"]
  have "{0<..?h} \<subseteq> {0<..?g} \<union> {?g<..?h}" by auto
  also have "\<dots> \<subseteq> set (i # got)" using g h by auto
  finally show "{0<..?h} \<subseteq> set (i # got)" .
  show "Suc ?h \<notin> set (i # got)" using h by simp
qed simp

lemma waiting_insert:
  assumes "waiting hist (set got) n m" and "n < i" and "i \<le> n + 65536" and "Suc i < 2 ^ 64"
  shows "waiting hist (set (i # got)) n (map_store (key_of i) (hist i) m)"
  unfolding waiting_def
proof (intro conjI ballI allI impI)
  fix j assume j: "j \<in> set (i # got)" "n < j"
  then have bound: "j \<le> n + 65536 \<and> Suc j < 2 ^ 64"
    using assms by (auto simp: waiting_def)
  then show "j \<le> n + 65536" "Suc j < 2 ^ 64" by simp_all
  show "map_find (map_store (key_of i) (hist i) m) (key_of j) = Some (hist j)"
  proof (cases "j = i")
    case False
    with j bound assms key_of_inject [of n j i] show ?thesis by (auto simp: waiting_def)
  qed simp
next
  fix k x assume "map_find (map_store (key_of i) (hist i) m) k = Some x"
  with assms show "\<exists>j \<in> set (i # got). n < j \<and> k = key_of j"
    by (auto simp: waiting_def split: if_splits)
qed

lemma waiting_old:
  "waiting hist (set got) n m \<Longrightarrow> i \<le> n \<Longrightarrow> waiting hist (set (i # got)) n m"
  by (auto simp: waiting_def)

lemma unat_u64: "Suc n < 2 ^ 64 \<Longrightarrow> unat (word_of_nat n :: u64) = n"
  by (simp add: word_of_nat_unat_less)

lemma next_le_iff:
  assumes "Suc n < 2 ^ 64" and "Suc i < 2 ^ 64"
  shows "(word_of_nat i :: u64) \<ge> word_of_nat n + 1 \<longleftrightarrow> n < i"
proof -
  have "word_of_nat n + 1 = (word_of_nat (Suc n) :: u64)" by simp
  moreover have "unat (word_of_nat (Suc n) :: u64) = Suc n"
    using assms(1) by (simp add: word_of_nat_unat_less del: of_nat_Suc)
  moreover have "unat (word_of_nat i :: u64) = i" using assms(2) by (rule unat_u64)
  ultimately show ?thesis by (simp only: word_le_nat_alt Suc_le_eq)
qed

lemma handle_message_receiver:
  assumes at: "receiver_at hist got s" and can: "can_send e s" and wf: "msg_wf (hist i)"
    and temp: "tempMsgIn s = put_word (word_of_nat i :: u64) (hist i)"
    and i: "1 \<le> i" "i \<le> gap_free got 0 + 65536" "Suc i < 2 ^ 64"
  shows "\<exists>t. handle_message e flag s = Inr t \<and> receiver_at hist (i # got) t \<and>
    s_open t = s_open s \<and> pongType t = pongType s \<and> pingType t = pingType s"
proof -
  let ?n = "gap_free got 0" and ?g = "gap_free (i # got) 0"
  let ?s = "s\<lparr>tempMsgIn := hist i\<rparr>"
  let ?i = "word_of_nat i :: u64"
  have get: "get_word (tempMsgIn s) = Inr (?i, hist i)" using wf by (simp add: temp)
  have canS: "can_send e ?s" using can by (simp add: can_send_def)
  have "\<exists>u. (if flag \<and> ?i \<le> lastGotId ?s + 1 then tryPong e ?i ?s else Inr ?s) = Inr u \<and>
      same_receiver ?s u \<and> tempMsgIn u = tempMsgIn ?s"
    using tryPong_receiver [OF canS, of ?i] by simp
  then obtain u where u: "(if flag \<and> ?i \<le> lastGotId ?s + 1 then tryPong e ?i ?s else Inr ?s) = Inr u"
    "same_receiver ?s u" "tempMsgIn u = hist i" by auto
  let ?v = "if ?i \<ge> lastGotId u + 1
    then u\<lparr>m_futureMsgMap := map_store (ucast ?i) (tempMsgIn u) (m_futureMsgMap u)\<rparr> else u"
  from at u(2) have n: "lastGotId u = word_of_nat ?n" "Suc ?n < 2 ^ 64"
    "waiting hist (set got) ?n (m_futureMsgMap u)" "queueIn u = map hist [1..<Suc ?n]"
    by (simp_all add: receiver_at_def same_receiver_def)
  have v: "waiting hist (set (i # got)) ?n (m_futureMsgMap ?v)" "lastGotId ?v = word_of_nat ?n"
    "queueIn ?v = map hist [1..<Suc ?n]" "same_receiver u (?v\<lparr>m_futureMsgMap := m_futureMsgMap u\<rparr>)"
    using n waiting_insert [OF n(3) _ i(2,3)] waiting_old [OF n(3), of i]
      next_le_iff [OF n(2) i(3)] u(3)
    by (auto simp: ucast_word_of_nat same_receiver_def not_less)
  from deliver_ready_spec [OF v(1,2) n(2), of 0] obtain m' where
    m': "waiting hist (set (i # got)) ?g m'" "Suc ?g < 2 ^ 64"
    "deliver_ready 0 ?v = (word_of_nat (?g - ?n), ?v\<lparr>queueIn := queueIn ?v @ map hist [Suc ?n..<Suc ?g],
        m_futureMsgMap := m', lastGotId := word_of_nat ?g\<rparr>)"
    by (auto simp: gap_free_insert)
  let ?w = "snd (deliver_ready 0 ?v)"
  have le: "?n \<le> ?g" using gap_free_spec [of ?n "i # got"] by (simp add: gap_free_insert)
  have q: "map hist [1..<Suc ?n] @ map hist [Suc ?n..<Suc ?g] = map hist [1..<Suc ?g]"
    using le by (metis One_nat_def Suc_le_mono Suc_n_not_le_n le_add1 le_add_diff_inverse map_append
        not_less_eq_eq plus_1_eq_Suc upt_add_eq_append)
  have w: "receiver_at hist (i # got) ?w" "can_send e ?w"
    "s_open ?w = s_open s" "pongType ?w = pongType s" "pingType ?w = pingType s"
    using m' v q u(2) can by (auto simp: receiver_at_def can_send_def same_receiver_def)
  have "\<exists>t. (if word_of_nat (?g - ?n) > (1 :: u16) then tryPong e (lastGotId ?w) ?w else Inr ?w) = Inr t \<and>
      same_receiver ?w t"
    using tryPong_receiver [OF w(2), of "lastGotId ?w"] by auto
  then obtain t where t: "(if word_of_nat (?g - ?n) > (1 :: u16) then tryPong e (lastGotId ?w) ?w
      else Inr ?w) = Inr t" "same_receiver ?w t" by blast
  have "handle_message e flag s = Inr t"
  proof -
    have "handle_message e flag s =
        (case deliver_ready 0 ?v of (delta, s) \<Rightarrow> if delta > 1 then tryPong e (lastGotId s) s else Inr s)"
      using get u(1) by (simp only: handle_message_def bindR_Inr Let_def split_conv)
    also have "\<dots> = (if word_of_nat (?g - ?n) > (1 :: u16) then tryPong e (lastGotId ?w) ?w else Inr ?w)"
      using m'(3) by (simp only: split_conv snd_conv prod.case)
    finally show ?thesis using t(1) by simp
  qed
  moreover have "receiver_at hist (i # got) t"
    using w(1) t(2) by (simp add: receiver_at_def same_receiver_def)
  ultimately show ?thesis using w t(2) by (auto simp: same_receiver_def)
qed

lemma receiver_at_update [simp]:
  "receiver_at hist got (s\<lparr>tempMsgIn := m\<rparr>) = receiver_at hist got s"
  "receiver_at hist got (s\<lparr>m_lastClock := c\<rparr>) = receiver_at hist got s"
  "receiver_at hist got (s\<lparr>m_isConnected := b\<rparr>) = receiver_at hist got s"
  "receiver_at hist got (s\<lparr>s_pending := ops\<rparr>) = receiver_at hist got s"
  by (simp_all add: receiver_at_def)

lemma receiver_at_same: "receiver_at hist got s \<Longrightarrow> same_receiver s t \<Longrightarrow> receiver_at hist got t"
  by (simp add: receiver_at_def same_receiver_def)

lemma getId_put_word [simp]: "getId (put_word w m) = getId m"
  by (simp add: getId_def)

lemma recv_frame_receiver:
  assumes at: "receiver_at hist got s" and can: "s_open s" "sends_ok e"
    and app: "app_message s (hist i)"
    and i: "1 \<le> i" "i \<le> gap_free got 0 + 65536" "Suc i < 2 ^ 64"
  shows "\<exists>t. recv_frame hist (e, flag, i) s = Inr t \<and> receiver_at hist (i # got) t \<and>
    s_open t = s_open s \<and> pongType t = pongType s \<and> pingType t = pingType s"
proof -
  let ?m = "put_word (word_of_nat i :: u64) (hist i)"
  let ?s = "mark_alive e (s\<lparr>tempMsgIn := ?m\<rparr>)"
  have wf: "msg_wf (hist i)" and id: "getId (hist i) \<noteq> pongType s" "getId (hist i) \<noteq> pingType s"
    using app by (simp_all add: app_message_def)
  have get: "get_bool (frame hist flag i) = Inr (flag, ?m)" using wf by (simp add: frame_def)
  have s: "receiver_at hist got ?s" "can_send e ?s" "s_open ?s = s_open s" "tempMsgIn ?s = ?m"
    "pongType ?s = pongType s" "pingType ?s = pingType s"
    using at can by (simp_all add: mark_alive_def Let_def checkRepeat_def start_op_def can_send_def)
  from handle_message_receiver [OF s(1,2) wf s(4) i, of flag] obtain t where
    t: "handle_message e flag ?s = Inr t" "receiver_at hist (i # got) t" "s_open t = s_open s"
    "pongType t = pongType s" "pingType t = pingType s"
    using s by auto
  have "can_send e t" using t(3) can by (simp add: can_send_def)
  from after_frame_receiver [OF this] obtain u where
    u: "after_frame e t = Inr u" "same_receiver t u" by blast
  have "dispatch_frame e flag ?s = Inr t"
    using id s t(1) by (simp add: dispatch_frame_def)
  then have "recv_frame hist (e, flag, i) s = Inr u"
    using u(1) by (simp add: recv_frame_def endOfReading_def get)
  then show ?thesis
    using t u(2) receiver_at_same [OF t(2) u(2)] by (intro exI [of _ u]) (simp add: same_receiver_def)
qed

section \<open>Sequences of frames\<close>

fun recv_frames :: "(nat \<Rightarrow> msg) \<Rightarrow> (env \<times> bool \<times> nat) list \<Rightarrow> session \<Rightarrow> session result" where
  "recv_frames hist [] s = Inr s"
| "recv_frames hist (f # fs) s = bindR (recv_frame hist f s) (recv_frames hist fs)"

lemma recv_frames_receiver:
  "receiver_at hist got s \<Longrightarrow> s_open s \<Longrightarrow> \<forall>f \<in> set fs. sends_ok (fst f) \<Longrightarrow>
   \<forall>f \<in> set fs. app_message s (hist (snd (snd f))) \<Longrightarrow> in_window got (map (snd \<circ> snd) fs) \<Longrightarrow>
     \<exists>t. recv_frames hist fs s = Inr t \<and> receiver_at hist (rev (map (snd \<circ> snd) fs) @ got) t"
proof (induction fs arbitrary: got s)
  case (Cons f fs)
  obtain e flag i where f: "f = (e, flag, i)" by (cases f)
  from Cons.prems f obtain t where
    t: "recv_frame hist f s = Inr t" "receiver_at hist (i # got) t" "s_open t = s_open s"
    "pongType t = pongType s" "pingType t = pingType s"
    using recv_frame_receiver [of hist got s e i flag] by auto
  have "\<forall>f \<in> set fs. app_message t (hist (snd (snd f)))"
    using Cons.prems(4) t by (simp add: app_message_def)
  with Cons.IH [OF t(2)] Cons.prems t f show ?case by simp
qed simp

lemma gap_free_Nil [simp]: "gap_free [] n = n"
  by (subst gap_free.simps) simp

lemma gap_free_rev: "gap_free (rev ids) n = gap_free ids n"
  using gap_free_spec [of n ids] by (intro gap_free_unique) simp_all

lemma receiver_at_new:
  "queueIn s = [] \<Longrightarrow> lastGotId s = 0 \<Longrightarrow> m_futureMsgMap s = [] \<Longrightarrow> receiver_at hist [] s"
  by (simp add: receiver_at_def waiting_def)

text \<open>
  C1. Exactly-once delivery in order. Take any sequence of message frames of the peer, in
  any order, with any repetitions and losses, with any flags and clock values, in which the
  frame with id \<open>i\<close> carries the peer's \<open>i\<close>-th message and no id is more than \<open>2 ^ 16\<close> beyond
  the messages delivered so far. Then processing them never faults, and what has been put
  into the server's queue is the peer's messages 1, 2, 3, \<dots> in order, each once, exactly up
  to the last one before the first id that never arrived.
\<close>

theorem delivery_in_order:
  "\<lbrakk>s_open s; queueIn s = []; lastGotId s = 0; m_futureMsgMap s = [];
    \<forall>f \<in> set fs. sends_ok (fst f); \<forall>f \<in> set fs. app_message s (hist (snd (snd f)));
    in_window [] (map (snd \<circ> snd) fs)\<rbrakk> \<Longrightarrow>
   \<exists>t. recv_frames hist fs s = Inr t \<and>
     queueIn t = map hist [1..<Suc (gap_free (map (snd \<circ> snd) fs) 0)] \<and>
     unat (lastGotId t) = gap_free (map (snd \<circ> snd) fs) 0"
proof -
  assume prems: "s_open s" "queueIn s = []" "lastGotId s = 0" "m_futureMsgMap s = []"
    "\<forall>f \<in> set fs. sends_ok (fst f)" "\<forall>f \<in> set fs. app_message s (hist (snd (snd f)))"
    "in_window [] (map (snd \<circ> snd) fs)"
  from recv_frames_receiver [OF receiver_at_new prems(1,5,6,7)] prems(2-4) obtain t where
    "recv_frames hist fs s = Inr t" "receiver_at hist (rev (map (snd \<circ> snd) fs)) t" by auto
  then show ?thesis by (auto simp: receiver_at_def gap_free_rev unat_u64)
qed

definition sample_hist :: "nat \<Rightarrow> msg" where
  "sample_hist i = put_word (word_of_nat i :: u16) (new_message FileRequestMsgType)"

definition sample_session :: session where
  "sample_session =
     (new_session 0 (stun_fresh no_endpoint) 1000 PongMsgType)\<lparr>pingType := PingMsgType\<rparr>"

lemma sample_session_simps [simp]:
  "s_open sample_session" "queueIn sample_session = []" "lastGotId sample_session = 0"
  "m_futureMsgMap sample_session = []" "pongType sample_session = PongMsgType"
  "pingType sample_session = PingMsgType" "s_pending sample_session = []"
  "m_isConnected sample_session = False" "is_writing sample_session = False"
  "lastSentId sample_session = 0" "currentId sample_session = 0"
  "m_latestMsg sample_session = new_queue" "queueOut sample_session = new_queue"
  "s_wire sample_session = []"
  by (simp_all add: sample_session_def new_session_def)

lemma app_sample_hist: "app_message sample_session (sample_hist i)"
  by (simp add: app_message_def sample_hist_def getId_def new_message_def msg_wf_put
      put_word_def hdr_id_put)

lemma upt_1_3: "[1..<3] = [1, 2]"
  by (simp add: upt_rec)

lemma gap_free_2431: "gap_free [2, 1, 1, 4] 0 = 2"
  by (rule gap_free_unique) auto

lemma in_window_2431: "in_window [] [2, 1, 1, 4]"
  by simp

lemma delivery_in_order_witness:
  "\<exists>t. recv_frames sample_hist
        (map (\<lambda>i. (\<lparr>now = i, sends_ok = True\<rparr>, True, i)) [2, 1, 1, 4]) sample_session = Inr t \<and>
     queueIn t = [sample_hist 1, sample_hist 2] \<and> unat (lastGotId t) = 2"
  using delivery_in_order [of sample_session
      "map (\<lambda>i. (\<lparr>now = i, sends_ok = True\<rparr>, True, i)) [2, 1, 1, 4]" sample_hist]
  by (simp add: app_sample_hist gap_free_2431 upt_1_3 del: One_nat_def recv_frames.simps upt_Suc)

lemma next_u64: "word_of_nat n + 1 = (word_of_nat (Suc n) :: u64)"
  by simp

lemma deliver_ready_Nil [simp]: "m_futureMsgMap s = [] \<Longrightarrow> deliver_ready delta s = (delta, s)"
  by (subst deliver_ready.simps) (simp add: Let_def)

lemma deliver_ready_one:
  assumes "lastGotId s = word_of_nat n" and "m_futureMsgMap s = [(key_of (Suc n), m)]"
  shows "deliver_ready delta s =
    (delta + 1, s\<lparr>queueIn := queueIn s @ [m], m_futureMsgMap := [], lastGotId := word_of_nat (Suc n)\<rparr>)"
  using assms ucast_next_key [of n]
  by (subst deliver_ready.simps) (simp add: Let_def map_erase_def)

text \<open>
  The window is tight, because the map of early messages has 16-bit keys and the code
  never checks the distance. A message exactly \<open>2 ^ 16\<close> after the next one expected is stored
  under the next one's key and delivered at once in its place; afterwards the genuine next
  message counts as a repetition and is dropped, so the application gets a message that
  skips 65536 others and never sees the right one.
\<close>

theorem id_aliasing:
  "\<lbrakk>msg_wf m; msg_wf m'; m_futureMsgMap s = []; lastGotId s = word_of_nat n; n + 65538 < 2 ^ 64;
    tempMsgIn s = put_word (word_of_nat (n + 65537) :: u64) m\<rbrakk> \<Longrightarrow>
   \<exists>t. handle_message e flag s = Inr t \<and> queueIn t = queueIn s @ [m] \<and>
     lastGotId t = word_of_nat (n + 1) \<and>
     (\<exists>u. handle_message e False (t\<lparr>tempMsgIn := put_word (word_of_nat (n + 1) :: u64) m'\<rparr>) = Inr u \<and>
        queueIn u = queueIn s @ [m] \<and> lastGotId u = word_of_nat (n + 1))"
proof -
  assume prems: "msg_wf m" "msg_wf m'" "m_futureMsgMap s = []" "lastGotId s = word_of_nat n"
    "n + 65538 < 2 ^ 64" "tempMsgIn s = put_word (word_of_nat (n + 65537) :: u64) m"
  let ?i = "word_of_nat (n + 65537) :: u64"
  let ?t = "s\<lparr>tempMsgIn := m, queueIn := queueIn s @ [m], lastGotId := word_of_nat (Suc n)\<rparr>"
  have lt: "Suc n < 2 ^ 64" "Suc (n + 65537) < 2 ^ 64" "Suc (Suc n) < 2 ^ 64" using prems(5) by simp_all
  have get: "get_word (tempMsgIn s) = Inr (?i, m)" using prems(1) by (simp only: prems(6) get_word_put_word_u64)
  have key: "ucast ?i = key_of (Suc n)"
    using mod_add_self2 [of "Suc n" 65536] unfolding ucast_word_of_nat by (simp add: key_of_eq add.commute)
  have ge: "?i \<ge> lastGotId s + 1" using next_le_iff [OF lt(1,2)] by (simp only: prems(4))
  have not_le: "\<not> ?i \<le> lastGotId s + 1"
  proof -
    have "unat (word_of_nat n + 1 :: u64) = Suc n"
      unfolding next_u64 by (rule word_of_nat_unat_less) (use lt in simp)
    with lt(2) unat_u64 [OF lt(2)] show ?thesis unfolding prems(4) word_le_nat_alt by simp
  qed
  let ?v = "s\<lparr>tempMsgIn := m, m_futureMsgMap := [(key_of (Suc n), m)]\<rparr>"
  have "deliver_ready 0 ?v = (0 + 1, ?v\<lparr>queueIn := queueIn ?v @ [m], m_futureMsgMap := [],
      lastGotId := word_of_nat (Suc n)\<rparr>)"
    using prems(4) by (intro deliver_ready_one) simp_all
  then have deliver: "deliver_ready 0 ?v = (1, ?t)" using prems(3) by simp
  have "handle_message e flag s = Inr ?t"
    unfolding handle_message_def get bindR_Inr split_conv Let_def
    using ge not_le prems(3) deliver by (simp add: key del: of_nat_add of_nat_Suc)
  moreover have "handle_message e False (?t\<lparr>tempMsgIn := put_word (word_of_nat (n + 1) :: u64) m'\<rparr>) =
      Inr (?t\<lparr>tempMsgIn := m'\<rparr>)"
  proof -
    have "\<not> word_of_nat (Suc n) \<ge> (word_of_nat (Suc n) + 1 :: u64)"
      using next_le_iff [OF lt(3), of "Suc n"] lt by simp
    with prems(2,3) show ?thesis
      by (simp add: handle_message_def Let_def del: of_nat_Suc)
  qed
  ultimately show ?thesis by simp
qed

lemma id_aliasing_witness:
  "\<exists>t. handle_message \<lparr>now = 0, sends_ok = True\<rparr> True
       (sample_session\<lparr>tempMsgIn := put_word (word_of_nat 65537 :: u64) (sample_hist 65537)\<rparr>) = Inr t \<and>
     queueIn t = [sample_hist 65537]"
  using id_aliasing [of "sample_hist 65537" "sample_hist 1"
      "sample_session\<lparr>tempMsgIn := put_word (word_of_nat 65537 :: u64) (sample_hist 65537)\<rparr>" 0
      "\<lparr>now = 0, sends_ok = True\<rparr>" True]
  by (auto simp: sample_hist_def)

end
