(* ===== verification/Session_Send.thy ===== *)
theory Session_Send
  imports Session_Receive
begin

text \<open>
  The sending half of a session. \<open>hist i\<close> is the \<open>i\<close>-th message the node gives to \<open>send\<close>; the
  invariant says where each of them is: not yet written (in the queue, behind repetitions of
  older ones), being written, or kept until the peer acknowledges it. It holds in every
  state a session can reach, whatever the network, the clock and the peer do.
\<close>

section \<open>Acknowledgements\<close>

lemma drop_acked_pops:
  "drop_acked p l q = Inr q' \<Longrightarrow> \<exists>j. deque q' = drop j (deque q)"
proof (induction p l q arbitrary: q' rule: drop_acked.induct)
  case (1 p l q)
  show ?case
  proof (cases "p + word_of_nat (queue_size q) > l")
    case True
    with "1.prems" obtain x r where r: "pop_front q = Inr (x, r)" "drop_acked p l r = Inr q'"
      by (subst (asm) drop_acked.simps) (auto split: sum.splits)
    from "1.IH" [OF True r(1) refl r(2)] obtain j where j: "deque q' = drop j (deque r)" ..
    from r(1) have "deque r = drop 1 (deque q)" by (auto simp: pop_front_def split: list.splits)
    with j have "deque q' = drop (Suc j) (deque q)" by (simp add: drop_Suc drop_tl)
    then show ?thesis by blast
  next
    case False
    with "1.prems" have "q' = q" by (subst (asm) drop_acked.simps) simp
    then show ?thesis by (metis drop_0)
  qed
qed

lemma queue_eta [simp]: "\<lparr>deque = deque (q :: 'a safe_queue)\<rparr> = q"
  by simp

lemma drop_acked_eq:
  assumes "unat p + length xs < 2 ^ 64"
  shows "drop_acked p l \<lparr>deque = xs\<rparr> =
    (if l < p then Inl EmptyDeque
     else Inr \<lparr>deque = drop (length xs - (unat l - unat p)) xs\<rparr>)"
  using assms
proof (induction xs)
  case Nil
  then show ?case
    by (subst drop_acked.simps) (auto simp: queue_size_def pop_front_def)
next
  case (Cons x xs)
  let ?n = "Suc (length xs)"
  have "unat (p + word_of_nat ?n) = unat p + ?n"
  proof -
    have "unat (word_of_nat ?n :: u64) = ?n"
      using Cons.prems by (simp add: word_of_nat_unat_less del: of_nat_Suc)
    then show ?thesis using Cons.prems by (simp add: unat_add_lem [THEN iffD1] del: of_nat_Suc)
  qed
  then have gt: "p + word_of_nat ?n > l \<longleftrightarrow> unat l < unat p + ?n"
    by (simp only: word_less_nat_alt)
  show ?case
  proof (cases "unat l < unat p + ?n")
    case True
    have "drop_acked p l \<lparr>deque = x # xs\<rparr> = drop_acked p l \<lparr>deque = xs\<rparr>"
      using True gt by (subst drop_acked.simps) (simp add: queue_size_def pop_front_def)
    moreover have "\<not> l < p \<Longrightarrow> ?n - (unat l - unat p) = Suc (length xs - (unat l - unat p))"
      using True by (simp add: word_less_nat_alt)
    ultimately show ?thesis using Cons by simp
  next
    case False
    then have "\<not> l < p" "?n - (unat l - unat p) = 0" by (simp_all add: word_less_nat_alt)
    moreover have "drop_acked p l \<lparr>deque = x # xs\<rparr> = Inr \<lparr>deque = x # xs\<rparr>"
      using False gt by (subst drop_acked.simps) (simp add: queue_size_def)
    ultimately show ?thesis by simp
  qed
qed

section \<open>The invariant of the sending half\<close>

abbreviation fr :: "(nat \<Rightarrow> msg) \<Rightarrow> nat \<Rightarrow> msg" where
  "fr hist i \<equiv> frame hist True i"

definition kept_ids :: "session \<Rightarrow> nat list" where
  "kept_ids s = (let L = unat (lastSentId s) in [Suc L - queue_size (m_latestMsg s)..<Suc L])"

text \<open>\<open>fresh\<close>: the id of the first message that has never been written, or is being written.\<close>

definition queued_from :: "(nat \<Rightarrow> msg) \<Rightarrow> nat \<Rightarrow> session \<Rightarrow> bool" where
  "queued_from hist f s \<longleftrightarrow>
     (\<exists>rs. set rs \<subseteq> {1..unat (lastSentId s)} \<and>
        deque (queueOut s) = map (fr hist) rs @ map (fr hist) [f..<Suc (unat (currentId s))])"

definition sender_inv :: "(nat \<Rightarrow> msg) \<Rightarrow> session \<Rightarrow> bool" where
  "sender_inv hist s \<longleftrightarrow>
     (let L = unat (lastSentId s); C = unat (currentId s) in
      L \<le> C \<and> Suc C < 2 ^ 64 \<and> (\<forall>i \<in> {1..C}. msg_wf (hist i)) \<and>
      queue_size (m_latestMsg s) \<le> L \<and>
      map mem_msg (deque (m_latestMsg s)) = map (fr hist) (kept_ids s) \<and>
      (if is_writing s
       then (\<exists>t \<in> {1..L}. tempMsgOut s = fr hist t) \<and> queued_from hist (Suc L) s \<or>
            tempMsgOut s = fr hist (Suc L) \<and> Suc L \<le> C \<and> queued_from hist (Suc (Suc L)) s
       else queued_from hist (Suc L) s))"

definition sender_view where
  "sender_view s = (queueOut s, tempMsgOut s, m_latestMsg s, lastSentId s, currentId s, is_writing s)"

lemma sender_inv_view: "sender_view s = sender_view t \<Longrightarrow> sender_inv hist s = sender_inv hist t"
  by (simp add: sender_inv_def queued_from_def sender_view_def kept_ids_def)

lemma sender_view_update [simp]:
  "sender_view (s\<lparr>tempMsgIn := a\<rparr>) = sender_view s"
  "sender_view (s\<lparr>m_lastClock := b\<rparr>) = sender_view s"
  "sender_view (s\<lparr>m_isConnected := c\<rparr>) = sender_view s"
  "sender_view (s\<lparr>s_pending := d\<rparr>) = sender_view s"
  "sender_view (s\<lparr>s_wire := f\<rparr>) = sender_view s"
  "sender_view (s\<lparr>shouldPong := c\<rparr>) = sender_view s"
  "sender_view (s\<lparr>shouldPing := c\<rparr>) = sender_view s"
  "sender_view (s\<lparr>m_maxPong := g\<rparr>) = sender_view s"
  "sender_view (s\<lparr>pingType := h\<rparr>) = sender_view s"
  "sender_view (s\<lparr>s_open := c\<rparr>) = sender_view s"
  "sender_view (s\<lparr>s_stun := i\<rparr>) = sender_view s"
  "sender_view (s\<lparr>remoteEp := j\<rparr>) = sender_view s"
  "sender_view (s\<lparr>tempEp := j\<rparr>) = sender_view s"
  "sender_view (s\<lparr>queueIn := k\<rparr>) = sender_view s"
  "sender_view (s\<lparr>lastGotId := g\<rparr>) = sender_view s"
  "sender_view (s\<lparr>m_futureMsgMap := l\<rparr>) = sender_view s"
  by (simp_all add: sender_view_def)

lemma sender_inv_update [simp]:
  "sender_inv hist (s\<lparr>s_pending := d\<rparr>) = sender_inv hist s"
  "sender_inv hist (s\<lparr>s_wire := f\<rparr>) = sender_inv hist s"
  "sender_inv hist (s\<lparr>s_open := c\<rparr>) = sender_inv hist s"
  by (rule sender_inv_view; simp)+

section \<open>The datagrams on the wire\<close>

text \<open>
  A message is two datagrams. While one is under way nothing else may come between its
  header and its body, and its body has the size its header says.
\<close>

definition is_send :: "session_op \<Rightarrow> bool" where
  "is_send op = (case op of SendHeader _ \<Rightarrow> True | SendBody _ \<Rightarrow> True | _ \<Rightarrow> False)"

lemma is_send_simps [simp]:
  "is_send (SendHeader b)" "is_send (SendBody b)" "\<not> is_send RecvHeader" "\<not> is_send RecvBody"
  "\<not> is_send (RepeatWait a)" "\<not> is_send PingWait" "\<not> is_send (ConnectTo ep)"
  "\<not> is_send PostRead" "\<not> is_send PostClose"
  by (simp_all add: is_send_def)

definition sends :: "session \<Rightarrow> session_op list" where
  "sends s = filter is_send (s_pending s)"

definition head_of :: "msg \<Rightarrow> u8 list" where
  "head_of m = header_image (m_header m)"

definition frame_ok :: "msg \<Rightarrow> bool" where
  "frame_ok m \<longleftrightarrow> msg_wf m \<and> m_body m \<noteq> []"

definition whole_frames :: "u8 list list \<Rightarrow> bool" where
  "whole_frames w \<longleftrightarrow>
     (\<exists>ms. list_all frame_ok ms \<and> w = concat (map (\<lambda>m. [head_of m, m_body m]) ms))"

definition out_inv :: "session \<Rightarrow> bool" where
  "out_inv s \<longleftrightarrow>
     (if \<not> is_writing s then sends s = [] \<and> whole_frames (s_wire s)
      else frame_ok (tempMsgOut s) \<and>
        (sends s = [SendHeader (head_of (tempMsgOut s))] \<and> whole_frames (s_wire s) \<or>
         sends s = [SendBody (m_body (tempMsgOut s))] \<and>
           (\<exists>w. whole_frames w \<and> s_wire s = w @ [head_of (tempMsgOut s)]) \<or>
         sends s = [] \<and> \<not> s_open s \<and>
           (\<exists>w. whole_frames w \<and> (s_wire s = w \<or> s_wire s = w @ [head_of (tempMsgOut s)]))))"

definition full_inv :: "(nat \<Rightarrow> msg) \<Rightarrow> session \<Rightarrow> bool" where
  "full_inv hist s \<longleftrightarrow> sender_inv hist s \<and> out_inv s"

definition full_view where
  "full_view s = (sender_view s, s_wire s, sends s, s_open s)"

lemma full_inv_view: "full_view s = full_view t \<Longrightarrow> full_inv hist s = full_inv hist t"
  using sender_inv_view [of s t hist]
  by (simp add: full_inv_def out_inv_def full_view_def) (simp add: sender_view_def)

lemma full_view_update [simp]:
  "full_view (s\<lparr>tempMsgIn := a\<rparr>) = full_view s"
  "full_view (s\<lparr>m_lastClock := b\<rparr>) = full_view s"
  "full_view (s\<lparr>m_isConnected := c\<rparr>) = full_view s"
  "full_view (s\<lparr>shouldPong := c\<rparr>) = full_view s"
  "full_view (s\<lparr>shouldPing := c\<rparr>) = full_view s"
  "full_view (s\<lparr>m_maxPong := g\<rparr>) = full_view s"
  "full_view (s\<lparr>pingType := h\<rparr>) = full_view s"
  "full_view (s\<lparr>s_stun := i\<rparr>) = full_view s"
  "full_view (s\<lparr>remoteEp := j\<rparr>) = full_view s"
  "full_view (s\<lparr>tempEp := j\<rparr>) = full_view s"
  "full_view (s\<lparr>queueIn := k\<rparr>) = full_view s"
  "full_view (s\<lparr>lastGotId := g\<rparr>) = full_view s"
  "full_view (s\<lparr>m_futureMsgMap := l\<rparr>) = full_view s"
  by (simp_all add: full_view_def sends_def)

lemma full_inv_update [simp]:
  "full_inv hist (s\<lparr>tempMsgIn := a\<rparr>) = full_inv hist s"
  "full_inv hist (s\<lparr>m_lastClock := b\<rparr>) = full_inv hist s"
  "full_inv hist (s\<lparr>m_isConnected := c\<rparr>) = full_inv hist s"
  "full_inv hist (s\<lparr>shouldPong := c\<rparr>) = full_inv hist s"
  "full_inv hist (s\<lparr>shouldPing := c\<rparr>) = full_inv hist s"
  "full_inv hist (s\<lparr>m_maxPong := g\<rparr>) = full_inv hist s"
  "full_inv hist (s\<lparr>pingType := h\<rparr>) = full_inv hist s"
  "full_inv hist (s\<lparr>s_stun := i\<rparr>) = full_inv hist s"
  "full_inv hist (s\<lparr>remoteEp := j\<rparr>) = full_inv hist s"
  "full_inv hist (s\<lparr>tempEp := j\<rparr>) = full_inv hist s"
  "full_inv hist (s\<lparr>queueIn := k\<rparr>) = full_inv hist s"
  "full_inv hist (s\<lparr>lastGotId := g\<rparr>) = full_inv hist s"
  "full_inv hist (s\<lparr>m_futureMsgMap := l\<rparr>) = full_inv hist s"
  by (rule full_inv_view; simp)+

lemma full_view_start_op [simp]: "\<not> is_send op \<Longrightarrow> full_view (start_op op s) = full_view s"
  by (simp add: full_view_def sends_def start_op_def)

lemma sends_checkRepeat: "sends (checkRepeat s) = sends s"
proof -
  have "filter is_send (map (\<lambda>op. case op of RepeatWait _ \<Rightarrow> RepeatWait True | _ \<Rightarrow> op) ops) =
      filter is_send ops" for ops
    by (induction ops) (auto simp: is_send_def split: session_op.splits)
  then show ?thesis by (simp add: sends_def checkRepeat_def start_op_def)
qed

lemma full_view_checkRepeat [simp]: "full_view (checkRepeat s) = full_view s"
  by (simp add: full_view_def sends_checkRepeat) (simp add: checkRepeat_def start_op_def)

lemma full_inv_quiet [simp]:
  "\<not> is_send op \<Longrightarrow> full_inv hist (start_op op s) = full_inv hist s"
  "full_inv hist (checkRepeat s) = full_inv hist s"
  by (rule full_inv_view; simp)+

lemma full_inv_disconnect: "full_inv hist s \<Longrightarrow> full_inv hist (s\<lparr>s_open := False\<rparr>)"
  by (auto simp: full_inv_def out_inv_def sends_def)

section \<open>Synchronous sends\<close>

lemma whole_frames_snoc:
  "whole_frames w \<Longrightarrow> frame_ok m \<Longrightarrow> whole_frames (w @ [head_of m, m_body m])"
  unfolding whole_frames_def
proof (elim exE conjE)
  fix ms assume "frame_ok m" "list_all frame_ok ms"
    "w = concat (map (\<lambda>m. [head_of m, m_body m]) ms)"
  then show "\<exists>ms. list_all frame_ok ms \<and>
      w @ [head_of m, m_body m] = concat (map (\<lambda>m. [head_of m, m_body m]) ms)"
    by (intro exI [of _ "ms @ [m]"]) simp
qed

lemma frame_ok_put_bool [simp]: "frame_ok (put_bool b m)"
  by (simp add: frame_ok_def) (simp add: put_bool_def m_body_put bool_pod_def)

lemma frame_ok_frame [simp]: "frame_ok (frame hist flag i)"
  by (simp add: frame_def)

lemma sendNoAnswer_inv:
  assumes "sendNoAnswer e m s = Inr (m', t)" and "full_inv hist s" and "\<not> is_writing s"
  shows "full_inv hist t \<and> \<not> is_writing t"
proof -
  from assms(1) have t: "t = s\<lparr>s_wire := s_wire s @ [head_of (put_bool False m), m_body (put_bool False m)]\<rparr>"
    by (auto simp: sendNoAnswer_def socket_send_def to_wire_def Let_def bindR_eq_Inr head_of_def
        split: if_splits)
  from assms(2,3) show ?thesis
    by (simp add: t full_inv_def out_inv_def whole_frames_snoc sends_def)
qed

lemma ping_inv: "ping e p s = Inr t \<Longrightarrow> full_inv hist s \<Longrightarrow> full_inv hist t"
  by (auto simp: ping_def Let_def bindR_eq_Inr split: if_splits dest!: sendNoAnswer_inv)

lemma pong_inv:
  "pong e p s = Inr t \<Longrightarrow> full_inv hist s \<Longrightarrow> \<not> is_writing s \<Longrightarrow> full_inv hist t \<and> \<not> is_writing t"
  by (auto simp: pong_def bindR_eq_Inr dest!: sendNoAnswer_inv)

lemma tryPong_inv: "tryPong e p s = Inr t \<Longrightarrow> full_inv hist s \<Longrightarrow> full_inv hist t"
  by (auto simp: tryPong_def split: if_splits dest: pong_inv)

lemma deliver_ready_view: "full_view (snd (deliver_ready d s)) = full_view s"
proof (induction d s rule: deliver_ready.induct)
  case (1 d s)
  then show ?case
    by (subst deliver_ready.simps) (auto simp: Let_def split: option.splits)
qed

lemma deliver_ready_inv:
  "deliver_ready d s = (d', t) \<Longrightarrow> full_inv hist t = full_inv hist s"
  using deliver_ready_view [of d s] by (intro full_inv_view) simp

lemma handle_message_inv:
  assumes "handle_message e flag s = Inr t" and "full_inv hist s"
  shows "full_inv hist t"
proof -
  from assms(1) obtain i m u where
    u: "(if flag \<and> i \<le> lastGotId (s\<lparr>tempMsgIn := m\<rparr>) + 1 then tryPong e i (s\<lparr>tempMsgIn := m\<rparr>)
         else Inr (s\<lparr>tempMsgIn := m\<rparr>)) = Inr u"
    and t: "(case deliver_ready 0 (if i \<ge> lastGotId u + 1
              then u\<lparr>m_futureMsgMap := map_store (ucast i) (tempMsgIn u) (m_futureMsgMap u)\<rparr> else u) of
          (delta, s) \<Rightarrow> if delta > 1 then tryPong e (lastGotId s) s else Inr s) = Inr t"
    by (auto simp: handle_message_def bindR_eq_Inr Let_def)
  have u': "full_inv hist u"
    using u assms(2) by (auto split: if_splits dest!: tryPong_inv [where hist = hist])
  obtain d v where dv: "deliver_ready 0 (if i \<ge> lastGotId u + 1
      then u\<lparr>m_futureMsgMap := map_store (ucast i) (tempMsgIn u) (m_futureMsgMap u)\<rparr> else u) = (d, v)"
    by (metis surj_pair)
  have "full_inv hist v"
    using deliver_ready_inv [OF dv, of hist] u' by (simp split: if_splits)
  then show ?thesis
    using t by (auto simp: dv split: if_splits dest: tryPong_inv)
qed

section \<open>Every operation keeps the invariant\<close>

lemma get_bool_frame:
  "msg_wf (hist i) \<Longrightarrow> get_bool (frame hist flag i) = Inr (flag, put_word (word_of_nat i :: u64) (hist i))"
  by (simp add: frame_def)

lemma frame_again:
  "put_bool flag (put_word (word_of_nat i :: u64) (hist i)) = frame hist flag i"
  by (simp add: frame_def)

lemma writeHeader_sender:
  assumes inv: "sender_inv hist s" and idle: "\<not> is_writing s" and w: "writeHeader s = Inr t"
  shows "sender_inv hist t"
proof -
  let ?L = "unat (lastSentId s)" and ?C = "unat (currentId s)"
  obtain m q where pop: "pop_front (queueOut s) = Inr (m, q)"
    and t: "t = start_op (SendHeader (header_image (m_header m)))
         (s\<lparr>is_writing := True, queueOut := q, tempMsgOut := m\<rparr>)"
    using w by (auto simp: writeHeader_def bindR_eq_Inr)
  from pop have dq: "deque (queueOut s) = m # deque q"
    by (auto simp: pop_front_def split: list.splits)
  from inv idle obtain rs where rs: "set rs \<subseteq> {1..?L}"
    "deque (queueOut s) = map (fr hist) rs @ map (fr hist) [Suc ?L..<Suc ?C]"
    by (auto simp: sender_inv_def queued_from_def Let_def)
  have "(\<exists>i \<in> {1..?L}. m = fr hist i) \<and> queued_from hist (Suc ?L) t \<or>
      m = fr hist (Suc ?L) \<and> Suc ?L \<le> ?C \<and> queued_from hist (Suc (Suc ?L)) t"
  proof (cases rs)
    case Nil
    then have ne: "Suc ?L < Suc ?C" using rs(2) dq by (cases "Suc ?L < Suc ?C") auto
    then have "[Suc ?L..<Suc ?C] = Suc ?L # [Suc (Suc ?L)..<Suc ?C]" by (rule upt_conv_Cons)
    with Nil rs(2) dq have "m = fr hist (Suc ?L)" "deque q = map (fr hist) [Suc (Suc ?L)..<Suc ?C]"
      by simp_all
    with ne show ?thesis by (auto simp: t queued_from_def start_op_def intro!: exI [of _ "[]"])
  next
    case (Cons r rs')
    with rs dq have "m = fr hist r" "r \<in> {1..?L}" "set rs' \<subseteq> {1..?L}"
      "deque q = map (fr hist) rs' @ map (fr hist) [Suc ?L..<Suc ?C]" by auto
    then show ?thesis by (auto simp: t queued_from_def start_op_def intro!: exI [of _ rs'])
  qed
  with inv idle show ?thesis
    by (auto simp: sender_inv_def Let_def t start_op_def kept_ids_def)
qed

lemma queued_from_view:
  "queueOut t = queueOut s \<Longrightarrow> lastSentId t = lastSentId s \<Longrightarrow> currentId t = currentId s \<Longrightarrow>
     queued_from hist f t = queued_from hist f s"
  by (simp add: queued_from_def)

definition queued :: "msg \<Rightarrow> session \<Rightarrow> session" where
  "queued m s = s\<lparr>currentId := currentId s + 1,
     queueOut := push_back (put_bool True (put_word (currentId s + 1) m)) (queueOut s)\<rparr>"

lemma queued_simps [simp]:
  "is_writing (queued m s) = is_writing s" "m_isConnected (queued m s) = m_isConnected s"
  "currentId (queued m s) = currentId s + 1" "tempMsgOut (queued m s) = tempMsgOut s"
  "s_wire (queued m s) = s_wire s" "s_open (queued m s) = s_open s"
  "s_pending (queued m s) = s_pending s"
  by (simp_all add: queued_def)

lemma send_eq:
  "msg_wf m \<Longrightarrow> send m s =
     bindR (if \<not> is_writing s \<and> m_isConnected s then writeHeader (queued m s) else Inr (queued m s))
       (\<lambda>v. Inr (m, v\<lparr>currentId := currentId s + 1\<rparr>))"
  by (simp add: send_def Let_def queued_def)

lemma send_sender:
  assumes inv: "sender_inv hist s" and m: "m = hist (Suc (unat (currentId s)))" "msg_wf m"
    and room: "Suc (Suc (unat (currentId s))) < 2 ^ 64" and snd: "send m s = Inr (m', t)"
  shows "sender_inv hist t \<and> m' = m \<and> unat (currentId t) = Suc (unat (currentId s))"
proof -
  let ?L = "unat (lastSentId s)" and ?C = "unat (currentId s)"
  let ?u = "s\<lparr>currentId := currentId s + 1, queueOut := push_back (fr hist (Suc ?C)) (queueOut s)\<rparr>"
  have C: "unat (currentId s + 1) = Suc ?C"
    using room by (simp add: unatSuc word_neq_0_conv unat_eq_zero unat_plus_if')
  have id: "currentId s + 1 = word_of_nat (Suc ?C)" by (simp add: C [symmetric] del: of_nat_Suc)
  have q: "queued_from hist f ?u" if "queued_from hist f s" "f \<le> Suc ?C" for f
  proof -
    from that(1) obtain rs where rs: "set rs \<subseteq> {1..?L}"
      "deque (queueOut s) = map (fr hist) rs @ map (fr hist) [f..<Suc ?C]"
      by (auto simp: queued_from_def)
    with that(2) have "deque (queueOut ?u) = map (fr hist) rs @ map (fr hist) [f..<Suc (Suc ?C)]"
      by (simp add: push_back_def)
    with rs(1) C show ?thesis by (auto simp: queued_from_def)
  qed
  have wf: "\<forall>i \<in> {1..Suc ?C}. msg_wf (hist i)"
    using inv m(1,2) by (auto simp: sender_inv_def Let_def atLeastAtMostSuc_conv)
  have view: "kept_ids ?u = kept_ids s" by (simp add: kept_ids_def)
  from inv have L: "?L \<le> ?C" "queue_size (m_latestMsg s) \<le> ?L"
    "map mem_msg (deque (m_latestMsg s)) = map (fr hist) (kept_ids s)"
    by (simp_all add: sender_inv_def Let_def)
  have inv_u: "sender_inv hist ?u"
  proof (cases "is_writing s")
    case True
    with inv have "(\<exists>t \<in> {1..?L}. tempMsgOut s = fr hist t) \<and> queued_from hist (Suc ?L) s \<or>
        tempMsgOut s = fr hist (Suc ?L) \<and> Suc ?L \<le> ?C \<and> queued_from hist (Suc (Suc ?L)) s"
      by (simp add: sender_inv_def Let_def)
    with L(1) have "(\<exists>t \<in> {1..?L}. tempMsgOut s = fr hist t) \<and> queued_from hist (Suc ?L) ?u \<or>
        tempMsgOut s = fr hist (Suc ?L) \<and> Suc ?L \<le> Suc ?C \<and> queued_from hist (Suc (Suc ?L)) ?u"
      using q [of "Suc ?L"] q [of "Suc (Suc ?L)"] by fastforce
    with True L wf room show ?thesis
      by (simp add: sender_inv_def Let_def C view del: upt_Suc)
  next
    case False
    with inv have "queued_from hist (Suc ?L) s" by (simp add: sender_inv_def Let_def)
    with False L wf room q [of "Suc ?L"] show ?thesis
      by (simp add: sender_inv_def Let_def C view del: upt_Suc)
  qed
  have u: "?u = queued m s" using m(1) by (simp add: queued_def frame_def id)
  obtain v where v: "(if \<not> is_writing s \<and> m_isConnected s then writeHeader ?u else Inr ?u) = Inr v"
    and t: "m' = m \<and> t = v\<lparr>currentId := currentId s + 1\<rparr>"
    using snd m(2) unfolding u by (auto simp: send_eq bindR_eq_Inr)
  have inv_v: "sender_inv hist v"
    using v inv_u writeHeader_sender [of hist ?u v] by (auto split: if_splits)
  have "currentId v = currentId s + 1"
    using v by (auto simp: writeHeader_def bindR_eq_Inr start_op_def split: if_splits)
  then have "t = v" using t by simp
  with inv_v t C \<open>currentId v = currentId s + 1\<close> show ?thesis by simp
qed

lemma sends_queued [simp]: "sends (queued m s) = sends s"
  by (simp add: sends_def)

lemma writeHeader_inv:
  assumes inv: "full_inv hist s" and idle: "\<not> is_writing s" and w: "writeHeader s = Inr t"
  shows "full_inv hist t"
proof -
  obtain m q where pop: "pop_front (queueOut s) = Inr (m, q)"
    and t: "t = start_op (SendHeader (head_of m))
         (s\<lparr>is_writing := True, queueOut := q, tempMsgOut := m\<rparr>)"
    using w by (auto simp: writeHeader_def bindR_eq_Inr head_of_def)
  have "sender_inv hist t" using writeHeader_sender [OF _ idle w] inv by (simp add: full_inv_def)
  moreover have "frame_ok m"
  proof -
    from inv idle obtain rs where
      "deque (queueOut s) = map (fr hist) rs @ map (fr hist) [Suc (unat (lastSentId s))..<Suc (unat (currentId s))]"
      by (auto simp: full_inv_def sender_inv_def queued_from_def Let_def)
    moreover have "m \<in> set (deque (queueOut s))"
      using pop by (auto simp: pop_front_def split: list.splits)
    ultimately show ?thesis by auto
  qed
  ultimately show ?thesis
    using inv idle by (simp add: full_inv_def out_inv_def t start_op_def sends_def)
qed

lemma send_inv:
  assumes inv: "full_inv hist s" and m: "m = hist (Suc (unat (currentId s)))" "msg_wf m"
    and room: "Suc (Suc (unat (currentId s))) < 2 ^ 64" and snd: "send m s = Inr (m', t)"
  shows "full_inv hist t"
proof -
  have "sender_inv hist t" using send_sender [of hist s m m' t] m room snd inv by (simp add: full_inv_def)
  moreover have "out_inv t"
  proof -
    let ?u = "queued m s"
    obtain v where v: "(if \<not> is_writing s \<and> m_isConnected s then writeHeader ?u else Inr ?u) = Inr v"
      "t = v\<lparr>currentId := currentId s + 1\<rparr>"
      using snd m(2) by (auto simp: send_eq bindR_eq_Inr)
    show ?thesis
    proof (cases "\<not> is_writing s \<and> m_isConnected s")
      case False
      then have "t = ?u" using v by auto
      then show ?thesis using inv by (simp add: full_inv_def out_inv_def)
    next
      case True
      with v(1) obtain q x where q: "pop_front (queueOut ?u) = Inr (x, q)"
        "v = start_op (SendHeader (head_of x)) (?u\<lparr>is_writing := True, queueOut := q, tempMsgOut := x\<rparr>)"
        by (auto simp: writeHeader_def bindR_eq_Inr head_of_def)
      have "x \<in> set (deque (queueOut s)) \<or> x = put_bool True (put_word (currentId s + 1) m)"
        using q(1) by (cases "deque (queueOut s)") (auto simp: pop_front_def push_back_def queued_def)
      moreover have "frame_ok y" if "y \<in> set (deque (queueOut s))" for y
        using that inv True by (auto simp: full_inv_def sender_inv_def queued_from_def Let_def)
      ultimately have "frame_ok x" by auto
      then show ?thesis using inv True v(2) q(2)
        by (simp add: full_inv_def out_inv_def start_op_def sends_def)
    qed
  qed
  ultimately show ?thesis by (simp add: full_inv_def)
qed

text \<open>What holds when the last datagram of a message has just been written.\<close>

definition written_inv :: "(nat \<Rightarrow> msg) \<Rightarrow> session \<Rightarrow> bool" where
  "written_inv hist s \<longleftrightarrow>
     sender_inv hist s \<and> is_writing s \<and> sends s = [] \<and> whole_frames (s_wire s)"

lemma kept_ids_snoc:
  assumes "queue_size (m_latestMsg s) \<le> unat (lastSentId s)" and "Suc (unat (lastSentId s)) < 2 ^ 64"
  shows "kept_ids (s\<lparr>lastSentId := lastSentId s + 1, m_latestMsg := push_back x (m_latestMsg s)\<rparr>) =
    kept_ids s @ [Suc (unat (lastSentId s))]"
proof -
  have "unat (lastSentId s + 1) = Suc (unat (lastSentId s))"
    using assms(2) by (simp add: unat_plus_if')
  with assms(1) show ?thesis
    by (simp add: kept_ids_def queue_size_def push_back_def Suc_diff_le Let_def)
qed

lemma sender_written_new:
  assumes inv: "sender_inv hist s" and w: "is_writing s" "tempMsgOut s = fr hist (Suc (unat (lastSentId s)))"
    and q: "Suc (unat (lastSentId s)) \<le> unat (currentId s)" "queued_from hist (Suc (Suc (unat (lastSentId s)))) s"
  shows "sender_inv hist (s\<lparr>is_writing := False, lastSentId := lastSentId s + 1,
    m_latestMsg := push_back \<lparr>mem_msg = tempMsgOut s, mem_time = c\<rparr> (m_latestMsg s)\<rparr>)"
proof -
  let ?L = "unat (lastSentId s)" and ?C = "unat (currentId s)"
  let ?x = "\<lparr>mem_msg = tempMsgOut s, mem_time = c\<rparr>"
  let ?t = "s\<lparr>is_writing := False, lastSentId := lastSentId s + 1, m_latestMsg := push_back ?x (m_latestMsg s)\<rparr>"
  from inv have C: "Suc ?C < 2 ^ 64" and k: "queue_size (m_latestMsg s) \<le> ?L"
    and m: "map mem_msg (deque (m_latestMsg s)) = map (fr hist) (kept_ids s)"
    and wf: "\<forall>i \<in> {1..?C}. msg_wf (hist i)"
    by (simp_all add: sender_inv_def Let_def)
  have L: "unat (lastSentId s + 1) = Suc ?L" using q(1) C by (simp add: unat_plus_if')
  have "kept_ids ?t = kept_ids s @ [Suc ?L]"
    using kept_ids_snoc [OF k, of ?x] q(1) C by (simp add: kept_ids_def)
  then have "map mem_msg (deque (m_latestMsg ?t)) = map (fr hist) (kept_ids ?t)"
    using m w(2) by (simp add: push_back_def)
  moreover have "queued_from hist (Suc (Suc ?L)) ?t"
  proof -
    from q(2) obtain rs where rs: "set rs \<subseteq> {1..?L}"
      "deque (queueOut s) = map (fr hist) rs @ map (fr hist) [Suc (Suc ?L)..<Suc ?C]"
      by (auto simp: queued_from_def)
    moreover have "{1..?L} \<subseteq> {1..Suc ?L}" by auto
    ultimately show ?thesis by (auto simp: queued_from_def L intro!: exI [of _ rs])
  qed
  moreover have "queue_size (m_latestMsg ?t) \<le> Suc ?L"
    using k by (simp add: queue_size_def push_back_def)
  ultimately show ?thesis using C q(1) wf
    by (simp add: sender_inv_def Let_def L del: upt_Suc)
qed

lemma sender_written_again:
  assumes "sender_inv hist s" and "queued_from hist (Suc (unat (lastSentId s))) s"
  shows "sender_inv hist (s\<lparr>is_writing := False\<rparr>)"
  using assms by (auto simp: sender_inv_def Let_def kept_ids_def queued_from_def)

lemma endOfWriting_frame:
  assumes "tempMsgOut s = fr hist t" and "msg_wf (hist t)"
  shows "endOfWriting e s =
    bindR (if shouldPong s then pong e (m_maxPong s) (s\<lparr>is_writing := False\<rparr>)
           else Inr (s\<lparr>is_writing := False\<rparr>)) (after_writing e True (word_of_nat t))"
proof -
  have temp: "s\<lparr>tempMsgOut := fr hist t, is_writing := False\<rparr> = s\<lparr>is_writing := False\<rparr>"
    using assms(1) by simp
  show ?thesis
    unfolding endOfWriting_def assms(1) get_bool_frame [of hist t, OF assms(2)] bindR_Inr split_conv
      get_word_put_word_u64 [OF assms(2)] Let_def frame_again temp
    by simp
qed

lemma endOfWriting_inv:
  assumes w: "written_inv hist s" and eow: "endOfWriting e s = Inr t"
  shows "full_inv hist t"
proof -
  let ?L = "unat (lastSentId s)" and ?C = "unat (currentId s)"
  let ?s = "s\<lparr>is_writing := False\<rparr>"
  from w have inv: "sender_inv hist s" and wr: "is_writing s" and out: "sends s = []" "whole_frames (s_wire s)"
    by (simp_all add: written_inv_def)
  have C: "Suc ?C < 2 ^ 64" "?L \<le> ?C" and wf: "\<forall>i \<in> {1..?C}. msg_wf (hist i)"
    using inv by (simp_all add: sender_inv_def Let_def)
  have L: "unat (lastSentId s + 1) = Suc ?L" using C by (simp add: unat_plus_if')
  have pong_same: "sender_view u = sender_view ?s \<and> sends u = [] \<and> whole_frames (s_wire u)"
    if "(if shouldPong s then pong e (m_maxPong s) ?s else Inr ?s) = Inr u" for u
    using that out by (auto simp: pong_def sendNoAnswer_def socket_send_def to_wire_def bindR_eq_Inr
        Let_def sends_def whole_frames_snoc [unfolded head_of_def] split: if_splits)
  from inv wr consider
    (again) i where "i \<in> {1..?L}" "tempMsgOut s = fr hist i" "queued_from hist (Suc ?L) s"
  | (new) "tempMsgOut s = fr hist (Suc ?L)" "Suc ?L \<le> ?C" "queued_from hist (Suc (Suc ?L)) s"
    by (auto simp: sender_inv_def Let_def)
  then show ?thesis
  proof cases
    case again
    have i: "(word_of_nat i :: u64) \<noteq> lastSentId s + 1"
    proof
      assume "word_of_nat i = lastSentId s + 1"
      then have "unat (word_of_nat i :: u64) = Suc ?L" using L by simp
      moreover have "unat (word_of_nat i :: u64) = i"
        using again(1) C by (intro word_of_nat_unat_less) simp
      ultimately show False using again(1) by simp
    qed
    have "msg_wf (hist i)" using again(1) wf C by simp
    with eow obtain u where u: "(if shouldPong s then pong e (m_maxPong s) ?s else Inr ?s) = Inr u"
      and t: "after_writing e True (word_of_nat i) u = Inr t"
      unfolding endOfWriting_frame [of s hist i, OF again(2) \<open>msg_wf (hist i)\<close>] bindR_eq_Inr by blast
    note p = pong_same [OF u]
    then have "lastSentId u = lastSentId s" by (simp add: sender_view_def)
    with i t have "t = u" by (simp add: after_writing_def)
    moreover have "sender_inv hist u"
      using sender_written_again [OF inv again(3)] p sender_inv_view [of u ?s hist] by simp
    ultimately show ?thesis using p
      by (simp add: full_inv_def out_inv_def) (simp add: sender_view_def)
  next
    case new
    have i: "(word_of_nat (Suc ?L) :: u64) = lastSentId s + 1"
      by (simp add: L [symmetric] del: of_nat_Suc)
    have "msg_wf (hist (Suc ?L))" using new(2) wf by simp
    with eow obtain u where u: "(if shouldPong s then pong e (m_maxPong s) ?s else Inr ?s) = Inr u"
      and t': "after_writing e True (word_of_nat (Suc ?L)) u = Inr t"
      unfolding endOfWriting_frame [of s hist "Suc ?L", OF new(1) \<open>msg_wf (hist (Suc ?L))\<close>] bindR_eq_Inr by blast
    note p = pong_same [OF u]
    let ?x = "\<lparr>mem_msg = tempMsgOut s, mem_time = now e\<rparr>"
    let ?n = "?s\<lparr>lastSentId := lastSentId s + 1, m_latestMsg := push_back ?x (m_latestMsg s)\<rparr>"
    have t: "t = u\<lparr>lastSentId := lastSentId u + 1, m_latestMsg := push_back ?x (m_latestMsg u)\<rparr>"
      using t' p i by (simp add: after_writing_def sender_view_def del: of_nat_Suc)
    then have "sender_view t = sender_view ?n" using p by (simp add: sender_view_def)
    then have "sender_inv hist t"
      using sender_written_new [OF inv wr new, of "now e"] sender_inv_view [of t ?n hist] by simp
    then show ?thesis using p t
      by (simp add: full_inv_def out_inv_def sends_def) (simp add: sender_view_def)
  qed
qed

lemma kept_ids_drop:
  assumes "deque q = drop j (deque (m_latestMsg s))" and "queue_size (m_latestMsg s) \<le> unat (lastSentId s)"
  shows "kept_ids (s\<lparr>m_latestMsg := q\<rparr>) = drop j (kept_ids s)"
proof -
  let ?k = "length (deque (m_latestMsg s))" and ?L = "unat (lastSentId s)"
  have "Suc ?L - (?k - j) = min (Suc ?L - ?k + j) (Suc ?L)"
    using assms(2) by (auto simp: queue_size_def min_def)
  then have "[Suc ?L - (?k - j)..<Suc ?L] = drop j [Suc ?L - ?k..<Suc ?L]"
    unfolding drop_upt by (cases "Suc ?L - ?k + j \<le> Suc ?L") (auto simp: min_def)
  then show ?thesis
    by (simp add: kept_ids_def queue_size_def assms(1) Let_def del: upt_Suc)
qed

lemma out_inv_update [simp]:
  "out_inv (s\<lparr>m_latestMsg := q\<rparr>) = out_inv s"
  "out_inv (s\<lparr>queueOut := r\<rparr>) = out_inv s"
  by (simp_all add: out_inv_def sends_def)

lemma handle_pong_inv:
  assumes "handle_pong s = Inr t" and inv: "full_inv hist s"
  shows "full_inv hist t"
proof -
  from assms(1) obtain p m q where q: "drop_acked p (lastSentId s) (m_latestMsg s) = Inr q"
    and t: "t = s\<lparr>tempMsgIn := m, m_latestMsg := q\<rparr>"
    by (auto simp: handle_pong_def bindR_eq_Inr)
  from drop_acked_pops [OF q] obtain j where j: "deque q = drop j (deque (m_latestMsg s))" ..
  from inv have k: "queue_size (m_latestMsg s) \<le> unat (lastSentId s)"
    and m: "map mem_msg (deque (m_latestMsg s)) = map (fr hist) (kept_ids s)"
    by (simp_all add: full_inv_def sender_inv_def Let_def)
  have "map mem_msg (deque q) = map (fr hist) (kept_ids (s\<lparr>m_latestMsg := q\<rparr>))"
    unfolding kept_ids_drop [OF j k] j by (simp only: drop_map [symmetric] m)
  moreover have "queue_size q \<le> unat (lastSentId s)" using k j by (simp add: queue_size_def)
  moreover have "queued_from hist f (s\<lparr>m_latestMsg := q\<rparr>) = queued_from hist f s" for f
    by (simp add: queued_from_def)
  ultimately have "sender_inv hist (s\<lparr>m_latestMsg := q\<rparr>)"
    using inv by (simp add: full_inv_def sender_inv_def Let_def cong: if_cong del: upt_Suc)
  then have "full_inv hist (s\<lparr>m_latestMsg := q\<rparr>)"
    using inv by (simp add: full_inv_def)
  moreover have "full_view t = full_view (s\<lparr>m_latestMsg := q\<rparr>)"
    by (simp add: t full_view_def sender_view_def sends_def)
  ultimately show ?thesis using full_inv_view by metis
qed

lemma on_repeat_inv:
  assumes inv: "full_inv hist s"
  shows "full_inv hist (on_repeat e s)"
proof (cases "deque (m_latestMsg s)")
  case Nil
  with inv show ?thesis by (simp add: on_repeat_def)
next
  case (Cons front rest)
  let ?L = "unat (lastSentId s)" and ?C = "unat (currentId s)"
  let ?u = "s\<lparr>m_latestMsg := \<lparr>deque = front\<lparr>mem_time := now e\<rparr> # rest\<rparr>,
              queueOut := push_front (mem_msg front) (queueOut s)\<rparr>"
  from inv have s: "sender_inv hist s" by (simp add: full_inv_def)
  then have k: "queue_size (m_latestMsg s) \<le> ?L"
    and m: "map mem_msg (deque (m_latestMsg s)) = map (fr hist) (kept_ids s)"
    by (simp_all add: sender_inv_def Let_def)
  have ids: "kept_ids s = (Suc ?L - Suc (length rest)) # [Suc (Suc ?L - Suc (length rest))..<Suc ?L]"
    using k Cons by (simp add: kept_ids_def queue_size_def upt_conv_Cons Let_def del: upt_Suc)
  define i where "i = Suc ?L - Suc (length rest)"
  have i: "i \<in> {1..?L}" "mem_msg front = fr hist i"
    using k m Cons unfolding ids i_def by (auto simp: queue_size_def)
  have "queued_from hist f ?u" if "queued_from hist f s" for f
  proof -
    from that obtain rs where rs: "set rs \<subseteq> {1..?L}"
      "deque (queueOut s) = map (fr hist) rs @ map (fr hist) [f..<Suc ?C]"
      by (auto simp: queued_from_def)
    with i have "set (i # rs) \<subseteq> {1..?L}"
      "deque (queueOut ?u) = map (fr hist) (i # rs) @ map (fr hist) [f..<Suc ?C]"
      by (simp_all add: push_front_def)
    then show ?thesis unfolding queued_from_def by (intro exI [of _ "i # rs"]) (simp del: upt_Suc)
  qed
  moreover have "kept_ids ?u = kept_ids s" "map mem_msg (deque (m_latestMsg ?u)) = map mem_msg (deque (m_latestMsg s))"
    "queue_size (m_latestMsg ?u) = queue_size (m_latestMsg s)"
    using Cons by (simp_all add: kept_ids_def queue_size_def)
  ultimately have "sender_inv hist ?u"
    using s by (auto simp: sender_inv_def Let_def simp del: upt_Suc)
  then have "full_inv hist ?u" using inv by (simp add: full_inv_def)
  with inv Cons show ?thesis by (auto simp: on_repeat_def)
qed

lemma after_frame_inv:
  assumes "after_frame e s = Inr t" and "full_inv hist s"
  shows "full_inv hist t"
proof -
  let ?s = "s\<lparr>tempMsgIn := clear_message (tempMsgIn s)\<rparr>"
  from assms(1) obtain u v where
    u: "(if \<not> is_writing ?s \<and> shouldPong ?s then pong e (m_maxPong ?s) ?s else Inr ?s) = Inr u"
    and v: "(if \<not> is_writing u \<and> \<not> queue_empty (queueOut u) then writeHeader u else Inr u) = Inr v"
    and t: "t = readHeader v"
    unfolding after_frame_def Let_def bindR_eq_Inr by blast
  have "full_inv hist ?s" using assms(2) by simp
  with u have "full_inv hist u" by (auto split: if_splits dest!: pong_inv [where hist = hist])
  with v have "full_inv hist v" by (auto split: if_splits dest: writeHeader_inv)
  then show ?thesis by (simp add: t readHeader_def)
qed

lemma mark_alive_inv [simp]: "full_inv hist (mark_alive e s) = full_inv hist s"
  by (simp add: mark_alive_def Let_def)

lemma endOfReading_inv: "endOfReading e s = Inr t \<Longrightarrow> full_inv hist s \<Longrightarrow> full_inv hist t"
  by (auto simp: endOfReading_def dispatch_frame_def bindR_eq_Inr split: if_splits
      dest!: handle_pong_inv [where hist = hist] handle_message_inv [where hist = hist]
        after_frame_inv [where hist = hist])

lemma on_header_inv: "on_header e ep bytes s = Inr t \<Longrightarrow> full_inv hist s \<Longrightarrow> full_inv hist t"
  by (auto simp: on_header_def Let_def readHeader_def readBody_def
      split: if_splits option.splits dest!: endOfReading_inv [where hist = hist])

lemma on_body_inv: "on_body e ep bytes s = Inr t \<Longrightarrow> full_inv hist s \<Longrightarrow> full_inv hist t"
  by (auto simp: on_body_def Let_def readHeader_def readBody_def
      split: if_splits dest!: endOfReading_inv [where hist = hist])

lemma disconnect_inv [intro]: "full_inv hist s \<Longrightarrow> full_inv hist (disconnect s)"
  by (auto simp: disconnect_def intro: full_inv_disconnect)

lemma on_ping_timer_inv: "on_ping_timer e ec s = Inr t \<Longrightarrow> full_inv hist s \<Longrightarrow> full_inv hist t"
  by (auto simp: on_ping_timer_def bindR_eq_Inr pingCycle_def split: if_splits
      dest!: ping_inv [where hist = hist])


section \<open>Runs of a session\<close>

text \<open>
  A step completes one pending operation, under any clock and any outcome that the state of
  the socket allows, or is a call from the server: \<open>send\<close>, \<open>connectWithEndpoint\<close> or
  \<open>asyncDisconnect\<close>. The \<open>i\<close>-th message sent is \<open>hist i\<close>.
\<close>

definition outcome_ok :: "session_op \<Rightarrow> completion \<Rightarrow> session \<Rightarrow> bool" where
  "outcome_ok op c s \<longleftrightarrow>
     (case op of
        SendHeader _ \<Rightarrow> s_open s \<or> c = Failure
      | SendBody _ \<Rightarrow> s_open s \<or> c = Failure
      | RecvHeader \<Rightarrow> s_open s \<or> c = Failure
      | RecvBody \<Rightarrow> s_open s \<or> c = Failure
      | _ \<Rightarrow> True)"

inductive session_step :: "(nat \<Rightarrow> msg) \<Rightarrow> session \<Rightarrow> session \<Rightarrow> bool" for hist where
  complete: "op \<in> set (s_pending s) \<Longrightarrow> outcome_ok op c s \<Longrightarrow> complete e op c s = Inr t \<Longrightarrow>
     session_step hist s t"
| send: "m = hist (Suc (unat (currentId s))) \<Longrightarrow> msg_wf m \<Longrightarrow>
     Suc (Suc (unat (currentId s))) < 2 ^ 64 \<Longrightarrow> send m s = Inr (m', t) \<Longrightarrow> session_step hist s t"
| connect: "session_step hist s (connectWithEndpoint ep ping_type s)"
| close: "session_step hist s (asyncDisconnect s)"

inductive session_reachable :: "(nat \<Rightarrow> msg) \<Rightarrow> session \<Rightarrow> session \<Rightarrow> bool" for hist s0 where
  start: "session_reachable hist s0 s0"
| step: "session_reachable hist s0 s \<Longrightarrow> session_step hist s t \<Longrightarrow> session_reachable hist s0 t"

lemma sends_remove1:
  "sends (s\<lparr>s_pending := remove1 op (s_pending s)\<rparr>) = (if is_send op then remove1 op (sends s) else sends s)"
  by (simp add: sends_def filter_remove1 remove1_filter_not)

lemma complete_send_inv:
  assumes op: "op = SendHeader b \<or> op = SendBody b" and mem: "op \<in> set (s_pending s)"
    and ok: "outcome_ok op c s" and c: "complete e op c s = Inr t" and inv: "full_inv hist s"
  shows "full_inv hist t"
proof -
  let ?s = "s\<lparr>s_pending := remove1 op (s_pending s)\<rparr>"
  have "op \<in> set (sends s)" using op mem by (auto simp: sends_def)
  with inv have w: "is_writing s" and so: "sends s = [op]" and fo: "frame_ok (tempMsgOut s)"
    and cases: "op = SendHeader (head_of (tempMsgOut s)) \<and> whole_frames (s_wire s) \<or>
      op = SendBody (m_body (tempMsgOut s)) \<and> (\<exists>w. whole_frames w \<and> s_wire s = w @ [head_of (tempMsgOut s)])"
    by (auto simp: full_inv_def out_inv_def split: if_splits)
  have rest: "sends ?s = []" using op so by (auto simp: sends_remove1)
  have si: "sender_inv hist ?s" using inv by (simp add: full_inv_def)
  show ?thesis
  proof (cases "c = Failure")
    case True
    then have "t = disconnect ?s" using c op by (auto simp: complete_def)
    then show ?thesis using si w fo cases rest
      by (auto simp: full_inv_def out_inv_def disconnect_def sends_def)
  next
    case False
    from fo have "m_body (tempMsgOut s) \<noteq> []" by (simp add: frame_ok_def)
    from cases show ?thesis
    proof
      assume h: "op = SendHeader (head_of (tempMsgOut s)) \<and> whole_frames (s_wire s)"
      then have "t = writeBody (to_wire (head_of (tempMsgOut s)) ?s)"
        using c False \<open>m_body (tempMsgOut s) \<noteq> []\<close>
        by (cases c) (auto simp: complete_def Let_def to_wire_def)
      then show ?thesis using si w fo h rest
        by (auto simp: full_inv_def out_inv_def writeBody_def start_op_def to_wire_def sends_def)
    next
      assume h: "op = SendBody (m_body (tempMsgOut s)) \<and>
        (\<exists>w. whole_frames w \<and> s_wire s = w @ [head_of (tempMsgOut s)])"
      then obtain w' where w': "whole_frames w'" "s_wire s = w' @ [head_of (tempMsgOut s)]" by blast
      let ?u = "to_wire (m_body (tempMsgOut s)) ?s"
      have "endOfWriting e ?u = Inr t" using c False h by (cases c) (auto simp: complete_def)
      moreover have "written_inv hist ?u"
        using si w fo rest w' whole_frames_snoc [OF w'(1) fo]
        by (simp add: written_inv_def to_wire_def sends_def)
      ultimately show ?thesis using endOfWriting_inv by blast
    qed
  qed
qed

lemma full_inv_remove1:
  "\<not> is_send op \<Longrightarrow> full_inv hist (s\<lparr>s_pending := remove1 op (s_pending s)\<rparr>) = full_inv hist s"
  by (rule full_inv_view) (simp add: full_view_def sends_remove1)

lemma complete_inv:
  assumes mem: "op \<in> set (s_pending s)" and ok: "outcome_ok op c s"
    and c: "complete e op c s = Inr t" and inv: "full_inv hist s"
  shows "full_inv hist t"
proof (cases "is_send op")
  case True
  then obtain b where "op = SendHeader b \<or> op = SendBody b"
    by (auto simp: is_send_def split: session_op.splits)
  then show ?thesis using complete_send_inv [OF _ mem ok c inv] by blast
next
  case False
  let ?s = "s\<lparr>s_pending := remove1 op (s_pending s)\<rparr>"
  have s: "full_inv hist ?s" using inv False by (simp add: full_inv_remove1)
  have h: "handle e op c ?s = Inr t" using c by (simp add: complete_def)
  show ?thesis
  proof (cases op)
    case RecvHeader
    with h s show ?thesis by (cases c) (auto dest: on_header_inv)
  next
    case RecvBody
    with h s show ?thesis by (cases c) (auto dest: on_body_inv)
  next
    case (RepeatWait a)
    with h s show ?thesis by (auto intro: on_repeat_inv)
  next
    case PingWait
    with h s show ?thesis by (auto dest: on_ping_timer_inv)
  next
    case (ConnectTo ep)
    with h s show ?thesis by (cases c) (auto simp: pingCycle_def startListening_def)
  next
    case PostRead
    with h s show ?thesis by (auto simp: readHeader_def)
  next
    case PostClose
    with h s show ?thesis by (auto intro: full_inv_disconnect)
  qed (use False in simp_all)
qed

lemma session_step_inv: "session_step hist s t \<Longrightarrow> full_inv hist s \<Longrightarrow> full_inv hist t"
proof (induction rule: session_step.induct)
  case (complete op s c e t)
  then show ?case using complete_inv by blast
next
  case (send m s m' t)
  then show ?case using send_inv by blast
next
  case (connect s ep ping_type)
  then show ?case by (simp add: connectWithEndpoint_def)
next
  case (close s)
  then show ?case by (simp add: asyncDisconnect_def)
qed

lemma reachable_inv: "session_reachable hist s0 s \<Longrightarrow> full_inv hist s0 \<Longrightarrow> full_inv hist s"
  by (induction rule: session_reachable.induct) (auto intro: session_step_inv)

lemma new_session_inv: "full_inv hist (new_session c stun i pt)"
  by (simp add: new_session_def full_inv_def sender_inv_def out_inv_def sends_def Let_def
      kept_ids_def queued_from_def new_queue_def queue_size_def)
    (auto simp: whole_frames_def intro: exI [of _ "[]"])

section \<open>Scripts\<close>

text \<open>A run given by its events, for concrete states.\<close>

datatype event = Done session_op completion | Sent msg | Connected endpoint types_enum

fun run_event :: "(nat \<Rightarrow> msg) \<Rightarrow> env \<Rightarrow> event \<Rightarrow> session \<Rightarrow> session option" where
  "run_event hist e (Done op c) s =
     (if op \<in> set (s_pending s) \<and> outcome_ok op c s
      then (case complete e op c s of Inl _ \<Rightarrow> None | Inr t \<Rightarrow> Some t) else None)"
| "run_event hist e (Sent m) s =
     (if m = hist (Suc (unat (currentId s))) \<and> msg_wf m \<and> currentId s < - 2
      then (case send m s of Inl _ \<Rightarrow> None | Inr (_, t) \<Rightarrow> Some t) else None)"
| "run_event hist e (Connected ep pt) s = Some (connectWithEndpoint ep pt s)"

fun run_events :: "(nat \<Rightarrow> msg) \<Rightarrow> env \<Rightarrow> event list \<Rightarrow> session \<Rightarrow> session option" where
  "run_events hist e [] s = Some s"
| "run_events hist e (v # vs) s =
     (case run_event hist e v s of None \<Rightarrow> None | Some t \<Rightarrow> run_events hist e vs t)"

lemma room_for_two: "(w :: u64) < - 2 \<Longrightarrow> Suc (Suc (unat w)) < 2 ^ 64"
  by (simp add: word_less_nat_alt)

lemma run_event_step: "run_event hist e v s = Some t \<Longrightarrow> session_step hist s t"
  by (cases v) (auto split: if_splits sum.splits intro: session_step.intros room_for_two)

lemma run_events_reachable:
  "run_events hist e vs s = Some t \<Longrightarrow> session_reachable hist s0 s \<Longrightarrow> session_reachable hist s0 t"
proof (induction vs arbitrary: s)
  case (Cons v vs)
  then obtain u where "run_event hist e v s = Some u" "run_events hist e vs u = Some t"
    by (auto split: option.splits)
  with Cons show ?case by (meson run_event_step session_reachable.step)
qed simp

definition sample_start :: session where
  "sample_start = new_session 0 (stun_fresh no_endpoint) 1000 PongMsgType"

definition sample_peer :: endpoint where
  "sample_peer = Endpoint 0x0A000001 2000"

text \<open>
  Two messages are queued, the session connects, a ping of the peer makes it active and
  starts the first message, whose header is written.
\<close>

definition sample_script :: "event list" where
  "sample_script =
     [Sent (sample_hist 1), Sent (sample_hist 2), Connected sample_peer PingMsgType,
      Done (ConnectTo sample_peer) Success, Done PostRead Success,
      Done RecvHeader (Received sample_peer [1, 0, 0, 0, 1, 0, 0, 0]),
      Done RecvBody (Received sample_peer [0]),
      Done (SendHeader (head_of (frame sample_hist True 1))) Success]"

definition sample_env :: env where
  "sample_env = \<lparr>now = 5, sends_ok = True\<rparr>"

definition sample_final :: session where
  "sample_final = the (run_events sample_hist sample_env sample_script sample_start)"

lemma sample_run: "run_events sample_hist sample_env sample_script sample_start \<noteq> None"
  by code_simp

lemma sample_reachable: "session_reachable sample_hist sample_start sample_final"
  using sample_run
  by (auto simp: sample_final_def intro: run_events_reachable session_reachable.start)

lemma sample_final_values:
  "currentId sample_final = 2 \<and> is_writing sample_final \<and> s_open sample_final \<and>
   length (s_wire sample_final) = 1 \<and>
   s_pending sample_final =
     [PingWait, RepeatWait False, RecvHeader, SendBody (m_body (frame sample_hist True 1))] \<and>
   deque (queueOut sample_final) = [frame sample_hist True 2]"
  by code_simp

section \<open>Properties\<close>





text \<open>
  An acknowledgement is cumulative. When the peer acknowledges \<open>p\<close>, the session drops
  exactly the messages it keeps up to \<open>p\<close> and keeps the later ones in order. But the loop
  that pops them compares with the last id written only: an acknowledgement beyond it pops
  the empty deque, undefined behaviour that any datagram with the peer's address can cause.
\<close>

theorem pong_acknowledges:
  "\<lbrakk>full_inv hist s; msg_wf m; tempMsgIn s = put_word p m; unat p + queue_size (m_latestMsg s) < 2 ^ 64\<rbrakk> \<Longrightarrow>
   (if lastSentId s < p then handle_pong s = Inl EmptyDeque
    else \<exists>t. handle_pong s = Inr t \<and> lastSentId t = lastSentId s \<and> queueOut t = queueOut s \<and>
      map mem_msg (deque (m_latestMsg t)) = map (frame hist True) (filter (\<lambda>i. unat p < i) (kept_ids s)))"
proof -
  assume inv: "full_inv hist s" and m: "msg_wf m" "tempMsgIn s = put_word p m"
    and small: "unat p + queue_size (m_latestMsg s) < 2 ^ 64"
  let ?L = "unat (lastSentId s)" and ?xs = "deque (m_latestMsg s)"
  let ?k = "length ?xs" and ?j = "length ?xs - (?L - unat p)"
  have q: "m_latestMsg s = \<lparr>deque = ?xs\<rparr>" by simp
  have drop: "drop_acked p (lastSentId s) (m_latestMsg s) =
      (if lastSentId s < p then Inl EmptyDeque else Inr \<lparr>deque = drop ?j ?xs\<rparr>)"
    using drop_acked_eq [of p ?xs "lastSentId s"] small by (simp add: queue_size_def)
  have k: "?k \<le> ?L" and ids: "map mem_msg ?xs = map (fr hist) (kept_ids s)"
    using inv by (simp_all add: full_inv_def sender_inv_def queue_size_def Let_def)
  have kept: "drop ?j (kept_ids s) = filter (\<lambda>i. unat p < i) (kept_ids s)" if "\<not> lastSentId s < p"
  proof -
    have p: "unat p \<le> ?L" using that by (simp add: word_less_nat_alt)
    have filt: "filter (\<lambda>i. unat p < i) [a..<b] = [max a (Suc (unat p))..<b]" for a b
      by (induction b) (auto simp: max_def not_less le_Suc_eq)
    have "Suc ?L - ?k + ?j = max (Suc ?L - ?k) (Suc (unat p))" using k p by (simp add: max_def)
    then show ?thesis by (simp only: kept_ids_def queue_size_def Let_def drop_upt filt)
  qed
  have "map mem_msg (drop ?j ?xs) = map (fr hist) (filter (\<lambda>i. unat p < i) (kept_ids s))"
    if "\<not> lastSentId s < p"
    by (simp only: drop_map [symmetric] ids) (simp only: drop_map kept [OF that])
  then show ?thesis using m drop by (auto simp: handle_pong_def)
qed

definition sample_kept :: session where
  "sample_kept = sample_start\<lparr>currentId := 2, lastSentId := 2,
     m_latestMsg := \<lparr>deque = map (\<lambda>i. \<lparr>mem_msg = frame sample_hist True i, mem_time = 0\<rparr>) [1, 2]\<rparr>,
     tempMsgIn := put_word (1 :: u64) (new_message PongMsgType)\<rparr>"

lemma sample_kept_ids: "kept_ids sample_kept = [1, 2]"
  using upt_1_3 by (simp add: kept_ids_def sample_kept_def queue_size_def del: upt_Suc)

lemma sample_kept_inv: "full_inv sample_hist sample_kept"
proof -
  have "msg_wf (sample_hist i)" for i by (simp add: sample_hist_def)
  moreover have "whole_frames []" by (simp add: whole_frames_def exI [of _ "[]"])
  ultimately show ?thesis
    by (simp add: full_inv_def sender_inv_def sample_kept_ids Let_def)
      (simp add: out_inv_def sample_kept_def sample_start_def new_session_def sends_def
        queued_from_def new_queue_def queue_size_def)
qed

lemma pong_acknowledges_witness:
  "\<exists>t. handle_pong sample_kept = Inr t \<and>
     map mem_msg (deque (m_latestMsg t)) = [frame sample_hist True 2]"
  using pong_acknowledges [OF sample_kept_inv, of "new_message PongMsgType" 1]
  unfolding sample_kept_ids by (auto simp: sample_kept_def queue_size_def)

end
