(* ===== verification/Session_Read.thy ===== *)
theory Session_Read
  imports Session_Send
begin

text \<open>
  What a session makes of the datagrams that arrive: the header and body that another
  session has written are read back as the same message, a frame that is too short faults,
  and the repeat timer, once it has been started twice, never rests again.
\<close>

section \<open>Headers\<close>

lemma length_header_image [simp]: "length (header_image h) = HEADER_BYTES"
  by (simp add: header_image_def HEADER_BYTES_def)

lemma wire_id_header_image [simp]: "wire_id (header_image h) = code_of_type (hdr_id h)"
  by (simp add: wire_id_def header_image_def le_word_le_bytes)

lemma wire_size_header_image [simp]: "wire_size (header_image h) = hdr_size h"
  by (simp add: wire_size_def header_image_def le_word_le_bytes)

lemma code_of_type_le: "code_of_type t \<le> MAX_PACKET_ID"
  using type_index_less [of t] by (simp add: word_le_nat_alt MAX_PACKET_ID_def)

text \<open>
  C12. What one session writes another reads. The header and the body of a well-formed message
  of 1 to 32768 bytes, arriving one after the other from the session's peer, are accepted
  and handled as exactly that message, whatever was in the receive buffers before; a
  datagram from any other endpoint in between is ignored, and the body is read again.
\<close>

theorem frame_received:
  "\<lbrakk>frame_ok m; length (m_body m) \<le> 32768; remoteEp s = ep; ep' \<noteq> ep; length bytes \<le> length (m_body m)\<rbrakk> \<Longrightarrow>
   \<exists>s1. on_header e ep (header_image (m_header m)) s = Inr (readBody s1) \<and>
     on_body e ep (m_body m) s1 = endOfReading e (s\<lparr>tempEp := ep, tempMsgIn := m\<rparr>) \<and>
     (\<exists>s2. on_body e ep' bytes s1 = Inr (readBody s2) \<and>
        on_body e ep (m_body m) s2 = endOfReading e (s\<lparr>tempEp := ep, tempMsgIn := m\<rparr>))"
proof -
  assume m: "frame_ok m" "length (m_body m) \<le> 32768" and ep: "remoteEp s = ep" "ep' \<noteq> ep"
    and bytes: "length bytes \<le> length (m_body m)"
  let ?n = "length (m_body m)" and ?old = "m_body (tempMsgIn s)"
  let ?body = "take ?n ?old @ replicate (?n - length ?old) 0"
  let ?s1 = "s\<lparr>tempEp := ep, tempMsgIn := \<lparr>m_header = m_header m, m_body = ?body\<rparr>\<rparr>"
  have wf: "hdr_size (m_header m) = word_of_nat ?n" and ne: "?n > 0"
    using m(1) by (simp_all add: frame_ok_def msg_wf_def)
  have n: "unat (word_of_nat ?n :: u32) = ?n" using m(2) by (simp add: word_of_nat_unat_less)
  have small: "\<not> hdr_size (m_header m) > MAX_PACKET_SIZE"
    using m(2) by (simp add: wf MAX_PACKET_SIZE_def word_less_nat_alt n)
  have id: "\<not> code_of_type (hdr_id (m_header m)) > MAX_PACKET_ID"
    using code_of_type_le [of "hdr_id (m_header m)"] by simp
  have same: "s\<lparr>tempEp := ep, remoteEp := ep, tempMsgIn := x\<rparr> = s\<lparr>tempEp := ep, tempMsgIn := x\<rparr>" for x
    using ep(1) by simp
  have eta: "\<lparr>hdr_id = hdr_id (m_header m), hdr_size = word_of_nat ?n\<rparr> = m_header m"
    using wf by simp
  have hdr: "on_header e ep (header_image (m_header m)) s = Inr (readBody ?s1)"
    using small id ne n ep(1) by (simp add: on_header_def Let_def wf eta same)
  have len: "length ?body = ?n" by simp
  have m_eq: "\<lparr>m_header = m_header m, m_body = m_body m\<rparr> = m" by simp
  have body: "on_body e ep (m_body m) (s\<lparr>tempEp := ep0, tempMsgIn := \<lparr>m_header = m_header m, m_body = b\<rparr>\<rparr>) =
      endOfReading e (s\<lparr>tempEp := ep, tempMsgIn := m\<rparr>)" if "length b = ?n" for b ep0
    using that ep(1) by (simp add: on_body_def Let_def fill_full m_eq)
  have other: "on_body e ep' bytes ?s1 = Inr (readBody (s\<lparr>tempEp := ep',
      tempMsgIn := \<lparr>m_header = m_header m, m_body = fill ?body bytes\<rparr>\<rparr>))"
    using ep by (simp add: on_body_def Let_def)
  show ?thesis
    using hdr body [OF len, of ep] other body [of "fill ?body bytes" ep'] len by (auto simp del: length_append)
qed

lemma frame_received_witness:
  "\<exists>s1. on_header sample_env sample_peer (header_image (m_header (frame sample_hist True 1)))
      (sample_start\<lparr>remoteEp := sample_peer\<rparr>) = Inr (readBody s1) \<and>
    on_body sample_env sample_peer (m_body (frame sample_hist True 1)) s1 =
      endOfReading sample_env (sample_start\<lparr>remoteEp := sample_peer, tempEp := sample_peer,
        tempMsgIn := frame sample_hist True 1\<rparr>)"
proof -
  have "length (m_body (frame sample_hist True 1)) = 11"
    by (simp add: frame_def sample_hist_def length_m_body_put_bool length_m_body_put_word new_message_def)
  then show ?thesis
    using frame_received [of "frame sample_hist True 1" "sample_start\<lparr>remoteEp := sample_peer\<rparr>"
        sample_peer no_endpoint "[]" sample_env]
    by (auto simp: sample_peer_def no_endpoint_def)
qed

section \<open>Frames that are too short\<close>

lemma sendNoAnswer_fault: "sendNoAnswer e m s = Inl x \<Longrightarrow> msg_wf m \<Longrightarrow> x = UncaughtException"
  by (auto simp: sendNoAnswer_def socket_send_def Let_def split: if_splits)

lemma pong_fault: "pong e p s = Inl x \<Longrightarrow> x = UncaughtException"
proof -
  assume "pong e p s = Inl x"
  then have "sendNoAnswer e (put_word p (new_message (pongType s))) s = Inl x"
    unfolding pong_def
    by (cases "sendNoAnswer e (put_word p (new_message (pongType s))) s") auto
  then show ?thesis by (rule sendNoAnswer_fault) simp
qed

lemma tryPong_fault: "tryPong e p s = Inl x \<Longrightarrow> x = UncaughtException"
  by (auto simp: tryPong_def split: if_splits dest: pong_fault)

lemma bindR_fault: "bindR r f = Inl x \<longleftrightarrow> r = Inl x \<or> (\<exists>y. r = Inr y \<and> f y = Inl x)"
  by (cases r) auto

lemma drop_acked_fault: "drop_acked p l q = Inl x \<Longrightarrow> x = EmptyDeque"
proof (induction p l q rule: drop_acked.induct)
  case (1 p l q)
  show ?case
  proof (cases "p + word_of_nat (queue_size q) > l")
    case True
    show ?thesis
    proof (cases "pop_front q")
      case (Inl y)
      then have "y = EmptyDeque" by (auto simp: pop_front_def split: list.splits)
      with "1.prems" True Inl show ?thesis by (subst (asm) drop_acked.simps) simp
    next
      case (Inr b)
      with "1.prems" True "1.IH" [OF True Inr] show ?thesis
        by (subst (asm) drop_acked.simps) (cases b; simp)
    qed
  next
    case False
    with "1.prems" show ?thesis by (subst (asm) drop_acked.simps) simp
  qed
qed

lemma after_frame_fault: "after_frame e s = Inl x \<Longrightarrow> x \<noteq> BodyUnderflow"
  by (auto simp: after_frame_def bindR_fault Let_def writeHeader_def pop_front_def
      split: if_splits list.splits dest: pong_fault)

lemma get_bool_fault: "get_bool m = Inl x \<longleftrightarrow> x = BodyUnderflow \<and> length (m_body m) < 1"
  by (simp add: get_bool_def get_underflow bool_pod_def)

lemma get_u64_fault: "(get_word m :: (u64 \<times> msg) result) = Inl x \<longleftrightarrow> x = BodyUnderflow \<and> length (m_body m) < 8"
  by (simp add: get_word_def get_underflow word_pod_def)

lemma tryPong_not_underflow [simp]: "tryPong e p s \<noteq> Inl BodyUnderflow"
  by (auto dest: tryPong_fault)

lemma handle_message_fault:
  "handle_message e flag s = Inl BodyUnderflow \<longleftrightarrow> length (m_body (tempMsgIn s)) < 8"
proof (cases "get_word (tempMsgIn s) :: (u64 \<times> msg) result")
  case (Inl x)
  then show ?thesis using get_u64_fault [of "tempMsgIn s" x] by (simp add: handle_message_def)
next
  case (Inr y)
  obtain i m where y: "y = (i, m)" by (cases y)
  have "handle_message e flag s \<noteq> Inl BodyUnderflow"
    unfolding handle_message_def Inr bindR_Inr y split_conv Let_def
    by (simp add: bindR_fault split: prod.split)
  moreover have "(get_word (tempMsgIn s) :: (u64 \<times> msg) result) \<noteq> Inl BodyUnderflow"
    using Inr by simp
  then have "\<not> length (m_body (tempMsgIn s)) < 8" by (simp add: get_u64_fault)
  ultimately show ?thesis by simp
qed

lemma handle_pong_fault:
  "handle_pong s = Inl BodyUnderflow \<longleftrightarrow> length (m_body (tempMsgIn s)) < 8"
  by (auto simp: handle_pong_def bindR_fault get_u64_fault dest: drop_acked_fault)

text \<open>
  A frame is read without checking that it is long enough. Handling it runs off the
  front of its body, undefined behaviour, exactly when it is empty, or when it is not a
  ping and has fewer than nine bytes (the flag and the id). The header check accepts such
  frames, so any peer can cause this with one datagram.
\<close>

theorem short_frame_fault:
  "endOfReading e s = Inl BodyUnderflow \<longleftrightarrow>
     m_body (tempMsgIn s) = [] \<or>
     length (m_body (tempMsgIn s)) < 9 \<and>
       (getId (tempMsgIn s) = pongType s \<or> getId (tempMsgIn s) \<noteq> pingType s)"
proof (cases "get_bool (tempMsgIn s)")
  case (Inl x)
  then have "x = BodyUnderflow \<and> m_body (tempMsgIn s) = []" using get_bool_fault by fastforce
  with Inl show ?thesis by (simp add: endOfReading_def)
next
  case (Inr y)
  obtain flag m where y: "y = (flag, m)" by (cases y)
  let ?s = "mark_alive e (s\<lparr>tempMsgIn := m\<rparr>)"
  have "length (m_body (tempMsgIn s)) = length (m_body m) + 1" and id: "getId m = getId (tempMsgIn s)"
    using Inr y get_Inr_body [of bool_pod "tempMsgIn s" flag m]
    by (simp_all add: get_bool_def bool_pod_def getId_def)
  then have len: "m_body (tempMsgIn s) \<noteq> []" "length (m_body m) < 8 \<longleftrightarrow> length (m_body (tempMsgIn s)) < 9"
    by auto
  have s: "tempMsgIn ?s = m" "pongType ?s = pongType s" "pingType ?s = pingType s"
    by (simp_all add: mark_alive_def Let_def checkRepeat_def start_op_def)
  have "endOfReading e s = Inl BodyUnderflow \<longleftrightarrow> dispatch_frame e flag ?s = Inl BodyUnderflow"
    using Inr y by (auto simp: endOfReading_def bindR_fault dest: after_frame_fault)
  also have "\<dots> \<longleftrightarrow> length (m_body m) < 8 \<and> (getId m = pongType s \<or> getId m \<noteq> pingType s)"
    using s by (simp add: dispatch_frame_def handle_pong_fault handle_message_fault)
  finally show ?thesis using len id by simp
qed

lemma short_frame_fault_witness:
  "endOfReading sample_env (sample_start\<lparr>pingType := PingMsgType,
     tempMsgIn := put_bool True (new_message FileEndMsgType)\<rparr>) = Inl BodyUnderflow"
proof -
  have "length (m_body (put_bool True (new_message FileEndMsgType))) = 1"
    by (simp add: length_m_body_put_bool new_message_def)
  moreover have "getId (put_bool True (new_message FileEndMsgType)) = FileEndMsgType"
    by (simp add: getId_def) (simp add: new_message_def)
  ultimately show ?thesis
    using short_frame_fault [of sample_env "sample_start\<lparr>pingType := PingMsgType,
        tempMsgIn := put_bool True (new_message FileEndMsgType)\<rparr>"]
    by simp
qed


text \<open>
  One datagram of eight bytes ends the program: a header from the peer with any valid
  message type and the size 0 is handed to the reader although nothing of a body has been
  received, and the read of its flag runs off the empty buffer.
\<close>

theorem empty_frame_faults:
  "\<lbrakk>m_body (tempMsgIn s) = []; from_ep = remoteEp s\<rbrakk> \<Longrightarrow>
   on_header e from_ep (header_image \<lparr>hdr_id = t, hdr_size = 0\<rparr>) s = Inl BodyUnderflow"
  using code_of_type_le [of t]
  by (simp add: on_header_def Let_def MAX_PACKET_SIZE_def endOfReading_def get_bool_def get_def
      bool_pod_def not_less [symmetric])

lemma empty_frame_faults_witness:
  "on_header sample_env no_endpoint [1, 0, 0, 0, 0, 0, 0, 0] sample_start = Inl BodyUnderflow"
proof -
  have "header_image \<lparr>hdr_id = PingMsgType, hdr_size = 0\<rparr> = [1, 0, 0, 0, 0, 0, 0, 0]"
    by code_simp
  then show ?thesis
    using empty_frame_faults [of sample_start no_endpoint sample_env PingMsgType]
    by (simp add: sample_start_def new_session_def new_message_def)
qed

section \<open>The repeat timer\<close>

definition is_repeat :: "session_op \<Rightarrow> bool" where
  "is_repeat op = (case op of RepeatWait _ \<Rightarrow> True | _ \<Rightarrow> False)"

definition waits :: "session \<Rightarrow> session_op list" where
  "waits s = filter is_repeat (s_pending s)"

text \<open>A cancelled wait is one whose handler is ready to run now.\<close>

definition spinning :: "session \<Rightarrow> bool" where
  "spinning s \<longleftrightarrow> 2 \<le> length (waits s) \<and> RepeatWait True \<in> set (waits s)"

definition keeps :: "session \<Rightarrow> session \<Rightarrow> bool" where
  "keeps s t \<longleftrightarrow> length (waits s) \<le> length (waits t) \<and>
     (RepeatWait True \<in> set (waits s) \<longrightarrow> RepeatWait True \<in> set (waits t))"

lemma keeps_refl [simp]: "keeps s s"
  by (simp add: keeps_def)

lemma keeps_trans: "keeps s t \<Longrightarrow> keeps t u \<Longrightarrow> keeps s u"
  by (auto simp: keeps_def)

lemma keeps_spinning: "spinning s \<Longrightarrow> keeps s t \<Longrightarrow> spinning t"
  by (auto simp: spinning_def keeps_def)

lemma keeps_same: "s_pending t = s_pending s \<Longrightarrow> keeps s t"
  by (simp add: keeps_def waits_def)

lemma keeps_start_op [simp]: "keeps s (start_op op s)"
  by (simp add: keeps_def waits_def start_op_def)

lemma waits_checkRepeat:
  "waits (checkRepeat s) = map (\<lambda>_. RepeatWait True) (waits s) @ [RepeatWait False]"
proof -
  have "filter is_repeat (map (\<lambda>op. case op of RepeatWait _ \<Rightarrow> RepeatWait True | _ \<Rightarrow> op) ops) =
      map (\<lambda>_. RepeatWait True) (filter is_repeat ops)" for ops
    by (induction ops) (auto simp: is_repeat_def split: session_op.splits)
  then show ?thesis by (simp add: waits_def checkRepeat_def start_op_def is_repeat_def)
qed

lemma keeps_checkRepeat [simp]: "keeps s (checkRepeat s)"
  by (auto simp: keeps_def waits_checkRepeat)

lemma sendNoAnswer_pending: "sendNoAnswer e m s = Inr (m', t) \<Longrightarrow> s_pending t = s_pending s"
  by (auto simp: sendNoAnswer_def socket_send_def to_wire_def Let_def bindR_eq_Inr split: if_splits)

lemma ping_pending: "ping e p s = Inr t \<Longrightarrow> s_pending t = s_pending s"
  by (auto simp: ping_def Let_def bindR_eq_Inr split: if_splits dest!: sendNoAnswer_pending)

lemma pong_pending: "pong e p s = Inr t \<Longrightarrow> s_pending t = s_pending s"
  by (auto simp: pong_def bindR_eq_Inr dest!: sendNoAnswer_pending)

lemma tryPong_pending: "tryPong e p s = Inr t \<Longrightarrow> s_pending t = s_pending s"
  by (auto simp: tryPong_def split: if_splits dest: pong_pending)

lemma deliver_ready_pending: "s_pending (snd (deliver_ready d s)) = s_pending s"
proof (induction d s rule: deliver_ready.induct)
  case (1 d s)
  then show ?case
    by (subst deliver_ready.simps) (auto simp: Let_def split: option.splits)
qed

lemma writeHeader_keeps: "writeHeader s = Inr t \<Longrightarrow> keeps s t"
  by (auto simp: writeHeader_def bindR_eq_Inr keeps_def waits_def start_op_def)

lemma handle_message_pending:
  assumes "handle_message e flag s = Inr t"
  shows "s_pending t = s_pending s"
proof -
  from assms obtain i m u where
    u: "(if flag \<and> i \<le> lastGotId (s\<lparr>tempMsgIn := m\<rparr>) + 1 then tryPong e i (s\<lparr>tempMsgIn := m\<rparr>)
         else Inr (s\<lparr>tempMsgIn := m\<rparr>)) = Inr u"
    and t: "(case deliver_ready 0 (if i \<ge> lastGotId u + 1
              then u\<lparr>m_futureMsgMap := map_store (ucast i) (tempMsgIn u) (m_futureMsgMap u)\<rparr> else u) of
          (delta, s) \<Rightarrow> if delta > 1 then tryPong e (lastGotId s) s else Inr s) = Inr t"
    by (auto simp: handle_message_def bindR_eq_Inr Let_def)
  let ?v = "if i \<ge> lastGotId u + 1
      then u\<lparr>m_futureMsgMap := map_store (ucast i) (tempMsgIn u) (m_futureMsgMap u)\<rparr> else u"
  obtain d v where dv: "deliver_ready 0 ?v = (d, v)" by (metis surj_pair)
  have "s_pending u = s_pending s" using u by (auto split: if_splits dest!: tryPong_pending)
  moreover have "s_pending v = s_pending ?v" using deliver_ready_pending [of 0 ?v] by (simp add: dv)
  moreover have "s_pending ?v = s_pending u" by simp
  moreover have "s_pending t = s_pending v"
    using t by (auto simp: dv split: if_splits dest: tryPong_pending)
  ultimately show ?thesis by simp
qed

lemma handle_pong_pending: "handle_pong s = Inr t \<Longrightarrow> s_pending t = s_pending s"
  by (auto simp: handle_pong_def bindR_eq_Inr)

lemma after_frame_keeps:
  assumes "after_frame e s = Inr t"
  shows "keeps s t"
proof -
  let ?s = "s\<lparr>tempMsgIn := clear_message (tempMsgIn s)\<rparr>"
  from assms obtain u v where
    u: "(if \<not> is_writing ?s \<and> shouldPong ?s then pong e (m_maxPong ?s) ?s else Inr ?s) = Inr u"
    and v: "(if \<not> is_writing u \<and> \<not> queue_empty (queueOut u) then writeHeader u else Inr u) = Inr v"
    and t: "t = readHeader v"
    unfolding after_frame_def Let_def bindR_eq_Inr by blast
  have "keeps s u" using u by (auto split: if_splits dest!: pong_pending intro: keeps_same)
  moreover have "keeps u v" using v by (auto split: if_splits dest: writeHeader_keeps)
  ultimately show ?thesis unfolding t readHeader_def by (blast intro: keeps_trans keeps_start_op)
qed

lemma mark_alive_keeps: "keeps s (mark_alive e s)"
proof -
  let ?s = "s\<lparr>m_lastClock := now e\<rparr>"
  let ?t = "if \<not> m_isConnected ?s then checkRepeat ?s else ?s"
  have "keeps s ?s" by (simp add: keeps_same)
  moreover have "keeps ?s ?t" by simp
  moreover have "keeps ?t (?t\<lparr>m_isConnected := True\<rparr>)" by (simp add: keeps_same)
  ultimately show ?thesis unfolding mark_alive_def Let_def by (blast intro: keeps_trans)
qed

lemma endOfReading_keeps:
  assumes "endOfReading e s = Inr t"
  shows "keeps s t"
proof -
  from assms obtain flag m u where
    u: "dispatch_frame e flag (mark_alive e (s\<lparr>tempMsgIn := m\<rparr>)) = Inr u" "after_frame e u = Inr t"
    by (auto simp: endOfReading_def bindR_eq_Inr)
  have "keeps s (s\<lparr>tempMsgIn := m\<rparr>)" by (simp add: keeps_same)
  moreover note mark_alive_keeps [of "s\<lparr>tempMsgIn := m\<rparr>" e]
  moreover have "keeps (mark_alive e (s\<lparr>tempMsgIn := m\<rparr>)) u"
    using u(1) by (auto simp: dispatch_frame_def split: if_splits
        dest!: handle_pong_pending handle_message_pending intro: keeps_same)
  moreover have "keeps u t" using u(2) by (rule after_frame_keeps)
  ultimately show ?thesis by (blast intro: keeps_trans)
qed

lemma keeps_update [simp]:
  "keeps s (s\<lparr>tempEp := a\<rparr>)" "keeps s (s\<lparr>remoteEp := a\<rparr>)" "keeps s (s\<lparr>tempMsgIn := b\<rparr>)"
  "keeps s (s\<lparr>s_open := c\<rparr>)" "keeps s (s\<lparr>is_writing := c\<rparr>)" "keeps s (s\<lparr>tempMsgOut := b\<rparr>)"
  "keeps s (s\<lparr>s_wire := w\<rparr>)" "keeps s (s\<lparr>s_stun := st\<rparr>)" "keeps s (s\<lparr>pingType := p\<rparr>)"
  "keeps s (s\<lparr>m_latestMsg := q\<rparr>)" "keeps s (s\<lparr>lastSentId := i\<rparr>)"
  by (simp_all add: keeps_same)

lemma endOfReading_temp_keeps: "endOfReading e (s\<lparr>tempMsgIn := m\<rparr>) = Inr t \<Longrightarrow> keeps s t"
  using endOfReading_keeps [of e "s\<lparr>tempMsgIn := m\<rparr>" t] keeps_update(3) keeps_trans by blast

lemma on_header_keeps:
  assumes "on_header e ep bytes s = Inr t"
  shows "keeps s t"
proof -
  let ?u = "s\<lparr>tempEp := ep\<rparr>"
  define v where "v = (if \<not> m_isConnected ?u \<and> ep_addr (tempEp ?u) = ep_addr (remoteEp ?u)
      then ?u\<lparr>remoteEp := tempEp ?u\<rparr> else ?u)"
  have v: "keeps s v"
    unfolding v_def by (simp add: keeps_same)
  have "keeps v t"
    using assms unfolding on_header_def Let_def v_def [symmetric] readHeader_def readBody_def
    by (auto split: if_splits option.splits dest: endOfReading_temp_keeps
        intro: keeps_trans [OF keeps_update(3) keeps_start_op])
  with v show ?thesis by (rule keeps_trans)
qed

lemma on_body_keeps:
  assumes "on_body e ep bytes s = Inr t"
  shows "keeps s t"
proof -
  let ?v = "s\<lparr>tempEp := ep, tempMsgIn := (tempMsgIn s)\<lparr>m_body := fill (m_body (tempMsgIn s)) bytes\<rparr>\<rparr>"
  have "keeps s ?v" by (simp add: keeps_same)
  moreover have "keeps ?v t"
    using assms unfolding on_body_def Let_def readHeader_def readBody_def
    by (auto split: if_splits dest: endOfReading_keeps)
  ultimately show ?thesis by (rule keeps_trans)
qed

lemma after_writing_keeps:
  assumes "after_writing e w i s = Inr t"
  shows "keeps s t"
proof (cases w)
  case True
  with assms show ?thesis by (auto simp: after_writing_def split: if_splits intro: keeps_same)
next
  case False
  with assms obtain x where
    "(if shouldPing s then ping e (pingType s) s else Inr s) = Inr x"
    "(if \<not> queue_empty (queueOut x) \<and> m_isConnected x then writeHeader x else Inr x) = Inr t"
    unfolding after_writing_def if_not_P [OF False] bindR_eq_Inr by blast
  then have "keeps s x" "keeps x t"
    by (auto split: if_splits dest: ping_pending writeHeader_keeps intro: keeps_same)
  then show ?thesis by (rule keeps_trans)
qed

lemma endOfWriting_keeps:
  assumes "endOfWriting e s = Inr t"
  shows "keeps s t"
proof -
  from assms obtain w m i m' where
    r: "get_bool (tempMsgOut s) = Inr (w, m)" "get_word m = Inr (i :: u64, m')"
    by (auto simp: endOfWriting_def bindR_eq_Inr)
  let ?s = "s\<lparr>tempMsgOut := put_bool w (put_word i m'), is_writing := False\<rparr>"
  have "bindR (if shouldPong ?s then pong e (m_maxPong ?s) ?s else Inr ?s) (after_writing e w i) = Inr t"
    using assms by (simp only: endOfWriting_def r bindR_Inr split_conv Let_def)
  then obtain v where v: "(if shouldPong ?s then pong e (m_maxPong ?s) ?s else Inr ?s) = Inr v"
    "after_writing e w i v = Inr t"
    unfolding bindR_eq_Inr by blast
  have "keeps s v" using v(1) by (auto split: if_splits dest!: pong_pending intro: keeps_same)
  with after_writing_keeps [OF v(2)] show ?thesis by (blast intro: keeps_trans)
qed

lemma on_ping_timer_keeps:
  assumes "on_ping_timer e ec s = Inr t"
  shows "keeps s t"
proof (cases "ec \<or> \<not> checkAble e s")
  case True
  with assms show ?thesis by (auto simp: on_ping_timer_def disconnect_def split: if_splits)
next
  case False
  with assms obtain u where
    u: "(if queue_empty (queueOut s) \<or> \<not> m_isConnected s then ping e (pingType s) s else Inr s) = Inr u"
    "t = pingCycle (if \<not> is_writing u then checkRepeat u else u)"
    by (auto simp: on_ping_timer_def bindR_eq_Inr)
  have "keeps s u" using u(1) by (auto split: if_splits dest: ping_pending intro: keeps_same)
  moreover have "keeps u (if \<not> is_writing u then checkRepeat u else u)" by simp
  ultimately show ?thesis unfolding u(2) pingCycle_def by (blast intro: keeps_trans keeps_start_op)
qed

lemma disconnect_keeps [simp]: "keeps s (disconnect s)"
  by (simp add: disconnect_def)

lemma handle_keeps:
  assumes "handle e op c s = Inr t"
  shows "keeps s t"
proof (cases op)
  case (SendHeader b)
  with assms show ?thesis
    by (cases c) (auto simp: Let_def to_wire_def writeBody_def split: if_splits
        dest!: endOfWriting_keeps intro: keeps_trans [OF keeps_update(7)] keeps_start_op)
next
  case (SendBody b)
  with assms show ?thesis
    by (cases c) (auto simp: to_wire_def dest!: endOfWriting_keeps intro: keeps_trans [OF keeps_update(7)])
next
  case RecvHeader
  with assms show ?thesis by (cases c) (auto dest: on_header_keeps)
next
  case RecvBody
  with assms show ?thesis by (cases c) (auto dest: on_body_keeps)
next
  case (RepeatWait a)
  have "keeps s (case deque (m_latestMsg s) of [] \<Rightarrow> s | front # rest \<Rightarrow>
      if m_isConnected s \<and> now e > MAX_NO_ANSWER + mem_time front
      then s\<lparr>m_latestMsg := \<lparr>deque = front\<lparr>mem_time := now e\<rparr> # rest\<rparr>,
        queueOut := push_front (mem_msg front) (queueOut s)\<rparr> else s)"
    by (auto split: list.split intro: keeps_same)
  with RepeatWait assms show ?thesis
    by (auto simp: on_repeat_def intro: keeps_trans [OF _ keeps_checkRepeat])
next
  case PingWait
  with assms show ?thesis by (auto dest: on_ping_timer_keeps)
next
  case (ConnectTo ep)
  with assms show ?thesis
    by (cases c) (auto simp: pingCycle_def startListening_def intro: keeps_trans [OF keeps_start_op keeps_start_op])
next
  case PostRead
  with assms show ?thesis by (auto simp: readHeader_def)
next
  case PostClose
  with assms show ?thesis by auto
qed

lemma on_repeat_shape: "\<exists>v. s_pending v = s_pending s \<and> on_repeat e s = checkRepeat v"
  by (rule exI, rule conjI [rotated], rule on_repeat_def) (simp split: list.split)

lemma spinning_step:
  assumes "session_step hist s t" and spin: "spinning s"
  shows "spinning t"
  using assms(1)
proof (cases rule: session_step.cases)
  case (complete op c e)
  let ?s = "s\<lparr>s_pending := remove1 op (s_pending s)\<rparr>"
  have waits: "waits ?s = (if is_repeat op then remove1 op (waits s) else waits s)"
    by (simp add: waits_def filter_remove1 remove1_filter_not)
  show ?thesis
  proof (cases "is_repeat op")
    case False
    then have "spinning ?s" using spin waits by (simp add: spinning_def)
    moreover have "keeps ?s t" using complete(3) handle_keeps unfolding complete_def by blast
    ultimately show ?thesis by (rule keeps_spinning)
  next
    case True
    then obtain a where a: "op = RepeatWait a" by (auto simp: is_repeat_def split: session_op.splits)
    have "op \<in> set (waits s)" using complete(1) True by (simp add: waits_def)
    then have "1 \<le> length (waits ?s)" using True waits spin by (auto simp: spinning_def length_remove1)
    moreover obtain v where v: "s_pending v = s_pending ?s" "t = checkRepeat v"
    proof -
      have "t = on_repeat e ?s" using complete(3) a by (simp add: complete_def)
      then show ?thesis using that on_repeat_shape [of ?s e] by blast
    qed
    moreover have "waits v = waits ?s" using v(1) by (simp only: waits_def)
    ultimately have "waits v \<noteq> []" by auto
    then show ?thesis unfolding v(2)
      by (cases "waits v") (auto simp: spinning_def waits_checkRepeat)
  qed
next
  case (send m m')
  then obtain v where "(if \<not> is_writing s \<and> m_isConnected s then writeHeader (queued m s) else Inr (queued m s)) = Inr v"
    "t = v\<lparr>currentId := currentId s + 1\<rparr>"
    by (auto simp: send_eq bindR_eq_Inr)
  then have "keeps (queued m s) v" "keeps v t"
    by (auto split: if_splits dest: writeHeader_keeps intro: keeps_same)
  moreover have "keeps s (queued m s)" by (simp add: keeps_same)
  ultimately show ?thesis using spin by (blast intro: keeps_spinning)
next
  case (connect ep ping_type)
  have "keeps s t" unfolding connect connectWithEndpoint_def
    by (rule keeps_trans [OF _ keeps_start_op]) (simp add: keeps_same)
  with spin show ?thesis by (rule keeps_spinning)
next
  case close
  with spin show ?thesis by (auto simp: asyncDisconnect_def intro: keeps_spinning)
qed

lemma spinning_reachable: "session_reachable hist s t \<Longrightarrow> spinning s \<Longrightarrow> spinning t"
  by (induction rule: session_reachable.induct) (auto intro: spinning_step)


definition sample_idle :: session where
  "sample_idle = sample_start\<lparr>pingType := PingMsgType, s_pending := [RepeatWait False]\<rparr>"


end
