(* ===== verification/Server.thy ===== *)
theory Server
  imports Session_Read
begin

text \<open>
  \<open>netlib_server.h\<close>: the sessions of a node, one per UDP port. The session of the current
  port is always prepared in advance: bound, and its public endpoint learned from the STUN
  server; connecting uses it up and prepares the next port's. What the operating system and
  the network answer is an argument (\<open>net_env\<close>): the addresses a name resolves to, which
  ports can be bound, and the first datagram a port receives.

  An exception that a function does not catch is \<open>Inl UncaughtException\<close>; the state such a
  result leaves behind matters only in \<open>connectToHost\<close>, which writes it out.
\<close>

section \<open>State\<close>

record net_env = env +
  resolve :: "string \<Rightarrow> u16 \<Rightarrow> endpoint option"
  stun_server :: "endpoint option"
  port_free :: "u16 \<Rightarrow> bool"
  stun_reply :: "u16 \<Rightarrow> (endpoint \<times> u8 list) option"

text \<open>
  \<open>srv_dropped\<close> lists the sessions that have left the map: the objects are gone as soon as no
  queued message refers to them, but operations they have started are still under way. The
  queue holds the messages with the id of the session they came from.
\<close>

record server =
  m_queueIn :: "(u16 \<times> msg) safe_queue"
  m_sessionsMap :: "(u16, session) std_map"
  m_curId :: u16
  m_localAddress :: string
  m_pingType :: types_enum
  m_pongType :: types_enum
  srv_dropped :: "session list"

definition new_server :: "string \<Rightarrow> u16 \<Rightarrow> types_enum \<Rightarrow> types_enum \<Rightarrow> server" where
  "new_server localAddress port ping_type pong_type =
     \<lparr>m_queueIn = new_queue, m_sessionsMap = [], m_curId = port, m_localAddress = localAddress,
      m_pingType = ping_type, m_pongType = pong_type, srv_dropped = []\<rparr>"

section \<open>Operations\<close>

definition set_session :: "u16 \<Rightarrow> session \<Rightarrow> 'a server_scheme \<Rightarrow> 'a server_scheme" where
  "set_session i s sv = sv\<lparr>m_sessionsMap := map_store i s (m_sessionsMap sv)\<rparr>"

abbreviation session_of :: "'a server_scheme \<Rightarrow> u16 \<Rightarrow> session option" where
  "session_of sv i \<equiv> map_find (m_sessionsMap sv) i"

definition prepareSession :: "net_env \<Rightarrow> 'a server_scheme \<Rightarrow> 'a server_scheme result" where
  "prepareSession ne sv =
     (if session_of sv (m_curId sv) \<noteq> None then Inr sv
      else bindR (new_stun_session (stun_server ne)) (\<lambda>stun.
        if make_address_v4 (m_localAddress sv) = None \<or> \<not> port_free ne (m_curId sv)
        then Inl UncaughtException
        else bindR (stun_start (stun_reply ne (m_curId sv)) stun) (\<lambda>stun.
          Inr (set_session (m_curId sv) (new_session (now ne) stun (m_curId sv) (m_pongType sv)) sv))))"

text \<open>The variant that connects a given session; it throws.\<close>

definition connectToHost_id ::
  "net_env \<Rightarrow> string \<Rightarrow> u16 \<Rightarrow> u16 \<Rightarrow> 'a server_scheme \<Rightarrow> (u16 \<times> 'a server_scheme) result" where
  "connectToHost_id ne host port i sv =
     (case resolve ne host port of
        None \<Rightarrow> Inl UncaughtException
      | Some ep \<Rightarrow>
          bindR (if session_of sv (m_curId sv) = None then prepareSession ne sv else Inr sv) (\<lambda>sv.
            case session_of sv i of
              None \<Rightarrow> Inl NullSession
            | Some s \<Rightarrow> Inr (i, set_session i (connectWithEndpoint ep (m_pingType sv) s) sv)))"

text \<open>
  The variant that takes the prepared session. It catches every exception and returns \<open>-1\<close>
  as an unsigned 16-bit number; what it has done until then stays done.
\<close>

definition connectToHost ::
  "net_env \<Rightarrow> string \<Rightarrow> u16 \<Rightarrow> 'a server_scheme \<Rightarrow> (u16 \<times> 'a server_scheme) result" where
  "connectToHost ne host port sv =
     (case connectToHost_id ne host port (m_curId sv) sv of
        Inl UncaughtException \<Rightarrow> Inr (- 1, sv)
      | Inl e \<Rightarrow> Inl e
      | Inr (_, sv1) \<Rightarrow>
          let sv2 = sv1\<lparr>m_curId := m_curId sv1 + 1\<rparr> in
          (case prepareSession ne sv2 of
             Inl UncaughtException \<Rightarrow> Inr (- 1, sv2)
           | Inl e \<Rightarrow> Inl e
           | Inr sv3 \<Rightarrow> Inr (m_curId sv3 - 1, sv3)))"

definition connectToHost_ep ::
  "net_env \<Rightarrow> endpoint \<Rightarrow> 'a server_scheme \<Rightarrow> (u16 \<times> 'a server_scheme) result" where
  "connectToHost_ep ne ep sv = connectToHost ne (v4_to_string (ep_addr ep)) (ep_port ep) sv"

definition reservePort :: "net_env \<Rightarrow> 'a server_scheme \<Rightarrow> (u16 \<times> 'a server_scheme) result" where
  "reservePort ne sv =
     bindR (prepareSession ne (sv\<lparr>m_curId := m_curId sv + 1\<rparr>)) (\<lambda>sv. Inr (m_curId sv - 1, sv))"

definition disconnectClient :: "u16 \<Rightarrow> 'a server_scheme \<Rightarrow> 'a server_scheme" where
  "disconnectClient i sv =
     (case session_of sv i of
        None \<Rightarrow> sv
      | Some client \<Rightarrow>
          sv\<lparr>m_sessionsMap := map_erase i (m_sessionsMap sv),
             srv_dropped := srv_dropped sv @ [asyncDisconnect client]\<rparr>)"

definition sendMessage ::
  "net_env \<Rightarrow> u16 \<Rightarrow> msg \<Rightarrow> 'a server_scheme \<Rightarrow> (msg \<times> 'a server_scheme) result" where
  "sendMessage ne i m sv =
     (case session_of sv i of
        None \<Rightarrow> Inr (m, sv)
      | Some client \<Rightarrow>
          if checkAble (env.truncate ne) client
          then bindR (send m client) (\<lambda>(m, client). Inr (m, set_session i client sv))
          else Inr (m, disconnectClient i sv))"

definition server_getRealEp :: "net_env \<Rightarrow> 'a server_scheme \<Rightarrow> (endpoint \<times> 'a server_scheme) result" where
  "server_getRealEp ne sv =
     bindR (if session_of sv (m_curId sv) = None then prepareSession ne sv else Inr sv) (\<lambda>sv.
       case session_of sv (m_curId sv) of
         None \<Rightarrow> Inl NullSession
       | Some s \<Rightarrow> Inr (getRealEp s, sv))"

text \<open>
  The loop of \<open>update\<close> with the virtual \<open>onMessage\<close> as an argument; the fuel bounds the number
  of messages taken.
\<close>

fun update_loop ::
  "nat \<Rightarrow> (u16 \<times> msg \<Rightarrow> 'a server_scheme \<Rightarrow> 'a server_scheme result) \<Rightarrow>
   'a server_scheme \<Rightarrow> 'a server_scheme result" where
  "update_loop 0 onMessage sv = Inr sv"
| "update_loop (Suc fuel) onMessage sv =
     (if queue_empty (m_queueIn sv) then Inr sv
      else bindR (pop_front (m_queueIn sv)) (\<lambda>(m, q).
        bindR (onMessage m (sv\<lparr>m_queueIn := q\<rparr>)) (update_loop fuel onMessage)))"

text \<open>
  The network thread completes an operation of a session; what the session delivers goes to
  the server's queue with the session's id.
\<close>

definition session_event ::
  "env \<Rightarrow> u16 \<Rightarrow> session_op \<Rightarrow> completion \<Rightarrow> 'a server_scheme \<Rightarrow> 'a server_scheme result" where
  "session_event e i op c sv =
     (case session_of sv i of
        None \<Rightarrow> Inl NullSession
      | Some s \<Rightarrow> bindR (complete e op c s) (\<lambda>s.
          Inr (set_session i (s\<lparr>queueIn := []\<rparr>)
            (sv\<lparr>m_queueIn := fold (\<lambda>m. push_back (getSessionId s, m)) (queueIn s) (m_queueIn sv)\<rparr>))))"

section \<open>Well-formed servers\<close>

text \<open>Every session is stored under its own id.\<close>

definition server_wf :: "'a server_scheme \<Rightarrow> bool" where
  "server_wf sv \<longleftrightarrow> map_wf (m_sessionsMap sv) \<and>
     (\<forall>i s. session_of sv i = Some s \<longrightarrow> s_id s = i)"

lemma session_of_set [simp]: "session_of (set_session i s sv) = (session_of sv)(i \<mapsto> s)"
  by (rule ext) (simp add: set_session_def)

lemma set_session_simps [simp]:
  "m_queueIn (set_session i s sv) = m_queueIn sv" "m_curId (set_session i s sv) = m_curId sv"
  "m_pingType (set_session i s sv) = m_pingType sv" "m_pongType (set_session i s sv) = m_pongType sv"
  "m_localAddress (set_session i s sv) = m_localAddress sv"
  "srv_dropped (set_session i s sv) = srv_dropped sv"
  "server.more (set_session i s sv) = server.more sv"
  by (simp_all add: set_session_def)

lemma server_wf_set [intro]: "server_wf sv \<Longrightarrow> s_id s = i \<Longrightarrow> server_wf (set_session i s sv)"
  by (auto simp: server_wf_def) (simp add: set_session_def)

lemma server_wf_new: "server_wf (new_server a p pit pot)"
  by (simp add: server_wf_def new_server_def)

lemma server_wf_curId [simp]: "server_wf (sv\<lparr>m_curId := i\<rparr>) = server_wf sv"
  by (simp add: server_wf_def)

lemma server_wf_queue [simp]: "server_wf (sv\<lparr>m_queueIn := q\<rparr>) = server_wf sv"
  by (simp add: server_wf_def)

section \<open>Sending\<close>

lemma send_total:
  assumes "msg_wf m"
  shows "\<exists>t. send m s = Inr (m, t) \<and> s_id t = s_id s \<and> currentId t = currentId s + 1 \<and>
    m_type t = m_type s \<and> m_isConnected t = m_isConnected s \<and> s_open t = s_open s \<and>
    queueIn t = queueIn s"
proof -
  have ne: "\<not> queue_empty (queueOut (queued m s))"
    by (simp add: queued_def push_back_def queue_empty_def)
  obtain x q where pop: "pop_front (queueOut (queued m s)) = Inr (x, q)"
    using safe_queue.pop_not_empty [OF ne] by auto
  show ?thesis
    using assms by (simp add: send_eq writeHeader_def pop start_op_def) (simp add: queued_def)
qed

lemma sendMessage_cases:
  assumes "msg_wf m"
  obtains (unknown) "session_of sv i = None" "sendMessage ne i m sv = Inr (m, sv)"
  | (sent) s t where "session_of sv i = Some s" "checkAble (env.truncate ne) s" "send m s = Inr (m, t)"
      "s_id t = s_id s" "m_type t = m_type s" "m_isConnected t = m_isConnected s"
      "sendMessage ne i m sv = Inr (m, set_session i t sv)"
  | (dropped) s where "session_of sv i = Some s" "\<not> checkAble (env.truncate ne) s"
      "sendMessage ne i m sv = Inr (m, disconnectClient i sv)"
proof (cases "session_of sv i")
  case None
  then show ?thesis using unknown by (simp add: sendMessage_def)
next
  case (Some s)
  obtain t where t: "send m s = Inr (m, t)" "s_id t = s_id s" "m_type t = m_type s"
    "m_isConnected t = m_isConnected s"
    using send_total [OF assms, of s] by auto
  show ?thesis
  proof (cases "checkAble (env.truncate ne) s")
    case True
    with Some t show ?thesis by (intro sent) (simp_all add: sendMessage_def)
  next
    case False
    with Some show ?thesis by (intro dropped) (simp_all add: sendMessage_def)
  qed
qed

lemma disconnectClient_simps [simp]:
  "m_queueIn (disconnectClient i sv) = m_queueIn sv" "m_curId (disconnectClient i sv) = m_curId sv"
  "m_localAddress (disconnectClient i sv) = m_localAddress sv"
  "m_pingType (disconnectClient i sv) = m_pingType sv"
  "m_pongType (disconnectClient i sv) = m_pongType sv"
  "server.more (disconnectClient i sv) = server.more sv"
  by (simp_all add: disconnectClient_def split: option.split)

lemma session_of_disconnect [simp]: "session_of (disconnectClient i sv) = (session_of sv)(i := None)"
  by (rule ext) (simp add: disconnectClient_def split: option.split)

lemma server_wf_disconnect [intro]: "server_wf sv \<Longrightarrow> server_wf (disconnectClient i sv)"
proof -
  assume wf: "server_wf sv"
  have "map_wf (m_sessionsMap (disconnectClient i sv))"
    using wf by (simp add: server_wf_def disconnectClient_def split: option.split)
  then show ?thesis
    using wf unfolding server_wf_def by (simp add: session_of_disconnect del: map_find_erase)
qed

text \<open>
  \<open>sendMessage\<close> never faults on a well-formed message and gives it back to the caller
  unchanged. It does nothing for an unknown port; it adds the message, under the next id, to
  the session of a live port; and it drops a session that is closed or has been silent for
  more than 20 seconds. No other session, no queued message and no counter changes.
\<close>

theorem sendMessage_spec:
  "\<lbrakk>server_wf sv; msg_wf m\<rbrakk> \<Longrightarrow>
   \<exists>sv'. sendMessage ne i m sv = Inr (m, sv') \<and> server_wf sv' \<and> m_queueIn sv' = m_queueIn sv \<and>
     m_curId sv' = m_curId sv \<and> (\<forall>j. j = i \<or> session_of sv' j = session_of sv j) \<and>
     (case session_of sv i of
        None \<Rightarrow> sv' = sv
      | Some s \<Rightarrow>
          if s_open s \<and> (m_isConnected s \<longrightarrow> now ne \<le> m_lastClock s + 20000)
          then (\<exists>t. session_of sv' i = Some t \<and> send m s = Inr (m, t) \<and> currentId t = currentId s + 1)
          else session_of sv' i = None)"
proof -
  assume wf: "server_wf sv" and m: "msg_wf m"
  have able: "checkAble (env.truncate ne) s \<longleftrightarrow>
      s_open s \<and> (m_isConnected s \<longrightarrow> now ne \<le> m_lastClock s + 20000)" for s
    by (auto simp: checkAble_def isConnected_def MAX_TIME_OUT_def CLOCKS_PER_SEC_def env.truncate_def)
  from m show ?thesis
  proof (cases rule: sendMessage_cases [where sv = sv and i = i and ne = ne])
    case unknown
    with wf show ?thesis by simp
  next
    case (sent s t)
    moreover from sent(3) send_total [OF m, of s] have "currentId t = currentId s + 1" by auto
    moreover have "s_id t = i" using sent(1,4) wf by (simp add: server_wf_def)
    ultimately show ?thesis using wf by (auto simp: able)
  next
    case (dropped s)
    with wf show ?thesis by (auto simp: able)
  qed
qed

definition sample_net :: net_env where
  "sample_net = \<lparr>now = 5, sends_ok = True, resolve = (\<lambda>host port. map_option (\<lambda>a. Endpoint a port) (make_address_v4 host)),
     stun_server = Some no_endpoint, port_free = (\<lambda>p. p \<noteq> 1002),
     stun_reply = (\<lambda>p. Some (no_endpoint, binding_response (replicate 20 0) (Endpoint 0x5DB8D822 p)))\<rparr>"

definition sample_server :: server where
  "sample_server = set_session 1000 (sample_start\<lparr>m_isConnected := True\<rparr>)
     (new_server [] 1000 PingMsgType PongMsgType)"

lemma sample_server_wf: "server_wf sample_server"
  unfolding sample_server_def
  by (rule server_wf_set [OF server_wf_new]) (simp add: sample_start_def new_session_def)

lemma sendMessage_spec_witness:
  "\<exists>sv' t. sendMessage sample_net 1000 (sample_hist 1) sample_server = Inr (sample_hist 1, sv') \<and>
     session_of sv' 1000 = Some t \<and> currentId t = 1"
proof -
  have "msg_wf (sample_hist 1)" by (simp add: sample_hist_def)
  from sendMessage_spec [OF sample_server_wf this, of sample_net 1000] show ?thesis
    by (auto simp: sample_server_def sample_start_def new_session_def sample_net_def)
qed

section \<open>Disconnecting\<close>

text \<open>
  Dropping a session leaves a handler behind. \<open>asyncDisconnect\<close> posts a handler that uses
  the session's bare address, and the session is erased from the map in the same call; so
  whenever an open session is dropped, the object that no map refers to any more still has
  the posted handler, and every operation it had under way, to run.
\<close>

theorem disconnect_leaves_handlers:
  "\<lbrakk>session_of sv i = Some s; s_open s\<rbrakk> \<Longrightarrow>
   session_of (disconnectClient i sv) i = None \<and>
   (\<exists>t. srv_dropped (disconnectClient i sv) = srv_dropped sv @ [t] \<and>
      s_pending t = s_pending s @ [PostClose])"
  by (simp add: disconnectClient_def asyncDisconnect_def isConnected_def start_op_def)

lemma disconnect_leaves_handlers_witness:
  "\<exists>t. srv_dropped (disconnectClient 1000
      (set_session 1000 sample_final (new_server [] 1000 PingMsgType PongMsgType))) = [t] \<and>
    s_pending t =
      [PingWait, RepeatWait False, RecvHeader, SendBody (m_body (frame sample_hist True 1)), PostClose]"
  using disconnect_leaves_handlers [of "set_session 1000 sample_final (new_server [] 1000 PingMsgType PongMsgType)"
      1000 sample_final] sample_final_values
  by (simp add: new_server_def)

section \<open>Connecting\<close>

text \<open>
  Between calls, the session of the current port is prepared: open, bound and not yet used.
  The ids in use never exceed the current one.
\<close>

definition unused :: "session \<Rightarrow> bool" where
  "unused s \<longleftrightarrow> s_open s \<and> currentId s = 0 \<and> \<not> m_isConnected s \<and> remoteEp s = no_endpoint"

definition server_ready :: "'a server_scheme \<Rightarrow> bool" where
  "server_ready sv \<longleftrightarrow> server_wf sv \<and>
     (\<forall>i s. session_of sv i = Some s \<longrightarrow> i \<le> m_curId sv) \<and>
     (\<exists>s. session_of sv (m_curId sv) = Some s \<and> unused s)"

lemma prepareSession_new:
  assumes "prepareSession ne sv = Inr sv'" and "session_of sv (m_curId sv) = None"
  shows "\<exists>s. sv' = set_session (m_curId sv) s sv \<and> unused s \<and> s_id s = m_curId sv"
  using assms
  by (auto simp: prepareSession_def bindR_eq_Inr new_session_def unused_def split: if_splits)

lemma connect_used:
  "connectWithEndpoint ep t s = s' \<Longrightarrow> s_id s' = s_id s \<and> remoteEp s' = ep \<and>
     ConnectTo ep \<in> set (s_pending s') \<and> isRunning (s_stun s') = False"
  by (auto simp: connectWithEndpoint_def start_op_def stun_stop_def)

lemma next_port: "(i :: u16) < - 1 \<Longrightarrow> i < i + 1"
  by (simp add: word_less_nat_alt unat_plus_if' unsigned_minus_1_eq_mask mask_eq_exp_minus_1)

lemma take_answer_fault: "take_answer ep bytes st = Inl e \<Longrightarrow> e = UncaughtException"
  by (auto simp: take_answer_def Let_def split: if_splits option.splits)

lemma prepareSession_fault: "prepareSession ne sv = Inl e \<Longrightarrow> e = UncaughtException"
  by (auto simp: prepareSession_def bindR_fault new_stun_session_def stun_start_def
      split: if_splits option.splits dest: take_answer_fault)

lemma server_ready_step:
  assumes ready: "server_ready sv" and room: "m_curId sv < - 1"
    and s: "s_id s = m_curId sv" and t: "s_id t = m_curId sv + 1" "unused t"
  shows "server_ready (set_session (m_curId sv + 1) t
    ((set_session (m_curId sv) s sv)\<lparr>m_curId := m_curId sv + 1\<rparr>))"
proof -
  let ?i = "m_curId sv"
  have lt: "?i < ?i + 1" using room by (rule next_port)
  have wf: "server_wf ((set_session ?i s sv)\<lparr>m_curId := ?i + 1\<rparr>)"
    using ready s by (simp add: server_ready_def server_wf_set)
  have "j \<le> ?i + 1" if "session_of sv j = Some u" for j u
    using that ready lt by (auto simp: server_ready_def intro: order.trans less_imp_le)
  with wf t lt ready show ?thesis
    by (auto simp: server_ready_def intro!: server_wf_set split: if_splits)
qed

text \<open>
  C14. Connecting to a peer. On a ready server \<open>connectToHost\<close> always returns. Either it returns
  the current port, whose session then connects to the address the name resolved to with
  its STUN cycle stopped, and the server is ready again at the next port; or it returns -1.
  After a -1 nothing has changed, or (when the next port could not be prepared) the session
  is connecting all the same, the port counter has moved, and the new current port has no
  session. No other session is touched.
\<close>

theorem connectToHost_outcome:
  "\<lbrakk>server_ready sv; m_curId sv < - 2\<rbrakk> \<Longrightarrow>
   \<exists>r sv'. connectToHost ne host port sv = Inr (r, sv') \<and>
     (\<forall>j. j = m_curId sv \<or> j = m_curId sv + 1 \<or> session_of sv' j = session_of sv j) \<and>
     (if r = m_curId sv
      then server_ready sv' \<and> m_curId sv' = m_curId sv + 1 \<and>
        (\<exists>ep s. resolve ne host port = Some ep \<and> session_of sv' (m_curId sv) = Some s \<and>
           remoteEp s = ep \<and> ConnectTo ep \<in> set (s_pending s) \<and> \<not> isRunning (s_stun s))
      else r = - 1 \<and>
        (sv' = sv \<or>
         m_curId sv' = m_curId sv + 1 \<and> session_of sv' (m_curId sv') = None \<and>
           (\<exists>s. session_of sv' (m_curId sv) = Some s \<and> resolve ne host port = Some (remoteEp s))))"
proof -
  assume ready: "server_ready sv" and room: "m_curId sv < - 2"
  let ?i = "m_curId sv"
  have lt1: "?i < - 1" using room by (rule order.strict_trans) simp
  have lt: "?i < ?i + 1" using lt1 by (rule next_port)
  have ne1: "?i \<noteq> - 1" using lt1 by auto
  obtain s where s: "session_of sv ?i = Some s" using ready by (auto simp: server_ready_def)
  then have sid: "s_id s = ?i" using ready by (auto simp: server_ready_def server_wf_def)
  have free: "session_of sv (?i + 1) = None"
  proof (rule ccontr)
    assume "session_of sv (?i + 1) \<noteq> None"
    then have "?i + 1 \<le> ?i" using ready by (auto simp: server_ready_def)
    with lt show False by simp
  qed
  show ?thesis
  proof (cases "resolve ne host port")
    case None
    with ne1 show ?thesis by (simp add: connectToHost_def connectToHost_id_def)
  next
    case (Some ep)
    let ?s = "connectWithEndpoint ep (m_pingType sv) s"
    let ?sv1 = "set_session ?i ?s sv"
    let ?sv2 = "?sv1\<lparr>m_curId := ?i + 1\<rparr>"
    have used: "s_id ?s = ?i" "remoteEp ?s = ep" "ConnectTo ep \<in> set (s_pending ?s)" "\<not> isRunning (s_stun ?s)"
      using connect_used [OF refl, of ep "m_pingType sv" s] sid by auto
    have id: "connectToHost_id ne host port ?i sv = Inr (?i, ?sv1)"
      using Some s by (simp add: connectToHost_id_def)
    have look: "session_of ?sv2 (m_curId ?sv2) = None" using free lt by simp
    show ?thesis
    proof (cases "prepareSession ne ?sv2")
      case (Inl e)
      then have "e = UncaughtException" by (rule prepareSession_fault)
      with Inl id have "connectToHost ne host port sv = Inr (- 1, ?sv2)"
        by (simp add: connectToHost_def Let_def)
      then show ?thesis using ne1 free lt used Some by auto
    next
      case (Inr sv3)
      from prepareSession_new [OF this look] obtain t where
        t: "sv3 = set_session (?i + 1) t ?sv2" "unused t" "s_id t = ?i + 1" by auto
      with Inr id have "connectToHost ne host port sv = Inr (?i, sv3)"
        by (simp add: connectToHost_def Let_def)
      moreover have "server_ready sv3"
        unfolding t(1) using server_ready_step [OF ready lt1 used(1) t(3,2)] .
      ultimately show ?thesis using t used lt Some by auto
    qed
  qed
qed

definition sample_ready :: server where
  "sample_ready = set_session 1000 sample_start (new_server ''0.0.0.0'' 1000 PingMsgType PongMsgType)"

lemma sample_ready_ready: "server_ready sample_ready"
  by (auto simp: server_ready_def sample_ready_def unused_def intro!: server_wf_set server_wf_new)
    (simp_all add: sample_start_def new_session_def new_server_def)

lemma sample_ready_connects:
  "(case connectToHost sample_net ''10.0.0.1'' 2000 sample_ready of Inl _ \<Rightarrow> False | Inr (r, _) \<Rightarrow> r = 1000)"
  by code_simp

lemma connectToHost_outcome_witness:
  "\<exists>sv' s. connectToHost sample_net ''10.0.0.1'' 2000 sample_ready = Inr (1000, sv') \<and>
     server_ready sv' \<and> m_curId sv' = 1001 \<and> session_of sv' 1000 = Some s"
proof -
  have cur: "m_curId sample_ready = 1000" by (simp add: sample_ready_def new_server_def)
  then have "m_curId sample_ready < - 2" by simp
  from connectToHost_outcome [OF sample_ready_ready this, of sample_net "''10.0.0.1''" 2000]
    sample_ready_connects cur
  show ?thesis by (auto split: sum.splits)
qed

section \<open>Draining the queue\<close>

text \<open>The messages one after the other, each handled while the later ones are still queued.\<close>

fun handle_all ::
  "(u16 \<times> msg \<Rightarrow> 'a server_scheme \<Rightarrow> 'a server_scheme result) \<Rightarrow> (u16 \<times> msg) list \<Rightarrow>
   'a server_scheme \<Rightarrow> 'a server_scheme result" where
  "handle_all onMessage [] sv = Inr sv"
| "handle_all onMessage (m # ms) sv =
     bindR (onMessage m (sv\<lparr>m_queueIn := \<lparr>deque = ms\<rparr>\<rparr>)) (handle_all onMessage ms)"

text \<open>
  What \<open>update\<close> relies on: the override of \<open>onMessage\<close> leaves the input queue alone, so only
  the network thread adds to it.
\<close>

locale message_handler =
  fixes onMessage :: "u16 \<times> msg \<Rightarrow> 'a server_scheme \<Rightarrow> 'a server_scheme result"
  assumes keeps_queue: "onMessage m sv = Inr sv' \<Longrightarrow> m_queueIn sv' = m_queueIn sv"
begin

lemma update_loop_all:
  "length (deque (m_queueIn sv)) \<le> fuel \<Longrightarrow>
     update_loop fuel onMessage sv = handle_all onMessage (deque (m_queueIn sv)) sv"
proof (induction fuel arbitrary: sv)
  case (Suc fuel)
  show ?case
  proof (cases "deque (m_queueIn sv)")
    case Nil
    then show ?thesis by (simp add: queue_empty_def)
  next
    case (Cons m ms)
    have pop: "pop_front (m_queueIn sv) = Inr (m, \<lparr>deque = ms\<rparr>)"
      using Cons by (simp add: pop_front_def)
    have "bindR (onMessage m (sv\<lparr>m_queueIn := \<lparr>deque = ms\<rparr>\<rparr>)) (update_loop fuel onMessage) =
        bindR (onMessage m (sv\<lparr>m_queueIn := \<lparr>deque = ms\<rparr>\<rparr>)) (handle_all onMessage ms)"
    proof (cases "onMessage m (sv\<lparr>m_queueIn := \<lparr>deque = ms\<rparr>\<rparr>)")
      case (Inr sv')
      with keeps_queue have "deque (m_queueIn sv') = ms" by fastforce
      with Suc.IH [of sv'] Suc.prems Cons Inr show ?thesis by simp
    qed simp
    then show ?thesis using Cons pop by (simp add: queue_empty_def)
  qed
qed simp

lemma handle_all_empties:
  "handle_all onMessage ms sv = Inr sv' \<Longrightarrow> ms \<noteq> [] \<Longrightarrow> deque (m_queueIn sv') = []"
proof (induction ms arbitrary: sv)
  case (Cons m ms)
  then obtain u where u: "onMessage m (sv\<lparr>m_queueIn := \<lparr>deque = ms\<rparr>\<rparr>) = Inr u"
    "handle_all onMessage ms u = Inr sv'"
    by (auto simp: bindR_eq_Inr)
  show ?case
  proof (cases "ms = []")
    case True
    with u keeps_queue [OF u(1)] show ?thesis by simp
  next
    case False
    with Cons.IH [OF u(2)] show ?thesis by simp
  qed
qed simp

lemma update_empties:
  "length (deque (m_queueIn sv)) \<le> fuel \<Longrightarrow> update_loop fuel onMessage sv = Inr sv' \<Longrightarrow>
     queue_empty (m_queueIn sv')"
  using update_loop_all [of sv fuel] handle_all_empties [of "deque (m_queueIn sv)" sv sv']
  by (cases "deque (m_queueIn sv)") (auto simp: queue_empty_def)

end

end
