(* ===== verification/Sha1.thy ===== *)
theory Sha1
  imports Prelude
begin

text \<open>
  \<open>modules/netlib_sha1.h\<close>: the streaming SHA-1 of the file system. The five chaining values,
  the byte buffer and the block counter are the object's state; \<open>transform\<close> is the unrolled
  compression function, whose 80 macro calls rotate the names of the working variables
  instead of their values and keep the last 16 words of the message schedule in a circular
  buffer.
\<close>

section \<open>State and constants\<close>

record digest =
  dg0 :: u32
  dg1 :: u32
  dg2 :: u32
  dg3 :: u32
  dg4 :: u32

record sha1_state =
  sha_digest :: digest
  sha_buffer :: string
  sha_transforms :: u64

definition BLOCK_INTS :: nat where "BLOCK_INTS = 16"

definition BLOCK_BYTES :: nat where "BLOCK_BYTES = BLOCK_INTS * 4"

definition reset :: sha1_state where
  "reset =
     \<lparr>sha_digest = \<lparr>dg0 = 0x67452301, dg1 = 0xefcdab89, dg2 = 0x98badcfe,
        dg3 = 0x10325476, dg4 = 0xc3d2e1f0\<rparr>,
      sha_buffer = [], sha_transforms = 0\<rparr>"

definition rol :: "u32 \<Rightarrow> nat \<Rightarrow> u32" where
  "rol value bits = or (push_bit bits value) (drop_bit (32 - bits) value)"

definition blk :: "u32 list \<Rightarrow> nat \<Rightarrow> u32" where
  "blk block i = rol (xor (xor (xor (block ! and (i + 13) 15) (block ! and (i + 8) 15))
     (block ! and (i + 2) 15)) (block ! i)) 1"

section \<open>The round macros\<close>

text \<open>
  Each macro reads the working variables \<open>v\<close>, \<open>x\<close>, \<open>y\<close> and updates \<open>w\<close> and \<open>z\<close> (and, but
  for \<open>R0\<close>, the block): the result is the new block, the new \<open>w\<close> and the new \<open>z\<close>.
\<close>

definition R0 :: "u32 list \<Rightarrow> u32 \<Rightarrow> u32 \<Rightarrow> u32 \<Rightarrow> u32 \<Rightarrow> u32 \<Rightarrow> nat \<Rightarrow> u32 list \<times> u32 \<times> u32" where
  "R0 block v w x y z i =
     (block, rol w 30,
      z + (xor (and w (xor x y)) y + block ! i + 0x5a827999 + rol v 5))"

definition R1 :: "u32 list \<Rightarrow> u32 \<Rightarrow> u32 \<Rightarrow> u32 \<Rightarrow> u32 \<Rightarrow> u32 \<Rightarrow> nat \<Rightarrow> u32 list \<times> u32 \<times> u32" where
  "R1 block v w x y z i =
     (let block' = block[i := blk block i]
      in (block', rol w 30,
          z + (xor (and w (xor x y)) y + block' ! i + 0x5a827999 + rol v 5)))"

definition R2 :: "u32 list \<Rightarrow> u32 \<Rightarrow> u32 \<Rightarrow> u32 \<Rightarrow> u32 \<Rightarrow> u32 \<Rightarrow> nat \<Rightarrow> u32 list \<times> u32 \<times> u32" where
  "R2 block v w x y z i =
     (let block' = block[i := blk block i]
      in (block', rol w 30,
          z + (xor (xor w x) y + block' ! i + 0x6ed9eba1 + rol v 5)))"

definition R3 :: "u32 list \<Rightarrow> u32 \<Rightarrow> u32 \<Rightarrow> u32 \<Rightarrow> u32 \<Rightarrow> u32 \<Rightarrow> nat \<Rightarrow> u32 list \<times> u32 \<times> u32" where
  "R3 block v w x y z i =
     (let block' = block[i := blk block i]
      in (block', rol w 30,
          z + (or (and (or w x) y) (and w x) + block' ! i + 0x8f1bbcdc + rol v 5)))"

definition R4 :: "u32 list \<Rightarrow> u32 \<Rightarrow> u32 \<Rightarrow> u32 \<Rightarrow> u32 \<Rightarrow> u32 \<Rightarrow> nat \<Rightarrow> u32 list \<times> u32 \<times> u32" where
  "R4 block v w x y z i =
     (let block' = block[i := blk block i]
      in (block', rol w 30,
          z + (xor (xor w x) y + block' ! i + 0xca62c1d6 + rol v 5)))"

section \<open>The unrolled compression function\<close>

text \<open>
  The macros take their working variables by reference. The model of the local variables is
  a store from their names to their values; a call names the macro, the five variables it is
  given and the block index.
\<close>

datatype var = A | B | C | D | E

datatype macro = M0 | M1 | M2 | M3 | M4

fun run_macro ::
  "macro \<Rightarrow> u32 list \<Rightarrow> u32 \<Rightarrow> u32 \<Rightarrow> u32 \<Rightarrow> u32 \<Rightarrow> u32 \<Rightarrow> nat \<Rightarrow> u32 list \<times> u32 \<times> u32" where
  "run_macro M0 = R0"
| "run_macro M1 = R1"
| "run_macro M2 = R2"
| "run_macro M3 = R3"
| "run_macro M4 = R4"

type_synonym call = "macro \<times> var \<times> var \<times> var \<times> var \<times> var \<times> nat"

fun run_call :: "call \<Rightarrow> u32 list \<times> (var \<Rightarrow> u32) \<Rightarrow> u32 list \<times> (var \<Rightarrow> u32)" where
  "run_call (m, v, w, x, y, z, i) (block, s) =
     (case run_macro m block (s v) (s w) (s x) (s y) (s z) i of
        (block', w', z') \<Rightarrow> (block', s(w := w', z := z')))"

definition transform_calls :: "call list" where
  "transform_calls =
    [(M0, A, B, C, D, E, 0), (M0, E, A, B, C, D, 1), (M0, D, E, A, B, C, 2),
     (M0, C, D, E, A, B, 3), (M0, B, C, D, E, A, 4), (M0, A, B, C, D, E, 5),
     (M0, E, A, B, C, D, 6), (M0, D, E, A, B, C, 7), (M0, C, D, E, A, B, 8),
     (M0, B, C, D, E, A, 9), (M0, A, B, C, D, E, 10), (M0, E, A, B, C, D, 11),
     (M0, D, E, A, B, C, 12), (M0, C, D, E, A, B, 13), (M0, B, C, D, E, A, 14),
     (M0, A, B, C, D, E, 15), (M1, E, A, B, C, D, 0), (M1, D, E, A, B, C, 1),
     (M1, C, D, E, A, B, 2), (M1, B, C, D, E, A, 3), (M2, A, B, C, D, E, 4),
     (M2, E, A, B, C, D, 5), (M2, D, E, A, B, C, 6), (M2, C, D, E, A, B, 7),
     (M2, B, C, D, E, A, 8), (M2, A, B, C, D, E, 9), (M2, E, A, B, C, D, 10),
     (M2, D, E, A, B, C, 11), (M2, C, D, E, A, B, 12), (M2, B, C, D, E, A, 13),
     (M2, A, B, C, D, E, 14), (M2, E, A, B, C, D, 15), (M2, D, E, A, B, C, 0),
     (M2, C, D, E, A, B, 1), (M2, B, C, D, E, A, 2), (M2, A, B, C, D, E, 3),
     (M2, E, A, B, C, D, 4), (M2, D, E, A, B, C, 5), (M2, C, D, E, A, B, 6),
     (M2, B, C, D, E, A, 7), (M3, A, B, C, D, E, 8), (M3, E, A, B, C, D, 9),
     (M3, D, E, A, B, C, 10), (M3, C, D, E, A, B, 11), (M3, B, C, D, E, A, 12),
     (M3, A, B, C, D, E, 13), (M3, E, A, B, C, D, 14), (M3, D, E, A, B, C, 15),
     (M3, C, D, E, A, B, 0), (M3, B, C, D, E, A, 1), (M3, A, B, C, D, E, 2),
     (M3, E, A, B, C, D, 3), (M3, D, E, A, B, C, 4), (M3, C, D, E, A, B, 5),
     (M3, B, C, D, E, A, 6), (M3, A, B, C, D, E, 7), (M3, E, A, B, C, D, 8),
     (M3, D, E, A, B, C, 9), (M3, C, D, E, A, B, 10), (M3, B, C, D, E, A, 11),
     (M4, A, B, C, D, E, 12), (M4, E, A, B, C, D, 13), (M4, D, E, A, B, C, 14),
     (M4, C, D, E, A, B, 15), (M4, B, C, D, E, A, 0), (M4, A, B, C, D, E, 1),
     (M4, E, A, B, C, D, 2), (M4, D, E, A, B, C, 3), (M4, C, D, E, A, B, 4),
     (M4, B, C, D, E, A, 5), (M4, A, B, C, D, E, 6), (M4, E, A, B, C, D, 7),
     (M4, D, E, A, B, C, 8), (M4, C, D, E, A, B, 9), (M4, B, C, D, E, A, 10),
     (M4, A, B, C, D, E, 11), (M4, E, A, B, C, D, 12), (M4, D, E, A, B, C, 13),
     (M4, C, D, E, A, B, 14), (M4, B, C, D, E, A, 15)]"

definition load_vars :: "digest \<Rightarrow> var \<Rightarrow> u32" where
  "load_vars d r = (case r of A \<Rightarrow> dg0 d | B \<Rightarrow> dg1 d | C \<Rightarrow> dg2 d | D \<Rightarrow> dg3 d | E \<Rightarrow> dg4 d)"

definition transform :: "digest \<Rightarrow> u32 list \<Rightarrow> u64 \<Rightarrow> digest \<times> u32 list \<times> u64" where
  "transform d block transforms =
     (case fold run_call transform_calls (block, load_vars d) of
        (block', s) \<Rightarrow>
          (\<lparr>dg0 = dg0 d + s A, dg1 = dg1 d + s B, dg2 = dg2 d + s C,
            dg3 = dg3 d + s D, dg4 = dg4 d + s E\<rparr>, block', transforms + 1))"

section \<open>Streaming\<close>

definition byte32 :: "char \<Rightarrow> u32" where
  "byte32 c = ucast (byte_of_char c)"

definition buffer_to_block :: "string \<Rightarrow> u32 list" where
  "buffer_to_block buffer =
     map (\<lambda>i. or (or (or (byte32 (buffer ! (4 * i + 3)))
                (push_bit 8 (byte32 (buffer ! (4 * i + 2)))))
            (push_bit 16 (byte32 (buffer ! (4 * i + 1)))))
        (push_bit 24 (byte32 (buffer ! (4 * i + 0)))))
       [0..<BLOCK_INTS]"

text \<open>
  \<open>update\<close> reads from the stream what is missing from the buffer until the stream cannot
  fill it any more.
\<close>

function update :: "sha1_state \<Rightarrow> string \<Rightarrow> sha1_state" where
  "update st is =
     (let n = BLOCK_BYTES - length (sha_buffer st);
          buffer = sha_buffer st @ take n is
      in if length buffer \<noteq> BLOCK_BYTES then st\<lparr>sha_buffer := buffer\<rparr>
         else case transform (sha_digest st) (buffer_to_block buffer) (sha_transforms st) of
                (d, _, t) \<Rightarrow>
                  update \<lparr>sha_digest = d, sha_buffer = [], sha_transforms = t\<rparr> (drop n is))"
  by pat_completeness auto
termination
  by (relation "measures [\<lambda>(st, is). length is, \<lambda>(st, is). length (sha_buffer st)]")
    (auto simp: BLOCK_BYTES_def BLOCK_INTS_def)

declare update.simps [simp del]

definition hex_digit :: "nat \<Rightarrow> char" where
  "hex_digit n = ''0123456789abcdef'' ! n"

text \<open>Eight digits, filled with \<open>0\<close> on the left, as the stream flags of \<open>final\<close> demand.\<close>

definition hex8 :: "u32 \<Rightarrow> string" where
  "hex8 w = map (\<lambda>i. hex_digit (unat (and (drop_bit (4 * i) w) 15))) (rev [0..<8])"

definition pad_buffer :: "string \<Rightarrow> string" where
  "pad_buffer buffer =
     (let b = buffer @ [CHR 0x80] in b @ replicate (BLOCK_BYTES - length b) (CHR 0x00))"

definition final :: "sha1_state \<Rightarrow> string \<times> sha1_state" where
  "final st =
     (let total_bits = (sha_transforms st * word_of_nat BLOCK_BYTES
            + word_of_nat (length (sha_buffer st))) * 8 :: u64;
          orig_size = length (sha_buffer st) + 1;
          block = buffer_to_block (pad_buffer (sha_buffer st));
          (d, block, t) =
            (if orig_size > BLOCK_BYTES - 8
             then (case transform (sha_digest st) block (sha_transforms st) of
                     (d, block, t) \<Rightarrow>
                       (d, replicate (BLOCK_INTS - 2) 0 @ drop (BLOCK_INTS - 2) block, t))
             else (sha_digest st, block, sha_transforms st));
          block = block[BLOCK_INTS - 1 := ucast total_bits];
          block = block[BLOCK_INTS - 2 := ucast (drop_bit 32 total_bits)];
          (d, block, t) = transform d block t
      in (concat (map hex8 [dg0 d, dg1 d, dg2 d, dg3 d, dg4 d]), reset))"

text \<open>The digest of a file: a file that does not open reads as an empty stream.\<close>

definition from_file :: "(string \<rightharpoonup> string) \<Rightarrow> string \<Rightarrow> string" where
  "from_file files filename =
     fst (final (update reset (case files filename of None \<Rightarrow> [] | Some content \<Rightarrow> content)))"

end
