(* ===== verification/Sha1_Spec.thy ===== *)
theory Sha1_Spec
  imports Sha1
begin

text \<open>
  The Secure Hash Standard's SHA-1 over octet strings, written from the standard: the message
  schedule of 80 words, the round with its logical functions and constants, the padding and
  the iteration over blocks. The rest of the theory proves that the unrolled, streaming code
  of \<open>Sha1\<close> computes it.
\<close>

section \<open>The standard\<close>

definition Ch :: "u32 \<Rightarrow> u32 \<Rightarrow> u32 \<Rightarrow> u32" where
  "Ch x y z = xor (and x y) (and (not x) z)"

definition Parity :: "u32 \<Rightarrow> u32 \<Rightarrow> u32 \<Rightarrow> u32" where
  "Parity x y z = xor (xor x y) z"

definition Maj :: "u32 \<Rightarrow> u32 \<Rightarrow> u32 \<Rightarrow> u32" where
  "Maj x y z = xor (xor (and x y) (and x z)) (and y z)"

definition f_t :: "nat \<Rightarrow> u32 \<Rightarrow> u32 \<Rightarrow> u32 \<Rightarrow> u32" where
  "f_t t = (if t < 20 then Ch else if t < 40 then Parity else if t < 60 then Maj else Parity)"

definition K_t :: "nat \<Rightarrow> u32" where
  "K_t t = (if t < 20 then 0x5a827999 else if t < 40 then 0x6ed9eba1
            else if t < 60 then 0x8f1bbcdc else 0xca62c1d6)"

fun W :: "u32 list \<Rightarrow> nat \<Rightarrow> u32" where
  "W M t = (if t < 16 then M ! t
            else word_rotl 1 (xor (xor (xor (W M (t - 3)) (W M (t - 8))) (W M (t - 14))) (W M (t - 16))))"

declare W.simps [simp del]

type_synonym chain = "u32 \<times> u32 \<times> u32 \<times> u32 \<times> u32"

definition sha1_round :: "u32 list \<Rightarrow> nat \<Rightarrow> chain \<Rightarrow> chain" where
  "sha1_round M t = (\<lambda>(a, b, c, d, e).
     (word_rotl 5 a + f_t t b c d + e + K_t t + W M t, a, word_rotl 30 b, c, d))"

definition sha1_rounds :: "u32 list \<Rightarrow> nat \<Rightarrow> chain \<Rightarrow> chain" where
  "sha1_rounds M n h = fold (sha1_round M) [0..<n] h"

definition compress :: "u32 list \<Rightarrow> chain \<Rightarrow> chain" where
  "compress M h = (case h of (h0, h1, h2, h3, h4) \<Rightarrow>
     (case sha1_rounds M 80 h of (a, b, c, d, e) \<Rightarrow> (h0 + a, h1 + b, h2 + c, h3 + d, h4 + e)))"

definition initial_chain :: chain where
  "initial_chain = (0x67452301, 0xefcdab89, 0x98badcfe, 0x10325476, 0xc3d2e1f0)"

section \<open>The rounds\<close>

lemma rol_word_rotl:
  assumes "0 < n" and "n < 32"
  shows "rol w n = word_rotl n w"
proof (rule bit_word_eqI)
  fix k assume "k < LENGTH(32)"
  then have k: "k < 32" by simp
  have l: "bit (rol w n) k \<longleftrightarrow> n \<le> k \<and> bit w (k - n) \<or> bit w (32 - n + k)"
    using k by (auto simp: rol_def bit_simps)
  have r: "bit (word_rotl n w) k \<longleftrightarrow> bit w ((k + (32 - n)) mod 32)"
    using k assms unfolding bit_word_rotl_iff by simp
  show "bit (rol w n) k = bit (word_rotl n w) k"
  proof (cases "n \<le> k")
    case True
    then have "k + (32 - n) = (k - n) + 32" using assms by simp
    then have "(k + (32 - n)) mod 32 = k - n" using k by (simp only: mod_add_self2) simp
    moreover have "\<not> bit w (32 - n + k)"
      using True assms bit_imp_le_length [of w "32 - n + k"] by auto
    ultimately show ?thesis using True by (simp only: l r) simp
  next
    case False
    then have "(k + (32 - n)) mod 32 = 32 - n + k" using assms by simp
    then show ?thesis using False by (simp only: l r) simp
  qed
qed

lemma Ch_code: "xor (and w (xor x y)) y = Ch w x y"
  by (rule bit_word_eqI) (auto simp: Ch_def bit_simps)

lemma Parity_code: "xor (xor w x) y = Parity w x y"
  by (simp add: Parity_def)

lemma Maj_code: "or (and (or w x) y) (and w x) = Maj w x y"
  by (rule bit_word_eqI) (auto simp: Maj_def bit_simps)

text \<open>The call of round \<open>j\<close>: the names rotate to the right by one place each round.\<close>

definition var_at :: "nat \<Rightarrow> nat \<Rightarrow> var" where
  "var_at p j = [A, B, C, D, E] ! ((p + 4 * j) mod 5)"

definition macro_at :: "nat \<Rightarrow> macro" where
  "macro_at j = (if j < 16 then M0 else if j < 20 then M1 else if j < 40 then M2
     else if j < 60 then M3 else M4)"

definition call_at :: "nat \<Rightarrow> call" where
  "call_at j = (macro_at j, var_at 0 j, var_at 1 j, var_at 2 j, var_at 3 j, var_at 4 j, j mod 16)"

lemma transform_calls_rounds: "transform_calls = map call_at [0..<80]"
  by code_simp

text \<open>The circular buffer before round \<open>j\<close> holds the last 16 words of the schedule.\<close>

definition buffered :: "u32 list \<Rightarrow> nat \<Rightarrow> u32 list \<Rightarrow> bool" where
  "buffered M j block \<longleftrightarrow> length block = 16 \<and>
     (\<forall>t. max j 16 \<le> t + 16 \<and> t < max j 16 \<longrightarrow> block ! (t mod 16) = W M t)"

lemma buffered_initial: "length M = 16 \<Longrightarrow> buffered M 0 M"
  by (auto simp: buffered_def W.simps)

lemma buffered_early:
  assumes "buffered M j block" and "j < 16"
  shows "block ! j = W M j" and "buffered M (Suc j) block"
proof -
  have m: "max j 16 = 16" "max (Suc j) 16 = 16" using assms(2) by simp_all
  have "j + 16 \<ge> 16 \<and> j < 16 \<longrightarrow> block ! (j mod 16) = W M j"
    using assms(1) unfolding buffered_def m by blast
  with assms(2) show "block ! j = W M j" by simp
  show "buffered M (Suc j) block" using assms(1) unfolding buffered_def m .
qed

lemma buffered_at: "buffered M j block \<Longrightarrow> 16 \<le> j \<Longrightarrow> j \<le> t + 16 \<Longrightarrow> t < j \<Longrightarrow>
    block ! (t mod 16) = W M t"
  by (auto simp: buffered_def)

lemma and_15_mod: "and (n :: nat) 15 = n mod 16"
  using take_bit_eq_mask [of 4 n] by (simp add: take_bit_eq_mod mask_eq_exp_minus_1)

lemma blk_schedule:
  assumes "buffered M j block" and "16 \<le> j"
  shows "blk block (j mod 16) = W M j"
proof -
  define q where "q = j - 16"
  with assms(2) have q: "j = q + 16" by simp
  have i: "(j mod 16 + 13) mod 16 = (j - 3) mod 16" "(j mod 16 + 8) mod 16 = (j - 8) mod 16"
     "(j mod 16 + 2) mod 16 = (j - 14) mod 16" "j mod 16 = (j - 16) mod 16"
    by (simp_all add: q mod_simps add.commute)
  have "block ! ((j - 3) mod 16) = W M (j - 3)" "block ! ((j - 8) mod 16) = W M (j - 8)"
     "block ! ((j - 14) mod 16) = W M (j - 14)" "block ! ((j - 16) mod 16) = W M (j - 16)"
    using assms by (auto intro!: buffered_at [OF assms])
  then have "blk block (j mod 16) = word_rotl 1 (xor (xor (xor (W M (j - 3)) (W M (j - 8)))
      (W M (j - 14))) (W M (j - 16)))"
    unfolding blk_def and_15_mod i(1-3) by (simp add: rol_word_rotl flip: i(4))
  with assms(2) show ?thesis by (simp add: W.simps [of M j])
qed

lemma buffered_late:
  assumes "buffered M j block" and "16 \<le> j"
  shows "buffered M (Suc j) (block[j mod 16 := blk block (j mod 16)])"
proof -
  have "block[j mod 16 := W M j] ! (t mod 16) = W M t" if "Suc j \<le> t + 16" "t < Suc j" for t
  proof (cases "t = j")
    case True
    then show ?thesis using assms(1) by (simp add: buffered_def)
  next
    case False
    with that have "t \<le> j" "0 < j - t" "j - t < 16" by auto
    then have "t mod 16 \<noteq> j mod 16"
      using mod_eq_dvd_iff_nat [of t j 16] dvd_imp_le [of 16 "j - t"] by auto
    moreover have "block ! (t mod 16) = W M t"
      using that False by (intro buffered_at [OF assms]) auto
    ultimately show ?thesis by simp
  qed
  moreover have "length block = 16" using assms(1) by (simp add: buffered_def)
  ultimately show ?thesis
    unfolding blk_schedule [OF assms] buffered_def using assms(2) by (simp add: max_def)
qed

lemma macro_round:
  assumes "buffered M j block" and "j < 80"
  shows "\<exists>block'. run_macro (macro_at j) block v w x y z (j mod 16) =
      (block', word_rotl 30 w, z + (f_t j w x y + W M j + K_t j + word_rotl 5 v)) \<and>
    buffered M (Suc j) block'"
proof (cases "j < 16")
  case True
  with buffered_early [OF assms(1)] show ?thesis
    by (simp add: macro_at_def R0_def Ch_code rol_word_rotl f_t_def K_t_def)
next
  case False
  let ?b = "block[j mod 16 := blk block (j mod 16)]"
  have len: "length block = 16" using assms(1) by (simp add: buffered_def)
  have "buffered M (Suc j) ?b" using False by (intro buffered_late [OF assms(1)]) simp
  moreover have "?b ! (j mod 16) = W M j" using False len by (simp add: blk_schedule [OF assms(1)])
  ultimately show ?thesis
    using False by (auto simp: macro_at_def R1_def R2_def R3_def R4_def Let_def Ch_code
        Parity_code Maj_code rol_word_rotl f_t_def K_t_def)
qed

text \<open>What the five variables hold before round \<open>j\<close>, in the order of the standard.\<close>

definition chain_at :: "nat \<Rightarrow> (var \<Rightarrow> u32) \<Rightarrow> chain" where
  "chain_at j s = (s (var_at 0 j), s (var_at 1 j), s (var_at 2 j), s (var_at 3 j), s (var_at 4 j))"

lemma var_at_mod: "var_at p j = [A, B, C, D, E] ! ((p + 4 * (j mod 5)) mod 5)"
proof -
  have "(p + 4 * j) mod 5 = (p + 4 * (j mod 5)) mod 5" 
    by (metis mod_add_right_eq mod_mult_right_eq)
  then show ?thesis by (simp only: var_at_def)
qed

lemma chain_at_Suc:
  "chain_at (Suc j) (s(var_at 1 j := w, var_at 4 j := z)) =
     (z, s (var_at 0 j), w, s (var_at 2 j), s (var_at 3 j))"
proof -
  consider "j mod 5 = 0" | "j mod 5 = 1" | "j mod 5 = 2" | "j mod 5 = 3" | "j mod 5 = 4"
    by linarith
  then show ?thesis
  proof cases
    case 1
    moreover from 1 have "Suc j mod 5 = 1" by presburger
    ultimately show ?thesis by (simp add: chain_at_def var_at_mod)
  next
    case 2
    moreover from 2 have "Suc j mod 5 = 2" by presburger
    ultimately show ?thesis by (simp add: chain_at_def var_at_mod)
  next
    case 3
    moreover from 3 have "Suc j mod 5 = 3" by presburger
    ultimately show ?thesis by (simp add: chain_at_def var_at_mod)
  next
    case 4
    moreover from 4 have "Suc j mod 5 = 4" by presburger
    ultimately show ?thesis by (simp add: chain_at_def var_at_mod)
  next
    case 5
    moreover from 5 have "Suc j mod 5 = 0" by presburger
    ultimately show ?thesis by (simp add: chain_at_def var_at_mod)
  qed
qed

lemma calls_rounds:
  assumes "length M = 16" and "n \<le> 80"
  shows "\<exists>block s'. fold run_call (map call_at [0..<n]) (M, s) = (block, s') \<and>
    buffered M n block \<and> chain_at n s' = sha1_rounds M n (chain_at 0 s)"
  using assms(2)
proof (induction n)
  case 0
  then show ?case using assms(1) by (simp add: buffered_initial sha1_rounds_def)
next
  case (Suc n)
  then obtain block s' where IH: "fold run_call (map call_at [0..<n]) (M, s) = (block, s')"
      "buffered M n block" "chain_at n s' = sha1_rounds M n (chain_at 0 s)" by auto
  let ?z = "s' (var_at 4 n) + (f_t n (s' (var_at 1 n)) (s' (var_at 2 n)) (s' (var_at 3 n)) +
      W M n + K_t n + word_rotl 5 (s' (var_at 0 n)))"
  obtain block' where step:
      "run_macro (macro_at n) block (s' (var_at 0 n)) (s' (var_at 1 n)) (s' (var_at 2 n))
         (s' (var_at 3 n)) (s' (var_at 4 n)) (n mod 16) =
       (block', word_rotl 30 (s' (var_at 1 n)), ?z)"
      and buf: "buffered M (Suc n) block'"
    using macro_round [OF IH(2)] Suc.prems by (meson Suc_le_lessD)
  have "run_call (call_at n) (block, s') =
      (block', s'(var_at 1 n := word_rotl 30 (s' (var_at 1 n)), var_at 4 n := ?z))"
    by (simp only: call_at_def run_call.simps step prod.case)
  moreover have "chain_at (Suc n) (s'(var_at 1 n := word_rotl 30 (s' (var_at 1 n)), var_at 4 n := ?z)) =
      sha1_round M n (chain_at n s')"
    by (simp only: chain_at_Suc) (simp add: chain_at_def sha1_round_def ac_simps)
  moreover have "sha1_rounds M (Suc n) (chain_at 0 s) = sha1_round M n (chain_at n s')"
    by (simp add: sha1_rounds_def IH(3))
  ultimately show ?case using IH(1) buf by simp
qed

section \<open>The compression function\<close>

definition chain_of :: "digest \<Rightarrow> chain" where
  "chain_of d = (dg0 d, dg1 d, dg2 d, dg3 d, dg4 d)"

theorem transform_compress:
  assumes "length M = 16" and "transform d M n = (d', M', n')"
  shows "chain_of d' = compress M (chain_of d) \<and> n' = n + 1 \<and> length M' = 16"
proof -
  obtain block s where run: "fold run_call transform_calls (M, load_vars d) = (block, s)"
      "buffered M 80 block" "chain_at 80 s = sha1_rounds M 80 (chain_at 0 (load_vars d))"
    using calls_rounds [OF assms(1), of 80 "load_vars d"] by (auto simp: transform_calls_rounds)
  have "chain_at 80 s = (s A, s B, s C, s D, s E)" "chain_at 0 (load_vars d) = chain_of d"
    by (simp_all add: chain_at_def var_at_def load_vars_def chain_of_def)
  with run assms(2) show ?thesis
    by (auto simp: transform_def compress_def chain_of_def buffered_def split: prod.splits)
qed

end
