(* ===== verification/Sha1_Stream.thy ===== *)
theory Sha1_Stream
  imports Sha1_Spec Byte_Order
begin

text \<open>
  Padding and iteration: the standard's digest of an octet string, and the proof that
  \<open>update\<close> and \<open>final\<close> compute it however the input is cut into pieces.
\<close>

section \<open>The standard's padding and iteration\<close>

definition be32 :: "string \<Rightarrow> u32" where
  "be32 cs = le_word (rev (map byte_of_char cs))"

definition be64 :: "u64 \<Rightarrow> string" where
  "be64 w = map char_of_byte (rev (le_bytes w))"

definition block_words :: "string \<Rightarrow> u32 list" where
  "block_words b = map (\<lambda>i. be32 (take 4 (drop (4 * i) b))) [0..<16]"

function octet_blocks :: "string \<Rightarrow> string list" where
  "octet_blocks s = (if length s < 64 then [] else take 64 s # octet_blocks (drop 64 s))"
  by pat_completeness auto
termination
  by (relation "measure length") auto

declare octet_blocks.simps [simp del]

definition pad :: "string \<Rightarrow> string" where
  "pad s = s @ [CHR 0x80] @ replicate (nat ((55 - int (length s)) mod 64)) (CHR 0x00)
     @ be64 (word_of_nat (8 * length s))"

definition sha1_chain :: "string \<Rightarrow> chain" where
  "sha1_chain s = fold (\<lambda>b. compress (block_words b)) (octet_blocks s) initial_chain"

definition hex_of_chain :: "chain \<Rightarrow> string" where
  "hex_of_chain h = (case h of (a, b, c, d, e) \<Rightarrow> concat (map hex8 [a, b, c, d, e]))"

definition sha1_standard :: "string \<Rightarrow> string" where
  "sha1_standard s = hex_of_chain (sha1_chain (pad s))"

section \<open>Blocks\<close>

lemma length_be64 [simp]: "length (be64 w) = 8"
  by (simp add: be64_def)

lemma octet_blocks_snoc:
  "64 dvd length xs \<Longrightarrow> length b = 64 \<Longrightarrow> octet_blocks (xs @ b) = octet_blocks xs @ [b]"
proof (induction xs rule: octet_blocks.induct)
  case (1 xs)
  show ?case
  proof (cases "length xs < 64")
    case True
    with "1.prems"(1) have "xs = []" by auto
    with "1.prems"(2) show ?thesis by (simp add: octet_blocks.simps)
  next
    case False
    with 1 have "octet_blocks (drop 64 xs @ b) = octet_blocks (drop 64 xs) @ [b]"
      by (simp add: dvd_diff_nat)
    with False show ?thesis
      by (subst (1 2) octet_blocks.simps) simp
  qed
qed

lemma sha1_chain_snoc:
  "64 dvd length xs \<Longrightarrow> length b = 64 \<Longrightarrow>
     sha1_chain (xs @ b) = compress (block_words b) (sha1_chain xs)"
  by (simp add: sha1_chain_def octet_blocks_snoc)

lemma be32_bytes:
  "or (or (or (byte32 c3) (push_bit 8 (byte32 c2))) (push_bit 16 (byte32 c1)))
      (push_bit 24 (byte32 c0)) = be32 [c0, c1, c2, c3]"
  by (simp add: be32_def byte32_def push_bit_or ac_simps)

lemma take4_nth:
  "k + 4 \<le> length b \<Longrightarrow> take 4 (drop k b) = [b ! k, b ! (k + 1), b ! (k + 2), b ! (k + 3)]"
  by (rule nth_equalityI) (auto simp: nth_Cons less_Suc_eq numeral_eq_Suc split: nat.splits)

lemma buffer_to_block_words: "length b = 64 \<Longrightarrow> buffer_to_block b = block_words b"
  by (auto simp: buffer_to_block_def block_words_def BLOCK_INTS_def be32_bytes take4_nth)

lemma length_buffer_to_block [simp]: "length (buffer_to_block b) = 16"
  by (simp add: buffer_to_block_def BLOCK_INTS_def)

lemma be32_char_of_byte: "be32 (map char_of_byte bs) = le_word (rev bs)"
  by (simp add: be32_def comp_def)

lemma be32_be64: "be32 (take 4 (be64 w)) = ucast (drop_bit 32 w)" (is ?high)
  "be32 (drop 4 (be64 w)) = ucast w" (is ?low)
proof -
  have "take 4 (be64 w) = map char_of_byte (rev (drop 4 (le_bytes w)))"
    "drop 4 (be64 w) = map char_of_byte (rev (take 4 (le_bytes w)))"
    by (simp_all add: be64_def take_map drop_map take_rev drop_rev)
  then have w: "be32 (take 4 (be64 w)) = le_word (drop 4 (le_bytes w))"
    "be32 (drop 4 (be64 w)) = le_word (take 4 (le_bytes w))"
    by (simp_all add: be32_char_of_byte)
  have d: "8 * (4 + n div 8) + n mod 8 = n + 32" for n :: nat by simp
  show ?high
    unfolding w by (rule bit_word_eqI) (auto simp: bit_le_word le_bytes_def bit_simps d add.commute [of n 32 for n])
  show ?low
    unfolding w by (rule bit_word_eqI) (auto simp: bit_le_word le_bytes_def bit_simps)
qed

section \<open>Streaming\<close>

text \<open>
  What the object has consumed: whole blocks, already in the chaining value, and a buffer
  shorter than a block.
\<close>

definition sha1_repr :: "sha1_state \<Rightarrow> string \<Rightarrow> bool" where
  "sha1_repr st m \<longleftrightarrow> (\<exists>xs. m = xs @ sha_buffer st \<and> 64 dvd length xs \<and>
     length (sha_buffer st) < 64 \<and> chain_of (sha_digest st) = sha1_chain xs \<and>
     sha_transforms st = word_of_nat (length xs div 64))"

lemma sha1_repr_reset: "sha1_repr reset []"
  by (simp add: sha1_repr_def reset_def sha1_chain_def octet_blocks.simps initial_chain_def
      chain_of_def)

lemma sha1_repr_block:
  assumes "64 dvd length xs" and "length b = 64" and "chain_of d = sha1_chain xs"
    and "transform d (buffer_to_block b) (word_of_nat (length xs div 64)) = (d', blk', n')"
  shows "chain_of d' = sha1_chain (xs @ b)" and "n' = word_of_nat (length (xs @ b) div 64)"
  using transform_compress [OF length_buffer_to_block assms(4)] assms(1-3)
  by (auto simp: sha1_chain_snoc buffer_to_block_words)

lemma update_repr: "sha1_repr st m \<Longrightarrow> sha1_repr (update st is) (m @ is)"
proof (induction st "is" arbitrary: m rule: update.induct)
  case (1 st "is")
  let ?n = "BLOCK_BYTES - length (sha_buffer st)"
  let ?buf = "sha_buffer st @ take ?n is"
  from "1.prems" obtain xs where xs: "m = xs @ sha_buffer st" "64 dvd length xs"
      "length (sha_buffer st) < 64" "chain_of (sha_digest st) = sha1_chain xs"
      "sha_transforms st = word_of_nat (length xs div 64)"
    by (auto simp: sha1_repr_def)
  have n: "?n = 64 - length (sha_buffer st)" by (simp add: BLOCK_BYTES_def BLOCK_INTS_def)
  show ?case
  proof (cases "length ?buf = BLOCK_BYTES")
    case False
    then have "length is < ?n" using xs(3) n by (auto simp: BLOCK_BYTES_def BLOCK_INTS_def)
    with False xs show ?thesis
      by (subst update.simps) (auto simp: sha1_repr_def Let_def n)
  next
    case True
    obtain d blk' t where tr: "transform (sha_digest st) (buffer_to_block ?buf)
        (sha_transforms st) = (d, blk', t)" by (metis prod_cases3)
    let ?st = "\<lparr>sha_digest = d, sha_buffer = [], sha_transforms = t\<rparr>"
    have len: "length ?buf = 64" using True by (simp add: BLOCK_BYTES_def BLOCK_INTS_def)
    from sha1_repr_block [OF xs(2) len xs(4) tr [unfolded xs(5)]]
    have "sha1_repr ?st (xs @ ?buf)" using xs(2) len by (auto simp: sha1_repr_def)
    then have "sha1_repr (update ?st (drop ?n is)) ((xs @ ?buf) @ drop ?n is)"
      using True by (intro "1.IH" [OF refl refl _ tr [symmetric]]) simp_all
    moreover have "update st is = update ?st (drop ?n is)"
      using True tr by (subst update.simps) (simp add: Let_def)
    ultimately show ?thesis using xs(1) by simp
  qed
qed

text \<open>The last one or two blocks, as the standard pads them.\<close>

lemma block_words_length_field:
  assumes p: "length p = 56" and q: "length q = 8"
  shows "block_words (p @ be64 w) =
    (buffer_to_block (p @ q))[15 := ucast w, 14 := ucast (drop_bit 32 w)]"
proof (rule nth_equalityI)
  fix i assume "i < length (block_words (p @ be64 w))"
  then have i: "i < 16" by (simp add: block_words_def)
  have eq: "buffer_to_block (p @ q) = block_words (p @ q)"
    using p q by (intro buffer_to_block_words) simp
  consider "i < 14" | "i = 14" | "i = 15" using i by linarith
  then show "block_words (p @ be64 w) ! i =
      (buffer_to_block (p @ q))[15 := ucast w, 14 := ucast (drop_bit 32 w)] ! i"
    using p q by cases (simp_all add: eq block_words_def be32_be64)
qed (simp add: block_words_def)

lemma pad_split:
  assumes "64 dvd length xs" and "length b < 64"
  shows "pad (xs @ b) = xs @ b @ [CHR 0x80] @
    replicate (if length b \<le> 55 then 55 - length b else 119 - length b) (CHR 0x00) @
    be64 (word_of_nat (8 * length (xs @ b)))"
proof -
  obtain k where k: "length xs = 64 * k" using assms(1) by (auto elim: dvdE)
  have "55 - int (length (xs @ b)) = (55 - int (length b)) + 64 * (- int k)" by (simp add: k)
  then have "(55 - int (length (xs @ b))) mod 64 = (55 - int (length b)) mod 64"
    by (simp only: mod_mult_self2)
  moreover have "(55 - int (length b)) mod 64 =
      (if length b \<le> 55 then 55 - int (length b) else 119 - int (length b))"
  proof (cases "length b \<le> 55")
    case False
    have "55 - int (length b) = (119 - int (length b)) - 64" by simp
    then have "(55 - int (length b)) mod 64 = (119 - int (length b)) mod 64"
      by (simp only: minus_mod_self2)
    with False assms(2) show ?thesis by simp
  qed simp
  ultimately show ?thesis using assms(2) by (simp add: pad_def nat_diff_distrib)
qed

lemma hex_of_chain_digest:
  "hex_of_chain (chain_of d) = concat (map hex8 [dg0 d, dg1 d, dg2 d, dg3 d, dg4 d])"
  by (simp add: hex_of_chain_def chain_of_def)

lemma buffer_to_block_zeros: "buffer_to_block (replicate 64 (CHR 0x00)) = replicate 16 0"
  by (rule nth_equalityI) (simp_all add: buffer_to_block_def BLOCK_INTS_def byte32_def byte_of_char_def)

lemma last_two_words:
  assumes "length ws = 16"
  shows "(replicate 14 0 @ drop 14 ws)[15 := x, 14 := y] = (replicate 16 (0::u32))[15 := x, 14 := y]"
  by (rule nth_equalityI) (use assms in \<open>auto simp: nth_list_update nth_append\<close>)

lemma zero_block: "buffer_to_block (replicate 56 (CHR 0x00) @ replicate 8 (CHR 0x00)) = replicate 16 0"
  using buffer_to_block_zeros by (simp flip: replicate_add)

lemma total_bits:
  assumes "64 dvd length xs"
  shows "(word_of_nat (length xs div 64) * word_of_nat BLOCK_BYTES + word_of_nat (length b)) * 8
    = (word_of_nat (8 * length (xs @ b)) :: u64)"
proof -
  obtain k where k: "length xs = 64 * k" using assms by (auto elim: dvdE)
  then show ?thesis by (simp add: BLOCK_BYTES_def BLOCK_INTS_def algebra_simps)
qed

lemma final_repr:
  assumes "sha1_repr st m"
  shows "final st = (sha1_standard m, reset)"
proof -
  from assms obtain xs where xs: "m = xs @ sha_buffer st" "64 dvd length xs"
      "length (sha_buffer st) < 64" "chain_of (sha_digest st) = sha1_chain xs"
      "sha_transforms st = word_of_nat (length xs div 64)"
    by (auto simp: sha1_repr_def)
  define b where "b = sha_buffer st"
  define tb where "tb = (word_of_nat (8 * length (xs @ b)) :: u64)"
  let ?blk = "buffer_to_block (pad_buffer b)"
  note bb = BLOCK_BYTES_def BLOCK_INTS_def
  have tb: "(sha_transforms st * word_of_nat BLOCK_BYTES + word_of_nat (length b)) * 8 = tb"
    unfolding xs(5) tb_def by (rule total_bits [OF xs(2)])
  have lb: "length b < 64" using xs(3) by (simp add: b_def)
  show ?thesis
  proof (cases "length b \<le> 55")
    case True
    define p where "p = b @ [CHR 0x80] @ replicate (55 - length b) (CHR 0x00)"
    have lp: "length p = 56" using True by (simp add: p_def)
    have pb: "pad_buffer b = p @ replicate 8 (CHR 0x00)"
      using True by (simp add: pad_buffer_def p_def bb Let_def flip: replicate_add)
    have padm: "pad m = xs @ (p @ be64 tb)"
      using True pad_split [OF xs(2) lb] by (simp add: xs(1) p_def tb_def b_def)
    have blk: "?blk[15 := ucast tb, 14 := ucast (drop_bit 32 tb)] = block_words (p @ be64 tb)"
      unfolding pb by (rule block_words_length_field [OF lp, symmetric]) simp
    obtain d blk' n where tr: "transform (sha_digest st) (block_words (p @ be64 tb))
        (sha_transforms st) = (d, blk', n)" by (metis prod_cases3)
    have "chain_of d = compress (block_words (p @ be64 tb)) (sha1_chain xs)"
      using transform_compress [OF _ tr] xs(4) by (simp add: block_words_def)
    also have "\<dots> = sha1_chain (pad m)"
      unfolding padm using lp by (simp add: sha1_chain_snoc [OF xs(2)])
    finally have "chain_of d = sha1_chain (pad m)" .
    moreover have "final st = (concat (map hex8 [dg0 d, dg1 d, dg2 d, dg3 d, dg4 d]), reset)"
      using True blk tr tb by (simp add: final_def Let_def bb flip: b_def)
    ultimately show ?thesis by (simp only: sha1_standard_def flip: hex_of_chain_digest)
  next
    case False
    define p1 where "p1 = b @ [CHR 0x80] @ replicate (63 - length b) (CHR 0x00)"
    define p2 where "p2 = replicate 56 (CHR 0x00) @ be64 tb"
    have l1: "length p1 = 64" and l2: "length p2 = 64" using lb by (simp_all add: p1_def p2_def)
    have pb: "pad_buffer b = p1" by (simp add: pad_buffer_def p1_def bb Let_def)
    obtain d1 blk1 n1 where t1: "transform (sha_digest st) ?blk (sha_transforms st) = (d1, blk1, n1)"
      by (metis prod_cases3)
    have c1: "chain_of d1 = sha1_chain (xs @ p1)" "length blk1 = 16"
      using transform_compress [OF length_buffer_to_block t1] xs(4) l1
      by (simp_all add: sha1_chain_snoc [OF xs(2)] pb buffer_to_block_words)
    have "block_words p2 = (buffer_to_block (replicate 56 (CHR 0x00) @ replicate 8 (CHR 0x00)))
        [15 := ucast tb, 14 := ucast (drop_bit 32 tb)]"
      unfolding p2_def by (rule block_words_length_field) simp_all
    then have blk: "(replicate 14 0 @ drop 14 blk1)[15 := ucast tb, 14 := ucast (drop_bit 32 tb)]
        = block_words p2"
      using last_two_words [OF c1(2), of "ucast tb" "ucast (drop_bit 32 tb)"]
      by (simp add: zero_block)
    obtain d blk' n where tr: "transform d1 (block_words p2) n1 = (d, blk', n)" by (metis prod_cases3)
    have "chain_of d = compress (block_words p2) (sha1_chain (xs @ p1))"
      using transform_compress [OF _ tr] c1 by (simp add: block_words_def)
    also have "\<dots> = sha1_chain ((xs @ p1) @ p2)"
      using sha1_chain_snoc [of "xs @ p1" p2] sha1_chain_snoc [of xs p1] xs(2) l1 l2 by simp
    also have "(xs @ p1) @ p2 = pad m"
    proof -
      have "119 - length b = (63 - length b) + 56" using False lb by simp
      then have "replicate (119 - length b) (CHR 0x00) =
          replicate (63 - length b) (CHR 0x00) @ replicate 56 (CHR 0x00)"
        by (simp only: replicate_add)
      then show ?thesis
        using False pad_split [OF xs(2) lb] by (simp add: xs(1) p1_def p2_def tb_def b_def)
    qed
    finally have "chain_of d = sha1_chain (pad m)" .
    moreover have "final st = (concat (map hex8 [dg0 d, dg1 d, dg2 d, dg3 d, dg4 d]), reset)"
      using False blk t1 tr tb by (simp add: final_def Let_def bb flip: b_def)
    ultimately show ?thesis by (simp only: sha1_standard_def flip: hex_of_chain_digest)
  qed
qed

lemma updates_repr:
  "sha1_repr st m \<Longrightarrow> sha1_repr (fold (\<lambda>piece st. update st piece) pieces st) (m @ concat pieces)"
proof (induction pieces arbitrary: st m)
  case Nil
  then show ?case by simp
next
  case (Cons piece pieces)
  from Cons.IH [OF update_repr [OF Cons.prems]] show ?case by simp
qed

section \<open>The digest as text\<close>

lemma hex_digit_in: "n < 16 \<Longrightarrow> hex_digit n \<in> set ''0123456789abcdef''"
  unfolding hex_digit_def by (rule nth_mem) simp

lemma hex8_text: "length (hex8 w) = 8 \<and> set (hex8 w) \<subseteq> set ''0123456789abcdef''"
proof -
  have "unat (and (drop_bit k w) 15) < 16" for k
  proof -
    have "and (drop_bit k w) 15 \<le> 15" by (rule word_and_le1)
    then have "unat (and (drop_bit k w) 15) \<le> unat (15 :: u32)" by (simp add: word_le_nat_alt)
    then show ?thesis by simp
  qed
  then have "set (hex8 w) \<subseteq> hex_digit ` {..<16}" by (auto simp: hex8_def)
  also have "\<dots> \<subseteq> set ''0123456789abcdef''" using hex_digit_in by auto
  finally show ?thesis by (simp add: hex8_def)
qed

lemma hex_of_chain_text:
  "length (hex_of_chain h) = 40 \<and> set (hex_of_chain h) \<subseteq> set ''0123456789abcdef''"
  using hex8_text by (cases h) (auto simp: hex_of_chain_def)

lemma from_file_standard:
  "from_file files f = sha1_standard (case files f of None \<Rightarrow> [] | Some content \<Rightarrow> content)"
  using final_repr [OF update_repr [OF sha1_repr_reset]] by (simp add: from_file_def)

lemma from_file_text:
  "length (from_file files f) = 40 \<and> set (from_file files f) \<subseteq> set ''0123456789abcdef''"
  by (simp only: from_file_standard sha1_standard_def hex_of_chain_text)

section \<open>The properties of the digest\<close>

text \<open>
  C5. The unrolled, streaming SHA-1 of the code computes the standard's SHA-1: however the
  input is cut into pieces handed to \<open>update\<close>, \<open>final\<close> returns the standard's digest of their
  concatenation in lower-case hexadecimal and leaves the object ready for the next message.
\<close>

theorem sha1_streaming_correct:
  "final (fold (\<lambda>piece st. update st piece) pieces reset) = (sha1_standard (concat pieces), reset)"
  by (rule final_repr) (use updates_repr [OF sha1_repr_reset] in simp)

end
