(* ===== verification/File_System.thy ===== *)
theory File_System
  imports Std_Stream Sha1_Stream
begin

text \<open>
  \<open>modules/netlib_filesystem.h\<close>: the catalogue of files known to the node. A file is cut
  into pieces kept under \<open>./Data/<id>/\<close>, described by a text file \<open>./Data/<id>.info\<close> that
  lists the digest and the size of each piece; a piece is \<open>Have\<close> when its file is there with
  the listed size and digest. The disk is part of the state. Directories are created before
  every write, so a file that is opened for writing always opens.
\<close>

section \<open>State\<close>

datatype piece_state = PNone | POpen | PHave

record piece_info =
  pi_state :: piece_state
  pi_size :: u64
  pi_sha1 :: string
  pi_lastTime :: u64

record file_info =
  fi_fileName :: string
  fi_fileId :: string
  fi_pieces :: "piece_info list"

record file_system =
  fs_filesPath :: string
  fs_filesInfo :: "string \<rightharpoonup> file_info"
  fs_disk :: files

definition default_piece :: piece_info where
  "default_piece = \<lparr>pi_state = PNone, pi_size = 0, pi_sha1 = [], pi_lastTime = - 1\<rparr>"

definition default_file :: file_info where
  "default_file = \<lparr>fi_fileName = [], fi_fileId = [], fi_pieces = []\<rparr>"

definition INFO_FILETYPE :: string where "INFO_FILETYPE = ''.info''"

definition DATA_FILETYPE :: string where "DATA_FILETYPE = ''.data''"

definition DATA_PATH :: string where "DATA_PATH = ''./Data''"

text \<open>The separator the code writes, a backslash.\<close>

definition SEP :: string where "SEP = [CHR 0x5C]"

section \<open>Operations\<close>

definition checkInfoFile :: "string \<Rightarrow> bool" where
  "checkInfoFile path \<longleftrightarrow> length INFO_FILETYPE \<le> length path \<and>
     drop (length path - length INFO_FILETYPE) path = INFO_FILETYPE"

definition checkExists :: "file_system \<Rightarrow> string \<Rightarrow> bool" where
  "checkExists fs path \<longleftrightarrow> fs_disk fs path \<noteq> None"

definition getPath :: "string \<Rightarrow> u64 \<Rightarrow> string" where
  "getPath fileId pieceNum = DATA_PATH @ SEP @ fileId @ SEP @ to_string (unat pieceNum) @ DATA_FILETYPE"

definition infoPath :: "string \<Rightarrow> string" where
  "infoPath fileId = DATA_PATH @ SEP @ fileId @ INFO_FILETYPE"

definition checkPiece :: "file_system \<Rightarrow> file_info \<Rightarrow> u64 \<Rightarrow> bool" where
  "checkPiece fs file pieceId =
     (let path = DATA_PATH @ SEP @ fi_fileId file @ SEP @ (to_string (unat pieceId) @ DATA_FILETYPE);
          piece = fi_pieces file ! unat pieceId
      in case fs_disk fs path of
           None \<Rightarrow> False
         | Some content \<Rightarrow>
             word_of_nat (length content) = pi_size piece \<and>
             from_file (fs_disk fs) path = pi_sha1 piece)"

definition checkPieces :: "file_system \<Rightarrow> file_info \<Rightarrow> file_info" where
  "checkPieces fs file =
     file\<lparr>fi_pieces := map (\<lambda>i. (fi_pieces file ! i)\<lparr>pi_state :=
        (if checkPiece fs file (word_of_nat i) then PHave else PNone)\<rparr>)
        [0..<length (fi_pieces file)]\<rparr>"

text \<open>
  Parsing a \<open>.info\<close> file. \<open>resize\<close> keeps the entries a file that is already known has;
  a count beyond the vector's limit throws.
\<close>

definition max_pieces :: nat where "max_pieces = (2 ^ 63 - 1) div 56"

definition resize :: "nat \<Rightarrow> piece_info list \<Rightarrow> piece_info list" where
  "resize n ps = take n ps @ replicate (n - length ps) default_piece"

fun read_pieces :: "piece_info list \<Rightarrow> istream \<Rightarrow> piece_info list \<times> istream" where
  "read_pieces [] s = ([], s)"
| "read_pieces (p # ps) s =
     (case read_string s (pi_sha1 p) of (sha1, s) \<Rightarrow>
      case read_u64 s (pi_size p) of (sz, s) \<Rightarrow>
      case read_pieces ps s of (ps', s) \<Rightarrow>
        (p\<lparr>pi_sha1 := sha1, pi_size := sz\<rparr> # ps', s))"

definition updateFullFile :: "file_system \<Rightarrow> string \<Rightarrow> file_system result" where
  "updateFullFile fs path =
     (case read_string (open_in (fs_disk fs) path) [] of (fileId, s) \<Rightarrow>
      bindR (read_u64_fresh s) (\<lambda>(sha1Cnt, s).
        if max_pieces < unat sha1Cnt then Inl LengthError
        else let file = (case fs_filesInfo fs fileId of None \<Rightarrow> default_file | Some f \<Rightarrow> f)
             in case read_pieces (resize (unat sha1Cnt) (fi_pieces file)) s of (pieces, s) \<Rightarrow>
                case read_string s (fi_fileName file) of (fileName, s) \<Rightarrow>
                  Inr (fs\<lparr>fs_filesInfo := (fs_filesInfo fs)(fileId \<mapsto>
                    checkPieces fs \<lparr>fi_fileName = fileName, fi_fileId = fileId, fi_pieces = pieces\<rparr>)\<rparr>)))"

text \<open>The constructor reads every \<open>.info\<close> file of the data directory, in listing order.\<close>

fun load_entries :: "file_system \<Rightarrow> string list \<Rightarrow> file_system result" where
  "load_entries fs [] = Inr fs"
| "load_entries fs (path # paths) =
     (if \<not> checkInfoFile path then load_entries fs paths
      else bindR (updateFullFile fs path) (\<lambda>fs'. load_entries fs' paths))"

definition new_file_system :: "string \<Rightarrow> files \<Rightarrow> string list \<Rightarrow> file_system result" where
  "new_file_system path disk entries =
     load_entries \<lparr>fs_filesPath = path, fs_filesInfo = Map.empty, fs_disk = disk\<rparr> entries"

definition checkFile :: "file_system \<Rightarrow> string \<Rightarrow> bool" where
  "checkFile fs fileId =
     (case fs_filesInfo fs fileId of None \<Rightarrow> False
      | Some file \<Rightarrow> list_all (\<lambda>piece. pi_state piece = PHave) (fi_pieces file))"

fun find_none :: "piece_info list \<Rightarrow> nat \<Rightarrow> nat option" where
  "find_none [] i = None"
| "find_none (p # ps) i = (if pi_state p = PNone then Some i else find_none ps (Suc i))"

definition getNonePiece :: "file_system \<Rightarrow> string \<Rightarrow> u64 \<Rightarrow> u64 \<times> file_system" where
  "getNonePiece fs fileId clock =
     (case fs_filesInfo fs fileId of
        None \<Rightarrow> (- 1, fs)
      | Some file \<Rightarrow>
          (case find_none (fi_pieces file) 0 of
             None \<Rightarrow> (- 1, fs)
           | Some i \<Rightarrow>
               (word_of_nat i,
                fs\<lparr>fs_filesInfo := (fs_filesInfo fs)(fileId \<mapsto> file\<lparr>fi_pieces :=
                  (fi_pieces file)[i := (fi_pieces file ! i)\<lparr>pi_state := POpen, pi_lastTime := clock\<rparr>]\<rparr>)\<rparr>)))"

text \<open>
  Copying a stream buffer that yields no character sets the output's fail bit, and every
  later write to it is dropped.
\<close>

fun copy_pieces :: "files \<Rightarrow> string list \<Rightarrow> string \<times> bool \<Rightarrow> string \<times> bool" where
  "copy_pieces disk [] out = out"
| "copy_pieces disk (p # ps) (written, failed) =
     copy_pieces disk ps
       (if failed then (written, failed)
        else case disk p of
               None \<Rightarrow> (written, True)
             | Some content \<Rightarrow> (written @ content, content = []))"

definition mergePieces :: "file_system \<Rightarrow> file_info \<Rightarrow> file_system" where
  "mergePieces fs fileInfo =
     (let out = fs_filesPath fs @ SEP @ fi_fileName fileInfo;
          disk = (fs_disk fs)(out \<mapsto> []);
          paths = map (\<lambda>i. getPath (fi_fileId fileInfo) (word_of_nat i)) [0..<length (fi_pieces fileInfo)]
      in fs\<lparr>fs_disk := disk(out \<mapsto> fst (copy_pieces disk paths ([], False)))\<rparr>)"

definition addPiece :: "file_system \<Rightarrow> string \<Rightarrow> u64 \<Rightarrow> file_system" where
  "addPiece fs fileId pieceId =
     (case fs_filesInfo fs fileId of
        None \<Rightarrow> fs
      | Some file \<Rightarrow>
          if length (fi_pieces file) \<le> unat pieceId then fs
          else let st = (if checkPiece fs file pieceId then PHave else PNone);
                   file' = file\<lparr>fi_pieces := (fi_pieces file)[unat pieceId :=
                      (fi_pieces file ! unat pieceId)\<lparr>pi_state := st\<rparr>]\<rparr>;
                   fs' = fs\<lparr>fs_filesInfo := (fs_filesInfo fs)(fileId \<mapsto> file')\<rparr>
               in if list_all (\<lambda>p. pi_state p = PHave) (fi_pieces file')
                  then mergePieces fs' file' else fs')"

definition getFileName :: "string \<Rightarrow> string" where
  "getFileName path = rev (takeWhile (\<lambda>c. c \<noteq> CHR ''/'' \<and> c \<noteq> CHR 0x5C) (rev path))"

text \<open>
  Writing the pieces of a file: \<open>rest\<close> is what the input stream still holds, \<open>info\<close> the text
  written so far. A read that comes up short leaves zero bytes in the buffer.
\<close>

definition PIECE_SIZE :: nat where "PIECE_SIZE = 262144"

definition split_piece ::
  "string \<Rightarrow> nat \<Rightarrow> nat \<Rightarrow> nat \<Rightarrow> nat \<Rightarrow> string \<times> files \<times> string \<Rightarrow> string \<times> files \<times> string" where
  "split_piece fileId pieceSize fileSize numPieces i = (\<lambda>(rest, disk, info).
     (let n = (if i = numPieces - 1 then fileSize mod pieceSize else pieceSize);
          got = take n rest;
          buffer = got @ replicate (n - length got) (CHR 0x00);
          path = DATA_PATH @ SEP @ fileId @ SEP @ to_string i @ DATA_FILETYPE;
          disk' = disk(path \<mapsto> buffer);
          sha1 = from_file disk' path
      in (drop n rest, disk',
          info @ (sha1 @ '' '') @ (to_string (length buffer) @ [CHR 0x0A]))))"

definition splitFile :: "file_system \<Rightarrow> string \<Rightarrow> string \<Rightarrow> nat \<Rightarrow> file_system" where
  "splitFile fs path fileId pieceSize =
     (if \<not> checkExists fs path then fs
      else let disk = (fs_disk fs)(infoPath fileId \<mapsto> []);
               content = the (disk path);
               numPieces = (length content + pieceSize - 1) div pieceSize;
               info = (fileId @ [CHR 0x0A]) @ (to_string numPieces @ [CHR 0x0A])
           in case fold (split_piece fileId pieceSize (length content) numPieces) [0..<numPieces]
                     (content, disk, info) of
                (_, disk, info) \<Rightarrow> fs\<lparr>fs_disk := disk(infoPath fileId \<mapsto> info @ getFileName path)\<rparr>)"

text \<open>
  Downloading starts by copying the \<open>.info\<close> file the user names into the data directory.
  The result is the file's id, empty when the file does not exist.
\<close>

definition addFile :: "file_system \<Rightarrow> string \<Rightarrow> (string \<times> file_system) result" where
  "addFile fs path =
     (if \<not> checkExists fs path then Inr ([], fs)
      else case read_string (open_in (fs_disk fs) path) [] of (fileId, s) \<Rightarrow>
        bindR (read_u64_fresh s) (\<lambda>(sha1Cnt, s).
          if fs_filesInfo fs fileId \<noteq> None then Inr (fileId, fs)
          else let copy = fileId @ '' '' @ to_string (unat sha1Cnt) @ is_rest s;
                   fs' = fs\<lparr>fs_disk := (fs_disk fs)(infoPath fileId \<mapsto> copy)\<rparr>
               in bindR (updateFullFile fs' path) (\<lambda>fs''. Inr (fileId, fs''))))"

definition uploadFile :: "file_system \<Rightarrow> string \<Rightarrow> file_system result" where
  "uploadFile fs path =
     (if \<not> checkExists fs path then Inr fs
      else let sha1 = from_file (fs_disk fs) path
           in if fs_filesInfo fs sha1 \<noteq> None then Inr fs
              else updateFullFile (splitFile fs path sha1 PIECE_SIZE) (infoPath sha1))"

end
