(* ===== verification/Node_State.thy ===== *)
theory Node_State
  imports Server File_System
begin

text \<open>
  The state of \<open>NodeServer\<close> (\<open>netlib_nodeserver.h\<close>): the server it extends and the tables of its
  three managers. A table that the code only reads with \<open>operator[]\<close> is a total function
  with the value-initialised entry as default; one that it also searches is a partial map.
  The generator of random ids is a fixed sequence of draws and a position in it.
\<close>

section \<open>Constants\<close>

definition MAX_CONNECTIONS :: nat where "MAX_CONNECTIONS = 20"

definition VERSION :: string where "VERSION = ''0.1b''"

definition MAX_TTL :: u8 where "MAX_TTL = 7"

definition MAX_REQ_LIVE :: u64 where "MAX_REQ_LIVE = 600"

definition BETWEEN_REQ_TIME :: nat where "BETWEEN_REQ_TIME = 10"

definition FILE_CHUNK_SIZE :: u32 where "FILE_CHUNK_SIZE = 1024"

definition FILE_PACK_NUM :: nat where "FILE_PACK_NUM = 128"

section \<open>The tables of the managers\<close>

datatype connect_state = Begin | Handshake | Wait | Stop

record connect_manager =
  cm_response :: connect_state
  cm_request :: connect_state
  cm_cntLeft :: u16
  cm_lastId :: u16

definition new_connect_manager :: connect_manager where
  "new_connect_manager = \<lparr>cm_response = Begin, cm_request = Begin, cm_cntLeft = 0, cm_lastId = 0\<rparr>"

record request =
  rq_fileId :: string
  rq_createdTime :: u64
  rq_fromRequestId :: u16
  rq_responseReservedId :: u16

definition new_request :: request where
  "new_request = \<lparr>rq_fileId = [], rq_createdTime = 0, rq_fromRequestId = 0, rq_responseReservedId = 0\<rparr>"

text \<open>
  A file stream of a transfer: closed, reading a path at a position, or appending to a path it
  has truncated; and its fail bit.
\<close>

datatype stream_mode = Closed | Reading string nat | Writing string

record fstream =
  fst_mode :: stream_mode
  fst_fail :: bool

record file_struct =
  fl_stream :: fstream
  fl_pieceNum :: u16
  fl_fileSize :: u64

definition new_file_struct :: file_struct where
  "new_file_struct = \<lparr>fl_stream = \<lparr>fst_mode = Closed, fst_fail = False\<rparr>, fl_pieceNum = 0, fl_fileSize = 0\<rparr>"

record node = server +
  m_connectMap :: "u16 \<Rightarrow> connect_manager"
  m_requestsMap :: "string \<rightharpoonup> request"
  m_filesMap :: "u16 \<times> string \<rightharpoonup> file_struct"
  m_timerWait :: "(u16 \<times> string) option"
  m_fileSystem :: file_system
  rnd_draws :: "nat \<Rightarrow> u32"
  rnd_pos :: nat
  currentPackNum :: u16

definition new_node :: "string \<Rightarrow> u16 \<Rightarrow> file_system \<Rightarrow> (nat \<Rightarrow> u32) \<Rightarrow> node" where
  "new_node localAddress port fs draws =
     server.extend (new_server localAddress port PingMsgType PongMsgType)
       \<lparr>m_connectMap = (\<lambda>_. new_connect_manager), m_requestsMap = Map.empty, m_filesMap = Map.empty,
        m_timerWait = None, m_fileSystem = fs, rnd_draws = draws, rnd_pos = 0, currentPackNum = 0\<rparr>"

section \<open>Small steps the managers share\<close>

text \<open>A message made for one call of \<open>sendMessage\<close>.\<close>

definition tell :: "net_env \<Rightarrow> u16 \<Rightarrow> msg \<Rightarrow> node \<Rightarrow> node result" where
  "tell ne i m nd = bindR (sendMessage ne i m nd) (\<lambda>(m, nd). Inr nd)"

text \<open>The loop that sends one message to several sessions.\<close>

fun tell_all :: "net_env \<Rightarrow> u16 list \<Rightarrow> msg \<Rightarrow> node \<Rightarrow> node result" where
  "tell_all ne [] m nd = Inr nd"
| "tell_all ne (i # ids) m nd = bindR (sendMessage ne i m nd) (\<lambda>(m, nd). tell_all ne ids m nd)"

definition set_cm :: "u16 \<Rightarrow> (connect_manager \<Rightarrow> connect_manager) \<Rightarrow> node \<Rightarrow> node" where
  "set_cm i f nd = nd\<lparr>m_connectMap := (m_connectMap nd)(i := f (m_connectMap nd i))\<rparr>"

definition getDefaultCnt :: "node \<Rightarrow> u16" where
  "getDefaultCnt nd =
     word_of_nat (length (filter (\<lambda>(i, s). m_type s = DefaultSession) (m_sessionsMap nd)))"

text \<open>The fields the managers own are untouched by the server's operations.\<close>

definition same_tables :: "node \<Rightarrow> node \<Rightarrow> bool" where
  "same_tables nd nd' \<longleftrightarrow> server.more nd' = server.more nd"

lemma set_session_more [simp]: "same_tables nd (set_session i s nd)"
  by (simp add: same_tables_def)

end
