(* ===== verification/File_Manager.thy ===== *)
theory File_Manager
  imports Node_State
begin

text \<open>
  The file manager of \<open>NodeServer\<close>: the transfer of a file's pieces between two nodes. The
  receiver asks for one missing piece after the other; the sender answers with the piece in
  chunks of at most 1024 bytes, 128 of them before it waits for an acknowledgement.
\<close>

section \<open>File streams\<close>

text \<open>
  A \<open>std::fstream\<close> member lives from one message to the next. Opening one that is open only
  sets its fail bit, as does opening a missing file for reading; a successful open clears it.
  A failed stream neither reads nor writes, and its position is \<open>-1\<close>.
\<close>

definition is_open :: "fstream \<Rightarrow> bool" where
  "is_open st \<longleftrightarrow> fst_mode st \<noteq> Closed"

definition open_writing :: "string \<Rightarrow> fstream \<Rightarrow> files \<Rightarrow> fstream \<times> files" where
  "open_writing path st disk =
     (if is_open st then (st\<lparr>fst_fail := True\<rparr>, disk)
      else (\<lparr>fst_mode = Writing path, fst_fail = False\<rparr>, disk(path \<mapsto> [])))"

definition open_reading :: "string \<Rightarrow> fstream \<Rightarrow> files \<Rightarrow> fstream" where
  "open_reading path st disk =
     (if is_open st \<or> disk path = None then st\<lparr>fst_fail := True\<rparr>
      else \<lparr>fst_mode = Reading path 0, fst_fail = False\<rparr>)"

definition close_stream :: "fstream \<Rightarrow> fstream" where
  "close_stream st =
     (if is_open st then st\<lparr>fst_mode := Closed\<rparr> else st\<lparr>fst_fail := True\<rparr>)"

definition file_content :: "files \<Rightarrow> string \<Rightarrow> string" where
  "file_content disk path = (case disk path of None \<Rightarrow> [] | Some c \<Rightarrow> c)"

definition stream_tellg :: "fstream \<Rightarrow> files \<Rightarrow> u64" where
  "stream_tellg st disk =
     (if fst_fail st then - 1
      else case fst_mode st of
             Closed \<Rightarrow> - 1
           | Reading path pos \<Rightarrow> word_of_nat pos
           | Writing path \<Rightarrow> word_of_nat (length (file_content disk path)))"

text \<open>Reading into a zeroed buffer of \<open>n\<close> bytes.\<close>

definition stream_read :: "nat \<Rightarrow> fstream \<Rightarrow> files \<Rightarrow> string \<times> fstream" where
  "stream_read n st disk =
     (if fst_fail st then (replicate n (CHR 0x00), st)
      else case fst_mode st of
             Reading path pos \<Rightarrow>
               let got = take n (drop pos (file_content disk path))
               in (got @ replicate (n - length got) (CHR 0x00),
                   \<lparr>fst_mode = Reading path (pos + length got), fst_fail = length got < n\<rparr>)
           | _ \<Rightarrow> (replicate n (CHR 0x00), st\<lparr>fst_fail := True\<rparr>))"

definition stream_write :: "string \<Rightarrow> fstream \<Rightarrow> files \<Rightarrow> fstream \<times> files" where
  "stream_write bytes st disk =
     (if fst_fail st then (st, disk)
      else case fst_mode st of
             Writing path \<Rightarrow> (st, disk(path \<mapsto> file_content disk path @ bytes))
           | _ \<Rightarrow> (st\<lparr>fst_fail := True\<rparr>, disk))"

section \<open>The table of transfers\<close>

abbreviation transfer :: "node \<Rightarrow> u16 \<Rightarrow> string \<Rightarrow> file_struct option" where
  "transfer nd i fileId \<equiv> m_filesMap nd (i, fileId)"

text \<open>\<open>m_filesMap[id][fileId]\<close>, which makes a new entry when there is none.\<close>

definition file_at :: "u16 \<Rightarrow> string \<Rightarrow> node \<Rightarrow> file_struct" where
  "file_at i fileId nd = (case transfer nd i fileId of None \<Rightarrow> new_file_struct | Some f \<Rightarrow> f)"

definition set_file :: "u16 \<Rightarrow> string \<Rightarrow> (file_struct \<Rightarrow> file_struct) \<Rightarrow> node \<Rightarrow> node" where
  "set_file i fileId f nd = nd\<lparr>m_filesMap := (m_filesMap nd)((i, fileId) \<mapsto> f (file_at i fileId nd))\<rparr>"

definition erase_file :: "u16 \<Rightarrow> string \<Rightarrow> node \<Rightarrow> node" where
  "erase_file i fileId nd = nd\<lparr>m_filesMap := (m_filesMap nd)((i, fileId) := None)\<rparr>"

abbreviation node_disk :: "node \<Rightarrow> files" where
  "node_disk nd \<equiv> fs_disk (m_fileSystem nd)"

definition set_disk :: "files \<Rightarrow> node \<Rightarrow> node" where
  "set_disk disk nd = nd\<lparr>m_fileSystem := (m_fileSystem nd)\<lparr>fs_disk := disk\<rparr>\<rparr>"

section \<open>Operations\<close>

definition fileReady :: "u16 \<Rightarrow> string \<Rightarrow> node \<Rightarrow> node" where
  "fileReady userId fileId = set_file userId fileId (\<lambda>f. f\<lparr>fl_pieceNum := 0\<rparr>)"

definition sendBeginFile :: "net_env \<Rightarrow> u16 \<Rightarrow> string \<Rightarrow> node \<Rightarrow> node result" where
  "sendBeginFile ne userId fileId nd =
     tell ne userId (put_string fileId (new_message FileBeginPullMsgType)) (fileReady userId fileId nd)"

definition checkFileManager :: "msg \<Rightarrow> bool" where
  "checkFileManager m \<longleftrightarrow> getId m \<in> set
     [FileRequestMsgType, FileBeginPullMsgType, FileBodyMsgType, FileEndMsgType,
      FileRequestEndMsgType, FileBodyRespMsgType]"

definition finishRequesting :: "net_env \<Rightarrow> u16 \<Rightarrow> string \<Rightarrow> node \<Rightarrow> node result" where
  "finishRequesting ne i fileId nd =
     tell ne i (put_string fileId (new_message FileRequestEndMsgType)) (erase_file i fileId nd)"

definition finishSending :: "net_env \<Rightarrow> u16 \<Rightarrow> string \<Rightarrow> node \<Rightarrow> node result" where
  "finishSending ne i fileId nd = tell ne i (put_string fileId (new_message FileEndMsgType)) nd"

text \<open>
  The piece number is cut to 16 bits. Waiting replaces the wait that is under way, whoever
  started it: there is one timer.
\<close>

definition requestNextPiece :: "net_env \<Rightarrow> u16 \<Rightarrow> string \<Rightarrow> node \<Rightarrow> node result" where
  "requestNextPiece ne i fileId nd =
     (if checkFile (m_fileSystem nd) fileId then finishRequesting ne i fileId nd
      else case getNonePiece (m_fileSystem nd) fileId (word_of_nat (now ne)) of (n, fs) \<Rightarrow>
        let nd = nd\<lparr>m_fileSystem := fs\<rparr>; pieceNum = ucast n :: u16 in
        if pieceNum = - 1 then Inr (nd\<lparr>m_timerWait := Some (i, fileId)\<rparr>)
        else case open_writing (getPath fileId (ucast pieceNum)) (fl_stream (file_at i fileId nd))
                    (node_disk nd) of (st, disk) \<Rightarrow>
          tell ne i (put_string fileId (put_word pieceNum (new_message FileRequestMsgType)))
            (set_file i fileId (\<lambda>f. f\<lparr>fl_pieceNum := pieceNum, fl_stream := st\<rparr>) (set_disk disk nd)))"

text \<open>The timer's handler; one whose wait was replaced only prints.\<close>

definition on_file_timer :: "net_env \<Rightarrow> node \<Rightarrow> node result" where
  "on_file_timer ne nd =
     (case m_timerWait nd of
        None \<Rightarrow> Inr nd
      | Some (i, fileId) \<Rightarrow> requestNextPiece ne i fileId (nd\<lparr>m_timerWait := None\<rparr>))"

definition nextBodyPiece :: "net_env \<Rightarrow> u16 \<Rightarrow> string \<Rightarrow> node \<Rightarrow> node result" where
  "nextBodyPiece ne i fileId nd =
     (let f = file_at i fileId nd; st = fl_stream f in
      if \<not> is_open st then Inr (set_file i fileId id nd)
      else let bytesLeft = ucast (fl_fileSize f - stream_tellg st (node_disk nd)) :: u32 in
        if bytesLeft = 0
        then finishSending ne i fileId (set_file i fileId (\<lambda>f. f\<lparr>fl_stream := close_stream st\<rparr>) nd)
        else case stream_read (unat (min bytesLeft FILE_CHUNK_SIZE)) st (node_disk nd) of (buffer, st) \<Rightarrow>
          tell ne i (put_string fileId (put_vector char_pod buffer (new_message FileBodyMsgType)))
            (set_file i fileId (\<lambda>f. f\<lparr>fl_stream := st\<rparr>) nd))"

text \<open>Up to \<open>FILE_PACK_NUM\<close> chunks at once.\<close>

fun send_pack :: "nat \<Rightarrow> net_env \<Rightarrow> u16 \<Rightarrow> string \<Rightarrow> node \<Rightarrow> node result" where
  "send_pack 0 ne i fileId nd = Inr nd"
| "send_pack (Suc n) ne i fileId nd =
     bindR (nextBodyPiece ne i fileId nd) (\<lambda>nd.
       if \<not> is_open (fl_stream (file_at i fileId nd)) then Inr nd else send_pack n ne i fileId nd)"

definition on_FileBegin :: "net_env \<Rightarrow> msg \<Rightarrow> u16 \<Rightarrow> node \<Rightarrow> node result" where
  "on_FileBegin ne m i nd =
     bindR (get_string m) (\<lambda>(fileId, m).
       if transfer nd i fileId = None then Inr nd else requestNextPiece ne i fileId nd)"

definition on_FileRequest :: "net_env \<Rightarrow> msg \<Rightarrow> u16 \<Rightarrow> node \<Rightarrow> node result" where
  "on_FileRequest ne m i nd =
     bindR (get_string m) (\<lambda>(fileId, m).
       if transfer nd i fileId = None then Inr nd
       else if \<not> checkFile (m_fileSystem nd) fileId then Inr nd
       else bindR (get_word m) (\<lambda>(pieceNum :: u16, m).
         let path = getPath fileId (ucast pieceNum) in
         case node_disk nd path of
           None \<Rightarrow> Inl UncaughtException
         | Some content \<Rightarrow>
             send_pack FILE_PACK_NUM ne i fileId
               (set_file i fileId (\<lambda>f. f\<lparr>fl_fileSize := word_of_nat (length content),
                  fl_stream := open_reading path (fl_stream f) (node_disk nd)\<rparr>) nd)))"

definition on_FileEnd :: "net_env \<Rightarrow> msg \<Rightarrow> u16 \<Rightarrow> node \<Rightarrow> node result" where
  "on_FileEnd ne m i nd =
     bindR (get_string m) (\<lambda>(fileId, m).
       if transfer nd i fileId = None then Inr nd
       else let nd = set_file i fileId (\<lambda>f. f\<lparr>fl_stream := close_stream (fl_stream f)\<rparr>) nd
            in requestNextPiece ne i fileId (nd\<lparr>m_fileSystem :=
                 addPiece (m_fileSystem nd) fileId (ucast (fl_pieceNum (file_at i fileId nd)))\<rparr>))"

definition on_FileBody :: "net_env \<Rightarrow> msg \<Rightarrow> u16 \<Rightarrow> node \<Rightarrow> node result" where
  "on_FileBody ne m i nd =
     bindR (get_string m) (\<lambda>(fileId, m).
       if transfer nd i fileId = None then Inr nd
       else if \<not> is_open (fl_stream (file_at i fileId nd)) then Inr nd
       else bindR (get_vector char_pod m) (\<lambda>(vec, m).
         case stream_write vec (fl_stream (file_at i fileId nd)) (node_disk nd) of (st, disk) \<Rightarrow>
           let nd = (set_file i fileId (\<lambda>f. f\<lparr>fl_stream := st\<rparr>) (set_disk disk nd))
                      \<lparr>currentPackNum := currentPackNum nd + 1\<rparr>
           in if currentPackNum nd = word_of_nat FILE_PACK_NUM
              then tell ne i (put_string fileId (new_message FileBodyRespMsgType)) (nd\<lparr>currentPackNum := 0\<rparr>)
              else Inr nd))"

definition on_FileBodyResp :: "net_env \<Rightarrow> msg \<Rightarrow> u16 \<Rightarrow> node \<Rightarrow> node result" where
  "on_FileBodyResp ne m i nd =
     bindR (get_string m) (\<lambda>(fileId, m).
       if transfer nd i fileId = None then Inr nd else send_pack FILE_PACK_NUM ne i fileId nd)"

definition on_FileRequestEnd :: "msg \<Rightarrow> u16 \<Rightarrow> node \<Rightarrow> node result" where
  "on_FileRequestEnd m i nd =
     bindR (get_string m) (\<lambda>(fileId, m).
       if transfer nd i fileId = None then Inr nd else Inr (erase_file i fileId nd))"

definition updateFileManager :: "net_env \<Rightarrow> msg \<Rightarrow> u16 \<Rightarrow> node \<Rightarrow> node result" where
  "updateFileManager ne m i nd =
     (case getId m of
        FileBeginPullMsgType \<Rightarrow> on_FileBegin ne m i nd
      | FileRequestMsgType \<Rightarrow> on_FileRequest ne m i nd
      | FileEndMsgType \<Rightarrow> on_FileEnd ne m i nd
      | FileBodyMsgType \<Rightarrow> on_FileBody ne m i nd
      | FileBodyRespMsgType \<Rightarrow> on_FileBodyResp ne m i nd
      | FileRequestEndMsgType \<Rightarrow> on_FileRequestEnd m i nd
      | _ \<Rightarrow> Inr nd)"

lemmas file_ops = updateFileManager_def on_FileBegin_def on_FileRequest_def on_FileEnd_def
  on_FileBody_def on_FileBodyResp_def on_FileRequestEnd_def

end
