(* ===== verification/Connect_Manager.thy ===== *)
theory Connect_Manager
  imports Node_State
begin

text \<open>
  The connection manager of \<open>NodeServer\<close>: the version handshake with a new peer and the
  exchange of further peers. The requesting side asks its peer for one address after the
  other; the answering side picks its next active session, asks the node behind it to
  connect, and passes that node's address back.
\<close>

section \<open>Operations\<close>

definition checkConnectManager :: "msg \<Rightarrow> bool" where
  "checkConnectManager m \<longleftrightarrow> getId m \<in> set
     [ConnectionRequestMsgType, ConnectionResponseMsgType,
      NewConnectionRequestMsgType, NewConnectionResponseMsgType,
      NewExtConnectionRequestMsgType, NewExtConnectionResponseMsgType]"

definition requestNext :: "net_env \<Rightarrow> u16 \<Rightarrow> node \<Rightarrow> node result" where
  "requestNext ne i nd =
     (let req = new_message NewConnectionRequestMsgType in
      if length (m_sessionsMap nd) \<ge> MAX_CONNECTIONS
      then tell ne i (put_bool False req) nd
      else bindR (server_getRealEp ne nd) (\<lambda>(ep, nd).
           bindR (server_getRealEp ne nd) (\<lambda>(ep', nd).
           let req = put_bool True (put_word (ep_port ep') (put_string (v4_to_string (ep_addr ep)) req))
           in tell ne i req (set_cm i (\<lambda>cm. cm\<lparr>cm_request := Wait\<rparr>) nd))))"

definition next_session :: "u16 \<Rightarrow> node \<Rightarrow> (u16 \<times> session) option" where
  "next_session i nd = map_upper_bound (m_sessionsMap nd) (cm_lastId (m_connectMap nd i))"

text \<open>
  The recursion skips the asking session itself, inactive sessions and file sessions; every
  skip moves \<open>lastId\<close> up, so it ends.
\<close>

lemma skip_smaller:
  assumes "next_session i nd = Some (extId, s)"
  shows "unat (- 1 :: u16) - unat extId < unat (- 1 :: u16) - unat (cm_lastId (m_connectMap nd i))"
proof -
  have "cm_lastId (m_connectMap nd i) < extId"
    using map_upper_bound_greater [OF assms [unfolded next_session_def]] by simp
  moreover have "unat extId \<le> unat (- 1 :: u16)" by (metis word_le_nat_alt word_n1_ge)
  ultimately show ?thesis by (simp only: word_less_nat_alt)
qed

function responseNext :: "net_env \<Rightarrow> msg \<Rightarrow> u16 \<Rightarrow> node \<Rightarrow> node result" where
  "responseNext ne m i nd =
     (case next_session i nd of
        None \<Rightarrow>
          bindR (tell ne i (put_bool False (new_message NewConnectionResponseMsgType)) nd) (\<lambda>nd.
          Inr (set_cm i (\<lambda>cm. cm\<lparr>cm_response := Stop\<rparr>) nd))
      | Some (extId, ext) \<Rightarrow>
          if cm_cntLeft (m_connectMap nd i) = 0
          then bindR (tell ne i (put_bool False (new_message NewConnectionResponseMsgType)) nd) (\<lambda>nd.
               Inr (set_cm i (\<lambda>cm. cm\<lparr>cm_response := Stop\<rparr>) nd))
          else if extId = i \<or> \<not> isActive ext \<or> m_type ext \<noteq> DefaultSession
          then responseNext ne m i (set_cm i (\<lambda>cm. cm\<lparr>cm_lastId := extId\<rparr>) nd)
          else let nd = set_cm i (\<lambda>cm. cm\<lparr>cm_response := Wait, cm_lastId := extId,
                                           cm_cntLeft := cm_cntLeft cm - 1\<rparr>) nd in
               bindR (get_word m) (\<lambda>(port :: u16, m).
               bindR (get_string m) (\<lambda>(address, m).
               tell ne extId (put_word port (put_string address (put_word i
                 (new_message NewExtConnectionRequestMsgType)))) nd)))"
  by pat_completeness auto
termination
  by (relation "measure (\<lambda>(ne, m, i, nd). unat (- 1 :: u16) - unat (cm_lastId (m_connectMap nd i)))")
    (auto simp: set_cm_def dest: skip_smaller)

declare responseNext.simps [simp del]

definition on_ConnectionRequest :: "net_env \<Rightarrow> msg \<Rightarrow> u16 \<Rightarrow> node \<Rightarrow> node result" where
  "on_ConnectionRequest ne m i nd =
     (if cm_response (m_connectMap nd i) \<noteq> Begin then Inr nd
      else bindR (get_string m) (\<lambda>(version, m).
        let resp = new_message ConnectionResponseMsgType in
        if version \<noteq> VERSION
        then bindR (tell ne i (put_bool False resp) nd) (\<lambda>nd. Inr (disconnectClient i nd))
        else bindR (tell ne i (put_bool True (put_word (getDefaultCnt nd) resp)) nd) (\<lambda>nd.
             Inr (set_cm i (\<lambda>cm. cm\<lparr>cm_response := Handshake\<rparr>) nd))))"

definition on_ConnectionResponse :: "net_env \<Rightarrow> msg \<Rightarrow> u16 \<Rightarrow> node \<Rightarrow> node result" where
  "on_ConnectionResponse ne m i nd =
     (if cm_request (m_connectMap nd i) \<noteq> Begin then Inr nd
      else bindR (get_bool m) (\<lambda>(resp, m).
        if resp
        then bindR (get_word m) (\<lambda>(cnt, m).
             requestNext ne i (set_cm i (\<lambda>cm. cm\<lparr>cm_cntLeft := cnt\<rparr>) nd))
        else Inr (disconnectClient i nd)))"

definition on_NewConnectionRequest :: "net_env \<Rightarrow> msg \<Rightarrow> u16 \<Rightarrow> node \<Rightarrow> node result" where
  "on_NewConnectionRequest ne m i nd =
     (if cm_response (m_connectMap nd i) \<noteq> Handshake then Inr nd
      else bindR (get_bool m) (\<lambda>(req_flag, m).
        if \<not> req_flag then Inr (set_cm i (\<lambda>cm. cm\<lparr>cm_response := Stop\<rparr>) nd)
        else responseNext ne m i nd))"

definition on_NewConnectionResponse :: "net_env \<Rightarrow> msg \<Rightarrow> u16 \<Rightarrow> node \<Rightarrow> node result" where
  "on_NewConnectionResponse ne m i nd =
     (if cm_request (m_connectMap nd i) \<noteq> Wait then Inr nd
      else bindR (get_bool m) (\<lambda>(resp, m).
        if \<not> resp then Inr (set_cm i (\<lambda>cm. cm\<lparr>cm_request := Stop\<rparr>) nd)
        else bindR (get_word m) (\<lambda>(port, m).
             bindR (get_string m) (\<lambda>(address, m).
             bindR (connectToHost ne address port nd) (\<lambda>(r, nd).
             requestNext ne i nd)))))"

definition on_NewExtConnectionRequest :: "net_env \<Rightarrow> msg \<Rightarrow> u16 \<Rightarrow> node \<Rightarrow> node result" where
  "on_NewExtConnectionRequest ne m i nd =
     (let resp = new_message NewExtConnectionResponseMsgType in
      if unat (getDefaultCnt nd) \<ge> MAX_CONNECTIONS then tell ne i (put_bool False resp) nd
      else bindR (get_word m) (\<lambda>(port, m).
           bindR (get_string m) (\<lambda>(address, m).
           bindR (get_word m) (\<lambda>(extId :: u16, m).
           bindR (server_getRealEp ne nd) (\<lambda>(ep, nd).
           bindR (server_getRealEp ne nd) (\<lambda>(ep', nd).
           let resp = put_bool True (put_word (ep_port ep')
                        (put_string (v4_to_string (ep_addr ep)) (put_word extId resp)))
           in bindR (connectToHost ne address port nd) (\<lambda>(r, nd). tell ne i resp nd)))))))"

definition on_NewExtConnectionResponse :: "net_env \<Rightarrow> msg \<Rightarrow> u16 \<Rightarrow> node \<Rightarrow> node result" where
  "on_NewExtConnectionResponse ne m i nd =
     bindR (get_bool m) (\<lambda>(resp_flag, m).
       if \<not> resp_flag then responseNext ne m i nd
       else bindR (get_word m) (\<lambda>(port :: u16, m).
            bindR (get_string m) (\<lambda>(address, m).
            bindR (get_word m) (\<lambda>(extId, m).
            tell ne extId (put_bool True (put_word port (put_string address
              (new_message NewConnectionResponseMsgType)))) nd))))"

definition updateConnectManager :: "net_env \<Rightarrow> msg \<Rightarrow> u16 \<Rightarrow> node \<Rightarrow> node result" where
  "updateConnectManager ne m i nd =
     (case getId m of
        ConnectionRequestMsgType \<Rightarrow> on_ConnectionRequest ne m i nd
      | ConnectionResponseMsgType \<Rightarrow> on_ConnectionResponse ne m i nd
      | NewConnectionRequestMsgType \<Rightarrow> on_NewConnectionRequest ne m i nd
      | NewConnectionResponseMsgType \<Rightarrow> on_NewConnectionResponse ne m i nd
      | NewExtConnectionRequestMsgType \<Rightarrow> on_NewExtConnectionRequest ne m i nd
      | NewExtConnectionResponseMsgType \<Rightarrow> on_NewExtConnectionResponse ne m i nd
      | _ \<Rightarrow> Inr nd)"

text \<open>\<open>connect\<close> opens a direct connection and starts the handshake.\<close>

definition node_connect :: "net_env \<Rightarrow> endpoint \<Rightarrow> node \<Rightarrow> (u16 \<times> node) result" where
  "node_connect ne ep nd =
     bindR (connectToHost_ep ne ep nd) (\<lambda>(i, nd).
     bindR (tell ne i (put_string VERSION (new_message ConnectionRequestMsgType)) nd) (\<lambda>nd.
     Inr (i, nd)))"

section \<open>What the server's operations leave alone\<close>

lemma tables_eq:
  assumes "server.more nd' = server.more (nd :: node)"
  shows "m_connectMap nd' = m_connectMap nd" "m_requestsMap nd' = m_requestsMap nd"
    "m_filesMap nd' = m_filesMap nd" "m_timerWait nd' = m_timerWait nd"
    "m_fileSystem nd' = m_fileSystem nd" "rnd_draws nd' = rnd_draws nd" "rnd_pos nd' = rnd_pos nd"
    "currentPackNum nd' = currentPackNum nd"
  using assms by (cases nd; cases nd'; simp)+

text \<open>
  The tables of the managers and the input queue, which belongs to the network thread, are
  left alone by every operation of the server.
\<close>

definition aside where
  "aside sv = (server.more sv, m_queueIn sv)"

lemma aside_update [simp]:
  "aside (set_session i s sv) = aside sv" "aside (disconnectClient i sv) = aside sv"
  "aside (sv\<lparr>m_curId := c\<rparr>) = aside sv"
  by (simp_all add: aside_def)

lemma prepareSession_aside: "prepareSession ne sv = Inr sv' \<Longrightarrow> aside sv' = aside sv"
  by (auto simp: prepareSession_def bindR_eq_Inr split: if_splits)

lemma connectToHost_id_aside:
  "connectToHost_id ne host port i sv = Inr (r, sv') \<Longrightarrow> aside sv' = aside sv"
  by (auto simp: connectToHost_id_def bindR_eq_Inr split: option.splits if_splits)
    (rule prepareSession_aside)

lemma connectToHost_aside:
  assumes "connectToHost ne host port sv = Inr (r, sv')"
  shows "aside sv' = aside sv"
proof (cases "connectToHost_id ne host port (m_curId sv) sv")
  case (Inl e)
  with assms show ?thesis by (cases e) (simp_all add: connectToHost_def)
next
  case (Inr b)
  obtain r1 sv1 where b: "b = (r1, sv1)" by (cases b)
  let ?sv2 = "sv1\<lparr>m_curId := m_curId sv1 + 1\<rparr>"
  have "aside ?sv2 = aside sv" using connectToHost_id_aside [of ne host port] Inr b by simp
  moreover have "sv' = ?sv2 \<or> prepareSession ne ?sv2 = Inr sv'"
    using assms Inr b
    by (auto simp: connectToHost_def Let_def split: sum.splits fault.splits)
  ultimately show ?thesis using prepareSession_aside [of ne ?sv2 sv'] by auto
qed

lemma getRealEp_aside: "server_getRealEp ne sv = Inr (ep, sv') \<Longrightarrow> aside sv' = aside sv"
  by (auto simp: server_getRealEp_def bindR_eq_Inr split: option.splits if_splits
      intro: prepareSession_aside)

lemma reservePort_aside: "reservePort ne sv = Inr (r, sv') \<Longrightarrow> aside sv' = aside sv"
  using prepareSession_aside [of ne "sv\<lparr>m_curId := m_curId sv + 1\<rparr>" sv']
  by (auto simp: reservePort_def bindR_eq_Inr)

lemma sendMessage_aside: "sendMessage ne i m sv = Inr (m', sv') \<Longrightarrow> aside sv' = aside sv"
  by (auto simp: sendMessage_def bindR_eq_Inr split: option.splits if_splits)

lemma tell_aside: "tell ne i m nd = Inr nd' \<Longrightarrow> aside nd' = aside nd"
  by (auto simp: tell_def bindR_eq_Inr intro: sendMessage_aside)

lemma tell_all_aside: "tell_all ne ids m nd = Inr nd' \<Longrightarrow> aside nd' = aside nd"
proof (induction ids arbitrary: m nd)
  case (Cons i ids)
  then obtain m1 nd1 where "sendMessage ne i m nd = Inr (m1, nd1)" "tell_all ne ids m1 nd1 = Inr nd'"
    by (auto simp: bindR_eq_Inr)
  with Cons.IH sendMessage_aside [of ne i m nd m1 nd1] show ?case by simp
qed simp

lemma aside_tables:
  assumes "aside nd' = aside (nd :: node)"
  shows "m_connectMap nd' = m_connectMap nd" "m_requestsMap nd' = m_requestsMap nd"
    "m_filesMap nd' = m_filesMap nd" "m_timerWait nd' = m_timerWait nd"
    "m_fileSystem nd' = m_fileSystem nd" "rnd_draws nd' = rnd_draws nd" "rnd_pos nd' = rnd_pos nd"
    "currentPackNum nd' = currentPackNum nd" "m_queueIn nd' = m_queueIn nd"
  using assms tables_eq [of nd' nd] by (simp_all add: aside_def)

section \<open>The state of the exchange\<close>

lemma set_cm_simps [simp]:
  "m_connectMap (set_cm i f nd) = (m_connectMap nd)(i := f (m_connectMap nd i))"
  "m_sessionsMap (set_cm i f nd) = m_sessionsMap nd" "m_queueIn (set_cm i f nd) = m_queueIn nd"
  "m_curId (set_cm i f nd) = m_curId nd" "m_fileSystem (set_cm i f nd) = m_fileSystem nd"
  "m_filesMap (set_cm i f nd) = m_filesMap nd" "m_requestsMap (set_cm i f nd) = m_requestsMap nd"
  by (simp_all add: set_cm_def)

text \<open>
  The answering side's state only moves forward: from \<open>Begin\<close> to \<open>Handshake\<close> by an accepted
  version, from there to \<open>Wait\<close> or \<open>Stop\<close>, and never back.
\<close>

definition settled :: "connect_state \<Rightarrow> bool" where
  "settled st \<longleftrightarrow> st = Wait \<or> st = Stop"

definition forward :: "connect_state \<Rightarrow> connect_state \<Rightarrow> bool" where
  "forward a b \<longleftrightarrow> a = b \<or> settled b \<or> a = Begin \<and> b = Handshake"

definition forward_all :: "node \<Rightarrow> node \<Rightarrow> bool" where
  "forward_all nd nd' \<longleftrightarrow>
     (\<forall>j. forward (cm_response (m_connectMap nd j)) (cm_response (m_connectMap nd' j)))"

lemma forward_refl [simp]: "forward a a"
  by (simp add: forward_def)

lemma forward_trans: "forward a b \<Longrightarrow> forward b c \<Longrightarrow> forward a c"
  by (auto simp: forward_def settled_def)

lemma forward_all_trans: "forward_all nd nd1 \<Longrightarrow> forward_all nd1 nd2 \<Longrightarrow> forward_all nd nd2"
  unfolding forward_all_def using forward_trans by blast

lemma forward_all_same: "m_connectMap nd' = m_connectMap nd \<Longrightarrow> forward_all nd nd'"
  by (simp add: forward_all_def)

lemma forward_all_set:
  "forward (cm_response (m_connectMap nd i)) (cm_response (f (m_connectMap nd i))) \<Longrightarrow>
     forward_all nd (set_cm i f nd)"
  by (simp add: forward_all_def)

lemma aside_forward: "aside nd' = aside nd \<Longrightarrow> forward_all nd nd'"
  by (intro forward_all_same aside_tables)

lemma requestNext_forward:
  assumes "requestNext ne i nd = Inr nd'"
  shows "forward_all nd nd'"
proof (cases "length (m_sessionsMap nd) \<ge> MAX_CONNECTIONS")
  case True
  with assms show ?thesis by (auto simp: requestNext_def Let_def intro: aside_forward tell_aside)
next
  case False
  with assms obtain ep nd1 ep' nd2 m where r: "server_getRealEp ne nd = Inr (ep, nd1)"
    "server_getRealEp ne nd1 = Inr (ep', nd2)"
    "tell ne i m (set_cm i (\<lambda>cm. cm\<lparr>cm_request := Wait\<rparr>) nd2) = Inr nd'"
    by (auto simp: requestNext_def Let_def bindR_eq_Inr)
  have "forward_all nd nd1" "forward_all nd1 nd2"
    using r(1,2) by (auto intro: aside_forward getRealEp_aside)
  moreover have "forward_all nd2 (set_cm i (\<lambda>cm. cm\<lparr>cm_request := Wait\<rparr>) nd2)"
    by (rule forward_all_set) simp
  moreover have "forward_all (set_cm i (\<lambda>cm. cm\<lparr>cm_request := Wait\<rparr>) nd2) nd'"
    using r(3) by (intro aside_forward tell_aside)
  ultimately show ?thesis by (blast intro: forward_all_trans)
qed

lemma responseNext_settles:
  "responseNext ne m i nd = Inr nd' \<Longrightarrow>
     forward_all nd nd' \<and> settled (cm_response (m_connectMap nd' i))"
proof (induction ne m i nd rule: responseNext.induct)
  case (1 ne m i nd)
  let ?refuse = "bindR (tell ne i (put_bool False (new_message NewConnectionResponseMsgType)) nd) (\<lambda>nd.
        Inr (set_cm i (\<lambda>cm. cm\<lparr>cm_response := Stop\<rparr>) nd))"
  have refuse: "forward_all nd nd' \<and> settled (cm_response (m_connectMap nd' i))" if "?refuse = Inr nd'"
  proof -
    from that obtain nd1 where "tell ne i (put_bool False (new_message NewConnectionResponseMsgType)) nd = Inr nd1"
      and nd': "nd' = set_cm i (\<lambda>cm. cm\<lparr>cm_response := Stop\<rparr>) nd1"
      by (auto simp: bindR_eq_Inr)
    then have "forward_all nd nd1" by (intro aside_forward tell_aside)
    moreover have "forward_all nd1 nd'"
      unfolding nd' by (rule forward_all_set) (simp add: forward_def settled_def)
    ultimately show ?thesis by (auto simp: nd' settled_def intro: forward_all_trans)
  qed
  show ?case
  proof (cases "next_session i nd")
    case None
    then show ?thesis using "1.prems" refuse by (subst (asm) responseNext.simps) simp
  next
    case (Some p)
    obtain extId ext where p: "p = (extId, ext)" by (cases p)
    show ?thesis
    proof (cases "cm_cntLeft (m_connectMap nd i) = 0")
      case True
      then show ?thesis using "1.prems" refuse Some p by (subst (asm) responseNext.simps) simp
    next
      case cnt: False
      show ?thesis
      proof (cases "extId = i \<or> \<not> isActive ext \<or> m_type ext \<noteq> DefaultSession")
        case True
        let ?nd = "set_cm i (\<lambda>cm. cm\<lparr>cm_lastId := extId\<rparr>) nd"
        have "responseNext ne m i ?nd = Inr nd'"
          using "1.prems" Some p cnt True by (subst (asm) responseNext.simps) simp
        from "1.IH" [OF Some p [symmetric] cnt True this]
        have "forward_all ?nd nd'" "settled (cm_response (m_connectMap nd' i))" by auto
        moreover have "forward_all nd ?nd" by (rule forward_all_set) simp
        ultimately show ?thesis by (blast intro: forward_all_trans)
      next
        case False
        let ?nd = "set_cm i (\<lambda>cm. cm\<lparr>cm_response := Wait, cm_lastId := extId,
                                        cm_cntLeft := cm_cntLeft cm - 1\<rparr>) nd"
        from "1.prems" Some p cnt False obtain x where "tell ne extId x ?nd = Inr nd'"
          by (subst (asm) responseNext.simps) (auto simp: bindR_eq_Inr Let_def)
        then have "aside nd' = aside ?nd" by (rule tell_aside)
        then have "m_connectMap nd' = m_connectMap ?nd" by (rule aside_tables)
        then show ?thesis by (auto simp: forward_all_def forward_def settled_def)
      qed
    qed
  qed
qed

lemma disconnect_forward [simp]: "forward_all nd (disconnectClient i nd)"
  by (rule aside_forward) simp

lemma on_ConnectionRequest_forward:
  assumes "on_ConnectionRequest ne m i nd = Inr nd'"
  shows "forward_all nd nd'"
proof (cases "cm_response (m_connectMap nd i) = Begin")
  case False
  with assms show ?thesis by (simp add: on_ConnectionRequest_def forward_all_same)
next
  case True
  with assms obtain x nd1 where r: "tell ne i x nd = Inr nd1"
    "nd' = disconnectClient i nd1 \<or> nd' = set_cm i (\<lambda>cm. cm\<lparr>cm_response := Handshake\<rparr>) nd1"
    by (auto simp: on_ConnectionRequest_def bindR_eq_Inr Let_def split: if_splits)
  have a: "aside nd1 = aside nd" using r(1) by (rule tell_aside)
  then have "m_connectMap nd1 = m_connectMap nd" by (rule aside_tables)
  with True have "forward_all nd1 (set_cm i (\<lambda>cm. cm\<lparr>cm_response := Handshake\<rparr>) nd1)"
    by (intro forward_all_set) (simp add: forward_def)
  with r(2) have "forward_all nd1 nd'" by auto
  with aside_forward [OF a] show ?thesis by (rule forward_all_trans)
qed

lemma on_ConnectionResponse_forward:
  assumes "on_ConnectionResponse ne m i nd = Inr nd'"
  shows "forward_all nd nd'"
proof (cases "cm_request (m_connectMap nd i) = Begin")
  case False
  with assms show ?thesis by (simp add: on_ConnectionResponse_def forward_all_same)
next
  case True
  obtain resp m1 where g: "get_bool m = Inr (resp, m1)"
    using assms True by (cases "get_bool m") (auto simp: on_ConnectionResponse_def)
  have r: "(if resp then bindR (get_word m1) (\<lambda>(cnt, m).
        requestNext ne i (set_cm i (\<lambda>cm. cm\<lparr>cm_cntLeft := cnt\<rparr>) nd))
      else Inr (disconnectClient i nd)) = Inr nd'"
    using assms True g by (simp add: on_ConnectionResponse_def cong: if_cong)
  show ?thesis
  proof (cases resp)
    case True
    with r obtain cnt where n: "requestNext ne i (set_cm i (\<lambda>cm. cm\<lparr>cm_cntLeft := cnt\<rparr>) nd) = Inr nd'"
      by (auto simp: bindR_eq_Inr)
    have "forward_all nd (set_cm i (\<lambda>cm. cm\<lparr>cm_cntLeft := cnt\<rparr>) nd)"
      by (rule forward_all_set) simp
    with requestNext_forward [OF n] show ?thesis by (blast intro: forward_all_trans)
  next
    case False
    with r have "nd' = disconnectClient i nd" by simp
    then show ?thesis by simp
  qed
qed

lemma on_NewConnectionRequest_forward:
  "on_NewConnectionRequest ne m i nd = Inr nd' \<Longrightarrow> forward_all nd nd'"
  by (auto simp: on_NewConnectionRequest_def bindR_eq_Inr forward_all_same forward_def settled_def
      split: if_splits dest!: responseNext_settles intro!: forward_all_set)

lemma on_NewConnectionResponse_forward:
  assumes "on_NewConnectionResponse ne m i nd = Inr nd'"
  shows "forward_all nd nd'"
proof (cases "cm_request (m_connectMap nd i) = Wait")
  case False
  with assms show ?thesis by (simp add: on_NewConnectionResponse_def forward_all_same)
next
  case True
  from assms True consider
    "nd' = set_cm i (\<lambda>cm. cm\<lparr>cm_request := Stop\<rparr>) nd"
  | address port r nd1 where "connectToHost ne address port nd = Inr (r, nd1)"
      "requestNext ne i nd1 = Inr nd'"
    by (auto simp: on_NewConnectionResponse_def bindR_eq_Inr split: if_splits)
  then show ?thesis
  proof cases
    case 1
    then show ?thesis by (auto intro: forward_all_set)
  next
    case 2
    have "forward_all nd nd1" using 2(1) by (intro aside_forward connectToHost_aside)
    with requestNext_forward [OF 2(2)] show ?thesis by (blast intro: forward_all_trans)
  qed
qed

lemma on_NewExtConnectionRequest_aside:
  assumes "on_NewExtConnectionRequest ne m i nd = Inr nd'"
  shows "aside nd' = aside nd"
proof (cases "unat (getDefaultCnt nd) \<ge> MAX_CONNECTIONS")
  case True
  with assms show ?thesis by (auto simp: on_NewExtConnectionRequest_def Let_def intro: tell_aside)
next
  case False
  with assms obtain ep nd1 ep' nd2 address port r nd3 x where
    "server_getRealEp ne nd = Inr (ep, nd1)" "server_getRealEp ne nd1 = Inr (ep', nd2)"
    "connectToHost ne address port nd2 = Inr (r, nd3)" "tell ne i x nd3 = Inr nd'"
    by (auto simp: on_NewExtConnectionRequest_def Let_def bindR_eq_Inr)
  then show ?thesis
    using getRealEp_aside connectToHost_aside tell_aside by metis
qed

lemma on_NewExtConnectionResponse_forward:
  assumes "on_NewExtConnectionResponse ne m i nd = Inr nd'"
  shows "forward_all nd nd'"
proof -
  from assms consider m1 where "responseNext ne m1 i nd = Inr nd'"
  | j x where "tell ne j x nd = Inr nd'"
    by (auto simp: on_NewExtConnectionResponse_def bindR_eq_Inr split: if_splits)
  then show ?thesis
    by cases (auto dest: responseNext_settles tell_aside intro: aside_forward)
qed

lemmas connect_forward = on_ConnectionRequest_forward on_ConnectionResponse_forward
  on_NewConnectionRequest_forward on_NewConnectionResponse_forward
  on_NewExtConnectionResponse_forward

lemma updateConnectManager_forward:
  "updateConnectManager ne m i nd = Inr nd' \<Longrightarrow> forward_all nd nd'"
  by (auto simp: updateConnectManager_def forward_all_same split: types_enum.splits
      dest: connect_forward on_NewExtConnectionRequest_aside intro: aside_forward)

text \<open>A run of the manager: a list of received messages with the ids of their sessions.\<close>

fun connect_run :: "net_env \<Rightarrow> (msg \<times> u16) list \<Rightarrow> node \<Rightarrow> node result" where
  "connect_run ne [] nd = Inr nd"
| "connect_run ne ((m, i) # ms) nd = bindR (updateConnectManager ne m i nd) (connect_run ne ms)"

lemma connect_run_forward: "connect_run ne ms nd = Inr nd' \<Longrightarrow> forward_all nd nd'"
proof (induction ms arbitrary: nd)
  case (Cons p ms)
  obtain m i where p: "p = (m, i)" by (cases p)
  with Cons.prems obtain nd1 where "updateConnectManager ne m i nd = Inr nd1"
    "connect_run ne ms nd1 = Inr nd'"
    by (auto simp: bindR_eq_Inr)
  with Cons.IH updateConnectManager_forward show ?case by (blast intro: forward_all_trans)
qed (simp add: forward_all_same)

section \<open>Choosing the next peer\<close>

definition eligible :: "u16 \<Rightarrow> u16 \<times> session \<Rightarrow> bool" where
  "eligible i e \<longleftrightarrow> fst e \<noteq> i \<and> isActive (snd e) \<and> m_type (snd e) = DefaultSession"

definition candidates :: "u16 \<Rightarrow> node \<Rightarrow> (u16 \<times> session) list" where
  "candidates i nd =
     filter (\<lambda>e. cm_lastId (m_connectMap nd i) < fst e \<and> eligible i e) (m_sessionsMap nd)"

definition refuse_next :: "net_env \<Rightarrow> u16 \<Rightarrow> node \<Rightarrow> node result" where
  "refuse_next ne i nd =
     bindR (tell ne i (put_bool False (new_message NewConnectionResponseMsgType)) nd) (\<lambda>nd.
     Inr (set_cm i (\<lambda>cm. cm\<lparr>cm_response := Stop\<rparr>) nd))"

definition propose_next :: "net_env \<Rightarrow> msg \<Rightarrow> u16 \<Rightarrow> u16 \<Rightarrow> node \<Rightarrow> node result" where
  "propose_next ne m i extId nd =
     (let nd = set_cm i (\<lambda>cm. cm\<lparr>cm_response := Wait, cm_lastId := extId,
                                 cm_cntLeft := cm_cntLeft cm - 1\<rparr>) nd in
      bindR (get_word m) (\<lambda>(port :: u16, m).
      bindR (get_string m) (\<lambda>(address, m).
      tell ne extId (put_word port (put_string address (put_word i
        (new_message NewExtConnectionRequestMsgType)))) nd)))"

lemma upper_bound_split:
  "map_wf m \<Longrightarrow> map_upper_bound m k = Some e \<Longrightarrow>
     filter (\<lambda>x. k < fst x) m = e # filter (\<lambda>x. fst e < fst x) m"
proof (induction m)
  case (Cons x m)
  show ?case
  proof (cases "k < fst x")
    case True
    with Cons.prems have "e = x" by simp
    moreover have above: "\<forall>y \<in> set m. fst x < fst y" using Cons.prems(1) by (simp add: map_wf_Cons)
    moreover have "\<forall>y \<in> set m. k < fst y" using above True by fastforce
    ultimately have "filter (\<lambda>y. k < fst y) m = m" "filter (\<lambda>y. fst x < fst y) m = m" "e = x"
      by (auto simp: filter_id_conv)
    then show ?thesis using True by simp
  next
    case False
    moreover have "k < fst e" using Cons.prems(2) by (rule map_upper_bound_greater)
    ultimately show ?thesis using Cons by (auto simp: map_wf_Cons)
  qed
qed simp

lemma candidates_split:
  assumes "map_wf (m_sessionsMap nd)" and "next_session i nd = Some e"
  shows "candidates i nd =
    (if eligible i e then e # candidates i (set_cm i (\<lambda>cm. cm\<lparr>cm_lastId := fst e\<rparr>) nd)
     else candidates i (set_cm i (\<lambda>cm. cm\<lparr>cm_lastId := fst e\<rparr>) nd))"
proof -
  have f: "filter (\<lambda>x. P x \<and> eligible i x) xs = filter (eligible i) (filter P xs)" for P xs
    by (induction xs) auto
  show ?thesis
    unfolding candidates_def f set_cm_simps fun_upd_same connect_manager.simps
      upper_bound_split [OF assms(1) assms(2) [unfolded next_session_def]]
    by simp
qed

lemma candidates_None:
  assumes "next_session i nd = None" shows "candidates i nd = []"
proof -
  have "\<not> cm_lastId (m_connectMap nd i) < fst e" if "e \<in> set (m_sessionsMap nd)" for e
    using assms that by (auto simp: next_session_def map_upper_bound_None)
  then show ?thesis by (simp add: candidates_def filter_empty_conv)
qed

lemma set_cm_set_cm: "set_cm i f (set_cm i g nd) = set_cm i (\<lambda>cm. f (g cm)) nd"
  unfolding set_cm_def by simp

lemma set_cm_cong: "f (m_connectMap nd i) = g (m_connectMap nd i) \<Longrightarrow> set_cm i f nd = set_cm i g nd"
  by (simp only: set_cm_def)

lemma propose_next_skip:
  "propose_next ne m i extId (set_cm i (\<lambda>cm. cm\<lparr>cm_lastId := l\<rparr>) nd) = propose_next ne m i extId nd"
proof -
  let ?f = "\<lambda>cm. cm\<lparr>cm_response := Wait, cm_lastId := extId, cm_cntLeft := cm_cntLeft cm - 1\<rparr>"
  have "set_cm i ?f (set_cm i (\<lambda>cm. cm\<lparr>cm_lastId := l\<rparr>) nd) = set_cm i ?f nd"
    unfolding set_cm_set_cm by (rule set_cm_cong) simp
  then show ?thesis by (simp only: propose_next_def)
qed

lemma set_cm_last_twice:
  "set_cm i (\<lambda>cm. cm\<lparr>cm_lastId := l\<rparr>) (set_cm i (\<lambda>cm. cm\<lparr>cm_lastId := k\<rparr>) nd) =
   set_cm i (\<lambda>cm. cm\<lparr>cm_lastId := l\<rparr>) nd"
  unfolding set_cm_set_cm by (rule set_cm_cong) simp

lemma set_cm_last_same: "set_cm i (\<lambda>cm. cm\<lparr>cm_lastId := cm_lastId (m_connectMap nd i)\<rparr>) nd = nd"
  unfolding set_cm_def by simp

lemma responseNext_result:
  "map_wf (m_sessionsMap nd) \<Longrightarrow>
   (if cm_cntLeft (m_connectMap nd i) = 0 \<or> candidates i nd = []
    then \<exists>l. responseNext ne m i nd = refuse_next ne i (set_cm i (\<lambda>cm. cm\<lparr>cm_lastId := l\<rparr>) nd)
    else responseNext ne m i nd = propose_next ne m i (fst (hd (candidates i nd))) nd)"
proof (induction ne m i nd rule: responseNext.induct)
  case (1 ne m i nd)
  let ?same = "set_cm i (\<lambda>cm. cm\<lparr>cm_lastId := cm_lastId (m_connectMap nd i)\<rparr>) nd"
  show ?case
  proof (cases "next_session i nd")
    case None
    then have "responseNext ne m i nd = refuse_next ne i ?same"
      by (subst responseNext.simps) (simp add: refuse_next_def set_cm_last_same)
    with candidates_None [OF None] show ?thesis by auto
  next
    case (Some e)
    obtain extId ext where e: "e = (extId, ext)" by (cases e)
    show ?thesis
    proof (cases "cm_cntLeft (m_connectMap nd i) = 0")
      case True
      then have "responseNext ne m i nd = refuse_next ne i ?same"
        using Some e by (subst responseNext.simps) (simp add: refuse_next_def set_cm_last_same)
      with True show ?thesis by auto
    next
      case cnt: False
      note cands = candidates_split [OF "1.prems" Some]
      show ?thesis
      proof (cases "extId = i \<or> \<not> isActive ext \<or> m_type ext \<noteq> DefaultSession")
        case True
        let ?nd = "set_cm i (\<lambda>cm. cm\<lparr>cm_lastId := extId\<rparr>) nd"
        have step: "responseNext ne m i nd = responseNext ne m i ?nd"
          using Some e cnt True by (subst responseNext.simps) simp
        have "candidates i nd = candidates i ?nd" using cands True e by (auto simp: eligible_def)
        with "1.IH" [OF Some e [symmetric] cnt True] "1.prems" cnt show ?thesis
          unfolding step by (auto simp: propose_next_skip set_cm_last_twice split: if_splits)
      next
        case False
        then have "candidates i nd = e # candidates i (set_cm i (\<lambda>cm. cm\<lparr>cm_lastId := extId\<rparr>) nd)"
          using cands e by (auto simp: eligible_def)
        moreover have "responseNext ne m i nd = propose_next ne m i extId nd"
          using Some e cnt False by (subst responseNext.simps) (simp add: propose_next_def Let_def)
        ultimately show ?thesis using cnt e by simp
      qed
    qed
  qed
qed

end
