(* ===== verification/Connect_Props.thy ===== *)
theory Connect_Props
  imports Connect_Manager
begin

text \<open>
  What the connection manager promises: the version handshake, the introduction of two peers
  by a third, and the ways in which the exchange of peers ends early.
\<close>

section \<open>The messages\<close>

definition hello :: "string \<Rightarrow> msg" where
  "hello v = put_string v (new_message ConnectionRequestMsgType)"

definition accept_reply :: "u16 \<Rightarrow> msg" where
  "accept_reply n = put_bool True (put_word n (new_message ConnectionResponseMsgType))"

definition reject_reply :: msg where
  "reject_reply = put_bool False (new_message ConnectionResponseMsgType)"

definition peer_request :: "endpoint \<Rightarrow> msg" where
  "peer_request ep = put_bool True (put_word (ep_port ep) (put_string (v4_to_string (ep_addr ep))
     (new_message NewConnectionRequestMsgType)))"

definition ext_request :: "endpoint \<Rightarrow> u16 \<Rightarrow> msg" where
  "ext_request ep i = put_word (ep_port ep) (put_string (v4_to_string (ep_addr ep)) (put_word i
     (new_message NewExtConnectionRequestMsgType)))"

definition ext_response :: "endpoint \<Rightarrow> u16 \<Rightarrow> msg" where
  "ext_response ep i = put_bool True (put_word (ep_port ep) (put_string (v4_to_string (ep_addr ep))
     (put_word i (new_message NewExtConnectionResponseMsgType))))"

definition ext_refusal :: msg where
  "ext_refusal = put_bool False (new_message NewExtConnectionResponseMsgType)"

definition peer_response :: "endpoint \<Rightarrow> msg" where
  "peer_response ep = put_bool True (put_word (ep_port ep) (put_string (v4_to_string (ep_addr ep))
     (new_message NewConnectionResponseMsgType)))"

lemmas exchange_messages = hello_def accept_reply_def reject_reply_def peer_request_def ext_request_def
  ext_response_def ext_refusal_def peer_response_def

lemma exchange_types [simp]:
  "getId (hello v) = ConnectionRequestMsgType" "getId (accept_reply n) = ConnectionResponseMsgType"
  "getId reject_reply = ConnectionResponseMsgType"
  "getId (peer_request ep) = NewConnectionRequestMsgType"
  "getId (ext_request ep i) = NewExtConnectionRequestMsgType"
  "getId (ext_response ep i) = NewExtConnectionResponseMsgType"
  "getId ext_refusal = NewExtConnectionResponseMsgType"
  "getId (peer_response ep) = NewConnectionResponseMsgType"
  by (simp_all add: exchange_messages getId_def new_message_def)

lemma exchange_wf [simp]:
  "msg_wf (hello v)" "msg_wf (accept_reply n)" "msg_wf reject_reply" "msg_wf (peer_request ep)"
  "msg_wf (ext_request ep i)" "msg_wf (ext_response ep i)" "msg_wf ext_refusal" "msg_wf (peer_response ep)"
  by (simp_all add: exchange_messages)

lemma get_address [simp]:
  "msg_wf m \<Longrightarrow> get_string (put_string (v4_to_string a) m) = Inr (v4_to_string a, m)"
  by (simp add: get_string_put_string)

section \<open>Telling a session\<close>

lemma tell_ok:
  assumes "server_wf nd" and "msg_wf m"
  obtains nd' where "tell ne i m nd = Inr nd'" "server_wf nd'" "aside nd' = aside nd"
    "m_curId nd' = m_curId nd" "\<And>j. j \<noteq> i \<Longrightarrow> session_of nd' j = session_of nd j"
    "\<And>s. session_of nd i = Some s \<Longrightarrow> checkAble (env.truncate ne) s \<Longrightarrow>
       \<exists>t. session_of nd' i = Some t \<and> send m s = Inr (m, t) \<and> isActive t = isActive s \<and> m_type t = m_type s"
  using assms(2)
proof (cases rule: sendMessage_cases [where sv = nd and i = i and ne = ne])
  case unknown
  with assms(1) show ?thesis using that [of nd] by (simp add: tell_def)
next
  case (sent s t)
  have "server_wf (set_session i t nd)"
    using assms(1) sent(1,4) by (intro server_wf_set) (simp_all add: server_wf_def)
  with sent show ?thesis using that [of "set_session i t nd"] by (simp add: tell_def isActive_def)
next
  case (dropped s)
  have "server_wf (disconnectClient i nd)" using assms(1) by (rule server_wf_disconnect)
  with dropped show ?thesis using that [of "disconnectClient i nd"]
    by (simp add: tell_def)
qed


lemmas connect_ops = updateConnectManager_def on_ConnectionRequest_def on_ConnectionResponse_def
  on_NewConnectionRequest_def on_NewConnectionResponse_def on_NewExtConnectionRequest_def
  on_NewExtConnectionResponse_def

section \<open>The handshake\<close>



text \<open>
  A node with three sessions: 1000 and 1002 are in use by peers, 1003 is prepared. Peer 1000
  has shaken hands and may still be introduced to two others.
\<close>

definition sample_node :: node where
  "sample_node =
     set_cm 1000 (\<lambda>cm. cm\<lparr>cm_response := Handshake, cm_request := Wait, cm_cntLeft := 2\<rparr>)
       ((new_node ''0.0.0.0'' 1000 \<lparr>fs_filesPath = ''d/'', fs_filesInfo = Map.empty, fs_disk = Map.empty\<rparr> (\<lambda>n. word_of_nat n))
         \<lparr>m_sessionsMap := [(1000, sample_start\<lparr>m_isConnected := True\<rparr>),
            (1002, sample_start\<lparr>s_id := 1002, m_isConnected := True\<rparr>), (1003, sample_start\<lparr>s_id := 1003\<rparr>)],
          m_curId := 1003\<rparr>)"

lemma sample_node_simps:
  "m_sessionsMap sample_node = [(1000, sample_start\<lparr>m_isConnected := True\<rparr>),
     (1002, sample_start\<lparr>s_id := 1002, m_isConnected := True\<rparr>), (1003, sample_start\<lparr>s_id := 1003\<rparr>)]"
  "m_curId sample_node = 1003"
  "m_connectMap sample_node = (\<lambda>_. new_connect_manager)(1000 := \<lparr>cm_response = Handshake, cm_request = Wait,
     cm_cntLeft = 2, cm_lastId = 0\<rparr>)"
  by (simp_all add: sample_node_def new_node_def server.defs new_connect_manager_def)

lemma sample_start_id: "s_id sample_start = 1000"
  by (simp add: sample_start_def new_session_def)

lemma sample_node_wf: "server_wf sample_node"
  by (auto simp: server_wf_def sample_node_simps sample_start_id map_wf_Cons)

lemma sample_node_more:
  "map_wf (m_sessionsMap sample_node)" "cm_response (m_connectMap sample_node 1000) = Handshake"
  "cm_cntLeft (m_connectMap sample_node 1000) \<noteq> 0" "cm_request (m_connectMap sample_node 1000) = Wait"
  "length (m_sessionsMap sample_node) < MAX_CONNECTIONS" "getDefaultCnt sample_node = 3"
  using sample_node_wf
  by (simp_all add: sample_node_simps MAX_CONNECTIONS_def server_wf_def getDefaultCnt_def)
    (simp add: sample_start_def new_session_def)


section \<open>Introductions\<close>

lemma peer_request_proposes:
  assumes "map_wf (m_sessionsMap nd)" "cm_response (m_connectMap nd a) = Handshake"
    "cm_cntLeft (m_connectMap nd a) \<noteq> 0" "candidates a nd = e # es"
  shows "updateConnectManager ne (peer_request ep) a nd =
     tell ne (fst e) (ext_request ep a) (set_cm a (\<lambda>cm. cm\<lparr>cm_response := Wait, cm_lastId := fst e,
                                                     cm_cntLeft := cm_cntLeft cm - 1\<rparr>) nd)"
proof -
  have "responseNext ne m a nd = propose_next ne m a (fst e) nd" for m
    using responseNext_result [OF assms(1), of a ne m] assms(3,4) by simp
  with assms(2) show ?thesis
    by (simp add: connect_ops) (simp add: exchange_messages propose_next_def Let_def)
qed

text \<open>
  C10. An introduction, along its whole way. The asking node \<open>A\<close> sends its public endpoint;
  the answering node \<open>B\<close> picks the first active ordinary session above the last one it
  proposed and passes \<open>A\<close>'s endpoint on to the node \<open>C\<close> behind it, with the id it has for \<open>A\<close>;
  \<open>C\<close> connects to exactly \<open>A\<close>'s endpoint and answers with its own; \<open>B\<close> hands that to \<open>A\<close>; and
  \<open>A\<close> connects to exactly \<open>C\<close>'s endpoint and asks for the next peer.
\<close>

theorem introduction_relays:
  "\<lbrakk>length (m_sessionsMap ndA) < MAX_CONNECTIONS; server_getRealEp neA ndA = Inr (epA, ndA);
    map_wf (m_sessionsMap ndB); cm_response (m_connectMap ndB a) = Handshake;
    cm_cntLeft (m_connectMap ndB a) \<noteq> 0; candidates a ndB = e # es;
    unat (getDefaultCnt ndC) < MAX_CONNECTIONS; server_getRealEp neC ndC = Inr (epC, ndC);
    cm_request (m_connectMap ndA' b) = Wait\<rbrakk> \<Longrightarrow>
   requestNext neA b ndA =
     tell neA b (peer_request epA) (set_cm b (\<lambda>cm. cm\<lparr>cm_request := Wait\<rparr>) ndA) \<and>
   updateConnectManager neB (peer_request epA) a ndB =
     tell neB (fst e) (ext_request epA a) (set_cm a (\<lambda>cm. cm\<lparr>cm_response := Wait, cm_lastId := fst e,
                                                       cm_cntLeft := cm_cntLeft cm - 1\<rparr>) ndB) \<and>
   updateConnectManager neC (ext_request epA a) c ndC =
     bindR (connectToHost neC (v4_to_string (ep_addr epA)) (ep_port epA) ndC)
       (\<lambda>(r, nd). tell neC c (ext_response epC a) nd) \<and>
   updateConnectManager neB (ext_response epC a) c' ndB' = tell neB a (peer_response epC) ndB' \<and>
   updateConnectManager neA' (peer_response epC) b ndA' =
     bindR (connectToHost neA' (v4_to_string (ep_addr epC)) (ep_port epC) ndA')
       (\<lambda>(r, nd). requestNext neA' b nd)"
proof (intro conjI, goal_cases)
  case 1
  then show ?case by (simp add: requestNext_def Let_def peer_request_def)
next
  case 2
  then show ?case by (intro peer_request_proposes)
next
  case 3
  then show ?case by (simp add: connect_ops) (simp add: exchange_messages Let_def)
next
  case 4
  show ?case by (simp add: connect_ops) (simp add: exchange_messages)
next
  case 5
  then show ?case by (simp add: connect_ops) (simp add: exchange_messages)
qed

lemma sample_candidates:
  "candidates 1000 sample_node = [(1002, sample_start\<lparr>s_id := 1002, m_isConnected := True\<rparr>)]"
  by (simp add: candidates_def eligible_def sample_node_simps)
    (simp add: sample_start_def new_session_def isActive_def)

lemma sample_ep: "server_getRealEp sample_net sample_node = Inr (no_endpoint, sample_node)"
  by (simp add: server_getRealEp_def sample_node_simps)
    (simp add: sample_start_def new_session_def getRealEp_def getEndpoint_def stun_fresh_def
      new_stun_session_def sendRequest_def stun_start_op_def)

lemma introduction_relays_witness:
  "updateConnectManager sample_net (peer_request no_endpoint) 1000 sample_node =
     tell sample_net 1002 (ext_request no_endpoint 1000) (set_cm 1000 (\<lambda>cm. cm\<lparr>cm_response := Wait,
       cm_lastId := 1002, cm_cntLeft := cm_cntLeft cm - 1\<rparr>) sample_node) \<and>
   updateConnectManager sample_net (ext_request no_endpoint 1000) 1002 sample_node =
     bindR (connectToHost sample_net (v4_to_string 0) 0 sample_node)
       (\<lambda>(r, nd). tell sample_net 1002 (ext_response no_endpoint 1000) nd)"
proof -
  have "unat (getDefaultCnt sample_node) < MAX_CONNECTIONS"
    by (simp add: sample_node_more MAX_CONNECTIONS_def)
  with introduction_relays [where ndA = sample_node and neA = sample_net and ndB = sample_node and
      a = 1000 and neB = sample_net and ndC = sample_node and neC = sample_net and
      ndA' = sample_node and b = 1000 and c = 1002,
      OF _ sample_ep _ _ _ sample_candidates _ sample_ep]
  show ?thesis by (simp add: sample_node_more no_endpoint_def)
qed


text \<open>
  C18. The exchange ends after one proposal. When the answering node has handled one request
  for a peer, whatever its flag, no sequence of later messages from any peers makes it handle
  another one: its state never returns to \<open>Handshake\<close>, and the next request is ignored.
\<close>

theorem exchange_stops_after_one:
  "\<lbrakk>getId m = NewConnectionRequestMsgType; cm_response (m_connectMap nd i) = Handshake;
    updateConnectManager ne m i nd = Inr nd1; connect_run ne2 ms nd1 = Inr nd2;
    getId m2 = NewConnectionRequestMsgType\<rbrakk> \<Longrightarrow>
   settled (cm_response (m_connectMap nd2 i)) \<and> updateConnectManager ne3 m2 i nd2 = Inr nd2"
proof -
  assume m: "getId m = NewConnectionRequestMsgType" "cm_response (m_connectMap nd i) = Handshake"
    "updateConnectManager ne m i nd = Inr nd1" "connect_run ne2 ms nd1 = Inr nd2"
    and m2: "getId m2 = NewConnectionRequestMsgType"
  have "on_NewConnectionRequest ne m i nd = Inr nd1" using m(1,3) by (simp add: updateConnectManager_def)
  then have "settled (cm_response (m_connectMap nd1 i))"
    using m(2) by (auto simp: on_NewConnectionRequest_def bindR_eq_Inr settled_def
        split: if_splits dest!: responseNext_settles)
  moreover have "forward_all nd1 nd2" using m(4) by (rule connect_run_forward)
  ultimately have "settled (cm_response (m_connectMap nd2 i))"
    by (auto simp: forward_all_def forward_def settled_def dest!: spec [of _ i])
  with m2 show ?thesis by (auto simp: connect_ops settled_def)
qed

text \<open>
  A refused introduction. When the node that was asked to connect is full, it answers
  with a bare refusal; and the answering node, if it has any other session left to propose to
  it, then reads a port and an address from the empty rest of that refusal: the read runs off the message. The id
  it works with is that of the node that refused, not of the node that had asked.
\<close>

theorem refused_introduction_faults:
  "\<lbrakk>unat (getDefaultCnt ndC) \<ge> MAX_CONNECTIONS; map_wf (m_sessionsMap ndB);
    cm_cntLeft (m_connectMap ndB c) \<noteq> 0; candidates c ndB = e # es\<rbrakk> \<Longrightarrow>
   updateConnectManager neC (ext_request ep a) b ndC = tell neC b ext_refusal ndC \<and>
   updateConnectManager neB ext_refusal c ndB = Inl BodyUnderflow"
proof (intro conjI, goal_cases)
  case 1
  then show ?case by (simp add: connect_ops) (simp add: ext_refusal_def)
next
  case 2
  let ?m = "new_message NewExtConnectionResponseMsgType"
  have "updateConnectManager neB ext_refusal c ndB = responseNext neB ?m c ndB"
    by (simp add: connect_ops) (simp add: ext_refusal_def)
  also have "\<dots> = propose_next neB ?m c (fst e) ndB"
    using responseNext_result [OF 2(2), of c neB ?m] 2(3,4) by simp
  also have "\<dots> = Inl BodyUnderflow"
    by (simp add: propose_next_def get_word_def get_def word_pod_def new_message_def)
  finally show ?case .
qed

lemma exchange_stops_after_one_witness:
  "\<exists>nd'. updateConnectManager sample_net (peer_request no_endpoint) 1000 sample_node = Inr nd' \<and>
     updateConnectManager sample_net (peer_request sample_peer) 1000 nd' = Inr nd'"
proof -
  let ?nd = "set_cm 1000 (\<lambda>cm. cm\<lparr>cm_response := Wait, cm_lastId := 1002,
      cm_cntLeft := cm_cntLeft cm - 1\<rparr>) sample_node"
  have "server_wf ?nd" using sample_node_wf by (simp add: server_wf_def)
  then obtain nd' where "tell sample_net 1002 (ext_request no_endpoint 1000) ?nd = Inr nd'"
    by (rule tell_ok [OF _ exchange_wf(5)])
  then have "updateConnectManager sample_net (peer_request no_endpoint) 1000 sample_node = Inr nd'"
    by (simp only: peer_request_proposes [OF sample_node_more(1-3) sample_candidates] fst_conv)
  moreover from this have "updateConnectManager sample_net (peer_request sample_peer) 1000 nd' = Inr nd'"
    by (intro exchange_stops_after_one [THEN conjunct2, of "peer_request no_endpoint" sample_node 1000
        sample_net nd' sample_net "[]"]) (simp_all add: sample_node_more)
  ultimately show ?thesis by blast
qed

text \<open>A node with twenty ordinary sessions is full.\<close>

definition full_node :: node where
  "full_node = sample_node\<lparr>m_sessionsMap := map (\<lambda>i. (word_of_nat i, sample_start)) [1..<21]\<rparr>"

lemma refused_introduction_faults_witness:
  "updateConnectManager sample_net (ext_request sample_peer 7) 5 full_node =
     tell sample_net 5 ext_refusal full_node \<and>
   updateConnectManager sample_net ext_refusal 1000 sample_node = Inl BodyUnderflow"
proof (rule refused_introduction_faults [OF _ sample_node_more(1,3) sample_candidates])
  have "m_type sample_start = DefaultSession" by (simp add: sample_start_def new_session_def)
  then have "getDefaultCnt full_node = 20" by (simp add: getDefaultCnt_def full_node_def)
  then show "unat (getDefaultCnt full_node) \<ge> MAX_CONNECTIONS" by (simp add: MAX_CONNECTIONS_def)
qed

end
