(* ===== verification/File_Transfer.thy ===== *)
theory File_Transfer
  imports File_Manager Connect_Props
begin

text \<open>
  The transfer of one piece, both ends: what the sender puts on the wire, what the receiver
  makes of it, and the ways in which transfers disturb each other.
\<close>

section \<open>The messages\<close>

definition body_msg :: "string \<Rightarrow> string \<Rightarrow> msg" where
  "body_msg fileId c = put_string fileId (put_vector char_pod c (new_message FileBodyMsgType))"

definition file_msg :: "types_enum \<Rightarrow> string \<Rightarrow> msg" where
  "file_msg t fileId = put_string fileId (new_message t)"

definition request_msg :: "string \<Rightarrow> u16 \<Rightarrow> msg" where
  "request_msg fileId n = put_string fileId (put_word n (new_message FileRequestMsgType))"

lemma file_msg_wf [simp]: "msg_wf (body_msg fileId c)" "msg_wf (file_msg t fileId)" "msg_wf (request_msg fileId n)"
  by (simp_all add: body_msg_def file_msg_def request_msg_def)

lemma getId_put_vector [simp]: "getId (put_vector char_pod c m) = getId m"
proof -
  have "hdr_id (m_header (put_string c m)) = hdr_id (m_header m)" by simp
  then show ?thesis by (simp add: getId_def put_string_def)
qed

lemma getId_put_string [simp]: "getId (put_string c m) = getId m"
  by (simp add: getId_def)

lemma getId_put_file_word [simp]: "getId (put_word w m) = getId m"
  by (simp add: getId_def)

lemma file_msg_type [simp]:
  "getId (body_msg fileId c) = FileBodyMsgType" "getId (file_msg t fileId) = t"
  "getId (request_msg fileId n) = FileRequestMsgType"
  unfolding body_msg_def file_msg_def request_msg_def by (simp_all) (simp_all add: getId_def new_message_def)

lemma get_body_msg:
  assumes "length fileId < 2 ^ 32"
  shows "get_string (body_msg fileId c) = Inr (fileId, put_vector char_pod c (new_message FileBodyMsgType))"
    "get_string (file_msg t fileId) = Inr (fileId, new_message t)"
    "get_string (request_msg fileId n) = Inr (fileId, put_word n (new_message FileRequestMsgType))"
proof -
  have "msg_wf (put_vector char_pod c (new_message FileBodyMsgType))"
    using msg_wf_put_string [of c "new_message FileBodyMsgType"] by (simp add: put_string_def)
  then show "get_string (body_msg fileId c) = Inr (fileId, put_vector char_pod c (new_message FileBodyMsgType))"
    using assms by (simp add: body_msg_def get_string_put_string)
qed (use assms in \<open>simp_all add: file_msg_def request_msg_def get_string_put_string\<close>)

section \<open>Several messages to one session\<close>

fun tell_list :: "net_env \<Rightarrow> u16 \<Rightarrow> msg list \<Rightarrow> node \<Rightarrow> node result" where
  "tell_list ne i [] nd = Inr nd"
| "tell_list ne i (m # ms) nd = bindR (tell ne i m nd) (tell_list ne i ms)"

lemma tell_list_append: "tell_list ne i (ms @ ms') nd = bindR (tell_list ne i ms nd) (tell_list ne i ms')"
proof (induction ms arbitrary: nd)
  case (Cons m ms)
  then show ?case by (cases "tell ne i m nd") simp_all
qed simp

text \<open>An update that leaves the sessions alone can be done before or after telling.\<close>

definition beside :: "(node \<Rightarrow> node) \<Rightarrow> bool" where
  "beside g \<longleftrightarrow> (\<forall>nd. m_sessionsMap (g nd) = m_sessionsMap nd) \<and>
     (\<forall>i s nd. g (set_session i s nd) = set_session i s (g nd)) \<and>
     (\<forall>i nd. g (disconnectClient i nd) = disconnectClient i (g nd))"

lemma beside_set_file [simp]: "beside (set_file i fileId f)"
  by (simp add: beside_def set_file_def file_at_def set_session_def disconnectClient_def split: option.split)

lemma beside_set_disk [simp]: "beside (set_disk d)"
  by (simp add: beside_def set_disk_def set_session_def disconnectClient_def split: option.split)

lemma beside_file_system [simp]: "beside (\<lambda>nd. nd\<lparr>m_fileSystem := fs\<rparr>)"
  by (simp add: beside_def set_session_def disconnectClient_def split: option.split)

lemma beside_pack [simp]: "beside (\<lambda>nd. nd\<lparr>currentPackNum := n\<rparr>)"
  by (simp add: beside_def set_session_def disconnectClient_def split: option.split)

lemma beside_comp: "beside g \<Longrightarrow> beside h \<Longrightarrow> beside (\<lambda>nd. g (h nd))"
  by (simp add: beside_def)

lemma tell_beside:
  assumes "beside g" and "msg_wf m"
  shows "tell ne i m (g nd) = bindR (tell ne i m nd) (\<lambda>nd'. Inr (g nd'))"
proof -
  have s: "session_of (g nd) i = session_of nd i" using assms(1) by (simp add: beside_def)
  show ?thesis
    using assms(2)
  proof (cases rule: sendMessage_cases [where sv = nd and i = i and ne = ne])
    case unknown
    with s show ?thesis by (simp add: tell_def sendMessage_def)
  next
    case (sent u t)
    with s assms(1) show ?thesis by (simp add: tell_def sendMessage_def beside_def)
  next
    case (dropped u)
    with s assms(1) show ?thesis by (simp add: tell_def sendMessage_def beside_def)
  qed
qed

lemma tell_list_beside:
  assumes "beside g"
  shows "list_all msg_wf ms \<Longrightarrow>
    tell_list ne i ms (g nd) = bindR (tell_list ne i ms nd) (\<lambda>nd'. Inr (g nd'))"
proof (induction ms arbitrary: nd)
  case (Cons m ms)
  then show ?case using tell_beside [OF assms, of m ne i nd] by (cases "tell ne i m nd") simp_all
qed simp

lemma tell_list_aside: "tell_list ne i ms nd = Inr nd' \<Longrightarrow> aside nd' = aside nd"
  by (induction ms arbitrary: nd) (auto simp: bindR_eq_Inr dest!: tell_aside)

lemma tell_total: "msg_wf m \<Longrightarrow> \<exists>nd'. tell ne i m nd = Inr nd'"
  by (cases rule: sendMessage_cases [where sv = nd and i = i and ne = ne]) (auto simp: tell_def)

lemma tell_list_total: "list_all msg_wf ms \<Longrightarrow> \<exists>nd'. tell_list ne i ms nd = Inr nd'"
proof (induction ms arbitrary: nd)
  case (Cons m ms)
  with tell_total [of m ne i nd] show ?case by auto
qed simp

lemma file_at_simps [simp]:
  "file_at i fileId (set_file i fileId f nd) = f (file_at i fileId nd)"
  "m_fileSystem (set_file i fileId f nd) = m_fileSystem nd"
  "file_at i fileId (set_disk d nd) = file_at i fileId nd"
  "m_fileSystem (set_disk d nd) = (m_fileSystem nd)\<lparr>fs_disk := d\<rparr>"
  "currentPackNum (set_file i fileId f nd) = currentPackNum nd"
  "currentPackNum (set_disk d nd) = currentPackNum nd"
  "set_file i fileId f (set_file i fileId g nd) = set_file i fileId (\<lambda>x. f (g x)) nd"
  by (simp_all add: file_at_def set_file_def set_disk_def)

lemma file_at_aside: "aside nd' = aside nd \<Longrightarrow> file_at i fileId nd' = file_at i fileId nd"
  using aside_tables(3) [of nd' nd] by (simp add: file_at_def)

section \<open>The sender\<close>

text \<open>A piece as it goes on the wire: chunks of at most 1024 bytes, then the end.\<close>

function chunks :: "string \<Rightarrow> string list" where
  "chunks s = (if s = [] then [] else take 1024 s # chunks (drop 1024 s))"
  by pat_completeness auto
termination
  by (relation "measure length") auto

declare chunks.simps [simp del]

lemma chunks_Nil [simp]: "chunks [] = []"
  by (simp add: chunks.simps)

lemma concat_file_chunks [simp]: "concat (chunks s) = s"
proof (induction s rule: chunks.induct)
  case (1 s)
  then show ?case by (cases "s = []") (simp_all add: chunks.simps [of s])
qed

lemma length_chunks: "length (chunks s) = (length s + 1023) div 1024"
proof (induction s rule: chunks.induct)
  case (1 s)
  show ?case
  proof (cases "length s \<le> 1024")
    case True
    then show ?thesis by (cases "s = []") (auto simp: chunks.simps [of s] div_if)
  next
    case False
    then have "s \<noteq> []" by auto
    with 1 have "length (chunks s) = Suc ((length s - 1024 + 1023) div 1024)" by (simp add: chunks.simps [of s])
    also have "\<dots> = (length s + 1023) div 1024" using False by (subst (2) div_if) auto
    finally show ?thesis .
  qed
qed

definition piece_msgs :: "string \<Rightarrow> string \<Rightarrow> msg list" where
  "piece_msgs fileId content = map (body_msg fileId) (chunks content) @ [file_msg FileEndMsgType fileId]"

lemma piece_msgs_wf [simp]: "list_all msg_wf (piece_msgs fileId content)"
  by (simp add: piece_msgs_def list_all_iff)

lemma piece_msgs_step:
  "s \<noteq> [] \<Longrightarrow> piece_msgs fileId s = body_msg fileId (take 1024 s) # piece_msgs fileId (drop 1024 s)"
  by (simp add: piece_msgs_def chunks.simps [of s])

definition sending :: "u16 \<Rightarrow> string \<Rightarrow> string \<Rightarrow> string \<Rightarrow> nat \<Rightarrow> node \<Rightarrow> bool" where
  "sending i fileId path content pos nd \<longleftrightarrow>
     fl_stream (file_at i fileId nd) = \<lparr>fst_mode = Reading path pos, fst_fail = False\<rparr> \<and>
     fl_fileSize (file_at i fileId nd) = word_of_nat (length content) \<and>
     node_disk nd path = Some content \<and> pos \<le> length content"

abbreviation at_stream :: "fstream \<Rightarrow> file_struct \<Rightarrow> file_struct" where
  "at_stream st f \<equiv> f\<lparr>fl_stream := st\<rparr>"

lemma nextBodyPiece_sends:
  assumes "sending i fileId path content pos nd" and "length content < 2 ^ 32"
  shows "nextBodyPiece ne i fileId nd =
    (if pos = length content
     then tell ne i (file_msg FileEndMsgType fileId)
       (set_file i fileId (at_stream \<lparr>fst_mode = Closed, fst_fail = False\<rparr>) nd)
     else tell ne i (body_msg fileId (take 1024 (drop pos content)))
       (set_file i fileId (at_stream \<lparr>fst_mode = Reading path (min (pos + 1024) (length content)),
          fst_fail = False\<rparr>) nd))"
proof -
  let ?left = "length content - pos"
  have sub: "(word_of_nat (length content) - word_of_nat pos :: u64) = word_of_nat ?left"
    using assms(1) by (simp add: sending_def of_nat_diff)
  have left: "?left < 2 ^ 32" using assms(2) by simp
  have u: "unat (word_of_nat ?left :: u32) = ?left"
    using left by (intro word_of_nat_unat_less) simp
  have c: "(ucast (word_of_nat ?left :: u64) :: u32) = word_of_nat ?left"
    using left by (simp add: unsigned_of_nat take_bit_nat_eq_self)
  have z: "(word_of_nat ?left :: u32) = 0 \<longleftrightarrow> pos = length content"
    using u assms(1) by (auto simp: sending_def simp flip: unat_eq_0)
  have n: "unat (min (word_of_nat ?left) FILE_CHUNK_SIZE) = min ?left 1024"
    using u by (simp add: min_def FILE_CHUNK_SIZE_def word_le_nat_alt)
  have got: "take (min ?left 1024) (drop pos content) = take 1024 (drop pos content)"
    by (simp add: min_def)
  let ?st = "\<lparr>fst_mode = Reading path pos, fst_fail = False\<rparr>"
  have st: "fl_stream (file_at i fileId nd) = ?st" and disk: "node_disk nd path = Some content"
    and sz: "fl_fileSize (file_at i fileId nd) = word_of_nat (length content)" and le: "pos \<le> length content"
    using assms(1) by (simp_all add: sending_def)
  have tg: "ucast (fl_fileSize (file_at i fileId nd) - stream_tellg ?st (node_disk nd)) = (word_of_nat ?left :: u32)"
    by (simp add: sz stream_tellg_def sub c)
  have opened: "is_open ?st" by (simp add: is_open_def)
  have len: "length (take 1024 (drop pos content)) = min ?left 1024" by (simp add: min.commute)
  have rd: "stream_read (min ?left 1024) ?st (node_disk nd) =
      (take 1024 (drop pos content), \<lparr>fst_mode = Reading path (min (pos + 1024) (length content)), fst_fail = False\<rparr>)"
    using le by (simp add: stream_read_def file_content_def disk got Let_def min_def) arith
  show ?thesis
  proof (cases "pos = length content")
    case True
    with z have "(word_of_nat ?left :: u32) = 0" by blast
    then show ?thesis
      by (simp only: if_P [OF True] nextBodyPiece_def Let_def st tg opened finishSending_def file_msg_def
          close_stream_def if_True simp_thms if_False fstream.simps)
  next
    case False
    with z have "(word_of_nat ?left :: u32) \<noteq> 0" by blast
    then show ?thesis
      by (simp only: if_not_P [OF False] nextBodyPiece_def Let_def st tg opened n rd prod.case body_msg_def
          simp_thms if_False)
  qed
qed

lemma sending_step:
  "sending i fileId path content pos nd \<Longrightarrow> p \<le> length content \<Longrightarrow>
     sending i fileId path content p
       (set_file i fileId (at_stream \<lparr>fst_mode = Reading path p, fst_fail = False\<rparr>) nd)"
  by (simp add: sending_def)

lemma set_file_same:
  "transfer nd i fileId \<noteq> None \<Longrightarrow> set_file i fileId (at_stream (fl_stream (file_at i fileId nd))) nd = nd"
  by (auto simp: set_file_def file_at_def map_upd_triv)

lemma set_file_fusion:
  "set_file i fileId (at_stream st) (set_file i fileId (at_stream st') nd) = set_file i fileId (at_stream st) nd"
  by (simp add: set_file_def file_at_def)

text \<open>The stream after \<open>n\<close> steps from position \<open>pos\<close>: still reading, or closed after the end message.\<close>

definition stream_after :: "nat \<Rightarrow> string \<Rightarrow> string \<Rightarrow> nat \<Rightarrow> fstream" where
  "stream_after n path content pos =
     (if n < length (piece_msgs [] (drop pos content))
      then \<lparr>fst_mode = Reading path (min (pos + 1024 * n) (length content)), fst_fail = False\<rparr>
      else \<lparr>fst_mode = Closed, fst_fail = False\<rparr>)"

lemma send_pack_sends:
  "sending i fileId path content pos nd \<Longrightarrow> length content < 2 ^ 32 \<Longrightarrow> transfer nd i fileId \<noteq> None \<Longrightarrow>
   send_pack n ne i fileId nd =
     tell_list ne i (take n (piece_msgs fileId (drop pos content)))
       (set_file i fileId (at_stream (stream_after n path content pos)) nd)"
proof (induction n arbitrary: pos nd)
  case 0
  then show ?case
    using set_file_same [of nd i fileId] by (simp add: stream_after_def sending_def piece_msgs_def)
next
  case (Suc n)
  note step = nextBodyPiece_sends [OF Suc.prems(1,2), of ne]
  show ?case
  proof (cases "pos = length content")
    case True
    let ?nd = "set_file i fileId (at_stream \<lparr>fst_mode = Closed, fst_fail = False\<rparr>) nd"
    obtain nd' where t: "tell ne i (file_msg FileEndMsgType fileId) ?nd = Inr nd'"
      using tell_total by (metis file_msg_wf(2))
    have "file_at i fileId nd' = file_at i fileId ?nd" using t tell_aside file_at_aside by blast
    then have "\<not> is_open (fl_stream (file_at i fileId nd'))" by (simp add: is_open_def)
    with True step t show ?thesis by (simp add: piece_msgs_def stream_after_def)
  next
    case False
    let ?p = "min (pos + 1024) (length content)"
    let ?nd = "set_file i fileId (at_stream \<lparr>fst_mode = Reading path ?p, fst_fail = False\<rparr>) nd"
    have lt: "pos < length content" using False Suc.prems(1) by (simp add: sending_def)
    obtain nd' where t: "tell ne i (body_msg fileId (take 1024 (drop pos content))) ?nd = Inr nd'"
      using tell_total by (metis file_msg_wf(1))
    have a: "aside nd' = aside ?nd" using t by (rule tell_aside)
    have s: "sending i fileId path content ?p nd'"
      using sending_step [OF Suc.prems(1), of ?p] file_at_aside [OF a] aside_tables(5) [OF a]
      by (simp add: sending_def)
    have some: "transfer nd' i fileId \<noteq> None" using aside_tables(3) [OF a] by (simp add: set_file_def)
    have o: "is_open (fl_stream (file_at i fileId nd'))" using s by (simp add: sending_def is_open_def)
    have rest: "drop ?p content = drop 1024 (drop pos content)"
      by (cases "pos + 1024 \<le> length content") (simp_all add: min_def add.commute)
    have msgs: "piece_msgs f (drop pos content) =
        body_msg f (take 1024 (drop pos content)) # piece_msgs f (drop ?p content)" for f
      using lt piece_msgs_step [of "drop pos content"] by (simp add: rest)
    have after: "stream_after n path content ?p = stream_after (Suc n) path content pos"
      unfolding stream_after_def msgs [of "[]"] by (simp add: min_def)
    let ?st = "stream_after (Suc n) path content pos"
    have "send_pack (Suc n) ne i fileId nd = send_pack n ne i fileId nd'"
      using step False t o by simp
    also have "\<dots> = tell_list ne i (take n (piece_msgs fileId (drop ?p content)))
        (set_file i fileId (at_stream ?st) nd')"
      using Suc.IH [OF s Suc.prems(2) some] by (simp add: after)
    also have "\<dots> = tell_list ne i (take (Suc n) (piece_msgs fileId (drop pos content)))
        (set_file i fileId (at_stream ?st) nd)"
      using t tell_beside [OF beside_set_file, of "body_msg fileId (take 1024 (drop pos content))" ne i
          i fileId "at_stream ?st" ?nd]
      by (simp only: msgs take_Suc_Cons tell_list.simps set_file_fusion file_msg_wf bindR_Inr)
    finally show ?thesis .
  qed
qed


lemma piece_msgs_drop:
  "n < length (piece_msgs fileId s) \<Longrightarrow> drop n (piece_msgs fileId s) = piece_msgs fileId (drop (1024 * n) s)"
proof (induction n arbitrary: s)
  case (Suc n)
  show ?case
  proof (cases "s = []")
    case True
    with Suc.prems show ?thesis by (simp add: piece_msgs_def)
  next
    case False
    with Suc show ?thesis by (simp add: piece_msgs_step add.commute)
  qed
qed simp

lemma length_piece_msgs: "length (piece_msgs fileId s) = Suc ((length s + 1023) div 1024)"
  by (simp add: piece_msgs_def length_chunks)

lemma stream_after_add:
  assumes "n < length (piece_msgs [] (drop pos content))" and "pos \<le> length content"
  shows "stream_after (n + k) path content pos = stream_after k path content (min (pos + 1024 * n) (length content))"
proof -
  let ?p = "min (pos + 1024 * n) (length content)"
  have "drop ?p content = drop (1024 * n) (drop pos content)"
    by (simp add: min_def add.commute)
  with piece_msgs_drop [OF assms(1)] have "length (piece_msgs [] (drop ?p content)) = length (piece_msgs [] (drop pos content)) - n"
    by (metis length_drop)
  with assms(1) show ?thesis by (auto simp: stream_after_def min_def)
qed

section \<open>A run of the file manager\<close>

text \<open>Messages of one session, one after the other.\<close>

fun file_run :: "net_env \<Rightarrow> u16 \<Rightarrow> msg list \<Rightarrow> node \<Rightarrow> node result" where
  "file_run ne i [] nd = Inr nd"
| "file_run ne i (m # ms) nd = bindR (updateFileManager ne m i nd) (file_run ne i ms)"

lemma file_run_append: "file_run ne i (ms @ ms') nd = bindR (file_run ne i ms nd) (file_run ne i ms')"
proof (induction ms arbitrary: nd)
  case (Cons m ms)
  then show ?case by (cases "updateFileManager ne m i nd") simp_all
qed simp

abbreviation ack_msg :: "string \<Rightarrow> msg" where
  "ack_msg fileId \<equiv> file_msg FileBodyRespMsgType fileId"

lemma ack_sends_pack:
  "transfer nd i fileId \<noteq> None \<Longrightarrow> length fileId < 2 ^ 32 \<Longrightarrow>
     updateFileManager ne (ack_msg fileId) i nd = send_pack FILE_PACK_NUM ne i fileId nd"
  by (auto simp: updateFileManager_def on_FileBodyResp_def get_body_msg)

lemma closed_ack:
  assumes "transfer nd i fileId \<noteq> None" "length fileId < 2 ^ 32" "\<not> is_open (fl_stream (file_at i fileId nd))"
  shows "file_run ne i (replicate a (ack_msg fileId)) nd = Inr nd"
proof (induction a)
  case (Suc a)
  have "set_file i fileId id nd = nd"
    using assms(1) by (auto simp: set_file_def file_at_def map_upd_triv)
  then have "nextBodyPiece ne i fileId nd = Inr nd" using assms(3) by (simp add: nextBodyPiece_def)
  then have "send_pack FILE_PACK_NUM ne i fileId nd = Inr nd"
    using assms(3) by (simp add: FILE_PACK_NUM_def numeral_eq_Suc)
  with Suc ack_sends_pack [OF assms(1,2), of ne] show ?case by simp
qed simp

lemma acks_send:
  "sending i fileId path content pos nd \<Longrightarrow> length content < 2 ^ 32 \<Longrightarrow> transfer nd i fileId \<noteq> None \<Longrightarrow>
   length fileId < 2 ^ 32 \<Longrightarrow>
   file_run ne i (replicate a (ack_msg fileId)) nd =
     tell_list ne i (take (128 * a) (piece_msgs fileId (drop pos content)))
       (set_file i fileId (at_stream (stream_after (128 * a) path content pos)) nd)"
proof (induction a arbitrary: pos nd)
  case 0
  then show ?case
    using set_file_same [of nd i fileId] by (simp add: stream_after_def sending_def piece_msgs_def)
next
  case (Suc a)
  let ?msgs = "piece_msgs fileId (drop pos content)"
  let ?S = "\<lambda>k. set_file i fileId (at_stream (stream_after k path content pos))"
  obtain nd1 where t: "tell_list ne i (take 128 ?msgs) (?S 128 nd) = Inr nd1"
    using tell_list_total [of "take 128 ?msgs" ne i "?S 128 nd"] piece_msgs_wf [of fileId "drop pos content"]
    by (metis append_take_drop_id list_all_append)
  have a1: "aside nd1 = aside (?S 128 nd)" using t by (rule tell_list_aside)
  have first: "updateFileManager ne (ack_msg fileId) i nd = Inr nd1"
    using send_pack_sends [OF Suc.prems(1-3), of FILE_PACK_NUM ne] ack_sends_pack [OF Suc.prems(3,4), of ne] t
    by (simp add: FILE_PACK_NUM_def)
  have some: "transfer nd1 i fileId \<noteq> None" using aside_tables(3) [OF a1] by (simp add: set_file_def)
  have st1: "fl_stream (file_at i fileId nd1) = stream_after 128 path content pos"
    using file_at_aside [OF a1] by simp
  have len: "length (piece_msgs f s) = length (piece_msgs [] s)" for f s by (simp add: length_piece_msgs)
  show ?case
  proof (cases "128 < length ?msgs")
    case True
    let ?p = "min (pos + 1024 * 128) (length content)"
    have "sending i fileId path content ?p nd1"
      using Suc.prems(1) file_at_aside [OF a1] aside_tables(5) [OF a1] True len [of fileId]
      by (simp add: sending_def stream_after_def)
    note ih = Suc.IH [OF this Suc.prems(2) some Suc.prems(4)]
    have "drop ?p content = drop (1024 * 128) (drop pos content)" by (simp add: min_def add.commute)
    with piece_msgs_drop [OF True] have msgs: "piece_msgs fileId (drop ?p content) = drop 128 ?msgs" by simp
    have after: "stream_after (128 * a) path content ?p = stream_after (128 * Suc a) path content pos"
      using stream_after_add [of 128 pos content "128 * a" path] True len [of fileId] Suc.prems(1)
      by (simp add: sending_def)
    have "file_run ne i (replicate (Suc a) (ack_msg fileId)) nd = file_run ne i (replicate a (ack_msg fileId)) nd1"
      using first by simp
    also have "\<dots> = tell_list ne i (take (128 * a) (drop 128 ?msgs)) (?S (128 * Suc a) nd1)"
      by (simp only: ih msgs after)
    also have "\<dots> = bindR (tell_list ne i (take 128 ?msgs) (?S (128 * Suc a) nd))
        (tell_list ne i (take (128 * a) (drop 128 ?msgs)))"
      using tell_list_beside [OF beside_set_file, of "take 128 ?msgs" ne i i fileId
          "at_stream (stream_after (128 * Suc a) path content pos)" "?S 128 nd"] t
        piece_msgs_wf [of fileId "drop pos content"]
      by (simp only: set_file_fusion) (metis append_take_drop_id bindR_Inr list_all_append)
    also have "\<dots> = tell_list ne i (take (128 * Suc a) ?msgs) (?S (128 * Suc a) nd)"
      by (simp only: tell_list_append [symmetric] mult_Suc_right take_add)
    finally show ?thesis .
  next
    case False
    then have c: "stream_after k path content pos = \<lparr>fst_mode = Closed, fst_fail = False\<rparr>" if "128 \<le> k" for k
      using that len [of fileId "drop pos content"] by (simp add: stream_after_def)
    have "\<not> is_open (fl_stream (file_at i fileId nd1))" using st1 c [of 128] by (simp add: is_open_def)
    with first closed_ack [OF some Suc.prems(4)] have "file_run ne i (replicate (Suc a) (ack_msg fileId)) nd = Inr nd1"
      by simp
    with t False c [of 128] c [of "128 * Suc a"] show ?thesis by simp
  qed
qed


section \<open>The receiver\<close>

definition receiving :: "u16 \<Rightarrow> string \<Rightarrow> string \<Rightarrow> string \<Rightarrow> node \<Rightarrow> bool" where
  "receiving i fileId path w nd \<longleftrightarrow> transfer nd i fileId \<noteq> None \<and>
     fl_stream (file_at i fileId nd) = \<lparr>fst_mode = Writing path, fst_fail = False\<rparr> \<and>
     node_disk nd path = Some w \<and> unat (currentPackNum nd) < FILE_PACK_NUM"

text \<open>The receiver's node after \<open>k\<close> chunks, with \<open>w\<close> in the piece's file.\<close>

definition received :: "string \<Rightarrow> string \<Rightarrow> nat \<Rightarrow> node \<Rightarrow> node" where
  "received path w k nd =
     (set_disk ((node_disk nd)(path \<mapsto> w)) nd)
       \<lparr>currentPackNum := word_of_nat ((unat (currentPackNum nd) + k) mod FILE_PACK_NUM)\<rparr>"

lemma get_chunk:
  "length c < 2 ^ 32 \<Longrightarrow>
     get_vector char_pod (put_vector char_pod c (new_message t)) = Inr (c, new_message t)"
  by (simp add: get_vector_put_vector [OF char_pod.pod_codec_axioms])

lemma body_received:
  assumes "receiving i fileId path w nd" "length fileId < 2 ^ 32" "length c < 2 ^ 32"
  shows "updateFileManager ne (body_msg fileId c) i nd =
    (if Suc (unat (currentPackNum nd)) = FILE_PACK_NUM
     then tell ne i (ack_msg fileId) (received path (w @ c) 1 nd)
     else Inr (received path (w @ c) 1 nd))"
proof -
  let ?n = "unat (currentPackNum nd)"
  have some: "transfer nd i fileId \<noteq> None" and
    st: "fl_stream (file_at i fileId nd) = \<lparr>fst_mode = Writing path, fst_fail = False\<rparr>" and
    disk: "node_disk nd path = Some w" and n: "?n < FILE_PACK_NUM"
    using assms(1) by (simp_all add: receiving_def)
  have w: "stream_write c \<lparr>fst_mode = Writing path, fst_fail = False\<rparr> (node_disk nd) =
      (\<lparr>fst_mode = Writing path, fst_fail = False\<rparr>, (node_disk nd)(path \<mapsto> w @ c))"
    by (simp add: stream_write_def file_content_def disk)
  have suc: "currentPackNum nd + 1 = word_of_nat (Suc ?n)" by simp
  have eq: "currentPackNum nd + 1 = word_of_nat FILE_PACK_NUM \<longleftrightarrow> Suc ?n = FILE_PACK_NUM"
    unfolding suc using n by (subst word_of_nat_eq_iff) (simp add: FILE_PACK_NUM_def take_bit_nat_eq_self)
  have same: "set_file i fileId (at_stream \<lparr>fst_mode = Writing path, fst_fail = False\<rparr>) (set_disk d nd) =
      set_disk d nd" for d
    using set_file_same [of "set_disk d nd" i fileId] some st by (simp add: set_disk_def file_at_def)
  have open1: "is_open \<lparr>fst_mode = Writing path, fst_fail = False\<rparr>" by (simp add: is_open_def)
  have run: "updateFileManager ne (body_msg fileId c) i nd =
      (let nd' = (set_disk ((node_disk nd)(path \<mapsto> w @ c)) nd)\<lparr>currentPackNum := currentPackNum nd + 1\<rparr>
       in if currentPackNum nd' = word_of_nat FILE_PACK_NUM
          then tell ne i (ack_msg fileId) (nd'\<lparr>currentPackNum := 0\<rparr>) else Inr nd')"
    using assms(2,3) some
    by (elim not_None_eq [THEN iffD1, elim_format] exE)
      (simp add: updateFileManager_def on_FileBody_def get_body_msg get_chunk st open1 w same file_msg_def Let_def)
  show ?thesis
  proof (cases "Suc ?n = FILE_PACK_NUM")
    case True
    then have "received path (w @ c) 1 nd =
        (set_disk ((node_disk nd)(path \<mapsto> w @ c)) nd)\<lparr>currentPackNum := 0\<rparr>"
      by (simp add: received_def)
    with True show ?thesis using eq by (simp add: run Let_def)
  next
    case False
    with n have "(?n + 1) mod FILE_PACK_NUM = Suc ?n" by simp
    then have "received path (w @ c) 1 nd =
        (set_disk ((node_disk nd)(path \<mapsto> w @ c)) nd)\<lparr>currentPackNum := currentPackNum nd + 1\<rparr>"
      by (simp add: received_def)
    with False show ?thesis using eq by (simp add: run Let_def)
  qed
qed

lemma received_receiving:
  "receiving i fileId path w nd \<Longrightarrow> receiving i fileId path v (received path v k nd)"
  by (simp add: receiving_def received_def set_disk_def file_at_def FILE_PACK_NUM_def unat_of_nat)

lemma beside_received [simp]: "beside (received path v k)"
  by (simp add: beside_def received_def set_disk_def set_session_def disconnectClient_def split: option.split)

lemma receiving_aside: "aside nd' = aside nd \<Longrightarrow> receiving i fileId path w nd' = receiving i fileId path w nd"
  using aside_tables [of nd' nd] by (simp add: receiving_def file_at_def)

lemma bodies_received:
  "receiving i fileId path w nd \<Longrightarrow> length fileId < 2 ^ 32 \<Longrightarrow> \<forall>c \<in> set cs. length c < 2 ^ 32 \<Longrightarrow>
   file_run ne i (map (body_msg fileId) cs) nd =
     tell_list ne i (replicate ((unat (currentPackNum nd) + length cs) div FILE_PACK_NUM) (ack_msg fileId))
       (received path (w @ concat cs) (length cs) nd)"
proof (induction cs arbitrary: w nd)
  case Nil
  then have "(node_disk nd)(path \<mapsto> w) = node_disk nd" "unat (currentPackNum nd) div FILE_PACK_NUM = 0"
    "unat (currentPackNum nd) mod FILE_PACK_NUM = unat (currentPackNum nd)"
    by (auto simp: receiving_def map_upd_triv)
  then show ?case by (simp add: received_def set_disk_def)
next
  case (Cons c cs)
  let ?n = "unat (currentPackNum nd)"
  let ?nd = "received path (w @ c) 1 nd"
  have r: "receiving i fileId path (w @ c) ?nd" using Cons.prems(1) by (rule received_receiving)
  have n: "?n < FILE_PACK_NUM" using Cons.prems(1) by (simp add: receiving_def)
  have m: "unat (currentPackNum ?nd) = Suc ?n mod FILE_PACK_NUM"
    by (simp add: received_def FILE_PACK_NUM_def unat_of_nat)
  have fuse: "received path v k ?nd = received path v (Suc k) nd" for v k
    unfolding received_def [of path v k] m
    by (simp add: received_def set_disk_def mod_simps)
  let ?v = "w @ c @ concat cs" and ?k = "length cs"
  have cs: "\<forall>c \<in> set cs. length c < 2 ^ 32" using Cons.prems(3) by simp
  note upd = body_received [OF Cons.prems(1,2), of c ne]
  show ?case
  proof (cases "Suc ?n = FILE_PACK_NUM")
    case True
    obtain nd1 where t: "tell ne i (ack_msg fileId) ?nd = Inr nd1"
      using tell_total by (metis file_msg_wf(2))
    have a: "aside nd1 = aside ?nd" using t by (rule tell_aside)
    have q: "unat (currentPackNum nd1) = 0" using m True aside_tables(8) [OF a] by simp
    have "file_run ne i (map (body_msg fileId) (c # cs)) nd = file_run ne i (map (body_msg fileId) cs) nd1"
      using upd Cons.prems(3) True t by simp
    also have "\<dots> = tell_list ne i (replicate (?k div FILE_PACK_NUM) (ack_msg fileId)) (received path ?v ?k nd1)"
      using Cons.IH [of "w @ c" nd1] r receiving_aside [OF a] Cons.prems(2) cs q by simp
    also have "\<dots> = tell_list ne i (replicate (Suc (?k div FILE_PACK_NUM)) (ack_msg fileId)) (received path ?v ?k ?nd)"
      using tell_beside [OF beside_received, of "ack_msg fileId" ne i path ?v ?k ?nd] t by simp
    also have "Suc (?k div FILE_PACK_NUM) = (?n + length (c # cs)) div FILE_PACK_NUM"
      using True by (simp add: FILE_PACK_NUM_def)
    finally show ?thesis unfolding fuse by simp
  next
    case False
    with n have mod: "Suc ?n mod FILE_PACK_NUM = Suc ?n" by simp
    have "file_run ne i (map (body_msg fileId) (c # cs)) nd = file_run ne i (map (body_msg fileId) cs) ?nd"
      using upd Cons.prems(3) False by simp
    also have "\<dots> = tell_list ne i (replicate ((Suc ?n + ?k) div FILE_PACK_NUM) (ack_msg fileId)) (received path ?v ?k ?nd)"
      using Cons.IH [OF r Cons.prems(2) cs] m mod by simp
    finally show ?thesis unfolding fuse by simp
  qed
qed


section \<open>One piece, both ends\<close>

lemma unat_ucast_u16: "unat (ucast (n :: u16) :: u64) = unat n"
  by (rule word_of_nat_unat_less [where 'a = 64, of "unat n", simplified])
    (rule less_trans [OF unsigned_less [of n]], simp)

lemma length_chunk: "c \<in> set (chunks s) \<Longrightarrow> length c \<le> 1024"
proof (induction s rule: chunks.induct)
  case (1 s)
  then show ?case by (cases "s = []") (auto simp: chunks.simps [of s])
qed

lemma request_starts:
  assumes "transfer nd i fileId = Some f" "\<not> is_open (fl_stream f)" "checkFile (m_fileSystem nd) fileId"
    "node_disk nd (getPath fileId (ucast n)) = Some content" "length fileId < 2 ^ 32"
  shows "updateFileManager ne (request_msg fileId n) i nd =
     send_pack FILE_PACK_NUM ne i fileId
       (set_file i fileId (\<lambda>f. f\<lparr>fl_fileSize := word_of_nat (length content),
          fl_stream := \<lparr>fst_mode = Reading (getPath fileId (ucast n)) 0, fst_fail = False\<rparr>\<rparr>) nd)"
proof -
  have f: "file_at i fileId nd = f" using assms(1) by (simp add: file_at_def)
  have o: "open_reading (getPath fileId (ucast n)) (fl_stream f) (node_disk nd) =
      \<lparr>fst_mode = Reading (getPath fileId (ucast n)) 0, fst_fail = False\<rparr>"
    using assms(2,4) by (simp add: open_reading_def)
  show ?thesis
    using assms(1,3,4,5)
    by (simp add: updateFileManager_def on_FileRequest_def get_body_msg Let_def)
      (simp add: set_file_def f o)
qed

text \<open>A node that has the file \<open>f\<close> of one piece, and one that is about to receive that piece.\<close>

definition sample_piece :: "piece_state \<Rightarrow> piece_info" where
  "sample_piece st = \<lparr>pi_state = st, pi_size = 3, pi_sha1 = sha1_standard ''abc'', pi_lastTime = 0\<rparr>"

definition sample_fs :: "piece_state \<Rightarrow> string \<Rightarrow> file_system" where
  "sample_fs st content =
     \<lparr>fs_filesPath = ''d'', fs_filesInfo = [''f'' \<mapsto> \<lparr>fi_fileName = ''n'', fi_fileId = ''f'', fi_pieces = [sample_piece st]\<rparr>],
      fs_disk = [getPath ''f'' 0 \<mapsto> content]\<rparr>"

definition sample_sender :: node where
  "sample_sender = sample_node\<lparr>m_filesMap := [(1002, ''f'') \<mapsto> new_file_struct],
     m_fileSystem := sample_fs PHave ''abc''\<rparr>"

definition sample_receiver :: node where
  "sample_receiver = sample_node\<lparr>m_filesMap := [(1002, ''f'') \<mapsto>
       \<lparr>fl_stream = \<lparr>fst_mode = Writing (getPath ''f'' 0), fst_fail = False\<rparr>, fl_pieceNum = 0, fl_fileSize = 0\<rparr>],
     m_fileSystem := sample_fs POpen []\<rparr>"

lemma sample_sender_simps:
  "transfer sample_sender 1002 ''f'' = Some new_file_struct" "\<not> is_open (fl_stream new_file_struct)"
  "checkFile (m_fileSystem sample_sender) ''f''" "node_disk sample_sender (getPath ''f'' (ucast (0 :: u16))) = Some ''abc''"
  "length ''f'' < 2 ^ 32" "length ''abc'' < 2 ^ 32"
  by (simp_all add: sample_sender_def sample_fs_def sample_piece_def checkFile_def is_open_def new_file_struct_def)

lemma chunks_abc: "chunks ''abc'' = [''abc'']"
  by (simp add: chunks.simps)

lemma set_file_start:
  "set_file i fileId (at_stream st) (set_file i fileId (\<lambda>f. f\<lparr>fl_fileSize := s, fl_stream := x\<rparr>) nd) =
   set_file i fileId (\<lambda>f. f\<lparr>fl_fileSize := s, fl_stream := st\<rparr>) nd"
  by (simp add: set_file_def file_at_def)

text \<open>
  C4. Sending a piece. Asked for a piece of a file it has, the sender puts on the wire, with
  the first 128 messages at once and 128 more at each acknowledgement, exactly the chunks of
  the piece in order, then the end message, then nothing: its stream is closed.
\<close>

theorem piece_sent:
  "\<lbrakk>transfer nd i fileId = Some f; \<not> is_open (fl_stream f); checkFile (m_fileSystem nd) fileId;
    node_disk nd (getPath fileId (ucast n)) = Some content; length fileId < 2 ^ 32;
    length content < 2 ^ 32\<rbrakk> \<Longrightarrow>
   file_run ne i (request_msg fileId n # replicate a (ack_msg fileId)) nd =
     tell_list ne i (take (128 * Suc a) (map (body_msg fileId) (chunks content) @ [file_msg FileEndMsgType fileId]))
       (set_file i fileId (\<lambda>f. f\<lparr>fl_fileSize := word_of_nat (length content),
          fl_stream := (if 128 * Suc a \<le> length (chunks content)
             then \<lparr>fst_mode = Reading (getPath fileId (ucast n)) (min (1024 * (128 * Suc a)) (length content)),
                   fst_fail = False\<rparr>
             else \<lparr>fst_mode = Closed, fst_fail = False\<rparr>)\<rparr>) nd)"
proof -
  assume f: "transfer nd i fileId = Some f" "\<not> is_open (fl_stream f)" "checkFile (m_fileSystem nd) fileId"
    "node_disk nd (getPath fileId (ucast n)) = Some content" "length fileId < 2 ^ 32"
    and len: "length content < 2 ^ 32"
  let ?path = "getPath fileId (ucast n)"
  let ?nd = "set_file i fileId (\<lambda>f. f\<lparr>fl_fileSize := word_of_nat (length content),
      fl_stream := \<lparr>fst_mode = Reading ?path 0, fst_fail = False\<rparr>\<rparr>) nd"
  have some: "transfer ?nd i fileId \<noteq> None" by (simp add: set_file_def)
  have s: "sending i fileId ?path content 0 ?nd" using f(4) by (simp add: sending_def)
  have "file_run ne i (request_msg fileId n # replicate a (ack_msg fileId)) nd =
      file_run ne i (replicate (Suc a) (ack_msg fileId)) ?nd"
    by (simp add: request_starts [OF f] ack_sends_pack [OF some f(5)])
  also have "\<dots> = tell_list ne i (take (128 * Suc a) (piece_msgs fileId content))
      (set_file i fileId (at_stream (stream_after (128 * Suc a) ?path content 0)) ?nd)"
    using acks_send [OF s len some f(5), of ne "Suc a"] by (simp only: drop_0)
  also have "stream_after (128 * Suc a) ?path content 0 =
      (if 128 * Suc a \<le> length (chunks content)
       then \<lparr>fst_mode = Reading ?path (min (1024 * (128 * Suc a)) (length content)), fst_fail = False\<rparr>
       else \<lparr>fst_mode = Closed, fst_fail = False\<rparr>)"
    by (simp add: stream_after_def piece_msgs_def less_Suc_eq_le)
  finally show ?thesis unfolding set_file_start piece_msgs_def .
qed

lemma piece_sent_witness:
  "file_run sample_net 1002 [request_msg ''f'' 0] sample_sender =
     tell_list sample_net 1002 [body_msg ''f'' ''abc'', file_msg FileEndMsgType ''f'']
       (set_file 1002 ''f'' (\<lambda>f. f\<lparr>fl_fileSize := 3, fl_stream := \<lparr>fst_mode = Closed, fst_fail = False\<rparr>\<rparr>) sample_sender)"
  using piece_sent [OF sample_sender_simps, of sample_net 0] by (simp add: chunks_abc)

text \<open>
  C3. Receiving a piece. The receiver that has opened the piece's file writes the chunks one
  after the other and acknowledges every 128th. The file then holds the piece, bit for bit; the
  acknowledgements are as many as the sender needs to go on to the end message; and when the
  end message comes, a piece of the listed size and digest is marked as had before the next
  one is asked for.
\<close>

theorem piece_received:
  "\<lbrakk>transfer nd i fileId = Some f; path = getPath fileId (ucast (fl_pieceNum f));
    fl_stream f = \<lparr>fst_mode = Writing path, fst_fail = False\<rparr>; node_disk nd path = Some [];
    unat (currentPackNum nd) < FILE_PACK_NUM; length fileId < 2 ^ 32;
    fs_filesInfo (m_fileSystem nd) fileId = Some info; fi_fileId info = fileId;
    unat (fl_pieceNum f) < length (fi_pieces info); piece = fi_pieces info ! unat (fl_pieceNum f);
    pi_size piece = word_of_nat (length content);
    pi_sha1 piece = sha1_standard content\<rbrakk> \<Longrightarrow>
   (let acks = (unat (currentPackNum nd) + length (chunks content)) div FILE_PACK_NUM in
     file_run ne i (map (body_msg fileId) (chunks content)) nd =
       tell_list ne i (replicate acks (ack_msg fileId)) (received path content (length (chunks content)) nd) \<and>
     length (chunks content @ [[]]) \<le> 128 * Suc acks) \<and>
   (\<exists>nd2 nd3 info'.
     file_run ne i (map (body_msg fileId) (chunks content)) nd = Inr nd2 \<and>
     node_disk nd2 = (node_disk nd)(path \<mapsto> content) \<and>
     updateFileManager ne (file_msg FileEndMsgType fileId) i nd2 = requestNextPiece ne i fileId nd3 \<and>
     fs_filesInfo (m_fileSystem nd3) fileId = Some info' \<and>
     pi_state (fi_pieces info' ! unat (fl_pieceNum f)) = PHave)"
proof -
  assume f: "transfer nd i fileId = Some f" "path = getPath fileId (ucast (fl_pieceNum f))"
      "fl_stream f = \<lparr>fst_mode = Writing path, fst_fail = False\<rparr>" "node_disk nd path = Some []"
      "unat (currentPackNum nd) < FILE_PACK_NUM" and id: "length fileId < 2 ^ 32"
    and info: "fs_filesInfo (m_fileSystem nd) fileId = Some info" "fi_fileId info = fileId"
      "unat (fl_pieceNum f) < length (fi_pieces info)" "piece = fi_pieces info ! unat (fl_pieceNum f)"
      "pi_size piece = word_of_nat (length content)" "pi_sha1 piece = sha1_standard content"
  let ?k = "length (chunks content)" and ?n = "fl_pieceNum f"
  let ?acks = "(unat (currentPackNum nd) + ?k) div FILE_PACK_NUM"
  let ?nd1 = "received path content ?k nd"
  have fa: "file_at i fileId nd = f" using f(1) by (simp add: file_at_def)
  have r: "receiving i fileId path [] nd" using f fa by (simp add: receiving_def)
  have "\<forall>c \<in> set (chunks content). length c < 2 ^ 32"
    using length_chunk [of _ content] by fastforce
  from bodies_received [OF r id this, of ne] have run:
    "file_run ne i (map (body_msg fileId) (chunks content)) nd =
       tell_list ne i (replicate ?acks (ack_msg fileId)) ?nd1" by simp
  obtain nd2 where nd2: "tell_list ne i (replicate ?acks (ack_msg fileId)) ?nd1 = Inr nd2"
    using tell_list_total [of "replicate ?acks (ack_msg fileId)" ne i ?nd1] by (auto simp: list_all_iff)
  have a: "aside nd2 = aside ?nd1" using nd2 by (rule tell_list_aside)
  have fs: "m_fileSystem nd2 = (m_fileSystem nd)\<lparr>fs_disk := (node_disk nd)(path \<mapsto> content)\<rparr>"
    using aside_tables(5) [OF a] by (simp add: received_def)
  have tr: "transfer nd2 i fileId = Some f"
    using aside_tables(3) [OF a] f(1) by (simp add: received_def set_disk_def)
  then have fa2: "file_at i fileId nd2 = f" by (simp add: file_at_def)
  define nd3 where "nd3 = (set_file i fileId (\<lambda>f. f\<lparr>fl_stream := close_stream (fl_stream f)\<rparr>) nd2)
      \<lparr>m_fileSystem := addPiece (m_fileSystem nd2) fileId (ucast ?n)\<rparr>"
  have fin: "updateFileManager ne (file_msg FileEndMsgType fileId) i nd2 = requestNextPiece ne i fileId nd3"
    using tr id fa2 by (simp add: updateFileManager_def on_FileEnd_def get_body_msg nd3_def Let_def)
  have u: "unat (ucast ?n :: u64) = unat ?n"
    by (rule unat_ucast_u16)
  have chk: "checkPiece (m_fileSystem nd2) info (ucast ?n)"
    using info f(2) u by (simp add: checkPiece_def fs getPath_def from_file_standard Let_def)
  obtain info' where "fs_filesInfo (m_fileSystem nd3) fileId = Some info'" "pi_state (fi_pieces info' ! unat ?n) = PHave"
    using info(1,3) chk u
    by (auto simp: nd3_def addPiece_def fs Let_def mergePieces_def)
  moreover have "file_run ne i (map (body_msg fileId) (chunks content)) nd = Inr nd2" using run nd2 by simp
  moreover have "node_disk nd2 = (node_disk nd)(path \<mapsto> content)" using fs by simp
  moreover have "length (chunks content @ [[]]) \<le> 128 * Suc ?acks" by (simp add: FILE_PACK_NUM_def)
  ultimately show ?thesis
    unfolding Let_def using run fin
    by (intro conjI exI [of _ nd2] exI [of _ nd3] exI [of _ info'])
qed

lemma piece_received_witness:
  "\<exists>nd2 nd3 info. file_run sample_net 1002 [body_msg ''f'' ''abc''] sample_receiver = Inr nd2 \<and>
     updateFileManager sample_net (file_msg FileEndMsgType ''f'') 1002 nd2 = requestNextPiece sample_net 1002 ''f'' nd3 \<and>
     fs_filesInfo (m_fileSystem nd3) ''f'' = Some info \<and> pi_state (fi_pieces info ! 0) = PHave"
proof -
  let ?f = "\<lparr>fl_stream = \<lparr>fst_mode = Writing (getPath ''f'' 0), fst_fail = False\<rparr>, fl_pieceNum = 0, fl_fileSize = 0\<rparr>"
  let ?info = "\<lparr>fi_fileName = ''n'', fi_fileId = ''f'', fi_pieces = [sample_piece POpen]\<rparr>"
  have "transfer sample_receiver 1002 ''f'' = Some ?f" "node_disk sample_receiver (getPath ''f'' 0) = Some []"
    "unat (currentPackNum sample_receiver) < FILE_PACK_NUM"
    "fs_filesInfo (m_fileSystem sample_receiver) ''f'' = Some ?info"
    by (simp_all add: sample_receiver_def sample_fs_def sample_node_def new_node_def server.defs set_cm_def FILE_PACK_NUM_def)
  moreover have "''f'' = fi_fileId ?info" "sample_piece POpen = fi_pieces ?info ! unat (fl_pieceNum ?f)"
    by simp_all
  ultimately have "\<exists>nd2 nd3 info. file_run sample_net 1002 (map (body_msg ''f'') (chunks ''abc'')) sample_receiver = Inr nd2 \<and>
      node_disk nd2 = (node_disk sample_receiver)(getPath ''f'' 0 \<mapsto> ''abc'') \<and>
      updateFileManager sample_net (file_msg FileEndMsgType ''f'') 1002 nd2 = requestNextPiece sample_net 1002 ''f'' nd3 \<and>
      fs_filesInfo (m_fileSystem nd3) ''f'' = Some info \<and> pi_state (fi_pieces info ! unat (fl_pieceNum ?f)) = PHave"
    by (intro piece_received [where f = ?f and info = ?info and piece = "sample_piece POpen", THEN conjunct2])
      (simp_all add: sample_piece_def)
  then show ?thesis by (simp only: chunks_abc list.map file_struct.simps unsigned_0) blast
qed

section \<open>Where transfers go wrong\<close>

text \<open>
  A request for a piece that does not exist ends the program: the number comes from the
  peer, is not compared with the number of pieces, and \<open>file_size\<close> throws.
\<close>

theorem missing_piece_crash:
  "\<lbrakk>transfer nd i fileId \<noteq> None; checkFile (m_fileSystem nd) fileId; length fileId < 2 ^ 32;
    node_disk nd (getPath fileId (ucast n)) = None\<rbrakk> \<Longrightarrow>
   updateFileManager ne (request_msg fileId n) i nd = Inl UncaughtException"
  by (auto simp: updateFileManager_def on_FileRequest_def get_body_msg)

lemma missing_piece_crash_witness:
  "updateFileManager sample_net (request_msg ''f'' 1) 1002 sample_sender = Inl UncaughtException"
proof (rule missing_piece_crash)
  have "getPath ''f'' 1 \<noteq> getPath ''f'' 0" by (simp add: getPath_def)
  then show "node_disk sample_sender (getPath ''f'' (ucast (1 :: u16))) = None"
    by (simp add: sample_sender_def sample_fs_def)
qed (use sample_sender_simps in simp_all)

definition failed_sending :: "u16 \<Rightarrow> string \<Rightarrow> nat \<Rightarrow> node \<Rightarrow> bool" where
  "failed_sending i fileId n nd \<longleftrightarrow> transfer nd i fileId \<noteq> None \<and> is_open (fl_stream (file_at i fileId nd)) \<and>
     fst_fail (fl_stream (file_at i fileId nd)) \<and> fl_fileSize (file_at i fileId nd) = word_of_nat n"

abbreviation zero_msg :: "string \<Rightarrow> nat \<Rightarrow> msg" where
  "zero_msg fileId n \<equiv> body_msg fileId (replicate (min (Suc n) 1024) (CHR 0x00))"

lemma failed_step:
  assumes "failed_sending i fileId n nd" and "Suc n < 2 ^ 32"
  shows "nextBodyPiece ne i fileId nd = tell ne i (zero_msg fileId n) nd"
proof -
  let ?f = "file_at i fileId nd"
  have s: "is_open (fl_stream ?f)" "fst_fail (fl_stream ?f)" "fl_fileSize ?f = word_of_nat n"
    "transfer nd i fileId \<noteq> None"
    using assms(1) by (simp_all add: failed_sending_def)
  have u: "unat (word_of_nat (Suc n) :: u32) = Suc n"
    using assms(2) by (intro word_of_nat_unat_less) simp
  have left: "ucast (fl_fileSize ?f - stream_tellg (fl_stream ?f) (node_disk nd)) = (word_of_nat (Suc n) :: u32)"
  proof -
    have "(word_of_nat n - (- 1) :: u64) = word_of_nat (Suc n)" by simp
    moreover have "ucast (word_of_nat (Suc n) :: u64) = (word_of_nat (Suc n) :: u32)"
      using assms(2) by (simp del: of_nat_Suc add: unsigned_of_nat take_bit_nat_eq_self)
    ultimately show ?thesis using s by (simp only: stream_tellg_def if_True)
  qed
  have nz: "(word_of_nat (Suc n) :: u32) \<noteq> 0" using u by (metis nat.distinct(1) unat_0)
  have m: "unat (min (word_of_nat (Suc n)) FILE_CHUNK_SIZE) = min (Suc n) 1024"
    using u by (simp only: min_def FILE_CHUNK_SIZE_def word_le_nat_alt) simp
  have rd: "stream_read k (fl_stream ?f) (node_disk nd) = (replicate k (CHR 0x00), fl_stream ?f)" for k
    using s(2) by (simp add: stream_read_def)
  show ?thesis
    using s(1) nz set_file_same [OF s(4)]
    by (simp only: nextBodyPiece_def Let_def left m rd simp_thms if_False prod.case body_msg_def)
qed

lemma failed_aside: "aside nd' = aside nd \<Longrightarrow> failed_sending i fileId n nd' = failed_sending i fileId n nd"
  using aside_tables(3) [of nd' nd] by (simp add: failed_sending_def file_at_def)

lemma failed_pack:
  "failed_sending i fileId n nd \<Longrightarrow> Suc n < 2 ^ 32 \<Longrightarrow>
     send_pack k ne i fileId nd = tell_list ne i (replicate k (zero_msg fileId n)) nd"
proof (induction k arbitrary: nd)
  case (Suc k)
  obtain nd1 where t: "tell ne i (zero_msg fileId n) nd = Inr nd1" using tell_total by (metis file_msg_wf(1))
  then have f: "failed_sending i fileId n nd1" using failed_aside [OF tell_aside] Suc.prems(1) by blast
  then have "is_open (fl_stream (file_at i fileId nd1))" by (simp add: failed_sending_def)
  with Suc.IH [OF f Suc.prems(2)] failed_step [OF Suc.prems, of ne] t show ?case by simp
qed simp

lemma failed_acks:
  "failed_sending i fileId n nd \<Longrightarrow> Suc n < 2 ^ 32 \<Longrightarrow> length fileId < 2 ^ 32 \<Longrightarrow>
     file_run ne i (replicate a (ack_msg fileId)) nd =
     tell_list ne i (replicate (128 * a) (zero_msg fileId n)) nd"
proof (induction a arbitrary: nd)
  case (Suc a)
  have tr: "transfer nd i fileId \<noteq> None" using Suc.prems(1) by (simp add: failed_sending_def)
  obtain nd1 where t: "tell_list ne i (replicate 128 (zero_msg fileId n)) nd = Inr nd1"
    using tell_list_total [of "replicate 128 (zero_msg fileId n)" ne i nd] by (auto simp: list_all_iff)
  then have f: "failed_sending i fileId n nd1" using failed_aside [OF tell_list_aside] Suc.prems(1) by blast
  have "updateFileManager ne (ack_msg fileId) i nd = Inr nd1"
    using ack_sends_pack [OF tr Suc.prems(3), of ne] failed_pack [OF Suc.prems(1,2), of FILE_PACK_NUM ne] t
    by (simp only: FILE_PACK_NUM_def)
  then have "file_run ne i (replicate (Suc a) (ack_msg fileId)) nd =
      tell_list ne i (replicate (128 * a) (zero_msg fileId n)) nd1"
    using Suc.IH [OF f Suc.prems(2,3)] by simp
  also have "\<dots> = tell_list ne i (replicate 128 (zero_msg fileId n) @ replicate (128 * a) (zero_msg fileId n)) nd"
    by (simp only: tell_list_append t bindR_Inr)
  finally show ?case by (simp only: replicate_add [symmetric] mult_Suc_right)
qed simp

text \<open>
  C19. Overlapping requests. A second request on the same transfer while a piece is being
  sent opens an open stream, which only makes it fail; from then on the sender answers this
  request and every acknowledgement with 128 chunks of zero bytes, for ever: it sends
  no byte of either piece and no end message.
\<close>

theorem overlapping_request_sends_zeros:
  "\<lbrakk>transfer nd i fileId = Some f; is_open (fl_stream f); checkFile (m_fileSystem nd) fileId;
    node_disk nd (getPath fileId (ucast n)) = Some content; length fileId < 2 ^ 32;
    Suc (length content) < 2 ^ 32\<rbrakk> \<Longrightarrow>
   file_run ne i (request_msg fileId n # replicate a (ack_msg fileId)) nd =
     tell_list ne i (replicate (128 * Suc a) (body_msg fileId (replicate (min (Suc (length content)) 1024) (CHR 0x00))))
       (set_file i fileId (\<lambda>f. f\<lparr>fl_fileSize := word_of_nat (length content),
          fl_stream := (fl_stream f)\<lparr>fst_fail := True\<rparr>\<rparr>) nd)"
proof -
  assume f: "transfer nd i fileId = Some f" "is_open (fl_stream f)" "checkFile (m_fileSystem nd) fileId"
    "node_disk nd (getPath fileId (ucast n)) = Some content" "length fileId < 2 ^ 32"
    and len: "Suc (length content) < 2 ^ 32"
  let ?nd = "set_file i fileId (\<lambda>f. f\<lparr>fl_fileSize := word_of_nat (length content),
      fl_stream := (fl_stream f)\<lparr>fst_fail := True\<rparr>\<rparr>) nd"
  have fa: "file_at i fileId nd = f" using f(1) by (simp add: file_at_def)
  have s: "failed_sending i fileId (length content) ?nd"
    using f(2) fa by (simp add: failed_sending_def is_open_def) (simp add: set_file_def)
  have tr: "transfer ?nd i fileId \<noteq> None" by (simp add: set_file_def)
  have o: "open_reading p (fl_stream f) d = (fl_stream f)\<lparr>fst_fail := True\<rparr>" for p d
    using f(2) by (simp add: open_reading_def)
  have "updateFileManager ne (request_msg fileId n) i nd = send_pack FILE_PACK_NUM ne i fileId ?nd"
    using f(1,3,4,5)
    by (simp add: updateFileManager_def on_FileRequest_def get_body_msg Let_def) (simp add: set_file_def fa o)
  then have "file_run ne i (request_msg fileId n # replicate a (ack_msg fileId)) nd =
      file_run ne i (replicate (Suc a) (ack_msg fileId)) ?nd"
    by (simp add: ack_sends_pack [OF tr f(5)])
  with failed_acks [OF s len f(5), of ne "Suc a"] show ?thesis by (simp only:)
qed

lemma overlapping_request_sends_zeros_witness:
  "file_run sample_net 1002 [request_msg ''f'' 0, ack_msg ''f'']
      (set_file 1002 ''f'' (at_stream \<lparr>fst_mode = Reading (getPath ''f'' 0) 0, fst_fail = False\<rparr>) sample_sender) =
     tell_list sample_net 1002 (replicate 256 (body_msg ''f'' [CHR 0x00, CHR 0x00, CHR 0x00, CHR 0x00]))
       (set_file 1002 ''f'' (\<lambda>f. f\<lparr>fl_fileSize := 3, fl_stream :=
          \<lparr>fst_mode = Reading (getPath ''f'' 0) 0, fst_fail = True\<rparr>\<rparr>) sample_sender)"
proof -
  let ?st = "\<lparr>fst_mode = Reading (getPath ''f'' 0) 0, fst_fail = False\<rparr>"
  let ?nd = "set_file 1002 ''f'' (at_stream ?st) sample_sender"
  have "transfer ?nd 1002 ''f'' = Some (new_file_struct\<lparr>fl_stream := ?st\<rparr>)"
    by (simp add: set_file_def file_at_def sample_sender_simps)
  moreover have "checkFile (m_fileSystem ?nd) ''f''" "node_disk ?nd (getPath ''f'' (ucast (0 :: u16))) = Some ''abc''"
    using sample_sender_simps(3) by (simp_all add: sample_sender_def sample_fs_def)
  moreover have "is_open (fl_stream (new_file_struct\<lparr>fl_stream := ?st\<rparr>))" by (simp add: is_open_def)
  ultimately show ?thesis
    using overlapping_request_sends_zeros [of ?nd 1002 "''f''" "new_file_struct\<lparr>fl_stream := ?st\<rparr>" 0 "''abc''"
        sample_net 1]
    by simp
qed


text \<open>Messages of several sessions, one after the other.\<close>

fun files_run :: "net_env \<Rightarrow> (u16 \<times> msg) list \<Rightarrow> node \<Rightarrow> node result" where
  "files_run ne [] nd = Inr nd"
| "files_run ne ((i, m) # ms) nd = bindR (updateFileManager ne m i nd) (files_run ne ms)"

fun alternating :: "u16 \<Rightarrow> string \<Rightarrow> u16 \<Rightarrow> string \<Rightarrow> (string \<times> string) list \<Rightarrow> (u16 \<times> msg) list" where
  "alternating i f j g [] = []"
| "alternating i f j g ((c, d) # cds) = (i, body_msg f c) # (j, body_msg g d) # alternating i f j g cds"

lemma receiving_other:
  assumes "receiving i f p w nd" and "p \<noteq> q"
  shows "receiving i f p w (received q v k nd)"
proof -
  have "(unat (currentPackNum nd) + k) mod 128 < 2 ^ 16"
    by (rule less_trans [of _ 128]) simp_all
  with assms show ?thesis
    by (simp add: receiving_def received_def set_disk_def file_at_def FILE_PACK_NUM_def word_of_nat_unat_less)
qed

lemma pack_received: "unat (currentPackNum (received path w k nd)) = (unat (currentPackNum nd) + k) mod FILE_PACK_NUM"
proof -
  have "(unat (currentPackNum nd) + k) mod 128 < 2 ^ 16" by (rule less_trans [of _ 128]) simp_all
  then show ?thesis by (simp add: received_def FILE_PACK_NUM_def word_of_nat_unat_less)
qed

lemma alternating_acks:
  "\<lbrakk>receiving i f p w nd; receiving j g q v nd; p \<noteq> q; length f < 2 ^ 32; length g < 2 ^ 32;
    \<forall>(c, d) \<in> set cds. length c < 2 ^ 32 \<and> length d < 2 ^ 32; even (unat (currentPackNum nd))\<rbrakk> \<Longrightarrow>
   \<exists>h. beside h \<and> files_run ne (alternating i f j g cds) nd =
       tell_list ne j (replicate ((unat (currentPackNum nd) + 2 * length cds) div FILE_PACK_NUM) (ack_msg g)) (h nd) \<and>
     receiving i f p (w @ concat (map fst cds)) (h nd) \<and> receiving j g q (v @ concat (map snd cds)) (h nd)"
proof (induction cds arbitrary: w v nd)
  case Nil
  then show ?case by (intro exI [of _ "\<lambda>nd. nd"]) (simp add: receiving_def beside_def)
next
  case (Cons cd cds)
  obtain c d where cd: "cd = (c, d)" by (cases cd)
  let ?n = "unat (currentPackNum nd)"
  let ?nd1 = "received p (w @ c) 1 nd" and ?nd2 = "received q (v @ d) 1 (received p (w @ c) 1 nd)"
  have n: "?n < FILE_PACK_NUM" using Cons.prems(1) by (simp add: receiving_def)
  have ev: "even ?n" using Cons.prems(7) .
  then have odd1: "Suc ?n \<noteq> FILE_PACK_NUM" by (auto simp: FILE_PACK_NUM_def)
  have r1: "receiving i f p (w @ c) ?nd1" "receiving j g q v ?nd1"
    using received_receiving [OF Cons.prems(1)] receiving_other [OF Cons.prems(2)] Cons.prems(3) by auto
  have r2: "receiving i f p (w @ c) ?nd2" "receiving j g q (v @ d) ?nd2"
    using received_receiving [OF r1(2)] receiving_other [OF r1(1)] Cons.prems(3) by auto
  have n1: "unat (currentPackNum ?nd1) = Suc ?n" using n odd1 by (simp add: pack_received)
  have n2: "unat (currentPackNum ?nd2) = Suc (Suc ?n) mod FILE_PACK_NUM" using n1 by (simp add: pack_received)
  have len: "length c < 2 ^ 32" "length d < 2 ^ 32" using Cons.prems(6) cd by auto
  have s1: "updateFileManager ne (body_msg f c) i nd = Inr ?nd1"
    using body_received [OF Cons.prems(1,4) len(1), of ne] odd1 by simp
  have s2: "updateFileManager ne (body_msg g d) j ?nd1 =
      (if Suc (Suc ?n) = FILE_PACK_NUM then tell ne j (ack_msg g) ?nd2 else Inr ?nd2)"
    using body_received [OF r1(2) Cons.prems(5) len(2), of ne] n1 by simp
  have ev2: "even (unat (currentPackNum ?nd2))" 
    unfolding n2 FILE_PACK_NUM_def using ev by (simp add: dvd_mod_iff)
  have rest: "\<forall>(c, d) \<in> set cds. length c < 2 ^ 32 \<and> length d < 2 ^ 32" using Cons.prems(6) by simp
  let ?g = "\<lambda>nd. received q (v @ d) 1 (received p (w @ c) 1 nd)"
  let ?k = "(?n + 2 * length (cd # cds)) div FILE_PACK_NUM"
  have bg: "beside ?g" by (intro beside_comp [OF beside_received beside_received])
  show ?case
  proof (cases "Suc (Suc ?n) = FILE_PACK_NUM")
    case True
    obtain nd3 where t: "tell ne j (ack_msg g) ?nd2 = Inr nd3" using tell_total by (metis file_msg_wf(2))
    have a: "aside nd3 = aside ?nd2" using t by (rule tell_aside)
    have n3: "unat (currentPackNum nd3) = 0" using n2 True aside_tables(8) [OF a] by simp
    from Cons.IH [of "w @ c" nd3 "v @ d"] r2 receiving_aside [OF a] Cons.prems(3-5) rest n3 obtain h where
      h: "beside h" "files_run ne (alternating i f j g cds) nd3 =
          tell_list ne j (replicate (2 * length cds div FILE_PACK_NUM) (ack_msg g)) (h nd3)"
        "receiving i f p ((w @ c) @ concat (map fst cds)) (h nd3)"
        "receiving j g q ((v @ d) @ concat (map snd cds)) (h nd3)"
      by auto
    have th: "tell ne j (ack_msg g) (h ?nd2) = Inr (h nd3)" using tell_beside [OF h(1)] t by simp
    have k: "?k = Suc (2 * length cds div FILE_PACK_NUM)" using True by (simp add: FILE_PACK_NUM_def)
    have "files_run ne (alternating i f j g (cd # cds)) nd = files_run ne (alternating i f j g cds) nd3"
      using s1 s2 True t cd by simp
    also have "\<dots> = tell_list ne j (replicate ?k (ack_msg g)) (h ?nd2)"
      unfolding k h(2) using th by simp
    finally have run: "files_run ne (alternating i f j g (cd # cds)) nd =
        tell_list ne j (replicate ?k (ack_msg g)) (h ?nd2)" .
    show ?thesis
      using run beside_comp [OF h(1) bg] h(3,4) receiving_aside [OF tell_aside [OF th]] cd
      by (intro exI [of _ "\<lambda>nd. h (?g nd)"]) simp
  next
    case False
    with n odd1 n2 have n2': "unat (currentPackNum ?nd2) = Suc (Suc ?n)" by simp
    from Cons.IH [OF r2 Cons.prems(3-5) rest ev2] obtain h where
      h: "beside h" "files_run ne (alternating i f j g cds) ?nd2 =
          tell_list ne j (replicate ((Suc (Suc ?n) + 2 * length cds) div FILE_PACK_NUM) (ack_msg g)) (h ?nd2)"
        "receiving i f p ((w @ c) @ concat (map fst cds)) (h ?nd2)"
        "receiving j g q ((v @ d) @ concat (map snd cds)) (h ?nd2)"
      unfolding n2' by blast
    have "files_run ne (alternating i f j g (cd # cds)) nd = files_run ne (alternating i f j g cds) ?nd2"
      using s1 s2 False cd by simp
    with h beside_comp [OF h(1) bg] cd show ?thesis
      by (intro exI [of _ "\<lambda>nd. h (?g nd)"]) simp
  qed
qed


text \<open>
  Two transfers share one count of chunks. When the chunks of two senders arrive in turn,
  both acknowledgements for their 256 chunks go to the second sender; the first has sent a
  full pack of 128, is told nothing, and so sends nothing more: its transfer has stopped.
\<close>

theorem interleaved_transfers_starve:
  "\<lbrakk>receiving i f p [] nd; receiving j g q [] nd; p \<noteq> q; length f < 2 ^ 32; length g < 2 ^ 32;
    \<forall>(c, d) \<in> set cds. length c < 2 ^ 32 \<and> length d < 2 ^ 32; currentPackNum nd = 0;
    length cds = FILE_PACK_NUM\<rbrakk> \<Longrightarrow>
   \<exists>nd1. files_run ne (alternating i f j g cds) nd = tell_list ne j [ack_msg g, ack_msg g] nd1 \<and>
     m_sessionsMap nd1 = m_sessionsMap nd \<and>
     receiving i f p (concat (map fst cds)) nd1 \<and> receiving j g q (concat (map snd cds)) nd1"
proof -
  assume a: "receiving i f p [] nd" "receiving j g q [] nd" "p \<noteq> q" "length f < 2 ^ 32" "length g < 2 ^ 32"
    "\<forall>(c, d) \<in> set cds. length c < 2 ^ 32 \<and> length d < 2 ^ 32" and
    z: "currentPackNum nd = 0" "length cds = FILE_PACK_NUM"
  have n: "(unat (currentPackNum nd) + 2 * length cds) div FILE_PACK_NUM = 2" "even (unat (currentPackNum nd))"
    using z by (simp_all add: FILE_PACK_NUM_def)
  from alternating_acks [OF a n(2), of ne] obtain h where
    h: "beside h" "files_run ne (alternating i f j g cds) nd = tell_list ne j (replicate 2 (ack_msg g)) (h nd)"
      "receiving i f p (concat (map fst cds)) (h nd)" "receiving j g q (concat (map snd cds)) (h nd)"
    unfolding n(1) by auto
  have "replicate 2 (ack_msg g) = [ack_msg g, ack_msg g]" by (simp add: numeral_2_eq_2)
  with h show ?thesis by (intro exI [of _ "h nd"]) (simp add: beside_def)
qed

definition sample_two :: node where
  "sample_two = sample_node\<lparr>m_filesMap :=
       [(1000, ''f'') \<mapsto> \<lparr>fl_stream = \<lparr>fst_mode = Writing ''p'', fst_fail = False\<rparr>, fl_pieceNum = 0, fl_fileSize = 0\<rparr>,
        (1002, ''g'') \<mapsto> \<lparr>fl_stream = \<lparr>fst_mode = Writing ''q'', fst_fail = False\<rparr>, fl_pieceNum = 0, fl_fileSize = 0\<rparr>],
     m_fileSystem := (m_fileSystem sample_node)\<lparr>fs_disk := [''p'' \<mapsto> [], ''q'' \<mapsto> []]\<rparr>\<rparr>"

lemma interleaved_transfers_starve_witness:
  "\<exists>nd1. files_run sample_net (alternating 1000 ''f'' 1002 ''g'' (replicate 128 (''a'', ''b''))) sample_two =
     tell_list sample_net 1002 [ack_msg ''g'', ack_msg ''g''] nd1 \<and> m_sessionsMap nd1 = m_sessionsMap sample_two"
proof -
  have n: "currentPackNum sample_two = 0"
    by (simp add: sample_two_def sample_node_def new_node_def server.defs set_cm_def)
  then have "receiving 1000 ''f'' ''p'' [] sample_two" "receiving 1002 ''g'' ''q'' [] sample_two"
    by (simp_all add: receiving_def file_at_def FILE_PACK_NUM_def) (simp_all add: sample_two_def)
  from interleaved_transfers_starve [OF this, of "replicate 128 (''a'', ''b'')" sample_net] n show ?thesis
    by (auto simp: FILE_PACK_NUM_def)
qed

end
