(* ===== verification/Path_Manager.thy ===== *)
theory Path_Manager
  imports File_Transfer
begin

text \<open>
  The path manager of \<open>NodeServer\<close>: the search for a file. A request is flooded through the
  network; each node remembers from which session it came, so that the answers of nodes that
  have the file find their way back, and the addresses for the transfer the way out again.
\<close>

section \<open>Operations\<close>

definition checkPathManager :: "msg \<Rightarrow> bool" where
  "checkPathManager m \<longleftrightarrow> getId m = PathRequestPushMsgType \<or> getId m = PathResponsePullMsgType \<or>
     getId m = PathAddressPushMsgType"

definition checkTarget :: "string \<Rightarrow> node \<Rightarrow> bool" where
  "checkTarget fileId nd = checkFile (m_fileSystem nd) fileId"

fun getRandomString :: "nat \<Rightarrow> node \<Rightarrow> string \<times> node" where
  "getRandomString 0 nd = ([], nd)"
| "getRandomString (Suc n) nd =
     (let c = ''0123456789abcdef'' ! (unat (rnd_draws nd (rnd_pos nd)) mod 16) in
      case getRandomString n (nd\<lparr>rnd_pos := rnd_pos nd + 1\<rparr>) of (cs, nd) \<Rightarrow> (c # cs, nd))"

text \<open>The entry \<open>m_requestsMap[id]\<close>, made when there is none.\<close>

definition request_at :: "string \<Rightarrow> node \<Rightarrow> request" where
  "request_at r nd = (case m_requestsMap nd r of None \<Rightarrow> new_request | Some q \<Rightarrow> q)"

definition set_request :: "string \<Rightarrow> (request \<Rightarrow> request) \<Rightarrow> node \<Rightarrow> node" where
  "set_request r f nd = nd\<lparr>m_requestsMap := (m_requestsMap nd)(r \<mapsto> f (request_at r nd))\<rparr>"

text \<open>How long ago an entry was made, as an unsigned difference of clocks.\<close>

definition clock :: "net_env \<Rightarrow> u64" where
  "clock ne = word_of_nat (now ne)"

definition request_life :: u64 where
  "request_life = MAX_REQ_LIVE * word_of_nat CLOCKS_PER_SEC"

definition age :: "net_env \<Rightarrow> string \<Rightarrow> node \<Rightarrow> u64" where
  "age ne r nd = clock ne - rq_createdTime (request_at r nd)"

definition sendResponse :: "net_env \<Rightarrow> u16 \<Rightarrow> string \<Rightarrow> string \<Rightarrow> node \<Rightarrow> node result" where
  "sendResponse ne i reqId fileId nd =
     (case getRandomString 16 nd of (respId, nd) \<Rightarrow>
      bindR (server_getRealEp ne nd) (\<lambda>(ep, nd).
      bindR (server_getRealEp ne nd) (\<lambda>(ep', nd).
      let resp = put_string respId (put_string reqId (put_word (ep_port ep')
                   (put_string (v4_to_string (ep_addr ep)) (new_message PathResponsePullMsgType))))
      in bindR (reservePort ne nd) (\<lambda>(reserved, nd).
         tell ne i resp (set_request respId
           (\<lambda>q. q\<lparr>rq_fileId := fileId, rq_responseReservedId := reserved, rq_fromRequestId := 0\<rparr>) nd)))))"

text \<open>The sessions a request goes on to.\<close>

definition forward_ids :: "u16 \<Rightarrow> node \<Rightarrow> u16 list" where
  "forward_ids i nd = map fst (filter (\<lambda>(j, s). \<not> (j = i \<or> \<not> isActive s \<or> m_type s \<noteq> DefaultSession))
     (m_sessionsMap nd))"

definition on_PathRequest :: "net_env \<Rightarrow> msg \<Rightarrow> u16 \<Rightarrow> node \<Rightarrow> node result" where
  "on_PathRequest ne m i nd =
     bindR (get_string m) (\<lambda>(reqId, m).
     bindR (get_word m) (\<lambda>(TTL :: u8, m).
     bindR (get_string m) (\<lambda>(fileId, m).
       if m_requestsMap nd reqId = None \<or> age ne reqId nd \<ge> request_life
       then let nd = set_request reqId (\<lambda>q. q\<lparr>rq_createdTime := clock ne, rq_fromRequestId := i\<rparr>) nd;
                m = put_string reqId (put_word TTL (put_string fileId m))
            in if checkTarget fileId nd then sendResponse ne i reqId fileId nd
               else let TTL = max MAX_TTL TTL in
                    if TTL \<le> 1 then Inr nd
                    else tell_all ne (forward_ids i nd) m nd
       else Inr nd)))"

text \<open>\<open>m_sessionsMap[id]->m_type = FileSession\<close>: a missing session is made as a null pointer.\<close>

definition set_file_session :: "u16 \<Rightarrow> node \<Rightarrow> node result" where
  "set_file_session i nd =
     (case session_of nd i of
        None \<Rightarrow> Inl NullSession
      | Some s \<Rightarrow> Inr (set_session i (s\<lparr>m_type := FileSession\<rparr>) nd))"

definition on_PathResponse :: "net_env \<Rightarrow> msg \<Rightarrow> u16 \<Rightarrow> node \<Rightarrow> node result" where
  "on_PathResponse ne m i nd =
     bindR (get_string m) (\<lambda>(respId, m).
     bindR (get_string m) (\<lambda>(reqId, m).
       if m_requestsMap nd reqId = None \<or> age ne reqId nd > request_life then Inr nd
       else let nd = set_request respId (\<lambda>q. q\<lparr>rq_createdTime := clock ne, rq_fromRequestId := i\<rparr>) nd in
         if rq_fromRequestId (request_at reqId nd) = 0
         then bindR (get_word m) (\<lambda>(port :: u16, m).
              bindR (get_string m) (\<lambda>(address, m).
              let m = put_word port (put_string address m) in
              bindR (server_getRealEp ne nd) (\<lambda>(ep, nd).
              bindR (server_getRealEp ne nd) (\<lambda>(ep', nd).
              let realAddress = v4_to_string (ep_addr ep); realPort = ep_port ep' in
              bindR (connectToHost ne address port nd) (\<lambda>(remoteId, nd).
              bindR (set_file_session remoteId nd) (\<lambda>nd.
              let nd = fileReady remoteId (rq_fileId (request_at reqId nd)) nd;
                  req = put_string respId (put_word realPort (put_string realAddress
                          (new_message PathAddressPushMsgType)))
              in tell ne i req nd))))))
         else let nd = set_request respId (\<lambda>q. q\<lparr>rq_fromRequestId := i\<rparr>) nd;
                  m = put_string respId (put_string reqId m)
              in tell ne (rq_fromRequestId (request_at reqId nd)) m nd))"

definition on_PathAddress :: "net_env \<Rightarrow> msg \<Rightarrow> u16 \<Rightarrow> node \<Rightarrow> node result" where
  "on_PathAddress ne m i nd =
     bindR (get_string m) (\<lambda>(respId, m).
       if m_requestsMap nd respId = None \<or> age ne respId nd > request_life then Inr nd
       else if rq_fromRequestId (request_at respId nd) = 0
       then bindR (get_word m) (\<lambda>(port :: u16, m).
            bindR (get_string m) (\<lambda>(address, m).
            let m = put_word port (put_string address m) in
            bindR (connectToHost_id ne address port (rq_responseReservedId (request_at respId nd)) nd)
              (\<lambda>(remoteId, nd).
            bindR (set_file_session remoteId nd) (\<lambda>nd.
            sendBeginFile ne remoteId (rq_fileId (request_at respId nd)) nd))))
       else tell ne (rq_fromRequestId (request_at respId nd)) (put_string respId m) nd)"

definition updatePathManager :: "net_env \<Rightarrow> msg \<Rightarrow> u16 \<Rightarrow> node \<Rightarrow> node result" where
  "updatePathManager ne m i nd =
     (case getId m of
        PathRequestPushMsgType \<Rightarrow> on_PathRequest ne m i nd
      | PathResponsePullMsgType \<Rightarrow> on_PathResponse ne m i nd
      | PathAddressPushMsgType \<Rightarrow> on_PathAddress ne m i nd
      | _ \<Rightarrow> Inr nd)"

definition sendPathRequest :: "net_env \<Rightarrow> string \<Rightarrow> node \<Rightarrow> node result" where
  "sendPathRequest ne fileId nd =
     (case getRandomString 16 nd of (reqId, nd) \<Rightarrow>
      let nd = set_request reqId (\<lambda>q. q\<lparr>rq_createdTime := clock ne, rq_fileId := fileId\<rparr>) nd;
          req = put_string reqId (put_word MAX_TTL (put_string fileId (new_message PathRequestPushMsgType)));
          ids = map fst (filter (\<lambda>(j, s). \<not> (\<not> isConnected s \<or> \<not> isActive s \<or> m_type s \<noteq> DefaultSession))
                  (m_sessionsMap nd))
      in tell_all ne ids req nd)"

lemmas path_ops = updatePathManager_def on_PathRequest_def on_PathResponse_def on_PathAddress_def

end
