(* ===== verification/Path_Search.thy ===== *)
theory Path_Search
  imports Path_Manager
begin

text \<open>
  The search for a file across the network: what a relaying node does to requests and
  answers, how often it handles them, and where the search goes wrong.
\<close>

section \<open>The table of requests\<close>

lemma set_request_simps [simp]:
  "m_requestsMap (set_request r f nd) = (m_requestsMap nd)(r \<mapsto> f (request_at r nd))"
  "m_sessionsMap (set_request r f nd) = m_sessionsMap nd" "m_queueIn (set_request r f nd) = m_queueIn nd"
  "m_curId (set_request r f nd) = m_curId nd" "m_fileSystem (set_request r f nd) = m_fileSystem nd"
  by (simp_all add: set_request_def)

lemma request_at_Some: "m_requestsMap nd r = Some q \<Longrightarrow> request_at r nd = q"
  by (simp add: request_at_def)

lemma getRandomString_keeps:
  "getRandomString n nd = (s, nd') \<Longrightarrow>
     m_requestsMap nd' = m_requestsMap nd \<and> m_queueIn nd' = m_queueIn nd \<and> m_sessionsMap nd' = m_sessionsMap nd \<and>
     m_fileSystem nd' = m_fileSystem nd \<and> m_curId nd' = m_curId nd \<and> m_localAddress nd' = m_localAddress nd"
proof (induction n arbitrary: s nd nd')
  case (Suc n)
  obtain cs nd1 where r: "getRandomString n (nd\<lparr>rnd_pos := rnd_pos nd + 1\<rparr>) = (cs, nd1)" by fastforce
  with Suc.prems have "nd' = nd1" by (simp add: Let_def)
  with Suc.IH [OF r] show ?case by simp
qed simp

text \<open>
  No entry is ever dropped, and an entry's time only changes to that of the message being
  handled.
\<close>

definition requests_kept :: "u64 \<Rightarrow> node \<Rightarrow> node \<Rightarrow> bool" where
  "requests_kept c nd nd' \<longleftrightarrow> (\<forall>r q. m_requestsMap nd r = Some q \<longrightarrow>
     (\<exists>q'. m_requestsMap nd' r = Some q' \<and> (rq_createdTime q' = rq_createdTime q \<or> rq_createdTime q' = c)))"

lemma requests_kept_same: "m_requestsMap nd' = m_requestsMap nd \<Longrightarrow> requests_kept c nd nd'"
  by (simp add: requests_kept_def)

lemma requests_kept_aside: "aside nd' = aside nd \<Longrightarrow> requests_kept c nd nd'"
  by (intro requests_kept_same aside_tables)

lemma requests_kept_trans: "requests_kept c nd nd1 \<Longrightarrow> requests_kept c nd1 nd2 \<Longrightarrow> requests_kept c nd nd2"
  unfolding requests_kept_def by metis

lemma requests_kept_set:
  "(\<And>q. rq_createdTime (f q) = rq_createdTime q \<or> rq_createdTime (f q) = c) \<Longrightarrow>
     requests_kept c nd (set_request r f nd)"
  by (auto simp: requests_kept_def request_at_def)

lemma sendResponse_kept: "sendResponse ne i reqId fileId nd = Inr nd' \<Longrightarrow> requests_kept c nd nd'"
proof -
  assume s: "sendResponse ne i reqId fileId nd = Inr nd'"
  obtain respId nd0 where g: "getRandomString 16 nd = (respId, nd0)" by fastforce
  from s g obtain ep nd1 ep' nd2 reserved nd3 m f where r:
    "server_getRealEp ne nd0 = Inr (ep, nd1)" "server_getRealEp ne nd1 = Inr (ep', nd2)"
    "reservePort ne nd2 = Inr (reserved, nd3)" "tell ne i m (set_request respId f nd3) = Inr nd'"
    "f = (\<lambda>q. q\<lparr>rq_fileId := fileId, rq_responseReservedId := reserved, rq_fromRequestId := 0\<rparr>)"
    by (auto simp: sendResponse_def bindR_eq_Inr Let_def)
  have "requests_kept c nd nd0" using getRandomString_keeps [OF g] by (intro requests_kept_same) simp
  moreover have "requests_kept c nd0 nd3"
    using getRealEp_aside [OF r(1)] getRealEp_aside [OF r(2)] reservePort_aside [OF r(3)]
    by (intro requests_kept_aside) simp
  moreover have "requests_kept c nd3 (set_request respId f nd3)" by (rule requests_kept_set) (simp add: r(5))
  moreover have "requests_kept c (set_request respId f nd3) nd'"
    using tell_aside [OF r(4)] by (rule requests_kept_aside)
  ultimately show ?thesis by (blast intro: requests_kept_trans)
qed

lemma set_file_requests [simp]: "m_requestsMap (set_file i f g nd) = m_requestsMap nd"
  by (simp add: set_file_def)

lemma set_file_session_aside: "set_file_session i nd = Inr nd' \<Longrightarrow> aside nd' = aside nd"
  by (auto simp: set_file_session_def split: option.splits)

lemma fileReady_kept: "requests_kept c nd (fileReady i f nd)"
  by (intro requests_kept_same) (simp add: fileReady_def)

text \<open>The entry a request makes; the lower bound on the hop count is its upper bound, so it never runs out.\<close>

abbreviation requested :: "net_env \<Rightarrow> u16 \<Rightarrow> string \<Rightarrow> node \<Rightarrow> node" where
  "requested ne i reqId \<equiv> set_request reqId (\<lambda>q. q\<lparr>rq_createdTime := clock ne, rq_fromRequestId := i\<rparr>)"

lemma ttl_never_low: "\<not> max MAX_TTL (t :: u8) \<le> 1"
  by (auto simp: MAX_TTL_def max_def word_le_nat_alt)

lemma on_PathRequest_eq:
  assumes g: "get_string m = Inr (reqId, m1)" "get_word m1 = Inr (TTL :: u8, m2)" "get_string m2 = Inr (fileId, m3)"
  shows "on_PathRequest ne m i nd =
    (if m_requestsMap nd reqId = None \<or> age ne reqId nd \<ge> request_life
     then if checkTarget fileId nd then sendResponse ne i reqId fileId (requested ne i reqId nd)
          else tell_all ne (forward_ids i nd) (put_string reqId (put_word TTL (put_string fileId m3))) (requested ne i reqId nd)
     else Inr nd)"
proof -
  have "checkTarget fileId (requested ne i reqId nd) = checkTarget fileId nd"
    "forward_ids i (requested ne i reqId nd) = forward_ids i nd"
    by (simp_all add: checkTarget_def forward_ids_def)
  then show ?thesis
    by (simp only: on_PathRequest_def g bindR_Inr prod.case Let_def ttl_never_low if_False)
qed

lemma on_PathRequest_kept:
  assumes "on_PathRequest ne m i nd = Inr nd'"
  shows "requests_kept (clock ne) nd nd'"
proof -
  from assms obtain reqId m1 TTL m2 fileId m3 where g: "get_string m = Inr (reqId, m1)"
    "get_word m1 = Inr (TTL :: u8, m2)" "get_string m2 = Inr (fileId, m3)"
    unfolding on_PathRequest_def by (elim bindR_pairE) (rule that, assumption+)
  have k: "requests_kept (clock ne) nd (requested ne i reqId nd)" by (rule requests_kept_set) simp
  show ?thesis
  proof (cases "m_requestsMap nd reqId = None \<or> age ne reqId nd \<ge> request_life")
    case new: True
    show ?thesis
    proof (cases "checkTarget fileId nd")
      case True
      with assms new have "sendResponse ne i reqId fileId (requested ne i reqId nd) = Inr nd'"
        unfolding on_PathRequest_eq [OF g] by (simp only: if_True)
      with k sendResponse_kept show ?thesis by (blast intro: requests_kept_trans)
    next
      case False
      with assms new have "tell_all ne (forward_ids i nd) (put_string reqId (put_word TTL (put_string fileId m3)))
          (requested ne i reqId nd) = Inr nd'"
        unfolding on_PathRequest_eq [OF g] by (simp only: if_True if_False)
      with k tell_all_aside requests_kept_aside show ?thesis by (blast intro: requests_kept_trans)
    qed
  next
    case False
    with assms have "nd' = nd" unfolding on_PathRequest_eq [OF g] by (simp only: if_False sum.inject)
    then show ?thesis by (simp add: requests_kept_same)
  qed
qed

lemma on_PathResponse_kept:
  assumes "on_PathResponse ne m i nd = Inr nd'"
  shows "requests_kept (clock ne) nd nd'"
proof -
  from assms obtain respId m1 reqId m2 where g: "get_string m = Inr (respId, m1)" "get_string m1 = Inr (reqId, m2)"
    unfolding on_PathResponse_def by (elim bindR_pairE) (rule that, assumption+)
  let ?nd = "requested ne i respId nd"
  have k: "requests_kept (clock ne) nd ?nd" by (rule requests_kept_set) simp
  show ?thesis
  proof (cases "m_requestsMap nd reqId = None \<or> age ne reqId nd > request_life")
    case True
    then have "nd' = nd" using assms by (simp only: on_PathResponse_def g bindR_Inr prod.case if_True sum.inject)
    then show ?thesis by (simp add: requests_kept_same)
  next
    case fresh: False
    show ?thesis
    proof (cases "rq_fromRequestId (request_at reqId ?nd) = 0")
      case True
      from assms obtain port m3 address m4 ep nd1 ep' nd2 remoteId nd3 nd4 x where s:
        "server_getRealEp ne ?nd = Inr (ep, nd1)" "server_getRealEp ne nd1 = Inr (ep', nd2)"
        "connectToHost ne address port nd2 = Inr (remoteId, nd3)" "set_file_session remoteId nd3 = Inr nd4"
        "tell ne i x (fileReady remoteId (rq_fileId (request_at reqId nd4)) nd4) = Inr nd'"
        unfolding on_PathResponse_def g bindR_Inr prod.case if_not_P [OF fresh] Let_def if_P [OF True]
        by (elim bindR_pairE, elim bindR_E) (rule that, assumption+)
      have "aside nd4 = aside ?nd"
        using getRealEp_aside [OF s(1)] getRealEp_aside [OF s(2)] connectToHost_aside [OF s(3)]
          set_file_session_aside [OF s(4)] by simp
      then have "requests_kept (clock ne) ?nd nd4" by (rule requests_kept_aside)
      from requests_kept_trans [OF requests_kept_trans [OF k this]
          requests_kept_trans [OF fileReady_kept requests_kept_aside [OF tell_aside [OF s(5)]]]]
      show ?thesis .
    next
      case False
      let ?nd2 = "set_request respId (\<lambda>q. q\<lparr>rq_fromRequestId := i\<rparr>) ?nd"
      have "tell ne (rq_fromRequestId (request_at reqId ?nd2)) (put_string respId (put_string reqId m2)) ?nd2 = Inr nd'"
        using assms by (simp only: on_PathResponse_def g bindR_Inr prod.case if_not_P [OF fresh] Let_def if_not_P [OF False])
      then have "requests_kept (clock ne) ?nd2 nd'" by (intro requests_kept_aside tell_aside)
      moreover have "requests_kept (clock ne) ?nd ?nd2" by (rule requests_kept_set) simp
      ultimately show ?thesis using requests_kept_trans [OF requests_kept_trans [OF k]] by blast
    qed
  qed
qed

lemma on_PathAddress_kept:
  assumes "on_PathAddress ne m i nd = Inr nd'"
  shows "requests_kept c nd nd'"
proof -
  from assms obtain respId m1 where g: "get_string m = Inr (respId, m1)"
    unfolding on_PathAddress_def by (elim bindR_pairE) (rule that, assumption+)
  show ?thesis
  proof (cases "m_requestsMap nd respId = None \<or> age ne respId nd > request_life")
    case True
    then have "nd' = nd" using assms by (simp only: on_PathAddress_def g bindR_Inr prod.case if_True sum.inject)
    then show ?thesis by (simp add: requests_kept_same)
  next
    case fresh: False
    show ?thesis
    proof (cases "rq_fromRequestId (request_at respId nd) = 0")
      case True
      from assms obtain port m2 address m3 remoteId nd1 nd2 where s:
        "connectToHost_id ne address port (rq_responseReservedId (request_at respId nd)) nd = Inr (remoteId, nd1)"
        "set_file_session remoteId nd1 = Inr nd2"
        "sendBeginFile ne remoteId (rq_fileId (request_at respId nd2)) nd2 = Inr nd'"
        unfolding on_PathAddress_def g bindR_Inr prod.case if_not_P [OF fresh] Let_def if_P [OF True]
        by (elim bindR_pairE, elim bindR_E) (rule that, assumption+)
      have "aside nd2 = aside nd"
        using connectToHost_id_aside [OF s(1)] set_file_session_aside [OF s(2)] by simp
      then have "requests_kept c nd nd2" by (rule requests_kept_aside)
      moreover have "requests_kept c (fileReady remoteId (rq_fileId (request_at respId nd2)) nd2) nd'"
        using s(3) unfolding sendBeginFile_def by (intro requests_kept_aside tell_aside)
      ultimately show ?thesis by (rule requests_kept_trans [OF _ requests_kept_trans [OF fileReady_kept]])
    next
      case False
      with assms have "tell ne (rq_fromRequestId (request_at respId nd)) (put_string respId m1) nd = Inr nd'"
        by (simp only: on_PathAddress_def g bindR_Inr prod.case if_not_P [OF fresh] if_False)
      then show ?thesis by (intro requests_kept_aside tell_aside)
    qed
  qed
qed

lemma updatePathManager_kept:
  "updatePathManager ne m i nd = Inr nd' \<Longrightarrow> requests_kept (clock ne) nd nd'"
  by (auto simp: updatePathManager_def requests_kept_same split: types_enum.splits
      dest: on_PathRequest_kept on_PathResponse_kept on_PathAddress_kept)


section \<open>Relaying\<close>

text \<open>
  A request is passed on bit for bit. A node that sees a request for the first time and
  does not have the file sends every other active ordinary session the very message it
  received: the hop count in it is not lowered, whatever it is, so a request never dies of age and
  floods the whole network.
\<close>

theorem request_forwarded_unchanged:
  "\<lbrakk>getId m = PathRequestPushMsgType; msg_wf m; get_string m = Inr (reqId, m1);
    get_word m1 = Inr (TTL :: u8, m2); get_string m2 = Inr (fileId, m3);
    m_requestsMap nd reqId = None; \<not> checkTarget fileId nd\<rbrakk> \<Longrightarrow>
   updatePathManager ne m i nd =
     tell_all ne (map fst (filter (\<lambda>(j, s). j \<noteq> i \<and> isActive s \<and> m_type s = DefaultSession) (m_sessionsMap nd)))
       m (requested ne i reqId nd)"
proof -
  assume m: "getId m = PathRequestPushMsgType" "msg_wf m" and
    g: "get_string m = Inr (reqId, m1)" "get_word m1 = Inr (TTL :: u8, m2)" "get_string m2 = Inr (fileId, m3)" and
    nd: "m_requestsMap nd reqId = None" "\<not> checkTarget fileId nd"
  have wf: "msg_wf m1" "msg_wf m2" using get_string_wf [OF g(1)] get_word_wf [OF g(2)] .
  have "put_string reqId (put_word TTL (put_string fileId m3)) = m"
    by (simp only: string_put_back [OF wf(2) g(3)] byte_put_back [OF wf(1) g(2)] string_put_back [OF m(2) g(1)])
  moreover have "forward_ids i nd =
      map fst (filter (\<lambda>(j, s). j \<noteq> i \<and> isActive s \<and> m_type s = DefaultSession) (m_sessionsMap nd))"
    unfolding forward_ids_def de_Morgan_disj not_not by (rule refl)
  ultimately show ?thesis
    using m(1) nd by (simp only: updatePathManager_def on_PathRequest_eq [OF g] types_enum.case simp_thms if_True if_False)
qed

definition sample_path_request :: msg where
  "sample_path_request = put_string ''r'' (put_word (0 :: u8) (put_string ''x'' (new_message PathRequestPushMsgType)))"

lemma sample_path_request_simps:
  "getId sample_path_request = PathRequestPushMsgType" "msg_wf sample_path_request"
  "get_string sample_path_request = Inr (''r'', put_word (0 :: u8) (put_string ''x'' (new_message PathRequestPushMsgType)))"
  "get_word (put_word (0 :: u8) (put_string ''x'' (new_message PathRequestPushMsgType))) =
     Inr (0 :: u8, put_string ''x'' (new_message PathRequestPushMsgType))"
  "get_string (put_string ''x'' (new_message PathRequestPushMsgType)) = Inr (''x'', new_message PathRequestPushMsgType)"
  by (simp_all add: sample_path_request_def get_string_put_string) (simp add: getId_def new_message_def)

lemma sample_node_requests:
  "m_requestsMap sample_node = Map.empty" "m_fileSystem sample_node =
     \<lparr>fs_filesPath = ''d/'', fs_filesInfo = Map.empty, fs_disk = Map.empty\<rparr>"
  by (simp_all add: sample_node_def new_node_def server.defs)

lemma request_forwarded_unchanged_witness:
  "updatePathManager sample_net sample_path_request 1000 sample_node =
     tell_all sample_net [1002] sample_path_request (requested sample_net 1000 ''r'' sample_node)"
proof -
  have ids: "map fst (filter (\<lambda>(j, s). j \<noteq> 1000 \<and> isActive s \<and> m_type s = DefaultSession) (m_sessionsMap sample_node)) = [1002]"
    by (simp add: sample_node_simps) (simp add: sample_start_def new_session_def isActive_def)
  have "\<not> checkTarget ''x'' sample_node" "m_requestsMap sample_node ''r'' = None"
    by (simp_all add: sample_node_requests checkTarget_def checkFile_def)
  from request_forwarded_unchanged [OF sample_path_request_simps this(2,1), of sample_net 1000]
  show ?thesis by (simp only: ids)
qed

text \<open>Path messages from any sessions, with the clock at which each is handled.\<close>

fun path_run :: "(net_env \<times> msg \<times> u16) list \<Rightarrow> node \<Rightarrow> node result" where
  "path_run [] nd = Inr nd"
| "path_run ((ne, m, i) # es) nd = bindR (updatePathManager ne m i nd) (path_run es)"

text \<open>The entry was made at or after \<open>t\<close> and not after \<open>c\<close>.\<close>

definition dated :: "string \<Rightarrow> nat \<Rightarrow> nat \<Rightarrow> node \<Rightarrow> bool" where
  "dated r t c nd \<longleftrightarrow> (\<exists>q. m_requestsMap nd r = Some q \<and> t \<le> unat (rq_createdTime q) \<and> unat (rq_createdTime q) \<le> c)"

lemma dated_kept:
  assumes "requests_kept (clock ne) nd nd'" "dated r t c nd" "t \<le> now ne" "c \<le> now ne" "now ne < 2 ^ 64"
  shows "dated r t (now ne) nd'"
proof -
  from assms(2) obtain q where q: "m_requestsMap nd r = Some q" "t \<le> unat (rq_createdTime q)" "unat (rq_createdTime q) \<le> c"
    by (auto simp: dated_def)
  have c: "unat (clock ne) = now ne" using assms(5) by (simp add: clock_def word_of_nat_unat_less)
  from assms(1) q(1) obtain q' where q': "m_requestsMap nd' r = Some q'"
    "rq_createdTime q' = rq_createdTime q \<or> rq_createdTime q' = clock ne"
    unfolding requests_kept_def by blast
  then show ?thesis using q(2,3) assms(3,4) c by (auto simp: dated_def)
qed

lemma path_run_dated:
  "\<lbrakk>path_run es nd = Inr nd'; dated r t c nd; t \<le> c; sorted (c # map (now \<circ> fst) es @ [d]); d < 2 ^ 64\<rbrakk> \<Longrightarrow>
     dated r t d nd'"
proof (induction es arbitrary: nd c)
  case Nil
  then show ?case by (auto simp: dated_def)
next
  case (Cons e es)
  obtain ne m i where e: "e = (ne, m, i)" by (cases e)
  with Cons.prems(1) obtain nd1 where nd1: "updatePathManager ne m i nd = Inr nd1" "path_run es nd1 = Inr nd'"
    by (auto simp: bindR_eq_Inr)
  have "c \<le> now ne" "now ne \<le> d" using Cons.prems(4) e by auto
  with dated_kept [OF updatePathManager_kept [OF nd1(1)] Cons.prems(2)] Cons.prems(3,5)
  have "dated r t (now ne) nd1" by simp
  with Cons.IH [OF nd1(2) this] Cons.prems(3,4,5) e \<open>c \<le> now ne\<close> show ?case by simp
qed

lemma request_dated:
  assumes "updatePathManager ne m i nd = Inr nd1" "getId m = PathRequestPushMsgType" "get_string m = Inr (reqId, m1)"
    "m_requestsMap nd reqId = None" "now ne < 2 ^ 64"
  shows "dated reqId (now ne) (now ne) nd1"
proof -
  have p: "on_PathRequest ne m i nd = Inr nd1" using assms(1,2) by (simp add: updatePathManager_def)
  then obtain TTL m2 fileId m3 where g: "get_word m1 = Inr (TTL :: u8, m2)" "get_string m2 = Inr (fileId, m3)"
    unfolding on_PathRequest_def assms(3) bindR_Inr prod.case by (elim bindR_pairE) (rule that, assumption+)
  let ?nd = "requested ne i reqId nd"
  have d: "dated reqId (now ne) (now ne) ?nd"
    using assms(5) by (simp add: dated_def clock_def word_of_nat_unat_less)
  have "requests_kept (clock ne) ?nd nd1"
  proof (cases "checkTarget fileId nd")
    case True
    with p assms(4) have "sendResponse ne i reqId fileId ?nd = Inr nd1"
      by (simp add: on_PathRequest_eq [OF assms(3) g])
    then show ?thesis by (rule sendResponse_kept)
  next
    case False
    with p assms(4) obtain ids x where "tell_all ne ids x ?nd = Inr nd1"
      by (simp add: on_PathRequest_eq [OF assms(3) g])
    then show ?thesis by (intro requests_kept_aside tell_all_aside)
  qed
  from dated_kept [OF this d _ _ assms(5)] show ?thesis by simp
qed

text \<open>
  C8. A request is handled once. After a node has handled a request, then for the next ten
  minutes, whatever path messages arrive in between from whomever, another copy of that request
  from any session changes nothing: floods end.
\<close>

theorem request_handled_once:
  "\<lbrakk>updatePathManager ne m i nd = Inr nd1; getId m = PathRequestPushMsgType; get_string m = Inr (reqId, m1);
    m_requestsMap nd reqId = None; path_run es nd1 = Inr nd2;
    sorted (now ne # map (now \<circ> fst) es @ [now ne2]); now ne2 < now ne + 600000; now ne2 < 2 ^ 64;
    getId m2 = PathRequestPushMsgType; get_string m2 = Inr (reqId, m3);
    updatePathManager ne2 m2 j nd2 = Inr nd3\<rbrakk> \<Longrightarrow>
   nd3 = nd2"
proof -
  assume a: "updatePathManager ne m i nd = Inr nd1" "getId m = PathRequestPushMsgType" "get_string m = Inr (reqId, m1)"
    "m_requestsMap nd reqId = None" and run: "path_run es nd1 = Inr nd2"
    and s: "sorted (now ne # map (now \<circ> fst) es @ [now ne2])" "now ne2 < now ne + 600000" "now ne2 < 2 ^ 64"
    and m2: "getId m2 = PathRequestPushMsgType" "get_string m2 = Inr (reqId, m3)" "updatePathManager ne2 m2 j nd2 = Inr nd3"
  have "now ne < 2 ^ 64" using s(1,3) by simp
  from path_run_dated [OF run request_dated [OF a this] _ s(1,3)] obtain q where
    q: "m_requestsMap nd2 reqId = Some q" "now ne \<le> unat (rq_createdTime q)" "unat (rq_createdTime q) \<le> now ne2"
    by (auto simp: dated_def)
  have c: "unat (clock ne2) = now ne2" using s(3) by (simp add: clock_def word_of_nat_unat_less)
  have "unat (age ne2 reqId nd2) = now ne2 - unat (rq_createdTime q)"
    using q c by (simp add: age_def request_at_Some unat_sub_if')
  then have "unat (age ne2 reqId nd2) < 600000" using q(2) s(2) by linarith
  then have "\<not> age ne2 reqId nd2 \<ge> request_life"
    by (simp add: request_life_def MAX_REQ_LIVE_def CLOCKS_PER_SEC_def word_le_nat_alt)
  then have old: "\<not> (m_requestsMap nd2 reqId = None \<or> age ne2 reqId nd2 \<ge> request_life)" using q(1) by simp
  have p: "on_PathRequest ne2 m2 j nd2 = Inr nd3" using m2(1,3) by (simp add: updatePathManager_def)
  then obtain TTL m4 fileId m5 where g: "get_word m3 = Inr (TTL :: u8, m4)" "get_string m4 = Inr (fileId, m5)"
    unfolding on_PathRequest_def m2(2) bindR_Inr prod.case by (elim bindR_pairE) (rule that, assumption+)
  from p show ?thesis unfolding on_PathRequest_eq [OF m2(2) g] if_not_P [OF old] by simp
qed


lemma tell_all_total: "msg_wf m \<Longrightarrow> \<exists>nd'. tell_all ne ids m nd = Inr nd'"
proof (induction ids arbitrary: nd)
  case (Cons i ids)
  then obtain nd1 where "sendMessage ne i m nd = Inr (m, nd1)"
    by (metis sendMessage_cases)
  with Cons show ?case by simp
qed simp

lemma sample_request_run:
  assumes "\<not> checkTarget ''x'' (nd :: node)"
  obtains nd' where "updatePathManager sample_net sample_path_request i nd = Inr nd'"
    "m_fileSystem nd' = m_fileSystem nd"
proof -
  let ?m = "put_string ''r'' (put_word (0 :: u8) (put_string ''x'' (new_message PathRequestPushMsgType)))"
  have u: "updatePathManager sample_net sample_path_request i nd =
      (if m_requestsMap nd ''r'' = None \<or> age sample_net ''r'' nd \<ge> request_life
       then tell_all sample_net (forward_ids i nd) ?m (requested sample_net i ''r'' nd) else Inr nd)"
    using assms by (simp only: updatePathManager_def sample_path_request_simps(1) types_enum.case
        on_PathRequest_eq [OF sample_path_request_simps(3-5)] if_False)
  obtain nd1 where nd1: "tell_all sample_net (forward_ids i nd) ?m (requested sample_net i ''r'' nd) = Inr nd1"
    using tell_all_total [of ?m sample_net "forward_ids i nd" "requested sample_net i ''r'' nd"] by auto
  have "m_fileSystem nd1 = m_fileSystem nd"
    using aside_tables(5) [OF tell_all_aside [OF nd1]] by simp
  with u nd1 that show ?thesis by (cases "m_requestsMap nd ''r'' = None \<or> age sample_net ''r'' nd \<ge> request_life") simp_all
qed

lemma request_handled_once_witness:
  "\<exists>nd1. updatePathManager sample_net sample_path_request 1000 sample_node = Inr nd1 \<and>
     updatePathManager sample_net sample_path_request 1002 nd1 = Inr nd1"
proof -
  have fresh: "m_requestsMap sample_node ''r'' = None" by (simp add: sample_node_requests)
  have no: "\<not> checkTarget ''x'' sample_node" by (simp add: sample_node_requests checkTarget_def checkFile_def)
  obtain nd1 where nd1: "updatePathManager sample_net sample_path_request 1000 sample_node = Inr nd1"
    "m_fileSystem nd1 = m_fileSystem sample_node"
    using no by (rule sample_request_run)
  have "\<not> checkTarget ''x'' nd1" using no nd1(2) by (simp add: checkTarget_def)
  then obtain nd3 where nd3: "updatePathManager sample_net sample_path_request 1002 nd1 = Inr nd3"
    by (rule sample_request_run)
  have "nd3 = nd1"
    by (rule request_handled_once [OF nd1(1) sample_path_request_simps(1,3) fresh, of "[]" _ sample_net])
      (use nd3 in \<open>simp_all add: sample_path_request_simps sample_net_def\<close>)
  with nd1(1) nd3 show ?thesis by blast
qed

text \<open>
  C9. Answers follow the request back, and addresses follow the answers. At a node that relayed
  a request from session \<open>i\<close>, an answer to it from session \<open>j\<close> is sent to \<open>i\<close> bit for bit, and
  remembered; and the addresses that come for that answer within ten minutes are sent to \<open>j\<close>, bit for
  bit. Nothing but the table of requests changes otherwise.
\<close>

theorem answers_follow_the_request:
  "\<lbrakk>getId ms = PathResponsePullMsgType; msg_wf ms; get_string ms = Inr (respId, m1); get_string m1 = Inr (reqId, m2);
    m_requestsMap nd reqId = Some q; rq_fromRequestId q = i; i \<noteq> 0; age ne reqId nd \<le> request_life; respId \<noteq> reqId;
    getId ma = PathAddressPushMsgType; msg_wf ma; get_string ma = Inr (respId, m3); j \<noteq> 0;
    clock ne2 - clock ne \<le> request_life\<rbrakk> \<Longrightarrow>
   \<exists>nd1. updatePathManager ne ms j nd = tell ne i ms nd1 \<and> m_sessionsMap nd1 = m_sessionsMap nd \<and>
     (\<forall>nd2. m_requestsMap nd2 = m_requestsMap nd1 \<longrightarrow> updatePathManager ne2 ma k nd2 = tell ne2 j ma nd2)"
proof -
  assume ms: "getId ms = PathResponsePullMsgType" "msg_wf ms" "get_string ms = Inr (respId, m1)" "get_string m1 = Inr (reqId, m2)"
    and q: "m_requestsMap nd reqId = Some q" "rq_fromRequestId q = i" "i \<noteq> 0" "age ne reqId nd \<le> request_life" "respId \<noteq> reqId"
    and ma: "getId ma = PathAddressPushMsgType" "msg_wf ma" "get_string ma = Inr (respId, m3)" "j \<noteq> 0"
      "clock ne2 - clock ne \<le> request_life"
  let ?nd = "requested ne j respId nd"
  let ?nd1 = "set_request respId (\<lambda>q. q\<lparr>rq_fromRequestId := j\<rparr>) ?nd"
  have fresh: "\<not> (m_requestsMap nd reqId = None \<or> age ne reqId nd > request_life)" using q(1,4) by simp
  have at: "rq_fromRequestId (request_at reqId ?nd) = i" "rq_fromRequestId (request_at reqId ?nd1) = i"
    using q(1,2,5) by (simp_all add: request_at_def)
  have "put_string respId (put_string reqId m2) = ms"
    by (simp only: string_put_back [OF get_string_wf [OF ms(3)] ms(4)] string_put_back [OF ms(2,3)])
  then have 1: "updatePathManager ne ms j nd = tell ne i ms ?nd1"
    using q(3) by (simp only: updatePathManager_def ms(1) types_enum.case on_PathResponse_def ms(3,4) bindR_Inr prod.case
        if_not_P [OF fresh] Let_def at if_False)
  have 2: "updatePathManager ne2 ma k nd2 = tell ne2 j ma nd2" if "m_requestsMap nd2 = m_requestsMap ?nd1" for nd2
  proof -
    have r: "request_at respId nd2 = request_at respId ?nd1" using that by (simp add: request_at_def)
    have r1: "rq_fromRequestId (request_at respId ?nd1) = j" "rq_createdTime (request_at respId ?nd1) = clock ne"
      by (simp_all add: request_at_def)
    have young: "\<not> (m_requestsMap nd2 respId = None \<or> age ne2 respId nd2 > request_life)"
      using that ma(5) by (simp add: age_def r r1)
    show ?thesis
      using ma(4) by (simp only: updatePathManager_def ma(1) types_enum.case on_PathAddress_def ma(3) bindR_Inr prod.case
          if_not_P [OF young] r r1 if_False string_put_back [OF ma(2,3)])
  qed
  show ?thesis using 1 2 by (intro exI [of _ ?nd1] conjI) simp_all
qed


text \<open>An answer \<open>s\<close> to the request \<open>r\<close>, the addresses that come back for it, and a node that relayed \<open>r\<close>.\<close>

definition path_response :: "string \<Rightarrow> string \<Rightarrow> string \<Rightarrow> u16 \<Rightarrow> msg" where
  "path_response respId reqId address port =
     put_string respId (put_string reqId (put_word port (put_string address (new_message PathResponsePullMsgType))))"

definition path_address :: "string \<Rightarrow> string \<Rightarrow> u16 \<Rightarrow> msg" where
  "path_address respId address port =
     put_string respId (put_word port (put_string address (new_message PathAddressPushMsgType)))"

lemma path_answer_simps:
  "getId (path_response s r a p) = PathResponsePullMsgType" "msg_wf (path_response s r a p)"
  "getId (path_address s a p) = PathAddressPushMsgType" "msg_wf (path_address s a p)"
  by (simp_all add: path_response_def path_address_def) (simp_all add: getId_def new_message_def)

lemma get_path_response:
  assumes "length s < 2 ^ 32" "length r < 2 ^ 32"
  shows "get_string (path_response s r a p) =
      Inr (s, put_string r (put_word p (put_string a (new_message PathResponsePullMsgType))))"
    "get_string (put_string r (put_word p (put_string a (new_message PathResponsePullMsgType)))) =
      Inr (r, put_word p (put_string a (new_message PathResponsePullMsgType)))"
    "get_string (path_address s a p) = Inr (s, put_word p (put_string a (new_message PathAddressPushMsgType)))"
  using assms by (simp_all add: path_response_def path_address_def get_string_put_string)

lemma answers_follow_the_request_witness:
  "\<exists>nd1. updatePathManager sample_net (path_response ''s'' ''r'' ''10.0.0.1'' 7) 1002 (requested sample_net 1000 ''r'' sample_node) =
       tell sample_net 1000 (path_response ''s'' ''r'' ''10.0.0.1'' 7) nd1 \<and>
     updatePathManager sample_net (path_address ''s'' ''10.0.0.2'' 8) 1000 nd1 =
       tell sample_net 1002 (path_address ''s'' ''10.0.0.2'' 8) nd1"
proof -
  let ?nd = "requested sample_net 1000 ''r'' sample_node"
  have len: "length ''s'' < 2 ^ 32" "length ''r'' < 2 ^ 32" by simp_all
  note get = get_path_response [OF len, where a = "''10.0.0.1''" and p = 7]
    get_path_response(3) [OF len, where a = "''10.0.0.2''" and p = 8]
  have q: "m_requestsMap ?nd ''r'' = Some (new_request\<lparr>rq_createdTime := clock sample_net, rq_fromRequestId := 1000\<rparr>)"
    by (simp add: request_at_def sample_node_requests)
  have "age sample_net ''r'' ?nd \<le> request_life" by (simp add: age_def request_at_Some [OF q])
  from answers_follow_the_request [OF path_answer_simps(1,2) get(1,2) q _ _ this _ path_answer_simps(3,4) get(4),
      of 1000 1002 sample_net 1000]
  show ?thesis by auto
qed

section \<open>Where the search goes wrong\<close>

lemma getRandomString_same:
  "rnd_draws nd' = rnd_draws nd \<Longrightarrow> rnd_pos nd' = rnd_pos nd \<Longrightarrow>
     fst (getRandomString n nd') = fst (getRandomString n nd)"
proof (induction n arbitrary: nd nd')
  case (Suc n)
  then have "fst (getRandomString n (nd'\<lparr>rnd_pos := rnd_pos nd' + 1\<rparr>)) =
      fst (getRandomString n (nd\<lparr>rnd_pos := rnd_pos nd + 1\<rparr>))" by simp
  with Suc.prems show ?case by (simp add: Let_def split: prod.split) (metis fst_conv)
qed simp

text \<open>
  A node that has been running for more than ten minutes serves nobody. When it has the
  requested file it answers under a fresh id, whose entry never gets a time; so when the
  addresses for the transfer come back, the entry counts as older than ten minutes, and the
  message is dropped: no transfer begins.
\<close>

theorem late_server_drops:
  "\<lbrakk>getId m = PathRequestPushMsgType; get_string m = Inr (reqId, m1); get_word m1 = Inr (TTL :: u8, m2);
    get_string m2 = Inr (fileId, m3); m_requestsMap nd reqId = None; checkTarget fileId nd;
    updatePathManager ne m i nd = Inr nd1; respId = fst (getRandomString 16 nd);
    m_requestsMap nd respId = None; respId \<noteq> reqId;
    m_requestsMap nd2 = m_requestsMap nd1; now ne2 < 2 ^ 64; 600000 < now ne2;
    getId ma = PathAddressPushMsgType; get_string ma = Inr (respId, m4)\<rbrakk> \<Longrightarrow>
   (\<exists>q. m_requestsMap nd1 respId = Some q \<and> rq_fileId q = fileId) \<and>
   updatePathManager ne2 ma j nd2 = Inr nd2"
proof -
  assume m: "getId m = PathRequestPushMsgType" and g: "get_string m = Inr (reqId, m1)" "get_word m1 = Inr (TTL :: u8, m2)"
    "get_string m2 = Inr (fileId, m3)" and nd: "m_requestsMap nd reqId = None" "checkTarget fileId nd"
    "updatePathManager ne m i nd = Inr nd1" and r: "respId = fst (getRandomString 16 nd)"
    "m_requestsMap nd respId = None" "respId \<noteq> reqId" and n2: "m_requestsMap nd2 = m_requestsMap nd1"
    "now ne2 < 2 ^ 64" "600000 < now ne2" and ma: "getId ma = PathAddressPushMsgType" "get_string ma = Inr (respId, m4)"
  let ?nd = "requested ne i reqId nd"
  have s: "sendResponse ne i reqId fileId ?nd = Inr nd1"
    using nd by (simp add: updatePathManager_def m on_PathRequest_eq [OF g])
  have "rnd_draws ?nd = rnd_draws nd" "rnd_pos ?nd = rnd_pos nd" by (simp_all add: set_request_def)
  then have "fst (getRandomString 16 ?nd) = respId" using getRandomString_same r(1) by metis
  then obtain nd0 where g0: "getRandomString 16 ?nd = (respId, nd0)" by (metis prod.collapse)
  from s obtain ep nda ep' ndb reserved ndc x where st:
    "server_getRealEp ne nd0 = Inr (ep, nda)" "server_getRealEp ne nda = Inr (ep', ndb)"
    "reservePort ne ndb = Inr (reserved, ndc)"
    "tell ne i x (set_request respId (\<lambda>q. q\<lparr>rq_fileId := fileId, rq_responseReservedId := reserved,
       rq_fromRequestId := 0\<rparr>) ndc) = Inr nd1"
    unfolding sendResponse_def g0 prod.case Let_def by (elim bindR_pairE) (rule that, assumption+)
  have "m_requestsMap ndc = m_requestsMap nd0"
    using getRealEp_aside [OF st(1)] getRealEp_aside [OF st(2)] reservePort_aside [OF st(3)]
    by (intro aside_tables(2)) simp
  moreover have "m_requestsMap nd0 respId = None" using getRandomString_keeps [OF g0] r(2,3) by simp
  ultimately have "request_at respId ndc = new_request" by (simp add: request_at_def)
  then have q: "m_requestsMap nd1 respId = Some (new_request\<lparr>rq_fileId := fileId, rq_responseReservedId := reserved,
       rq_fromRequestId := 0\<rparr>)"
    using aside_tables(2) [OF tell_aside [OF st(4)]] by simp
  have "age ne2 respId nd2 = clock ne2"
    using q n2(1) by (simp add: age_def request_at_def new_request_def)
  moreover have "unat (clock ne2) = now ne2" using n2(2) by (simp add: clock_def word_of_nat_unat_less)
  ultimately have "age ne2 respId nd2 > request_life"
    using n2(3) by (simp add: request_life_def MAX_REQ_LIVE_def CLOCKS_PER_SEC_def word_less_nat_alt)
  then have old: "m_requestsMap nd2 respId = None \<or> age ne2 respId nd2 > request_life" by blast
  have "updatePathManager ne2 ma j nd2 = Inr nd2"
    by (simp only: updatePathManager_def ma types_enum.case on_PathAddress_def bindR_Inr prod.case if_P [OF old])
  with q show ?thesis by simp
qed

text \<open>
  An answer with an address that does not resolve ends the program. The node that asked for
  the file connects to the address in the answer without looking at the result, which is
  \<open>-1\<close> when that fails, and then sets the type of the session of port 65535: a null pointer.
  Every node that the request reaches can send such an answer.
\<close>

theorem unresolvable_address_faults:
  "\<lbrakk>getId m = PathResponsePullMsgType; get_string m = Inr (respId, m1); get_string m1 = Inr (reqId, m2);
    get_word m2 = Inr (port, m3); get_string m3 = Inr (address, m4);
    m_requestsMap nd reqId = Some q; rq_fromRequestId q = 0; respId \<noteq> reqId; age ne reqId nd \<le> request_life;
    session_of nd (m_curId nd) = Some s; resolve ne address port = None; session_of nd (- 1) = None\<rbrakk> \<Longrightarrow>
   updatePathManager ne m i nd = Inl NullSession"
proof -
  assume m: "getId m = PathResponsePullMsgType" "get_string m = Inr (respId, m1)" "get_string m1 = Inr (reqId, m2)"
    "get_word m2 = Inr (port, m3)" "get_string m3 = Inr (address, m4)"
    and q: "m_requestsMap nd reqId = Some q" "rq_fromRequestId q = 0" "respId \<noteq> reqId" "age ne reqId nd \<le> request_life"
    and s: "session_of nd (m_curId nd) = Some s" "resolve ne address port = None" "session_of nd (- 1) = None"
  let ?nd = "requested ne i respId nd"
  have fresh: "\<not> (m_requestsMap nd reqId = None \<or> age ne reqId nd > request_life)" using q(1,4) by simp
  have own: "rq_fromRequestId (request_at reqId ?nd) = 0" using q(1,2,3) by (simp add: request_at_def)
  have ep: "server_getRealEp ne ?nd = Inr (getRealEp s, ?nd)" using s(1) by (simp add: server_getRealEp_def)
  have con: "connectToHost ne address port ?nd = Inr (- 1, ?nd)"
    using s(2) by (simp add: connectToHost_def connectToHost_id_def)
  have "set_file_session (- 1) ?nd = Inl NullSession" using s(3) by (simp add: set_file_session_def)
  then show ?thesis
    by (simp only: updatePathManager_def m types_enum.case on_PathResponse_def bindR_Inr prod.case if_not_P [OF fresh]
        Let_def if_P [OF own] ep con bindR_Inl)
qed


definition sample_search :: msg where
  "sample_search = put_string ''r'' (put_word (7 :: u8) (put_string ''f'' (new_message PathRequestPushMsgType)))"

lemma sample_search_simps:
  "getId sample_search = PathRequestPushMsgType"
  "get_string sample_search = Inr (''r'', put_word (7 :: u8) (put_string ''f'' (new_message PathRequestPushMsgType)))"
  "get_word (put_word (7 :: u8) (put_string ''f'' (new_message PathRequestPushMsgType))) =
     Inr (7 :: u8, put_string ''f'' (new_message PathRequestPushMsgType))"
  "get_string (put_string ''f'' (new_message PathRequestPushMsgType)) = Inr (''f'', new_message PathRequestPushMsgType)"
  by (simp_all add: sample_search_def get_string_put_string) (simp add: getId_def new_message_def)

definition sample_sharer :: node where
  "sample_sharer = sample_node\<lparr>m_fileSystem := \<lparr>fs_filesPath = ''d'',
     fs_filesInfo = [''f'' \<mapsto> \<lparr>fi_fileName = ''n'', fi_fileId = ''f'', fi_pieces = []\<rparr>], fs_disk = Map.empty\<rparr>\<rparr>"

text \<open>A network in which the STUN server's answers are lost and another host's datagrams come in.\<close>

definition quiet_net :: net_env where
  "quiet_net = sample_net\<lparr>stun_reply := (\<lambda>_. Some (sample_peer, []))\<rparr>"

lemma quiet_prepares:
  assumes "m_curId sv = 1004" "m_localAddress sv = ''0.0.0.0''"
  shows "\<exists>sv'. prepareSession quiet_net sv = Inr sv'"
proof -
  have "make_address_v4 ''0.0.0.0'' \<noteq> None" by code_simp
  with assms show ?thesis
    by (auto simp: prepareSession_def quiet_net_def sample_net_def new_stun_session_def stun_start_def take_answer_def
        Let_def sample_peer_def no_endpoint_def)
qed

lemma sample_search_answered:
  "\<exists>nd1. updatePathManager quiet_net sample_search 1000 sample_sharer = Inr nd1"
proof -
  let ?nd = "requested quiet_net 1000 ''r'' sample_sharer"
  have nd: "m_requestsMap sample_sharer ''r'' = None" "checkTarget ''f'' sample_sharer"
    by (simp_all add: sample_sharer_def sample_node_requests checkTarget_def checkFile_def)
  obtain respId nd0 where g: "getRandomString 16 ?nd = (respId, nd0)" by fastforce
  have k: "m_sessionsMap nd0 = m_sessionsMap sample_node" "m_curId nd0 = 1003" "m_localAddress nd0 = ''0.0.0.0''"
    using getRandomString_keeps [OF g]
    by (simp_all add: sample_sharer_def sample_node_simps set_request_def)
      (simp add: sample_node_def new_node_def server.defs new_server_def set_cm_def)
  have ep: "server_getRealEp quiet_net nd0 = Inr (getRealEp (sample_start\<lparr>s_id := 1003\<rparr>), nd0)"
    by (simp add: server_getRealEp_def k sample_node_simps)
  obtain nd2 where "prepareSession quiet_net (nd0\<lparr>m_curId := m_curId nd0 + 1\<rparr>) = Inr nd2"
    using quiet_prepares [of "nd0\<lparr>m_curId := m_curId nd0 + 1\<rparr>"] k by auto
  then have res: "reservePort quiet_net nd0 = Inr (m_curId nd2 - 1, nd2)" by (simp add: reservePort_def)
  have "\<exists>nd1. sendResponse quiet_net 1000 ''r'' ''f'' ?nd = Inr nd1"
    by (simp only: sendResponse_def g prod.case ep bindR_Inr Let_def res) (rule tell_total, simp)
  then show ?thesis
    using nd by (simp add: updatePathManager_def sample_search_simps(1) on_PathRequest_eq [OF sample_search_simps(2-4)])
qed

lemma late_server_drops_witness:
  "\<exists>nd1 r. updatePathManager quiet_net sample_search 1000 sample_sharer = Inr nd1 \<and>
     updatePathManager (quiet_net\<lparr>now := 600001\<rparr>) (path_address r ''10.0.0.1'' 7) 1000 nd1 = Inr nd1"
proof -
  let ?r = "fst (getRandomString 16 sample_sharer)"
  obtain nd1 where nd1: "updatePathManager quiet_net sample_search 1000 sample_sharer = Inr nd1"
    using sample_search_answered by blast
  have r: "?r = ''0123456789abcdef''" by code_simp
  have nd: "m_requestsMap sample_sharer = Map.empty" "checkTarget ''f'' sample_sharer"
    by (simp_all add: sample_sharer_def sample_node_requests checkTarget_def checkFile_def)
  have "length ?r < 2 ^ 32" "length ([] :: string) < 2 ^ 32" by (simp_all add: r)
  note get = get_path_response(3) [OF this, where a = "''10.0.0.1''" and p = 7]
  have "updatePathManager (quiet_net\<lparr>now := 600001\<rparr>) (path_address ?r ''10.0.0.1'' 7) 1000 nd1 = Inr nd1"
    by (rule late_server_drops [OF sample_search_simps _ nd(2) nd1 refl _ _ refl _ _ path_answer_simps(3) get, THEN conjunct2])
      (simp_all add: nd r)
  with nd1 show ?thesis by blast
qed

lemma unresolvable_address_faults_witness:
  "updatePathManager sample_net (path_response ''s'' ''r'' ''x'' 7) 1000 (requested sample_net 0 ''r'' sample_node) =
     Inl NullSession"
proof -
  let ?nd = "requested sample_net 0 ''r'' sample_node"
  have len: "length ''s'' < 2 ^ 32" "length ''r'' < 2 ^ 32" by simp_all
  note get = get_path_response [OF len, where a = "''x''" and p = 7]
  have q: "m_requestsMap ?nd ''r'' = Some (new_request\<lparr>rq_createdTime := clock sample_net, rq_fromRequestId := 0\<rparr>)"
    by (simp add: request_at_def sample_node_requests)
  have age: "age sample_net ''r'' ?nd \<le> request_life" by (simp add: age_def request_at_Some [OF q])
  have s: "session_of ?nd (m_curId ?nd) = Some (sample_start\<lparr>s_id := 1003\<rparr>)" "session_of ?nd (- 1) = None"
    by (simp_all add: sample_node_simps)
  have "resolve sample_net ''x'' 7 = None" by code_simp
  moreover have "get_word (put_word (7 :: u16) (put_string ''x'' (new_message PathResponsePullMsgType))) =
      Inr (7 :: u16, put_string ''x'' (new_message PathResponsePullMsgType))"
    "get_string (put_string ''x'' (new_message PathResponsePullMsgType)) = Inr (''x'', new_message PathResponsePullMsgType)"
    by (simp_all add: get_string_put_string)
  ultimately show ?thesis
    by (intro unresolvable_address_faults [OF path_answer_simps(1) get(1,2) _ _ q _ _ age s(1) _ s(2)]) simp_all
qed

end
