(* ===== verification/Node_Server.thy ===== *)
theory Node_Server
  imports Path_Search
begin

text \<open>
  \<open>NodeServer\<close> as a whole: the dispatch of a received message to the three managers, the
  round of the main loop, the two operations of the user, and the public interface \<open>Node\<close>
  (\<open>netlib_node.h\<close>) with its invite codes.
\<close>

section \<open>Dispatch\<close>

definition onMessage :: "net_env \<Rightarrow> u16 \<times> msg \<Rightarrow> node \<Rightarrow> node result" where
  "onMessage ne owned nd =
     (case owned of (i, m) \<Rightarrow>
        if checkConnectManager m then updateConnectManager ne m i nd
        else if checkPathManager m then updatePathManager ne m i nd
        else if checkFileManager m then updateFileManager ne m i nd
        else Inr nd)"

text \<open>\<open>update\<close> drains the queue; the messages that are there bound the number of turns.\<close>

definition node_update :: "net_env \<Rightarrow> node \<Rightarrow> node result" where
  "node_update ne nd = update_loop (length (deque (m_queueIn nd))) (onMessage ne) nd"

definition updateNode :: "net_env \<Rightarrow> node \<Rightarrow> (endpoint \<times> node) result" where
  "updateNode ne nd = bindR (node_update ne nd) (server_getRealEp ne)"

definition node_uploadFile :: "string \<Rightarrow> node \<Rightarrow> node result" where
  "node_uploadFile path nd = bindR (uploadFile (m_fileSystem nd) path) (\<lambda>fs. Inr (nd\<lparr>m_fileSystem := fs\<rparr>))"

definition node_downloadFile :: "net_env \<Rightarrow> string \<Rightarrow> node \<Rightarrow> node result" where
  "node_downloadFile ne path nd =
     bindR (addFile (m_fileSystem nd) path) (\<lambda>(fileId, fs).
       let nd = nd\<lparr>m_fileSystem := fs\<rparr> in
       if fileId \<noteq> [] then sendPathRequest ne fileId nd else Inr nd)"

section \<open>The managers leave the input queue alone\<close>

text \<open>A small calculus: \<open>keepsQ nd r\<close> when every result of \<open>r\<close> has the input queue of \<open>nd\<close>.\<close>

definition keepsQ :: "node \<Rightarrow> node result \<Rightarrow> bool" where
  "keepsQ nd r \<longleftrightarrow> (\<forall>nd'. r = Inr nd' \<longrightarrow> m_queueIn nd' = m_queueIn nd)"

named_theorems keeps_rules "what keeps the input queue"
named_theorems queue_facts "the input queue after the server's operations"

lemma keepsQ_fault [keeps_rules]: "keepsQ nd (Inl e)"
  by (simp add: keepsQ_def)

lemma keepsQ_value [keeps_rules]: "m_queueIn nd' = m_queueIn nd \<Longrightarrow> keepsQ nd (Inr nd')"
  by (simp add: keepsQ_def)

lemma keepsQ_if [keeps_rules]:
  "(P \<Longrightarrow> keepsQ nd r) \<Longrightarrow> (\<not> P \<Longrightarrow> keepsQ nd s) \<Longrightarrow> keepsQ nd (if P then r else s)"
  by simp

lemma keepsQ_pair [keeps_rules]:
  "(\<And>x y. q = Inr (x, y) \<Longrightarrow> keepsQ nd (f x y)) \<Longrightarrow> keepsQ nd (bindR q (\<lambda>(x, y). f x y))"
  by (cases q) (auto simp: keepsQ_fault)

lemma keepsQ_prod [keeps_rules]:
  "(\<And>x y. p = (x, y) \<Longrightarrow> keepsQ nd (g x y)) \<Longrightarrow> keepsQ nd (case p of (x, y) \<Rightarrow> g x y)"
  by (cases p) simp

lemma keepsQ_bind: "(\<And>x. q = Inr x \<Longrightarrow> keepsQ nd (f x)) \<Longrightarrow> keepsQ nd (bindR q f)"
  by (cases q) (auto simp: keepsQ_fault)

lemma aside_queue: "aside nd' = aside nd \<Longrightarrow> m_queueIn nd' = m_queueIn (nd :: node)"
  by (rule aside_tables)

lemmas queue_of_server [queue_facts] =
  getRealEp_aside [THEN aside_queue] connectToHost_aside [THEN aside_queue]
  connectToHost_id_aside [THEN aside_queue] reservePort_aside [THEN aside_queue]
  tell_aside [THEN aside_queue] set_file_session_aside [THEN aside_queue]

lemma queue_of_random [queue_facts]: "getRandomString n nd = (s, nd') \<Longrightarrow> m_queueIn nd' = m_queueIn nd"
  by (simp add: getRandomString_keeps)

lemma table_queue [simp]:
  "m_queueIn (set_file i f g nd) = m_queueIn nd" "m_queueIn (erase_file i f nd) = m_queueIn nd"
  "m_queueIn (set_disk d nd) = m_queueIn nd" "m_queueIn (fileReady i f nd) = m_queueIn nd"
  by (simp_all add: set_file_def erase_file_def set_disk_def fileReady_def)

lemma keepsQ_tell [keeps_rules]: "m_queueIn nd1 = m_queueIn nd \<Longrightarrow> keepsQ nd (tell ne i m nd1)"
  by (auto simp: keepsQ_def dest: tell_aside [THEN aside_queue])

lemma keepsQ_tell_all [keeps_rules]: "m_queueIn nd1 = m_queueIn nd \<Longrightarrow> keepsQ nd (tell_all ne ids m nd1)"
  by (auto simp: keepsQ_def dest: tell_all_aside [THEN aside_queue])

text \<open>The connection manager.\<close>

lemma keepsQ_requestNext [keeps_rules]: "m_queueIn nd1 = m_queueIn nd \<Longrightarrow> keepsQ nd (requestNext ne i nd1)"
  unfolding requestNext_def Let_def by (intro keeps_rules) (auto dest!: queue_facts)

lemma keepsQ_refuse [keeps_rules]:
  "m_queueIn nd1 = m_queueIn nd \<Longrightarrow> keepsQ nd (refuse_next ne i nd1)"
  unfolding refuse_next_def by (intro keepsQ_bind keeps_rules) (auto dest!: queue_facts)

lemma keepsQ_propose [keeps_rules]:
  "m_queueIn nd1 = m_queueIn nd \<Longrightarrow> keepsQ nd (propose_next ne m i e nd1)"
  unfolding propose_next_def Let_def by (intro keeps_rules) simp

lemma keepsQ_responseNext: "m_queueIn nd1 = m_queueIn nd \<Longrightarrow> keepsQ nd (responseNext ne m i nd1)"
proof (induction ne m i nd1 rule: responseNext.induct)
  case (1 ne m i nd1)
  show ?case
  proof (cases "next_session i nd1")
    case None
    then show ?thesis using keepsQ_refuse [OF 1(2), of ne i]
      by (subst responseNext.simps) (simp add: refuse_next_def)
  next
    case (Some e)
    obtain extId ext where e: "e = (extId, ext)" by (cases e)
    show ?thesis
      unfolding responseNext.simps [of ne m i nd1] Some e option.case prod.case
      using 1(1) [OF Some e [symmetric]] keepsQ_refuse [OF 1(2), of ne i] keepsQ_propose [OF 1(2), of ne m i extId] 1(2)
      by (intro keepsQ_if) (simp_all add: refuse_next_def propose_next_def Let_def)
  qed
qed

lemmas keepsQ_responseNext' [keeps_rules] = keepsQ_responseNext

lemma keepsQ_connect_ops [keeps_rules]:
  "keepsQ nd (on_ConnectionRequest ne m i nd)" "keepsQ nd (on_ConnectionResponse ne m i nd)"
  "keepsQ nd (on_NewConnectionRequest ne m i nd)" "keepsQ nd (on_NewConnectionResponse ne m i nd)"
  "keepsQ nd (on_NewExtConnectionRequest ne m i nd)" "keepsQ nd (on_NewExtConnectionResponse ne m i nd)"
  subgoal unfolding on_ConnectionRequest_def Let_def by (intro keeps_rules; (intro keepsQ_bind)?; (intro keeps_rules)?; auto dest!: queue_facts)
  subgoal unfolding on_ConnectionResponse_def by (intro keeps_rules; auto)
  subgoal unfolding on_NewConnectionRequest_def by (intro keeps_rules; auto)
  subgoal unfolding on_NewConnectionResponse_def by (intro keeps_rules; auto dest!: queue_facts)
  subgoal unfolding on_NewExtConnectionRequest_def Let_def by (intro keeps_rules; auto dest!: queue_facts)
  subgoal unfolding on_NewExtConnectionResponse_def by (intro keeps_rules; auto)
  done

lemma keepsQ_connect [keeps_rules]: "keepsQ nd (updateConnectManager ne m i nd)"
  unfolding updateConnectManager_def by (cases "getId m") (simp_all add: keeps_rules)

text \<open>The path manager.\<close>

lemma keepsQ_sendResponse [keeps_rules]: "m_queueIn nd1 = m_queueIn nd \<Longrightarrow> keepsQ nd (sendResponse ne i r f nd1)"
  unfolding sendResponse_def Let_def by (intro keeps_rules; auto dest!: queue_facts)

lemma keepsQ_path_ops [keeps_rules]:
  "keepsQ nd (on_PathRequest ne m i nd)" "keepsQ nd (on_PathResponse ne m i nd)" "keepsQ nd (on_PathAddress ne m i nd)"
  subgoal unfolding on_PathRequest_def Let_def by (intro keeps_rules; simp)
  subgoal unfolding on_PathResponse_def Let_def by (intro keeps_rules keepsQ_bind; auto dest!: queue_facts)
  subgoal unfolding on_PathAddress_def sendBeginFile_def Let_def by (intro keeps_rules keepsQ_bind; auto dest!: queue_facts)
  done

lemma keepsQ_path [keeps_rules]: "keepsQ nd (updatePathManager ne m i nd)"
  unfolding updatePathManager_def by (cases "getId m") (simp_all add: keeps_rules)

text \<open>The file manager.\<close>

lemma keepsQ_requestNextPiece [keeps_rules]:
  "m_queueIn nd1 = m_queueIn nd \<Longrightarrow> keepsQ nd (requestNextPiece ne i f nd1)"
  unfolding requestNextPiece_def finishRequesting_def Let_def by (intro keeps_rules; simp)

lemma keepsQ_nextBodyPiece [keeps_rules]:
  "m_queueIn nd1 = m_queueIn nd \<Longrightarrow> keepsQ nd (nextBodyPiece ne i f nd1)"
  unfolding nextBodyPiece_def finishSending_def Let_def by (intro keeps_rules; simp)

lemma keepsQ_send_pack [keeps_rules]:
  "m_queueIn nd1 = m_queueIn nd \<Longrightarrow> keepsQ nd (send_pack n ne i f nd1)"
proof (induction n arbitrary: nd1)
  case (Suc n)
  have "keepsQ nd (nextBodyPiece ne i f nd1)" using Suc.prems by (rule keepsQ_nextBodyPiece)
  then have "\<And>x. nextBodyPiece ne i f nd1 = Inr x \<Longrightarrow> m_queueIn x = m_queueIn nd" by (simp add: keepsQ_def)
  then show ?case unfolding send_pack.simps by (intro keepsQ_bind keepsQ_if keepsQ_value Suc.IH)
qed (simp add: keepsQ_value)

lemma keepsQ_file_ops [keeps_rules]:
  "keepsQ nd (on_FileBegin ne m i nd)" "keepsQ nd (on_FileRequest ne m i nd)" "keepsQ nd (on_FileEnd ne m i nd)"
  "keepsQ nd (on_FileBody ne m i nd)" "keepsQ nd (on_FileBodyResp ne m i nd)" "keepsQ nd (on_FileRequestEnd m i nd)"
  subgoal unfolding on_FileBegin_def by (intro keeps_rules; simp)
  subgoal unfolding on_FileRequest_def Let_def by (intro keeps_rules; simp add: keeps_rules split: option.split)
  subgoal unfolding on_FileEnd_def Let_def by (intro keeps_rules; simp)
  subgoal unfolding on_FileBody_def Let_def by (intro keeps_rules; simp)
  subgoal unfolding on_FileBodyResp_def by (intro keeps_rules; simp)
  subgoal unfolding on_FileRequestEnd_def by (intro keeps_rules; simp)
  done

lemma keepsQ_file [keeps_rules]: "keepsQ nd (updateFileManager ne m i nd)"
  unfolding updateFileManager_def by (cases "getId m") (simp_all add: keeps_rules)

lemma onMessage_keeps_queue: "onMessage ne om nd = Inr nd' \<Longrightarrow> m_queueIn nd' = m_queueIn nd"
proof -
  have "keepsQ nd (onMessage ne om nd)" unfolding onMessage_def by (intro keeps_rules) simp
  then show "onMessage ne om nd = Inr nd' \<Longrightarrow> m_queueIn nd' = m_queueIn nd" by (simp add: keepsQ_def)
qed

interpretation node: message_handler "onMessage ne" for ne
  by unfold_locales (rule onMessage_keeps_queue)

text \<open>
  C16. The main loop's round. \<open>update\<close> hands every message in the input queue to the managers, in
  the order of arrival and each exactly once, and returns with the queue empty: no manager
  takes messages from the queue or adds to it. (The network thread may add meanwhile; what it
  adds then is handled in the same round or the next.)
\<close>

theorem update_handles_in_order:
  "node_update ne nd = handle_all (onMessage ne) (deque (m_queueIn nd)) nd \<and>
   (case node_update ne nd of Inl _ \<Rightarrow> True | Inr nd' \<Rightarrow> queue_empty (m_queueIn nd'))"
proof -
  have "node_update ne nd = handle_all (onMessage ne) (deque (m_queueIn nd)) nd"
    unfolding node_update_def by (rule node.update_loop_all) simp
  moreover have "queue_empty (m_queueIn nd')" if "node_update ne nd = Inr nd'" for nd'
    using that unfolding node_update_def by (intro node.update_empties) simp_all
  ultimately show ?thesis by (simp split: sum.split)
qed

end
