(* ===== verification/Node_Main.thy ===== *)
theory Node_Main
  imports Node_Server
begin

text \<open>
  The public interface \<open>Node\<close> (\<open>netlib_node.h\<close>) with its invite codes and the thread that
  runs the main loop of the server, and the command line (\<open>main.cpp\<close>).
\<close>

section \<open>Invite codes\<close>

definition inviteCode :: "endpoint \<Rightarrow> u64" where
  "inviteCode ep = push_bit 16 (ucast (ep_addr ep)) + ucast (ep_port ep)"

definition epFromCode :: "u64 \<Rightarrow> endpoint" where
  "epFromCode code = Endpoint (ucast (drop_bit 16 code)) (ucast (code mod 2 ^ 16))"

definition hex_dic :: string where
  "hex_dic = ''0123456789abcdef''"

function printHex_loop :: "u64 \<Rightarrow> string \<Rightarrow> string" where
  "printHex_loop x res =
     (if x > 0 then printHex_loop (x div 16) ((hex_dic ! unat (x mod 16)) # res) else res)"
  by pat_completeness auto
termination
proof (relation "measure (\<lambda>(x, res). unat x)")
  fix x :: u64 and res :: string
  assume "x > 0"
  then have "unat x div 16 < unat x" by (intro div_less_dividend) (simp_all add: word_less_nat_alt)
  then show "((x div 16, (hex_dic ! unat (x mod 16)) # res), x, res) \<in> measure (\<lambda>(x, res). unat x)"
    by (simp add: unat_div)
qed simp

declare printHex_loop.simps [simp del]

definition printHex :: "u64 \<Rightarrow> string" where
  "printHex x = printHex_loop x []"

text \<open>A \<open>char\<close> is signed; the difference of two is an \<open>int\<close> that is converted to 64 bits.\<close>

definition char_value :: "char \<Rightarrow> int" where
  "char_value c = sint (byte_of_char c)"

definition hex_digit :: "char \<Rightarrow> u64" where
  "hex_digit c =
     (if char_value (CHR ''0'') \<le> char_value c \<and> char_value c \<le> char_value (CHR ''9'')
      then word_of_int (char_value c - char_value (CHR ''0''))
      else word_of_int (char_value c - char_value (CHR ''a'') + 10))"

fun fromHex_loop :: "string \<Rightarrow> u64 \<Rightarrow> u64 \<Rightarrow> u64" where
  "fromHex_loop [] x pow = x"
| "fromHex_loop (c # cs) x pow = fromHex_loop cs (x + pow * hex_digit c) (pow * 16)"

definition fromHex :: "string \<Rightarrow> u64" where
  "fromHex s = fromHex_loop (rev s) 0 1"

text \<open>\<open>readHex\<close> starts from an empty string, which stays when there is no more input.\<close>

definition readHex :: "istream \<Rightarrow> u64 \<times> istream" where
  "readHex cin = (case read_string cin [] of (s, cin) \<Rightarrow> (fromHex s, cin))"

lemma unat_div_16: "x > 0 \<Longrightarrow> unat (x div 16 :: u64) < unat x"
  using div_less_dividend [of 16 "unat x"] by (simp add: unat_div word_less_nat_alt)

lemma printHex_loop_append: "printHex_loop x res = printHex_loop x [] @ res"
proof (induction x arbitrary: res rule: measure_induct_rule [of unat])
  case (less x)
  show ?case
  proof (cases "x > 0")
    case True
    note ih = less.IH [OF unat_div_16 [OF True]]
    show ?thesis using True ih [of "(hex_dic ! unat (x mod 16)) # res"] ih [of "[hex_dic ! unat (x mod 16)]"]
      by (simp add: printHex_loop.simps [of x])
  qed (simp add: printHex_loop.simps)
qed

lemma hex_digit_dic: "n < 16 \<Longrightarrow> hex_digit (hex_dic ! n) = word_of_nat n"
proof -
  have "\<forall>n \<in> {0..<16}. hex_digit (hex_dic ! n) = word_of_nat n" by code_simp
  then show "n < 16 \<Longrightarrow> ?thesis" by simp
qed


lemma fromHex_loop_printHex: "fromHex_loop (rev (printHex x)) acc pow = acc + pow * x"
proof (induction x arbitrary: acc pow rule: measure_induct_rule [of unat])
  case (less x)
  show ?case
  proof (cases "x > 0")
    case True
    have m: "unat (x mod 16) < 16" by (simp add: unat_mod)
    have "printHex x = printHex (x div 16) @ [hex_dic ! unat (x mod 16)]"
      unfolding printHex_def using True printHex_loop_append [of "x div 16" "[hex_dic ! unat (x mod 16)]"]
      by (simp add: printHex_loop.simps [of x])
    then have "fromHex_loop (rev (printHex x)) acc pow =
        acc + pow * hex_digit (hex_dic ! unat (x mod 16)) + pow * 16 * (x div 16)"
      using less.IH [OF unat_div_16 [OF True]] by simp
    also have "\<dots> = acc + pow * (x mod 16 + 16 * (x div 16))"
      using hex_digit_dic [OF m] by (simp add: algebra_simps)
    also have "x mod 16 + 16 * (x div 16) = x" by (rule mod_mult_div_eq)
    finally show ?thesis .
  next
    case False
    then have "x = 0" by (simp add: word_gt_0)
    then show ?thesis by (simp add: printHex_def printHex_loop.simps)
  qed
qed

lemma inviteCode_nat: "unat (inviteCode ep) = unat (ep_addr ep) * 2 ^ 16 + unat (ep_port ep)"
proof -
  have a: "unat (ep_addr ep) < 2 ^ 32" and p: "unat (ep_port ep) < 2 ^ 16"
    using unsigned_less [of "ep_addr ep"] unsigned_less [of "ep_port ep"] by simp_all
  have u: "unat (ucast (ep_addr ep) :: u64) = unat (ep_addr ep)"
    using a by (simp add: unsigned_ucast_eq take_bit_nat_eq_self)
  have "unat (ucast (ep_addr ep) * 65536 :: u64) = unat (ep_addr ep) * 65536"
    using a u unat_mult_lem [of "ucast (ep_addr ep) :: u64" 65536] by simp
  then have "unat (push_bit 16 (ucast (ep_addr ep)) :: u64) = unat (ep_addr ep) * 2 ^ 16"
    by (simp add: push_bit_eq_mult)
  moreover have "unat (ucast (ep_port ep) :: u64) = unat (ep_port ep)"
    using p by (simp add: unsigned_ucast_eq take_bit_nat_eq_self)
  ultimately show ?thesis
    using a p by (simp add: inviteCode_def unat_add_lem [THEN iffD1])
qed

text \<open>
  C22. Invite codes. The code a node prints for its public endpoint, typed in on another node,
  is turned into exactly that endpoint, for every address and every port.
\<close>

theorem invite_roundtrip: "epFromCode (fromHex (printHex (inviteCode ep))) = ep"
proof -
  have p: "unat (ep_port ep) < 2 ^ 16" and a: "unat (ep_addr ep) < 2 ^ 32"
    using unsigned_less [of "ep_port ep"] unsigned_less [of "ep_addr ep"] by simp_all
  have "fromHex (printHex (inviteCode ep)) = inviteCode ep"
    by (simp add: fromHex_def fromHex_loop_printHex)
  moreover have "(ucast (drop_bit 16 (inviteCode ep)) :: u32) = ep_addr ep"
    using p a by (simp add: word_unat_eq_iff unsigned_ucast_eq inviteCode_nat drop_bit_eq_div unat_div take_bit_nat_eq_self)
  moreover have "(ucast (inviteCode ep mod 2 ^ 16) :: u16) = ep_port ep"
    using p by (simp add: word_unat_eq_iff unsigned_ucast_eq unat_mod inviteCode_nat take_bit_nat_eq_self)
  ultimately show ?thesis by (simp add: epFromCode_def)
qed


section \<open>The node\<close>

text \<open>
  The state behind \<open>Node\<close>: the server, whether its update thread runs, and the endpoint that
  thread last saw. Turns of that thread and commands of the user exclude each other by a
  mutex, except \<open>getInviteCode\<close> and \<open>uploadFile\<close>, which take none.
\<close>

record node_main =
  nd_server :: node
  nd_running :: bool
  nd_curEp :: endpoint

definition new_node_main :: "node \<Rightarrow> node_main" where
  "new_node_main nd = \<lparr>nd_server = nd, nd_running = True, nd_curEp = no_endpoint\<rparr>"

text \<open>The constructor of \<open>Node\<close> starts the server, which prepares its first session.\<close>

definition start_node :: "net_env \<Rightarrow> node \<Rightarrow> node_main result" where
  "start_node ne nd = bindR (prepareSession ne nd) (\<lambda>nd. Inr (new_node_main nd))"

text \<open>One turn of \<open>serverUpdateCircle\<close>.\<close>

definition update_turn :: "net_env \<Rightarrow> node_main \<Rightarrow> node_main result" where
  "update_turn ne st =
     (if \<not> nd_running st then Inr st
      else bindR (updateNode ne (nd_server st)) (\<lambda>(ep, nd). Inr (st\<lparr>nd_server := nd, nd_curEp := ep\<rparr>)))"

definition node_stop :: "node_main \<Rightarrow> node_main" where
  "node_stop st = st\<lparr>nd_running := False\<rparr>"

definition addDirectConnection :: "net_env \<Rightarrow> endpoint \<Rightarrow> node_main \<Rightarrow> (u16 \<times> node_main) result" where
  "addDirectConnection ne ep st =
     bindR (node_connect ne ep (nd_server st)) (\<lambda>(i, nd). Inr (i, st\<lparr>nd_server := nd\<rparr>))"

definition addDirectConnection_code :: "net_env \<Rightarrow> u64 \<Rightarrow> node_main \<Rightarrow> (u16 \<times> node_main) result" where
  "addDirectConnection_code ne code st = addDirectConnection ne (epFromCode code) st"

definition getInviteCode :: "node_main \<Rightarrow> u64" where
  "getInviteCode st = inviteCode (nd_curEp st)"

definition main_uploadFile :: "string \<Rightarrow> node_main \<Rightarrow> node_main result" where
  "main_uploadFile path st = bindR (node_uploadFile path (nd_server st)) (\<lambda>nd. Inr (st\<lparr>nd_server := nd\<rparr>))"

definition main_downloadFile :: "net_env \<Rightarrow> string \<Rightarrow> node_main \<Rightarrow> node_main result" where
  "main_downloadFile ne path st =
     bindR (node_downloadFile ne path (nd_server st)) (\<lambda>nd. Inr (st\<lparr>nd_server := nd\<rparr>))"

section \<open>The command line\<close>

text \<open>
  An unsigned 16-bit number, as the GNU library reads it: beyond 65535 the largest value with the fail bit, after a
  minus sign the negation. The variable has no value of its own to keep.
\<close>

definition read_u16_fresh :: "istream \<Rightarrow> (u16 \<times> istream) result" where
  "read_u16_fresh s =
     (let t = skip_space s in
      if is_fail t then Inl Uninitialised
      else let neg = (hd (is_rest t) = CHR ''-'');
               signed = neg \<or> hd (is_rest t) = CHR ''+'';
               u = (if signed then tl (is_rest t) else is_rest t);
               ds = takeWhile is_digit u;
               rest = dropWhile is_digit u
           in if ds = [] then Inr (0, \<lparr>is_rest = rest, is_fail = True\<rparr>)
              else if 2 ^ 16 \<le> digits_value ds then Inr (- 1, \<lparr>is_rest = rest, is_fail = True\<rparr>)
              else Inr ((if neg then - word_of_nat (digits_value ds) else word_of_nat (digits_value ds)),
                        \<lparr>is_rest = rest, is_fail = False\<rparr>))"

definition importSettings :: "files \<Rightarrow> (string \<times> u16 \<times> string) result" where
  "importSettings disk =
     (case read_string (open_in disk ''./.settings'') [] of (localAddress, fin) \<Rightarrow>
      bindR (read_u16_fresh fin) (\<lambda>(port, fin).
      case read_string fin [] of (downloadsPath, fin) \<Rightarrow> Inr (localAddress, port, downloadsPath)))"

datatype main_output = HelpScreen | InfoScreen | Code string | NoSuchCommand | Quiet

text \<open>
  One turn of the loop of \<open>main\<close>: a command, its arguments, what it prints. \<open>None\<close> as the
  state is \<open>exit\<close>.
\<close>

definition main_turn ::
  "net_env \<Rightarrow> istream \<Rightarrow> node_main \<Rightarrow> (main_output \<times> istream \<times> node_main option) result" where
  "main_turn ne cin st =
     (case read_string cin [] of (command, cin) \<Rightarrow>
        if command = ''help'' then Inr (HelpScreen, cin, Some st)
        else if command = ''info'' then Inr (InfoScreen, cin, Some st)
        else if command = ''connect'' then
          (case readHex cin of (code, cin) \<Rightarrow>
           bindR (addDirectConnection_code ne code st) (\<lambda>(i, st). Inr (Quiet, cin, Some st)))
        else if command = ''exit'' then Inr (Quiet, cin, None)
        else if command = ''invite'' then Inr (Code (printHex (getInviteCode st)), cin, Some st)
        else if command = ''download'' then
          (case read_string cin [] of (path, cin) \<Rightarrow>
           bindR (main_downloadFile ne path st) (\<lambda>st. Inr (Quiet, cin, Some st)))
        else if command = ''upload'' then
          (case read_string cin [] of (path, cin) \<Rightarrow>
           bindR (main_uploadFile path st) (\<lambda>st. Inr (Quiet, cin, Some st)))
        else Inr (NoSuchCommand, cin, Some st))"

text \<open>
  The loop, with what it prints: \<open>None\<close> when \<open>n\<close> turns do not end it. Between two commands the
  update thread may take any number of turns, given for each command.
\<close>

fun update_turns :: "net_env list \<Rightarrow> node_main \<Rightarrow> node_main result" where
  "update_turns [] st = Inr st"
| "update_turns (ne # nes) st = bindR (update_turn ne st) (update_turns nes)"

fun main_loop ::
  "nat \<Rightarrow> (nat \<Rightarrow> net_env \<times> net_env list) \<Rightarrow> istream \<Rightarrow> node_main \<Rightarrow>
   main_output list \<Rightarrow> (main_output list \<times> node_main option) result" where
  "main_loop 0 turns cin st out = Inr (out, Some st)"
| "main_loop (Suc n) turns cin st out =
     bindR (update_turns (snd (turns n)) st) (\<lambda>st.
     bindR (main_turn (fst (turns n)) cin st) (\<lambda>(o1, cin, st').
       case st' of
         None \<Rightarrow> Inr (out @ [o1], None)
       | Some st \<Rightarrow> main_loop n turns cin st (out @ [o1])))"


text \<open>
  The settings file. An address without white space, a port and a path without white space, written in that
  order with white space between them, are read back as they are, whatever follows.
\<close>

theorem settings_roundtrip:
  "\<lbrakk>disk ''./.settings'' = Some (a @ '' '' @ to_string (unat (p :: u16)) @ [CHR 0x0A] @ d @ [CHR 0x0A] @ rest);
    word_text a; word_text d\<rbrakk> \<Longrightarrow>
   importSettings disk = Inr (a, p, d)"
proof -
  assume disk: "disk ''./.settings'' = Some (a @ '' '' @ to_string (unat p) @ [CHR 0x0A] @ d @ [CHR 0x0A] @ rest)"
    and a: "word_text a" and d: "word_text d"
  have sp: "list_all is_space []" "list_all is_space '' ''" "list_all is_space [CHR 0x0A]"
    "is_space (CHR '' '')" "is_space (CHR 0x0A)"
    by (simp_all add: is_space_def)
  have p: "unat p < 2 ^ 16" using unsigned_less [of p] by simp
  let ?num = "to_string (unat p)"
  let ?r = "[CHR 0x0A] @ d @ [CHR 0x0A] @ rest"
  have "hd (?num @ ?r) = hd ?num" by simp
  then have "is_digit (hd (?num @ ?r))" using hd_to_string by simp
  then have s: "hd (?num @ ?r) \<noteq> CHR ''-''" "hd (?num @ ?r) \<noteq> CHR ''+''" by (auto dest: sign_not_digit)
  have "?r = [] \<or> \<not> is_digit (hd ?r)" using digit_not_space sp(5) by auto
  note span = span_append [OF to_string_digits [of "unat p"] this]
  have num: "read_u16_fresh \<lparr>is_rest = '' '' @ ?num @ ?r, is_fail = False\<rparr> = Inr (p, \<lparr>is_rest = ?r, is_fail = False\<rparr>)"
    using s span p unfolding read_u16_fresh_def skip_space_word [OF sp(2) word_text_to_string]
    by (simp del: append_Cons append_Nil)
  have "read_string \<lparr>is_rest = [] @ a @ '' '' @ ?num @ ?r, is_fail = False\<rparr> [] =
      (a, \<lparr>is_rest = '' '' @ ?num @ ?r, is_fail = False\<rparr>)"
    using sp(1) a by (rule read_string_word) (simp add: sp)
  moreover have "read_string \<lparr>is_rest = ?r, is_fail = False\<rparr> [] = (d, \<lparr>is_rest = [CHR 0x0A] @ rest, is_fail = False\<rparr>)"
    using sp(3) d by (rule read_string_word) (simp add: sp)
  ultimately show ?thesis
    using num by (simp add: importSettings_def open_in_def disk)
qed

lemma settings_roundtrip_witness:
  "importSettings [''./.settings'' \<mapsto> ''0.0.0.0'' @ '' '' @ to_string (unat (1000 :: u16)) @ [CHR 0x0A] @ ''d/'' @ [CHR 0x0A] @ []] =
     Inr (''0.0.0.0'', 1000, ''d/'')"
proof (rule settings_roundtrip)
  show "word_text ''0.0.0.0''" "word_text ''d/''" by code_simp+
qed (simp only: fun_upd_same)

section \<open>The end of the input\<close>

definition exhausted :: "istream \<Rightarrow> bool" where
  "exhausted cin \<longleftrightarrow> is_fail cin \<or> list_all is_space (is_rest cin)"

lemma exhausted_read: "exhausted cin \<Longrightarrow> \<exists>cin'. read_string cin old = (old, cin') \<and> exhausted cin'"
proof -
  assume e: "exhausted cin"
  have "is_fail (skip_space cin)"
    using e by (auto simp: exhausted_def skip_space_def Let_def list_all_iff)
  then show ?thesis by (intro exI [of _ "skip_space cin"]) (simp add: read_string_def exhausted_def Let_def)
qed

lemma exhausted_turn:
  assumes "exhausted cin"
  shows "\<exists>cin'. main_turn ne cin st = Inr (NoSuchCommand, cin', Some st) \<and> exhausted cin'"
proof -
  obtain cin' where "read_string cin [] = ([], cin')" "exhausted cin'" using exhausted_read [OF assms] by blast
  then show ?thesis by (simp add: main_turn_def)
qed

text \<open>
  The command line does not notice the end of its input. Once the input is used up, the
  loop of \<open>main\<close> goes on for any number of turns, whatever the network does, printing that there is
  no such command; it never comes to its end.
\<close>

theorem input_end_spins:
  "exhausted cin \<Longrightarrow> main_loop n turns cin st out \<noteq> Inr (out', None)"
proof (induction n arbitrary: cin st out)
  case (Suc n)
  show ?case
  proof (cases "update_turns (snd (turns n)) st")
    case (Inr st1)
    obtain cin' where "main_turn (fst (turns n)) cin st1 = Inr (NoSuchCommand, cin', Some st1)" "exhausted cin'"
      using exhausted_turn [OF Suc.prems] by blast
    with Inr Suc.IH show ?thesis by simp
  qed simp
qed simp

lemma input_end_spins_witness:
  "\<nexists>out. main_loop 1000 (\<lambda>_. (sample_net, [])) \<lparr>is_rest = ''  '', is_fail = False\<rparr>
     (new_node_main sample_node) [] = Inr (out, None)"
  by (rule notI, erule exE, erule notE [OF input_end_spins, rotated]) (simp add: exhausted_def is_space_def)

end
