(* ===== verification/File_System_Props.thy ===== *)
theory File_System_Props
  imports File_System
begin

text \<open>
  What the file system guarantees: cutting a file into pieces and reading the catalogue
  entry back gives a complete file, merging the pieces restores the content (but for files
  whose size is a multiple of the piece size), and the operations of a download keep the
  states of the pieces truthful.
\<close>

section \<open>Paths\<close>

definition piecePath :: "string \<Rightarrow> nat \<Rightarrow> string" where
  "piecePath fileId i = DATA_PATH @ SEP @ fileId @ SEP @ to_string i @ DATA_FILETYPE"

lemma getPath_piecePath: "getPath fileId w = piecePath fileId (unat w)"
  by (simp add: getPath_def piecePath_def)

lemma piecePath_inject [simp]: "piecePath fileId i = piecePath fileId j \<longleftrightarrow> i = j"
  by (simp add: piecePath_def)

lemma infoPath_not_piece [simp]: "infoPath fileId \<noteq> piecePath fileId i"
  "piecePath fileId i \<noteq> infoPath fileId"
  by (simp_all add: infoPath_def piecePath_def SEP_def INFO_FILETYPE_def)

section \<open>Cutting a file\<close>

definition num_pieces :: "nat \<Rightarrow> string \<Rightarrow> nat" where
  "num_pieces ps content = (length content + ps - 1) div ps"

text \<open>The bytes that end up in piece \<open>i\<close>.\<close>

definition piece_bytes :: "nat \<Rightarrow> string \<Rightarrow> nat \<Rightarrow> string" where
  "piece_bytes ps content i =
     take (if i = num_pieces ps content - 1 then length content mod ps else ps)
       (drop (i * ps) content)"

definition piece_line :: "nat \<Rightarrow> string \<Rightarrow> nat \<Rightarrow> string" where
  "piece_line ps content i = (sha1_standard (piece_bytes ps content i) @ '' '') @
     (to_string (length (piece_bytes ps content i)) @ [CHR 0x0A])"

definition write_pieces :: "string \<Rightarrow> nat \<Rightarrow> string \<Rightarrow> nat \<Rightarrow> files \<Rightarrow> files" where
  "write_pieces fileId ps content k disk =
     fold (\<lambda>i d. d(piecePath fileId i \<mapsto> piece_bytes ps content i)) [0..<k] disk"

lemma num_pieces_bounds:
  assumes "0 < ps" and "i < num_pieces ps content"
  shows "i * ps < length content"
proof -
  have "Suc i \<le> (length content + ps - 1) div ps" using assms(2) by (simp add: num_pieces_def)
  then have "Suc i * ps \<le> length content + ps - 1"
    using assms(1) by (simp add: less_eq_div_iff_mult_less_eq)
  with assms(1) show ?thesis by simp
qed

lemma last_piece_start:
  assumes "0 < ps" and "content \<noteq> []"
  shows "length content - (num_pieces ps content - 1) * ps =
    (if length content mod ps = 0 then ps else length content mod ps)" (is "?r = _")
    and "0 < num_pieces ps content"
proof -
  let ?l = "length content"
  have l: "0 < ?l" using assms(2) by simp
  have "?l + ps - 1 = (?l - 1) + ps" using l by linarith
  then have "num_pieces ps content = ((?l - 1) + ps) div ps" by (simp only: num_pieces_def)
  also have "\<dots> = Suc ((?l - 1) div ps)" using assms(1) by (subst div_add_self2) simp_all
  finally have n: "num_pieces ps content = Suc ((?l - 1) div ps)" .
  then show "0 < num_pieces ps content" by simp
  show "?r = (if ?l mod ps = 0 then ps else ?l mod ps)"
  proof (cases "?l mod ps = 0")
    case True
    then obtain q where q: "?l = ps * q" by (auto elim: dvdE)
    with l obtain r where r: "q = Suc r" by (cases q) auto
    have "(?l - 1) div ps = r"
    proof (rule div_nat_eqI)
      show "ps * r \<le> ?l - 1" using q r assms(1) by simp
      show "?l - 1 < ps * Suc r" using q r l by simp
    qed
    with True q r n show ?thesis by simp
  next
    case False
    then have "(?l - 1) div ps = ?l div ps"
      using l assms(1) by (metis Suc_pred' div_Suc gr0I)
    with n False show ?thesis by (simp add: minus_div_mult_eq_mod [symmetric] mult.commute)
  qed
qed

lemma length_piece_bytes:
  assumes "0 < ps" and "i < num_pieces ps content"
  shows "length (piece_bytes ps content i) =
    (if i = num_pieces ps content - 1 then length content mod ps else ps)"
proof (cases "i = num_pieces ps content - 1")
  case True
  have "content \<noteq> []" using num_pieces_bounds [OF assms] by auto
  with last_piece_start(1) [OF assms(1)] True show ?thesis
    using mod_less_divisor [OF assms(1), of "length content"]
    by (auto simp: piece_bytes_def split: if_splits)
next
  case False
  then have "Suc i < num_pieces ps content" using assms(2) by simp
  from num_pieces_bounds [OF assms(1) this] False show ?thesis by (simp add: piece_bytes_def)
qed

lemma split_piece_step:
  assumes "0 < ps" and "i < num_pieces ps content"
  shows "split_piece fileId ps (length content) (num_pieces ps content) i
     (drop (i * ps) content, disk, info) =
   (drop (length (piece_bytes ps content i)) (drop (i * ps) content),
    disk(piecePath fileId i \<mapsto> piece_bytes ps content i),
    info @ piece_line ps content i)"
  using length_piece_bytes [OF assms]
  by (auto simp: split_piece_def Let_def piece_bytes_def piece_line_def piecePath_def
      from_file_standard)

lemma split_loop:
  assumes "0 < ps" and "k \<le> num_pieces ps content"
  shows "\<exists>rest. fold (split_piece fileId ps (length content) (num_pieces ps content)) [0..<k]
      (content, disk, info) =
    (rest, write_pieces fileId ps content k disk, info @ concat (map (piece_line ps content) [0..<k])) \<and>
    (k < num_pieces ps content \<longrightarrow> rest = drop (k * ps) content)"
  using assms(2)
proof (induction k)
  case 0
  then show ?case by (simp add: write_pieces_def)
next
  case (Suc k)
  then have k: "k < num_pieces ps content" by simp
  with Suc.IH have IH: "fold (split_piece fileId ps (length content) (num_pieces ps content)) [0..<k]
      (content, disk, info) = (drop (k * ps) content, write_pieces fileId ps content k disk,
        info @ concat (map (piece_line ps content) [0..<k]))" by auto
  have "Suc k < num_pieces ps content \<Longrightarrow> length (piece_bytes ps content k) = ps"
    using length_piece_bytes [OF assms(1) k] by (auto split: if_splits)
  moreover have "write_pieces fileId ps content (Suc k) disk =
      (write_pieces fileId ps content k disk)(piecePath fileId k \<mapsto> piece_bytes ps content k)"
    by (simp add: write_pieces_def)
  ultimately show ?case using IH split_piece_step [OF assms(1) k]
    by (simp del: fun_upd_apply add: add.commute)
qed

lemma write_pieces_lookup:
  "write_pieces fileId ps content k disk p =
     (if \<exists>i<k. p = piecePath fileId i
      then Some (piece_bytes ps content (THE i. p = piecePath fileId i)) else disk p)"
  by (induction k) (auto simp: write_pieces_def less_Suc_eq)

lemma write_pieces_piece [simp]:
  "i < k \<Longrightarrow> write_pieces fileId ps content k disk (piecePath fileId i) = Some (piece_bytes ps content i)"
  by (simp add: write_pieces_lookup)

section \<open>The pieces make up the file\<close>

lemma concat_chunks:
  "k * ps \<le> length content \<Longrightarrow>
     concat (map (\<lambda>i. take ps (drop (i * ps) content)) [0..<k]) = take (k * ps) content"
proof (induction k)
  case (Suc k)
  have "take (Suc k * ps) content = take (k * ps) content @ take ps (drop (k * ps) content)"
    using take_add [of "k * ps" ps content] by (simp add: add.commute)
  with Suc show ?case by simp
qed simp

lemma concat_pieces:
  assumes "0 < ps" and "content \<noteq> []"
  shows "concat (map (piece_bytes ps content) [0..<num_pieces ps content]) =
    (if length content mod ps = 0 then take (length content - ps) content else content)"
proof -
  define m where "m = num_pieces ps content - 1"
  note last = last_piece_start [OF assms]
  have n: "num_pieces ps content = Suc m" using last(2) by (simp add: m_def)
  have le: "m * ps \<le> length content"
    using num_pieces_bounds [OF assms(1), of m content] n by simp
  have "concat (map (piece_bytes ps content) [0..<m]) =
      concat (map (\<lambda>i. take ps (drop (i * ps) content)) [0..<m])"
    by (rule arg_cong [where f = concat]) (auto simp: piece_bytes_def n)
  moreover have "piece_bytes ps content m = take (length content mod ps) (drop (m * ps) content)"
    by (simp add: piece_bytes_def n)
  ultimately have c: "concat (map (piece_bytes ps content) [0..<num_pieces ps content]) =
      take (m * ps) content @ take (length content mod ps) (drop (m * ps) content)"
    by (simp only: n upt_Suc_append le0 map_append concat_append concat_chunks [OF le]) simp
  show ?thesis
  proof (cases "length content mod ps = 0")
    case True
    with last(1) n le have "m * ps = length content - ps" by simp
    with c True show ?thesis by simp
  next
    case False
    with last(1) n have "length content mod ps = length (drop (m * ps) content)" by simp
    with c False show ?thesis by simp
  qed
qed

lemma concat_pieces_Nil: "concat (map (piece_bytes ps []) xs) = []"
  by (induction xs) (simp_all add: piece_bytes_def)

section \<open>Reading the catalogue entry back\<close>

lemma word_text_hex: "word_text (hex_of_chain h)"
proof -
  have "length (hex_of_chain h) = 40" and c: "set (hex_of_chain h) \<subseteq> set ''0123456789abcdef''"
    using hex_of_chain_text by auto
  then have "hex_of_chain h \<noteq> []" by auto
  moreover have "\<forall>x \<in> set ''0123456789abcdef''. \<not> is_space x" by (simp add: is_space_def)
  ultimately show ?thesis using c by (auto simp: word_text_def list_all_iff)
qed

lemma word_text_standard: "word_text (sha1_standard m)"
  by (simp add: sha1_standard_def word_text_hex)

lemma word_text_from_file: "word_text (from_file files f)"
  by (simp add: from_file_standard word_text_standard)

abbreviation newline :: string where "newline \<equiv> [CHR 0x0A]"

lemma newline_space [simp]: "list_all is_space newline" "is_space (CHR 0x0A)"
    "is_space (CHR '' '')"
  by (simp_all add: is_space_def)

lemma max_pieces_less: "max_pieces < 2 ^ 64"
  by (simp add: max_pieces_def)

definition listed_piece :: "string \<Rightarrow> piece_info \<Rightarrow> piece_info" where
  "listed_piece bytes p =
     p\<lparr>pi_sha1 := sha1_standard bytes, pi_size := word_of_nat (length bytes)\<rparr>"

lemma read_pieces_lines:
  assumes "\<And>i. i \<in> set is \<Longrightarrow> length (piece_bytes ps content i) < 2 ^ 64"
  shows "read_pieces (map (\<lambda>_. p) is)
      \<lparr>is_rest = newline @ concat (map (piece_line ps content) is) @ r, is_fail = False\<rparr> =
    (map (\<lambda>i. listed_piece (piece_bytes ps content i) p) is,
     \<lparr>is_rest = newline @ r, is_fail = False\<rparr>)"
  using assms
proof (induction "is")
  case Nil
  then show ?case by simp
next
  case (Cons i "is")
  let ?b = "piece_bytes ps content i"
  let ?tail = "concat (map (piece_line ps content) is) @ r"
  have 1: "read_string \<lparr>is_rest = newline @ sha1_standard ?b @ ('' '' @ to_string (length ?b) @ newline @ ?tail),
      is_fail = False\<rparr> old = (sha1_standard ?b,
      \<lparr>is_rest = '' '' @ to_string (length ?b) @ (newline @ ?tail), is_fail = False\<rparr>)" for old
    by (rule read_string_word) (simp_all add: word_text_standard)
  have 2: "read_u64 \<lparr>is_rest = '' '' @ to_string (length ?b) @ (newline @ ?tail), is_fail = False\<rparr> old =
      (word_of_nat (length ?b), \<lparr>is_rest = newline @ ?tail, is_fail = False\<rparr>)" for old
    using Cons.prems [of i] by (intro read_u64_number) simp_all
  from Cons show ?case
    using 1 2 by (simp add: piece_line_def [of ps content i] listed_piece_def)
qed

lemma updateFullFile_written:
  assumes "fs_disk fs path = Some (fileId @ newline @ to_string n @ newline @
      concat (map (piece_line ps content) [0..<n]) @ r)"
    and "word_text fileId" and "n \<le> max_pieces" and "length content < 2 ^ 64"
    and "fs_filesInfo fs fileId = None"
  shows "\<exists>name. updateFullFile fs path = Inr (fs\<lparr>fs_filesInfo := (fs_filesInfo fs)(fileId \<mapsto>
    checkPieces fs \<lparr>fi_fileName = name, fi_fileId = fileId,
      fi_pieces = map (\<lambda>i. listed_piece (piece_bytes ps content i) default_piece) [0..<n]\<rparr>)\<rparr>)"
proof -
  let ?lines = "concat (map (piece_line ps content) [0..<n])"
  have n64: "n < 2 ^ 64" using assms(3) max_pieces_less by (rule le_less_trans)
  have len: "length (piece_bytes ps content i) < 2 ^ 64" for i
    using assms(4) by (simp add: piece_bytes_def)
  have 1: "read_string (open_in (fs_disk fs) path) [] =
      (fileId, \<lparr>is_rest = newline @ to_string n @ newline @ ?lines @ r, is_fail = False\<rparr>)"
    using read_string_word [of "[]" fileId "newline @ to_string n @ newline @ ?lines @ r" "[]"]
    by (simp add: open_in_def assms(1,2))
  have 2: "read_u64_fresh \<lparr>is_rest = newline @ to_string n @ newline @ ?lines @ r, is_fail = False\<rparr> =
      Inr (word_of_nat n, \<lparr>is_rest = newline @ ?lines @ r, is_fail = False\<rparr>)"
    by (rule read_u64_fresh_number [OF _ n64]) simp_all
  have u: "unat (word_of_nat n :: u64) = n" using n64 by (simp add: word_of_nat_unat_less)
  have 3: "read_pieces (resize n []) \<lparr>is_rest = newline @ ?lines @ r, is_fail = False\<rparr> =
      (map (\<lambda>i. listed_piece (piece_bytes ps content i) default_piece) [0..<n],
       \<lparr>is_rest = newline @ r, is_fail = False\<rparr>)"
    using read_pieces_lines [of "[0..<n]" ps content default_piece r] len
    by (simp add: resize_def map_replicate_const)
  from 1 2 3 u assms(3,5) show ?thesis
    by (auto simp: updateFullFile_def default_file_def split: prod.splits)
qed

lemma checkPieces_listed:
  assumes "\<And>i. i < n \<Longrightarrow> fs_disk fs (piecePath fileId i) = Some (bytes i)"
    and "n < 2 ^ 64"
    and "fi_pieces file = map (\<lambda>i. listed_piece (bytes i) default_piece) [0..<n]"
    and "fi_fileId file = fileId"
  shows "fi_pieces (checkPieces fs file) =
    map (\<lambda>i. (listed_piece (bytes i) default_piece)\<lparr>pi_state := PHave\<rparr>) [0..<n]"
proof -
  have "checkPiece fs file (word_of_nat i)" if "i < n" for i
  proof -
    have u: "unat (word_of_nat i :: u64) = i" using that assms(2) by (simp add: word_of_nat_unat_less)
    show ?thesis
      using that assms by (simp add: checkPiece_def Let_def u from_file_standard listed_piece_def
          flip: piecePath_def)
  qed
  with assms(3) show ?thesis by (simp add: checkPieces_def)
qed

section \<open>Uploading\<close>

lemma splitFile_writes:
  assumes "fs_disk fs path = Some content" and "path \<noteq> infoPath fileId" and "0 < ps"
  shows "splitFile fs path fileId ps = fs\<lparr>fs_disk :=
    (write_pieces fileId ps content (num_pieces ps content) ((fs_disk fs)(infoPath fileId \<mapsto> [])))
      (infoPath fileId \<mapsto> fileId @ newline @ to_string (num_pieces ps content) @ newline @
         concat (map (piece_line ps content) [0..<num_pieces ps content]) @ getFileName path)\<rparr>"
  using assms split_loop [OF assms(3) order_refl, of fileId content
      "(fs_disk fs)(infoPath fileId \<mapsto> [])"
      "(fileId @ newline) @ (to_string (num_pieces ps content) @ newline)"]
  by (auto simp: splitFile_def checkExists_def Let_def num_pieces_def)

lemma num_pieces_max:
  assumes "length content < 2 ^ 64"
  shows "num_pieces PIECE_SIZE content \<le> max_pieces"
proof -
  have "num_pieces PIECE_SIZE content * PIECE_SIZE \<le> length content + PIECE_SIZE - 1"
    unfolding num_pieces_def by (rule div_times_less_eq_dividend)
  with assms show ?thesis by (simp add: PIECE_SIZE_def max_pieces_def)
qed

lemma uploadFile_result:
  assumes "fs_disk fs path = Some content" and "length content < 2 ^ 64"
    and "sha = from_file (fs_disk fs) path" and "fs_filesInfo fs sha = None"
    and "path \<noteq> infoPath sha"
  shows "\<exists>fs' file. uploadFile fs path = Inr fs' \<and>
    fs_filesInfo fs' = (fs_filesInfo fs)(sha \<mapsto> file) \<and> fs_filesPath fs' = fs_filesPath fs \<and>
    fi_fileId file = sha \<and>
    fi_pieces file = map (\<lambda>i. (listed_piece (piece_bytes PIECE_SIZE content i) default_piece)
      \<lparr>pi_state := PHave\<rparr>) [0..<num_pieces PIECE_SIZE content] \<and>
    (\<forall>i. i < num_pieces PIECE_SIZE content \<longrightarrow>
       fs_disk fs' (piecePath sha i) = Some (piece_bytes PIECE_SIZE content i))"
proof -
  let ?n = "num_pieces PIECE_SIZE content"
  let ?fs = "splitFile fs path sha PIECE_SIZE"
  have ps: "0 < PIECE_SIZE" by (simp add: PIECE_SIZE_def)
  note split = splitFile_writes [OF assms(1,5) ps]
  have n: "?n \<le> max_pieces" by (rule num_pieces_max [OF assms(2)])
  have disk: "fs_disk ?fs (infoPath sha) = Some (sha @ newline @ to_string ?n @ newline @
      concat (map (piece_line PIECE_SIZE content) [0..<?n]) @ getFileName path)"
    by (simp add: split)
  have pieces: "fs_disk ?fs (piecePath sha i) = Some (piece_bytes PIECE_SIZE content i)"
    if "i < ?n" for i using that by (simp add: split)
  have "fs_filesInfo ?fs sha = None" using assms(4) by (simp add: split)
  from updateFullFile_written [OF disk _ n assms(2) this] obtain name where
    upd: "updateFullFile ?fs (infoPath sha) = Inr (?fs\<lparr>fs_filesInfo := (fs_filesInfo ?fs)(sha \<mapsto>
      checkPieces ?fs \<lparr>fi_fileName = name, fi_fileId = sha, fi_pieces =
        map (\<lambda>i. listed_piece (piece_bytes PIECE_SIZE content i) default_piece) [0..<?n]\<rparr>)\<rparr>)"
    using word_text_from_file assms(3) by auto
  let ?file = "\<lparr>fi_fileName = name, fi_fileId = sha, fi_pieces =
        map (\<lambda>i. listed_piece (piece_bytes PIECE_SIZE content i) default_piece) [0..<?n]\<rparr>"
  have "fi_pieces (checkPieces ?fs ?file) = map (\<lambda>i. (listed_piece (piece_bytes PIECE_SIZE content i)
      default_piece)\<lparr>pi_state := PHave\<rparr>) [0..<?n]"
    using pieces le_less_trans [OF n max_pieces_less] by (intro checkPieces_listed) simp_all
  moreover have "uploadFile fs path = updateFullFile ?fs (infoPath sha)"
    using assms(1,3,4) by (simp add: uploadFile_def checkExists_def Let_def)
  ultimately show ?thesis using upd pieces by (auto simp: split checkPieces_def)
qed



section \<open>Merging\<close>

lemma copy_pieces_all:
  assumes "\<And>p. p \<in> set ps \<Longrightarrow> disk p = Some (bytes p)"
    and "\<And>p. p \<in> set (butlast ps) \<Longrightarrow> bytes p \<noteq> []"
  shows "fst (copy_pieces disk ps (w, False)) = w @ concat (map bytes ps)"
  using assms
proof (induction ps arbitrary: w)
  case (Cons p ps)
  show ?case
  proof (cases "ps = []")
    case True
    with Cons.prems(1) show ?thesis by simp
  next
    case False
    with Cons.prems(2) have "bytes p \<noteq> []" by simp
    moreover have "fst (copy_pieces disk ps (w @ bytes p, False)) = (w @ bytes p) @ concat (map bytes ps)"
      using Cons.prems False by (intro Cons.IH) auto
    ultimately show ?thesis using Cons.prems(1) by simp
  qed
qed simp

lemma mergePieces_concat:
  assumes "\<And>i. i < n \<Longrightarrow> fs_disk fs (piecePath (fi_fileId file) i) = Some (bytes i)"
    and "\<And>i. Suc i < n \<Longrightarrow> bytes i \<noteq> []"
    and "length (fi_pieces file) = n" and "n < 2 ^ 64"
    and "\<And>i. fs_filesPath fs @ SEP @ fi_fileName file \<noteq> piecePath (fi_fileId file) i"
  shows "fs_disk (mergePieces fs file) (fs_filesPath fs @ SEP @ fi_fileName file) =
    Some (concat (map bytes [0..<n]))"
proof -
  let ?out = "fs_filesPath fs @ SEP @ fi_fileName file"
  let ?path = "\<lambda>i. piecePath (fi_fileId file) i"
  define D where "D = (fs_disk fs)(?out \<mapsto> [])"
  have paths: "map (\<lambda>i. getPath (fi_fileId file) (word_of_nat i)) [0..<n] = map ?path [0..<n]"
    using assms(4) by (auto simp: getPath_piecePath word_of_nat_unat_less)
  have D: "D (?path i) = Some (bytes i)" if "i < n" for i
    using assms(1) that assms(5) [of i] by (simp add: D_def)
  have "butlast [0..<n] = [0..<n - 1]" by (cases n) simp_all
  then have bl: "p \<in> set (butlast (map ?path [0..<n])) \<Longrightarrow> \<exists>i. p = ?path i \<and> Suc i < n" for p
    by (auto simp flip: map_butlast)
  have "fst (copy_pieces D (map ?path [0..<n]) ([], False)) =
      [] @ concat (map (\<lambda>p. the (D p)) (map ?path [0..<n]))"
  proof (rule copy_pieces_all)
    fix p assume "p \<in> set (map ?path [0..<n])"
    then show "D p = Some (the (D p))" using D by auto
  next
    fix p assume "p \<in> set (butlast (map ?path [0..<n]))"
    then show "the (D p) \<noteq> []" using bl assms(2) D by (metis Suc_lessD option.sel)
  qed
  also have "map (\<lambda>p. the (D p)) (map ?path [0..<n]) = map bytes [0..<n]"
    using D by simp
  finally show ?thesis
    by (simp add: mergePieces_def Let_def assms(3) paths flip: D_def)
qed

text \<open>The merged file is the uploaded one, but for the sizes where the last piece is empty.\<close>

lemma upload_merge:
  assumes "fs_disk fs path = Some content" and "length content < 2 ^ 64"
    and "sha = from_file (fs_disk fs) path" and "fs_filesInfo fs sha = None"
    and "path \<noteq> infoPath sha"
    and "\<And>name i. fs_filesPath fs @ SEP @ name \<noteq> piecePath sha i"
  shows "\<exists>fs' file. uploadFile fs path = Inr fs' \<and> checkFile fs' sha \<and>
    fs_filesInfo fs' sha = Some file \<and>
    fs_disk (mergePieces fs' file) (fs_filesPath fs @ SEP @ fi_fileName file) =
      Some (if content \<noteq> [] \<and> length content mod PIECE_SIZE = 0
            then take (length content - PIECE_SIZE) content else content)"
proof -
  let ?n = "num_pieces PIECE_SIZE content"
  have ps: "0 < PIECE_SIZE" by (simp add: PIECE_SIZE_def)
  obtain fs' entry where up: "uploadFile fs path = Inr fs'"
      "fs_filesInfo fs' = (fs_filesInfo fs)(sha \<mapsto> entry)" "fs_filesPath fs' = fs_filesPath fs"
      "fi_fileId entry = sha"
      "fi_pieces entry = map (\<lambda>i. (listed_piece (piece_bytes PIECE_SIZE content i) default_piece)
        \<lparr>pi_state := PHave\<rparr>) [0..<?n]"
      "\<forall>i. i < ?n \<longrightarrow> fs_disk fs' (piecePath sha i) = Some (piece_bytes PIECE_SIZE content i)"
    using uploadFile_result [OF assms(1-5)] by auto
  have ne: "piece_bytes PIECE_SIZE content i \<noteq> []" if "Suc i < ?n" for i
    using length_piece_bytes [OF ps, of i content] that ps by (auto split: if_splits)
  have n: "?n < 2 ^ 64" by (rule le_less_trans [OF num_pieces_max [OF assms(2)] max_pieces_less])
  have "fs_disk (mergePieces fs' entry) (fs_filesPath fs' @ SEP @ fi_fileName entry) =
      Some (concat (map (piece_bytes PIECE_SIZE content) [0..<?n]))"
    using up assms(6) ne n by (intro mergePieces_concat) simp_all
  moreover have "concat (map (piece_bytes PIECE_SIZE content) [0..<?n]) =
      (if content \<noteq> [] \<and> length content mod PIECE_SIZE = 0
       then take (length content - PIECE_SIZE) content else content)"
    using concat_pieces [OF ps, of content] by (cases "content = []") (simp_all add: concat_pieces_Nil)
  moreover have "checkFile fs' sha" using up(2,5) by (simp add: checkFile_def list_all_iff)
  ultimately show ?thesis using up by auto
qed



text \<open>
  A file whose size is a positive multiple of the piece size is cut with an empty last
  piece: the node catalogues it as complete, but its last 262144 bytes are in no piece and
  the merged file is that much shorter.
\<close>

theorem upload_multiple_loses_last_piece:
  assumes "fs_disk fs path = Some content" and "length content < 2 ^ 64"
    and "sha = from_file (fs_disk fs) path" and "fs_filesInfo fs sha = None"
    and "path \<noteq> infoPath sha"
    and "\<And>name i. fs_filesPath fs @ SEP @ name \<noteq> piecePath sha i"
    and "content \<noteq> []" and "length content mod PIECE_SIZE = 0"
  shows "\<exists>fs' file. uploadFile fs path = Inr fs' \<and> checkFile fs' sha \<and>
    fs_filesInfo fs' sha = Some file \<and>
    fs_disk (mergePieces fs' file) (fs_filesPath fs @ SEP @ fi_fileName file) =
      Some (take (length content - PIECE_SIZE) content)"
  using upload_merge [OF assms(1-6)] assms(7,8) by auto

lemma upload_multiple_loses_last_piece_witness:
  "\<exists>fs' file. uploadFile \<lparr>fs_filesPath = ''D'', fs_filesInfo = Map.empty,
      fs_disk = [''f'' \<mapsto> replicate PIECE_SIZE (CHR ''a'')]\<rparr> ''f'' = Inr fs' \<and>
    fs_disk (mergePieces fs' file) (''D'' @ SEP @ fi_fileName file) = Some []"
  using upload_multiple_loses_last_piece [of "\<lparr>fs_filesPath = ''D'', fs_filesInfo = Map.empty,
      fs_disk = [''f'' \<mapsto> replicate PIECE_SIZE (CHR ''a'')]\<rparr>" "''f''" "replicate PIECE_SIZE (CHR ''a'')"]
  by (auto simp: infoPath_def piecePath_def DATA_PATH_def PIECE_SIZE_def)

section \<open>Downloading: handing out and checking pieces\<close>

lemma find_none_Some:
  "find_none ps k = Some j \<Longrightarrow> \<exists>i. j = k + i \<and> i < length ps \<and> pi_state (ps ! i) = PNone \<and>
     (\<forall>h<i. pi_state (ps ! h) \<noteq> PNone)"
proof (induction ps arbitrary: k)
  case (Cons p ps)
  show ?case
  proof (cases "pi_state p = PNone")
    case True
    with Cons.prems show ?thesis by auto
  next
    case False
    with Cons.prems have "find_none ps (Suc k) = Some j" by simp
    from Cons.IH [OF this] obtain i where "j = Suc k + i" "i < length ps" "pi_state (ps ! i) = PNone"
        "\<forall>h<i. pi_state (ps ! h) \<noteq> PNone" by auto
    with False show ?thesis by (intro exI [of _ "Suc i"]) (auto simp: nth_Cons split: nat.splits)
  qed
qed simp

lemma find_none_None: "find_none ps k = None \<longleftrightarrow> (\<forall>p \<in> set ps. pi_state p \<noteq> PNone)"
  by (induction ps arbitrary: k) auto

definition mark_open :: "u64 \<Rightarrow> piece_info \<Rightarrow> piece_info" where
  "mark_open clock p = p\<lparr>pi_state := POpen, pi_lastTime := clock\<rparr>"

lemma getNonePiece_cases:
  "case fs_filesInfo fs fileId of
     None \<Rightarrow> getNonePiece fs fileId clock = (- 1, fs)
   | Some file \<Rightarrow>
       if list_all (\<lambda>p. pi_state p \<noteq> PNone) (fi_pieces file)
       then getNonePiece fs fileId clock = (- 1, fs)
       else (\<exists>i. i < length (fi_pieces file) \<and> pi_state (fi_pieces file ! i) = PNone \<and>
               list_all (\<lambda>p. pi_state p \<noteq> PNone) (take i (fi_pieces file)) \<and>
               getNonePiece fs fileId clock = (word_of_nat i,
                 fs\<lparr>fs_filesInfo := (fs_filesInfo fs)(fileId \<mapsto>
                   file\<lparr>fi_pieces := (fi_pieces file)[i := mark_open clock (fi_pieces file ! i)]\<rparr>)\<rparr>))"
proof (cases "fs_filesInfo fs fileId")
  case (Some entry)
  show ?thesis
  proof (cases "find_none (fi_pieces entry) 0")
    case None
    then have "list_all (\<lambda>p. pi_state p \<noteq> PNone) (fi_pieces entry)"
      by (simp add: find_none_None list_all_iff)
    with Some None show ?thesis by (simp add: getNonePiece_def)
  next
    case f: (Some j)
    with find_none_Some [OF f] Some show ?thesis
      by (auto simp: getNonePiece_def list_all_length mark_open_def)
  qed
qed (simp add: getNonePiece_def)

subsection \<open>Runs of the download operations\<close>

datatype download_op = GetNone string u64 | Add string u64

fun download_step :: "file_system \<Rightarrow> download_op \<Rightarrow> file_system" where
  "download_step fs (GetNone fileId clock) = snd (getNonePiece fs fileId clock)"
| "download_step fs (Add fileId pieceId) = addPiece fs fileId pieceId"

text \<open>
  \<open>getNonePiece\<close> hands out the first piece nobody holds or fetches and marks only that
  piece as being fetched; it returns -1 and changes nothing exactly when the file is unknown
  or has no such piece.
\<close>

theorem getNonePiece_spec:
  "case fs_filesInfo fs fileId of
     None \<Rightarrow> getNonePiece fs fileId clock = (- 1, fs)
   | Some file \<Rightarrow>
       if list_all (\<lambda>p. pi_state p \<noteq> PNone) (fi_pieces file)
       then getNonePiece fs fileId clock = (- 1, fs)
       else (\<exists>i. i < length (fi_pieces file) \<and> pi_state (fi_pieces file ! i) = PNone \<and>
               list_all (\<lambda>p. pi_state p \<noteq> PNone) (take i (fi_pieces file)) \<and>
               getNonePiece fs fileId clock = (word_of_nat i,
                 fs\<lparr>fs_filesInfo := (fs_filesInfo fs)(fileId \<mapsto>
                   file\<lparr>fi_pieces := (fi_pieces file)[i := mark_open clock (fi_pieces file ! i)]\<rparr>)\<rparr>))"
  by (rule getNonePiece_cases)

definition piece_at :: "file_system \<Rightarrow> string \<Rightarrow> nat \<Rightarrow> piece_info option" where
  "piece_at fs fileId i =
     (case fs_filesInfo fs fileId of None \<Rightarrow> None
      | Some file \<Rightarrow> if i < length (fi_pieces file) then Some (fi_pieces file ! i) else None)"

lemma mergePieces_info [simp]:
  "fs_filesInfo (mergePieces fs file) = fs_filesInfo fs"
  "fs_filesPath (mergePieces fs file) = fs_filesPath fs"
  by (simp_all add: mergePieces_def Let_def)

lemma getNonePiece_piece_at:
  "piece_at (snd (getNonePiece fs fileId clock)) f i = piece_at fs f i \<or>
   (\<exists>p. piece_at fs f i = Some p \<and> pi_state p = PNone \<and>
        piece_at (snd (getNonePiece fs fileId clock)) f i = Some (mark_open clock p))"
  using getNonePiece_cases [of fs fileId clock]
  by (cases "fs_filesInfo fs fileId")
    (auto simp: piece_at_def nth_list_update split: if_splits option.splits)

lemma addPiece_piece_at:
  "piece_at (addPiece fs fileId w) f i =
     (if f = fileId \<and> i = unat w
      then map_option (\<lambda>p. p\<lparr>pi_state := (if checkPiece fs (the (fs_filesInfo fs fileId)) w
             then PHave else PNone)\<rparr>) (piece_at fs f i)
      else piece_at fs f i)"
  by (auto simp: addPiece_def piece_at_def Let_def nth_list_update split: option.splits)

lemma download_step_open:
  assumes "piece_at fs f i = Some p" and "pi_state p = POpen"
    and "\<And>w. op = Add f w \<Longrightarrow> unat w \<noteq> i"
  shows "piece_at (download_step fs op) f i = Some p"
proof (cases op)
  case (GetNone g clock)
  with assms(1,2) getNonePiece_piece_at [of fs g clock f i] show ?thesis by auto
next
  case (Add g w)
  with assms addPiece_piece_at [of fs g w f i] show ?thesis by auto
qed

text \<open>
  A piece that has been handed out stays reserved: whatever pieces are asked for and
  whatever other pieces arrive, it is not handed out again and the file does not become
  complete until that very piece is checked. Nothing in the file system takes it back, so
  a peer that disappears while it holds a piece leaves the file incomplete for good.
\<close>

theorem open_piece_stays_open:
  assumes "piece_at fs f i = Some p" and "pi_state p = POpen"
    and "\<And>w. Add f w \<in> set ops \<Longrightarrow> unat w \<noteq> i"
  shows "piece_at (fold (\<lambda>op fs. download_step fs op) ops fs) f i = Some p \<and>
    \<not> checkFile (fold (\<lambda>op fs. download_step fs op) ops fs) f"
proof -
  have "piece_at (fold (\<lambda>op fs. download_step fs op) ops fs) f i = Some p"
    using assms
  proof (induction ops arbitrary: fs)
    case (Cons op ops)
    then have "piece_at (download_step fs op) f i = Some p" by (intro download_step_open) auto
    with Cons show ?case by auto
  qed simp
  moreover from this assms(2) have "\<not> checkFile (fold (\<lambda>op fs. download_step fs op) ops fs) f"
    by (auto simp: checkFile_def piece_at_def list_all_length split: option.splits if_splits)
  ultimately show ?thesis by simp
qed

lemma open_piece_stays_open_witness:
  "\<not> checkFile (fold (\<lambda>op fs. download_step fs op) [GetNone ''x'' 5, Add ''x'' 0]
     \<lparr>fs_filesPath = ''D'', fs_filesInfo = [''x'' \<mapsto> \<lparr>fi_fileName = ''n'', fi_fileId = ''x'',
        fi_pieces = [default_piece, default_piece\<lparr>pi_state := POpen\<rparr>]\<rparr>], fs_disk = Map.empty\<rparr>) ''x''"
  using open_piece_stays_open [of "\<lparr>fs_filesPath = ''D'', fs_filesInfo = [''x'' \<mapsto> \<lparr>fi_fileName = ''n'',
      fi_fileId = ''x'', fi_pieces = [default_piece, default_piece\<lparr>pi_state := POpen\<rparr>]\<rparr>],
      fs_disk = Map.empty\<rparr>" "''x''" 1 "default_piece\<lparr>pi_state := POpen\<rparr>"
      "[GetNone ''x'' 5, Add ''x'' 0]"]
  by (simp add: piece_at_def)

subsection \<open>The states of the pieces are truthful\<close>

definition fs_truthful :: "file_system \<Rightarrow> bool" where
  "fs_truthful fs \<longleftrightarrow> (\<forall>f file w. fs_filesInfo fs f = Some file \<longrightarrow> unat w < length (fi_pieces file) \<longrightarrow>
     pi_state (fi_pieces file ! unat w) = PHave \<longrightarrow> checkPiece fs file w)"

text \<open>The directory of finished downloads is not one that holds pieces.\<close>

definition downloads_apart :: "file_system \<Rightarrow> bool" where
  "downloads_apart fs \<longleftrightarrow> (\<forall>name f i. fs_filesPath fs @ SEP @ name \<noteq> piecePath f i)"

lemma checkPiece_iff:
  "checkPiece fs file w =
     (case fs_disk fs (piecePath (fi_fileId file) (unat w)) of None \<Rightarrow> False
      | Some content \<Rightarrow> word_of_nat (length content) = pi_size (fi_pieces file ! unat w) \<and>
          sha1_standard content = pi_sha1 (fi_pieces file ! unat w))"
  by (simp add: checkPiece_def Let_def from_file_standard piecePath_def split: option.splits)

lemma checkPiece_cong:
  assumes "fi_fileId g = fi_fileId f" and "pi_size (fi_pieces g ! unat w) = pi_size (fi_pieces f ! unat w)"
    and "pi_sha1 (fi_pieces g ! unat w) = pi_sha1 (fi_pieces f ! unat w)"
    and "fs_disk fs' (piecePath (fi_fileId f) (unat w)) = fs_disk fs (piecePath (fi_fileId f) (unat w))"
  shows "checkPiece fs' g w = checkPiece fs f w"
  by (simp only: checkPiece_iff assms)

lemma mergePieces_disk: "downloads_apart fs \<Longrightarrow>
    fs_disk (mergePieces fs file) (piecePath f i) = fs_disk fs (piecePath f i)"
  by (auto simp: downloads_apart_def mergePieces_def Let_def dest: sym)

lemma addPiece_disk: "downloads_apart fs \<Longrightarrow>
    fs_disk (addPiece fs f w) (piecePath g i) = fs_disk fs (piecePath g i)"
proof -
  assume "downloads_apart fs"
  then have "downloads_apart (fs\<lparr>fs_filesInfo := m\<rparr>)" for m by (simp add: downloads_apart_def)
  from mergePieces_disk [OF this] show ?thesis
    by (simp add: addPiece_def Let_def split: option.splits)
qed

definition set_state :: "nat \<Rightarrow> piece_state \<Rightarrow> file_info \<Rightarrow> file_info" where
  "set_state i st file = file\<lparr>fi_pieces := (fi_pieces file)[i := (fi_pieces file ! i)\<lparr>pi_state := st\<rparr>]\<rparr>"

lemma addPiece_info:
  "fs_filesInfo (addPiece fs f w) =
     (case fs_filesInfo fs f of None \<Rightarrow> fs_filesInfo fs
      | Some file \<Rightarrow> if length (fi_pieces file) \<le> unat w then fs_filesInfo fs
          else (fs_filesInfo fs)(f \<mapsto> set_state (unat w)
            (if checkPiece fs file w then PHave else PNone) file))"
  by (simp add: addPiece_def set_state_def Let_def split: option.splits)

lemma addPiece_truthful:
  assumes "fs_truthful fs" and "downloads_apart fs"
  shows "fs_truthful (addPiece fs f w)"
  unfolding fs_truthful_def
proof (intro allI impI)
  fix g entry and v :: u64
  assume info: "fs_filesInfo (addPiece fs f w) g = Some entry"
    and v: "unat v < length (fi_pieces entry)" and hv: "pi_state (fi_pieces entry ! unat v) = PHave"
  have disk: "fs_disk (addPiece fs f w) (piecePath h i) = fs_disk fs (piecePath h i)" for h i
    by (rule addPiece_disk [OF assms(2)])
  show "checkPiece (addPiece fs f w) entry v"
  proof (cases "fs_filesInfo fs g = Some entry")
    case True
    with assms(1) v hv have "checkPiece fs entry v" by (simp add: fs_truthful_def)
    with checkPiece_cong [OF refl refl refl disk] show ?thesis by blast
  next
    case False
    with info obtain old where old: "fs_filesInfo fs f = Some old" "g = f"
        "unat w < length (fi_pieces old)"
        "entry = set_state (unat w) (if checkPiece fs old w then PHave else PNone) old"
      by (auto simp: addPiece_info split: option.splits if_splits)
    have "checkPiece fs old v"
    proof (cases "v = w")
      case True
      with hv old show ?thesis by (auto simp: set_state_def split: if_splits)
    next
      case False
      then have "unat v \<noteq> unat w" by (simp add: word_unat_eq_iff)
      with hv v old assms(1) show ?thesis by (auto simp: fs_truthful_def set_state_def)
    qed
    moreover have "checkPiece (addPiece fs f w) entry v = checkPiece fs old v"
      by (rule checkPiece_cong)
        (auto simp: old(4) set_state_def disk nth_list_update old(3))
    ultimately show ?thesis by simp
  qed
qed

lemma getNonePiece_truthful:
  assumes "fs_truthful fs"
  shows "fs_truthful (snd (getNonePiece fs f clock))"
proof (cases "snd (getNonePiece fs f clock) = fs")
  case False
  then obtain old i where old: "fs_filesInfo fs f = Some old" "i < length (fi_pieces old)"
      "snd (getNonePiece fs f clock) = fs\<lparr>fs_filesInfo := (fs_filesInfo fs)(f \<mapsto>
         old\<lparr>fi_pieces := (fi_pieces old)[i := mark_open clock (fi_pieces old ! i)]\<rparr>)\<rparr>"
    using getNonePiece_cases [of fs f clock] by (auto split: option.splits if_splits)
  have "checkPiece (fs\<lparr>fs_filesInfo := m\<rparr>) g w = checkPiece fs g w" for m g w
    by (rule checkPiece_cong) simp_all
  moreover have "checkPiece fs (old\<lparr>fi_pieces := (fi_pieces old)[i := mark_open clock (fi_pieces old ! i)]\<rparr>) w
      = checkPiece fs old w" for w
    by (rule checkPiece_cong) (simp_all add: nth_list_update mark_open_def old(2))
  ultimately show ?thesis
    using assms old(1,2) unfolding fs_truthful_def old(3)
    by (auto simp: nth_list_update mark_open_def split: if_splits)
qed (simp add: assms)

lemma download_step_truthful:
  "fs_truthful fs \<Longrightarrow> downloads_apart fs \<Longrightarrow>
     fs_truthful (download_step fs op) \<and> downloads_apart (download_step fs op)"
proof -
  assume t: "fs_truthful fs" and a: "downloads_apart fs"
  have "fs_filesPath (download_step fs op) = fs_filesPath fs"
    by (cases op) (simp_all add: getNonePiece_def addPiece_def Let_def split: option.splits)
  with a have "downloads_apart (download_step fs op)" by (simp add: downloads_apart_def)
  moreover have "fs_truthful (download_step fs op)"
    using addPiece_truthful [OF t a] getNonePiece_truthful [OF t] by (cases op) simp_all
  ultimately show ?thesis by simp
qed



section \<open>From the uploader's catalogue to the downloader's\<close>

definition info_text :: "string \<Rightarrow> nat \<Rightarrow> string \<Rightarrow> string \<Rightarrow> string" where
  "info_text fileId ps content name = fileId @ newline @ to_string (num_pieces ps content) @ newline @
     concat (map (piece_line ps content) [0..<num_pieces ps content]) @ name"

lemma read_info_head:
  assumes "word_text fileId" and "num_pieces ps content < 2 ^ 64"
    and "fs_disk fs path = Some (info_text fileId ps content name)"
  shows "\<exists>s s'. read_string (open_in (fs_disk fs) path) [] = (fileId, s) \<and>
    read_u64_fresh s = Inr (word_of_nat (num_pieces ps content), s')"
proof -
  let ?r = "concat (map (piece_line ps content) [0..<num_pieces ps content]) @ name"
  let ?n = "to_string (num_pieces ps content)"
  have "read_string (open_in (fs_disk fs) path) [] =
      (fileId, \<lparr>is_rest = newline @ ?n @ newline @ ?r, is_fail = False\<rparr>)"
    using read_string_word [of "[]" fileId "newline @ ?n @ newline @ ?r" "[]"]
    by (simp add: open_in_def assms(1,3) info_text_def)
  moreover have "read_u64_fresh \<lparr>is_rest = newline @ ?n @ newline @ ?r, is_fail = False\<rparr> =
      Inr (word_of_nat (num_pieces ps content), \<lparr>is_rest = newline @ ?r, is_fail = False\<rparr>)"
    by (rule read_u64_fresh_number [OF _ assms(2)]) simp_all
  ultimately show ?thesis by blast
qed

text \<open>
  The \<open>.info\<close> file carries the catalogue entry to another node: \<open>addFile\<close> on the text
  that \<open>splitFile\<close> wrote returns the file's id and enters a file with the same pieces, each
  with the size and the SHA-1 of the uploader's piece, in order.
\<close>

theorem addFile_reads_uploaded_info:
  assumes "fs_disk fs path = Some (info_text fileId ps content name)"
    and "word_text fileId" and "num_pieces ps content \<le> max_pieces" and "length content < 2 ^ 64"
    and "fs_filesInfo fs fileId = None" and "path \<noteq> infoPath fileId"
  shows "\<exists>fs' file. addFile fs path = Inr (fileId, fs') \<and> fs_filesInfo fs' fileId = Some file \<and>
    map (\<lambda>p. (pi_size p, pi_sha1 p)) (fi_pieces file) =
    map (\<lambda>i. (word_of_nat (length (piece_bytes ps content i)), sha1_standard (piece_bytes ps content i)))
      [0..<num_pieces ps content]"
proof -
  let ?n = "num_pieces ps content"
  have n: "?n < 2 ^ 64" using assms(3) max_pieces_less by (rule le_less_trans)
  obtain s s' where head: "read_string (open_in (fs_disk fs) path) [] = (fileId, s)"
      "read_u64_fresh s = Inr (word_of_nat ?n, s')"
    using read_info_head [OF assms(2) n assms(1)] by blast
  define fs1 where "fs1 = fs\<lparr>fs_disk := (fs_disk fs)(infoPath fileId \<mapsto>
      fileId @ '' '' @ to_string (unat (word_of_nat ?n :: u64)) @ is_rest s')\<rparr>"
  have "fs_disk fs1 path = Some (fileId @ newline @ to_string ?n @ newline @
      concat (map (piece_line ps content) [0..<?n]) @ name)"
    using assms(1,6) by (simp add: fs1_def info_text_def)
  moreover have "fs_filesInfo fs1 fileId = None" using assms(5) by (simp add: fs1_def)
  ultimately obtain nm where upd: "updateFullFile fs1 path = Inr (fs1\<lparr>fs_filesInfo := (fs_filesInfo fs1)(fileId \<mapsto>
      checkPieces fs1 \<lparr>fi_fileName = nm, fi_fileId = fileId,
        fi_pieces = map (\<lambda>i. listed_piece (piece_bytes ps content i) default_piece) [0..<?n]\<rparr>)\<rparr>)"
    using updateFullFile_written [of fs1 path fileId ?n ps content name] assms(2-4) by auto
  have "addFile fs path = bindR (updateFullFile fs1 path) (\<lambda>fs''. Inr (fileId, fs''))"
    using head assms(1,5) by (simp add: addFile_def checkExists_def fs1_def Let_def)
  with upd show ?thesis
    by (simp add: checkPieces_def listed_piece_def)
qed

lemma addFile_reads_uploaded_info_witness:
  "\<exists>fs' file. addFile \<lparr>fs_filesPath = ''D'', fs_filesInfo = Map.empty,
      fs_disk = [''f'' \<mapsto> info_text ''0a'' 2 ''hello'' ''n'']\<rparr> ''f'' = Inr (''0a'', fs') \<and>
    fs_filesInfo fs' ''0a'' = Some file \<and> map pi_size (fi_pieces file) = [2, 2, 1]"
proof -
  have n: "num_pieces 2 ''hello'' = 3" by (simp add: num_pieces_def)
  have "\<exists>fs' file. addFile \<lparr>fs_filesPath = ''D'', fs_filesInfo = Map.empty,
      fs_disk = [''f'' \<mapsto> info_text ''0a'' 2 ''hello'' ''n'']\<rparr> ''f'' = Inr (''0a'', fs') \<and>
    fs_filesInfo fs' ''0a'' = Some file \<and>
    map (\<lambda>p. (pi_size p, pi_sha1 p)) (fi_pieces file) =
    map (\<lambda>i. (word_of_nat (length (piece_bytes 2 ''hello'' i)), sha1_standard (piece_bytes 2 ''hello'' i)))
      [0..<num_pieces 2 ''hello'']"
    by (rule addFile_reads_uploaded_info [where name = "''n''"])
      (simp_all add: n max_pieces_def word_text_def is_space_def infoPath_def DATA_PATH_def)
  then obtain fs' g where g: "addFile \<lparr>fs_filesPath = ''D'', fs_filesInfo = Map.empty,
      fs_disk = [''f'' \<mapsto> info_text ''0a'' 2 ''hello'' ''n'']\<rparr> ''f'' = Inr (''0a'', fs')"
      "fs_filesInfo fs' ''0a'' = Some g"
      "map (\<lambda>p. (pi_size p, pi_sha1 p)) (fi_pieces g) =
       map (\<lambda>i. (word_of_nat (length (piece_bytes 2 ''hello'' i)), sha1_standard (piece_bytes 2 ''hello'' i)))
        [0..<num_pieces 2 ''hello'']" by blast
  have "map pi_size (fi_pieces g) = map fst (map (\<lambda>p. (pi_size p, pi_sha1 p)) (fi_pieces g))" by simp
  also have "\<dots> = [2, 2, 1]" unfolding g(3) by (simp add: n piece_bytes_def upt_rec)
  finally show ?thesis by (intro exI [of _ fs'] exI [of _ g] conjI g(1,2))
qed

section \<open>The last piece completes the file\<close>

text \<open>
  When the last missing piece arrives intact, the file becomes complete and the merged
  file, the pieces' bytes in order, is written to the downloads directory.
\<close>

theorem last_piece_completes_file:
  fixes w :: u64
  assumes "fs_truthful fs" and "downloads_apart fs"
    and "fs_filesInfo fs f = Some file" and "fi_fileId file = f"
    and "length (fi_pieces file) = n" and "n < 2 ^ 64" and "unat w < n"
    and "checkPiece fs file w"
    and "\<And>i. i < n \<Longrightarrow> i \<noteq> unat w \<Longrightarrow> pi_state (fi_pieces file ! i) = PHave"
    and "\<And>i. Suc i < n \<Longrightarrow> pi_size (fi_pieces file ! i) \<noteq> 0"
  shows "\<exists>bytes. checkFile (addPiece fs f w) f \<and>
    (\<forall>i. i < n \<longrightarrow> fs_disk fs (piecePath f i) = Some (bytes i)) \<and>
    fs_disk (addPiece fs f w) (fs_filesPath fs @ SEP @ fi_fileName file) = Some (concat (map bytes [0..<n]))"
proof -
  define full where "full = set_state (unat w) PHave file"
  define fs1 where "fs1 = fs\<lparr>fs_filesInfo := (fs_filesInfo fs)(f \<mapsto> full)\<rparr>"
  define bytes where "bytes i = the (fs_disk fs (piecePath f i))" for i
  have chk: "checkPiece fs file (word_of_nat i)" if "i < n" for i
  proof (cases "i = unat w")
    case True
    with assms(8) show ?thesis by simp
  next
    case False
    have "unat (word_of_nat i :: u64) = i"
      by (rule word_of_nat_unat_less) (use that assms(6) in simp)
    with assms(1,3,5) assms(9) [OF that False] that show ?thesis by (simp add: fs_truthful_def)
  qed
  have bytes: "fs_disk fs (piecePath f i) = Some (bytes i) \<and>
      word_of_nat (length (bytes i)) = pi_size (fi_pieces file ! i)" if "i < n" for i
  proof -
    have u: "unat (word_of_nat i :: u64) = i"
      by (rule word_of_nat_unat_less) (use that assms(6) in simp)
    from chk [OF that] show ?thesis
      by (auto simp: checkPiece_iff assms(4) u bytes_def split: option.splits)
  qed
  have ne: "bytes i \<noteq> []" if "Suc i < n" for i
    using bytes [of i] assms(10) [OF that] that by auto
  have all: "list_all (\<lambda>p. pi_state p = PHave) (fi_pieces full)"
    using assms(7,9) by (auto simp: full_def set_state_def list_all_length nth_list_update assms(5))
  have add: "addPiece fs f w = mergePieces fs1 full"
    using assms(3,5,7,8) all by (simp add: addPiece_def fs1_def full_def set_state_def Let_def)
  have "fs_disk (mergePieces fs1 full) (fs_filesPath fs1 @ SEP @ fi_fileName full) =
      Some (concat (map bytes [0..<n]))"
    using bytes ne assms(2,4,5,6)
    by (intro mergePieces_concat) (simp_all add: fs1_def full_def set_state_def downloads_apart_def)
  moreover have "checkFile (addPiece fs f w) f"
    using all by (simp add: add checkFile_def fs1_def)
  ultimately show ?thesis
    using bytes by (auto simp: add fs1_def full_def set_state_def)
qed

lemma last_piece_completes_file_witness:
  "\<exists>bytes. bytes 0 = ''abc'' \<and>
    fs_disk (addPiece \<lparr>fs_filesPath = ''D'', fs_filesInfo = [''x'' \<mapsto> \<lparr>fi_fileName = ''n'', fi_fileId = ''x'',
        fi_pieces = [default_piece\<lparr>pi_state := POpen, pi_size := 3, pi_sha1 := sha1_standard ''abc''\<rparr>]\<rparr>],
        fs_disk = [piecePath ''x'' 0 \<mapsto> ''abc'']\<rparr> ''x'' 0)
      (''D'' @ SEP @ ''n'') = Some (bytes (0 :: nat))"
proof -
  let ?p = "default_piece\<lparr>pi_state := POpen, pi_size := 3, pi_sha1 := sha1_standard ''abc''\<rparr>"
  let ?f = "\<lparr>fi_fileName = ''n'', fi_fileId = ''x'', fi_pieces = [?p]\<rparr>"
  let ?fs = "\<lparr>fs_filesPath = ''D'', fs_filesInfo = [''x'' \<mapsto> ?f], fs_disk = [piecePath ''x'' 0 \<mapsto> ''abc'']\<rparr>"
  have "\<exists>bytes. checkFile (addPiece ?fs ''x'' 0) ''x'' \<and>
    (\<forall>i. i < 1 \<longrightarrow> fs_disk ?fs (piecePath ''x'' i) = Some (bytes i)) \<and>
    fs_disk (addPiece ?fs ''x'' 0) (fs_filesPath ?fs @ SEP @ fi_fileName ?f) = Some (concat (map bytes [0..<1]))"
    by (rule last_piece_completes_file)
      (auto simp: fs_truthful_def downloads_apart_def piecePath_def DATA_PATH_def
        checkPiece_iff split: if_splits)
  then show ?thesis by auto
qed

end
