(* ===== verification/Timer_Heap.thy ===== *)
theory Timer_Heap
  imports Prelude
begin

text \<open>
  The heap inside \<open>asio::detail::timer_queue\<close> (\<open>detail/timer_queue.hpp\<close>): a vector of
  entries, the earliest first, and in every timer the index of its entry. This theory has
  the data of the queue, the three private operations on the heap, and the two facts about
  them everything else rests on: they keep every timer's index right, and they restore the
  heap order when one entry violates it.
\<close>

section \<open>Data\<close>

type_synonym timer_id = nat

datatype wait_result = Success | Operation_aborted

record wait_op =
  wo_id :: nat
  wo_ec :: wait_result
  cancellation_key :: nat

text \<open>
  The waits of one timer are an \<open>op_queue\<close>, kept here as the list such a queue represents.
  A timer without an entry has the largest \<open>size_t\<close> as its index.
\<close>

definition no_index :: nat where
  "no_index = 18446744073709551615"

record per_timer_data =
  t_ops :: "wait_op list"
  heap_index :: nat
  next_timer :: "timer_id option"
  prev_timer :: "timer_id option"

definition new_timer :: per_timer_data where
  "new_timer = \<lparr>t_ops = [], heap_index = no_index, next_timer = None, prev_timer = None\<rparr>"

datatype 't heap_entry = Entry (he_time: 't) (he_timer: timer_id)

record 't timer_queue =
  timers_head :: "timer_id option"
  heap :: "'t heap_entry list"
  timer_data :: "timer_id \<Rightarrow> per_timer_data"

definition new_timer_queue :: "'t timer_queue" where
  "new_timer_queue = \<lparr>timers_head = None, heap = [], timer_data = (\<lambda>_. new_timer)\<rparr>"

definition set_data ::
  "timer_id \<Rightarrow> (per_timer_data \<Rightarrow> per_timer_data) \<Rightarrow> 't timer_queue \<Rightarrow> 't timer_queue" where
  "set_data t f q = q\<lparr>timer_data := (timer_data q)(t := f (timer_data q t))\<rparr>"

section \<open>The operations on the heap\<close>

definition heap_time :: "'t timer_queue \<Rightarrow> nat \<Rightarrow> 't" where
  "heap_time q i = he_time (heap q ! i)"

definition swap_heap :: "nat \<Rightarrow> nat \<Rightarrow> 't timer_queue \<Rightarrow> 't timer_queue" where
  "swap_heap index1 index2 q =
     (let tmp = heap q ! index1;
          h = (heap q)[index1 := heap q ! index2];
          h = h[index2 := tmp];
          q = q\<lparr>heap := h\<rparr>;
          q = set_data (he_timer (h ! index1)) (heap_index_update (\<lambda>_. index1)) q
      in set_data (he_timer (h ! index2)) (heap_index_update (\<lambda>_. index2)) q)"

lemma length_heap_swap [simp]: "length (heap (swap_heap i j q)) = length (heap q)"
  by (simp add: swap_heap_def set_data_def Let_def)

definition parent :: "nat \<Rightarrow> nat" where
  "parent index = (index - 1) div 2"

function up_heap :: "nat \<Rightarrow> 't::linorder timer_queue \<Rightarrow> 't timer_queue" where
  "up_heap index q =
     (if index > 0 then
        let p = parent index
        in if \<not> heap_time q index < heap_time q p then q
           else up_heap p (swap_heap index p q)
      else q)"
  by pat_completeness auto
termination by (relation "measure fst") (auto simp: parent_def)

definition min_child :: "'t::linorder timer_queue \<Rightarrow> nat \<Rightarrow> nat" where
  "min_child q child =
     (if child + 1 = length (heap q) \<or> heap_time q child < heap_time q (child + 1)
      then child else child + 1)"

function down_heap :: "nat \<Rightarrow> 't::linorder timer_queue \<Rightarrow> 't timer_queue" where
  "down_heap index q =
     (let child = index * 2 + 1
      in if child < length (heap q) then
           let m = min_child q child
           in if heap_time q index < heap_time q m then q
              else down_heap m (swap_heap index m q)
         else q)"
  by pat_completeness auto
termination
  by (relation "measure (\<lambda>(i, q). length (heap q) - i)") (auto simp: min_child_def split: if_splits)

declare up_heap.simps [simp del] down_heap.simps [simp del]

section \<open>Heap order of a list\<close>

definition heap_ordered :: "'t::linorder list \<Rightarrow> bool" where
  "heap_ordered ts = (\<forall>j < length ts. 0 < j \<longrightarrow> ts ! parent j \<le> ts ! j)"

text \<open>Order but for one entry that may be too small for its place, or too large.\<close>

definition up_defect :: "'t::linorder list \<Rightarrow> nat \<Rightarrow> bool" where
  "up_defect ts i =
     (i < length ts \<and>
      (\<forall>j < length ts. 0 < j \<longrightarrow> j \<noteq> i \<longrightarrow> ts ! parent j \<le> ts ! j) \<and>
      (\<forall>j < length ts. 0 < j \<longrightarrow> parent j = i \<longrightarrow> 0 < i \<longrightarrow> ts ! parent i \<le> ts ! j))"

definition down_defect :: "'t::linorder list \<Rightarrow> nat \<Rightarrow> bool" where
  "down_defect ts i =
     (i < length ts \<and>
      (\<forall>j < length ts. 0 < j \<longrightarrow> parent j \<noteq> i \<longrightarrow> ts ! parent j \<le> ts ! j) \<and>
      (\<forall>j < length ts. 0 < j \<longrightarrow> parent j = i \<longrightarrow> 0 < i \<longrightarrow> ts ! parent i \<le> ts ! j))"

definition swapped :: "nat \<Rightarrow> nat \<Rightarrow> 'a list \<Rightarrow> 'a list" where
  "swapped i j xs = xs[i := xs ! j, j := xs ! i]"

lemma length_swapped [simp]: "length (swapped i j xs) = length xs"
  by (simp add: swapped_def)

lemma nth_swapped:
  "i < length xs \<Longrightarrow> j < length xs \<Longrightarrow>
   swapped i j xs ! k = (if k = i then xs ! j else if k = j then xs ! i else xs ! k)"
  by (auto simp: swapped_def nth_list_update)

lemma set_swapped: "i < length xs \<Longrightarrow> j < length xs \<Longrightarrow> set (swapped i j xs) = set xs"
  by (auto simp: swapped_def set_conv_nth nth_list_update) (metis nth_list_update_neq)+

lemma parent_less: "0 < i \<Longrightarrow> parent i < i"
  unfolding parent_def by linarith

lemma child_of: "0 < j \<Longrightarrow> parent j = i \<longleftrightarrow> j = 2 * i + 1 \<or> j = 2 * i + 2"
  unfolding parent_def by linarith

lemma up_defect_done:
  "up_defect ts i \<Longrightarrow> i = 0 \<or> ts ! parent i \<le> ts ! i \<Longrightarrow> heap_ordered ts"
  unfolding up_defect_def heap_ordered_def by (metis not_gr_zero)

lemma up_defect_step:
  assumes "up_defect ts i" "0 < i" "ts ! i < ts ! parent i"
  shows "up_defect (swapped i (parent i) ts) (parent i)"
proof -
  let ?p = "parent i" and ?ts = "swapped i (parent i) ts"
  have i: "i < length ts" "?p < length ts" "?p < i"
    using assms parent_less [of i] by (auto simp: up_defect_def)
  have ord: "ts ! parent j \<le> ts ! j" if "j < length ts" "0 < j" "j \<noteq> i" for j
    using assms(1) that by (simp add: up_defect_def)
  have kids: "ts ! ?p \<le> ts ! j" if "j < length ts" "0 < j" "parent j = i" for j
    using assms(1,2) that by (simp add: up_defect_def)
  have nth: "?ts ! k = (if k = i then ts ! ?p else if k = ?p then ts ! i else ts ! k)" for k
    using i by (simp add: nth_swapped)
  have small: "ts ! i \<le> ts ! j" if "j < length ts" "0 < j" "parent j = ?p" "j \<noteq> i" for j
    using ord [OF that(1,2,4)] assms(3) that(3) by simp
  have "?ts ! parent j \<le> ?ts ! j" if "j < length ts" "0 < j" "j \<noteq> ?p" for j
    using that kids [of j] small [of j] ord [of j] assms(3) i by (auto simp: nth)
  moreover have "?ts ! parent ?p \<le> ?ts ! j"
    if "j < length ts" "0 < j" "parent j = ?p" "0 < ?p" for j
  proof -
    have "parent ?p < ?p" using that parent_less by simp
    then show ?thesis
      using ord [of ?p] ord [of j] that i by (auto simp: nth intro: order_trans)
  qed
  ultimately show ?thesis using i by (simp add: up_defect_def)
qed

lemma down_defect_done:
  assumes "down_defect ts i"
    and "\<And>j. j < length ts \<Longrightarrow> j = 2 * i + 1 \<or> j = 2 * i + 2 \<Longrightarrow> ts ! i \<le> ts ! j"
  shows "heap_ordered ts"
  using assms unfolding down_defect_def heap_ordered_def by (metis child_of)

lemma down_defect_step:
  assumes "down_defect ts i" "m < length ts" "m = 2 * i + 1 \<or> m = 2 * i + 2" "ts ! m \<le> ts ! i"
    and least: "\<And>j. j < length ts \<Longrightarrow> j = 2 * i + 1 \<or> j = 2 * i + 2 \<Longrightarrow> ts ! m \<le> ts ! j"
  shows "down_defect (swapped i m ts) m"
proof -
  let ?ts = "swapped i m ts"
  have i: "i < length ts" "i < m" "0 < m" "parent m = i"
    using assms by (auto simp: down_defect_def parent_def)
  have ord: "ts ! parent j \<le> ts ! j" if "j < length ts" "0 < j" "parent j \<noteq> i" for j
    using assms(1) that by (simp add: down_defect_def)
  have kids: "ts ! parent i \<le> ts ! j"
    if "j < length ts" "0 < j" "parent j = i" "0 < i" for j
    using assms(1) that by (simp add: down_defect_def)
  have nth: "?ts ! k = (if k = i then ts ! m else if k = m then ts ! i else ts ! k)" for k
    using i assms(2) by (simp add: nth_swapped)
  have "?ts ! parent j \<le> ?ts ! j" if "j < length ts" "0 < j" "parent j \<noteq> m" for j
  proof (cases "j = i")
    case True
    then show ?thesis using that kids [of m] i assms(2) parent_less [of i] by (auto simp: nth)
  next
    case False
    then show ?thesis
      using that ord [of j] least [of j] assms(4) i child_of [of j i] by (auto simp: nth)
  qed
  moreover have "?ts ! parent m \<le> ?ts ! j"
    if "j < length ts" "0 < j" "parent j = m" for j
    using that ord [of j] i parent_less [of j] by (auto simp: nth)
  ultimately show ?thesis using assms(2) by (simp add: down_defect_def)
qed

lemma heap_ordered_least: "heap_ordered ts \<Longrightarrow> i < length ts \<Longrightarrow> ts ! 0 \<le> ts ! i"
proof (induction i rule: less_induct)
  case (less i)
  show ?case
  proof (cases "i = 0")
    case False
    then have "parent i < i" using parent_less by simp
    then have "ts ! 0 \<le> ts ! parent i" using less.IH [of "parent i"] less.prems by simp
    also have "ts ! parent i \<le> ts ! i" using less.prems False by (simp add: heap_ordered_def)
    finally show ?thesis .
  qed simp
qed

text \<open>Putting an entry at the end, and replacing one by the last, leave one defect.\<close>

lemma heap_ordered_snoc:
  assumes "heap_ordered ts" shows "up_defect (ts @ [x]) (length ts)"
proof -
  have "parent j < length ts" "parent j \<noteq> length ts" if "j < Suc (length ts)" "0 < j" for j
    using that parent_less [of j] by simp_all
  with assms show ?thesis
    by (auto simp: heap_ordered_def up_defect_def nth_append)
qed

lemma heap_ordered_butlast:
  assumes "heap_ordered ts" shows "heap_ordered (butlast ts)"
proof -
  have "parent j < length ts - 1" if "j < length ts - 1" "0 < j" for j
    using that parent_less [of j] by simp
  with assms show ?thesis by (simp add: heap_ordered_def nth_butlast)
qed

lemma heap_ordered_replace:
  assumes "heap_ordered ts" "i < length ts"
  shows "0 < i \<Longrightarrow> x < ts ! parent i \<Longrightarrow> up_defect (ts[i := x]) i"
    and "i = 0 \<or> ts ! parent i \<le> x \<Longrightarrow> down_defect (ts[i := x]) i"
proof -
  have ord: "ts ! parent j \<le> ts ! j" if "j < length ts" "0 < j" for j
    using assms that by (simp add: heap_ordered_def)
  have nth: "ts[i := x] ! k = (if k = i then x else ts ! k)" for k
    using assms by (simp add: nth_list_update)
  have kids: "ts ! parent i \<le> ts ! j" if "j < length ts" "0 < j" "parent j = i" "0 < i" for j
    using ord [of j] ord [of i] that assms by (auto intro: order_trans)
  have neq: "0 < j \<Longrightarrow> parent j \<noteq> j" for j using parent_less [of j] by simp
  show "up_defect (ts[i := x]) i" if x: "0 < i" "x < ts ! parent i"
  proof -
    have "x \<le> ts ! j" if "j < length ts" "0 < j" "parent j = i" for j
      using kids [OF that x(1)] x(2) by simp
    then show ?thesis
      unfolding up_defect_def nth length_list_update using assms ord kids neq by simp
  qed
  show "down_defect (ts[i := x]) i" if x: "i = 0 \<or> ts ! parent i \<le> x"
    unfolding down_defect_def nth length_list_update using assms ord kids neq x by auto
qed

section \<open>What the operations on the heap do\<close>

definition times :: "'t timer_queue \<Rightarrow> 't list" where
  "times q = map he_time (heap q)"

text \<open>Every timer in the heap knows the index of its entry.\<close>

definition indexed :: "'t timer_queue \<Rightarrow> bool" where
  "indexed q = (\<forall>i < length (heap q). heap_index (timer_data q (he_timer (heap q ! i))) = i)"

text \<open>Two queues with the same entries that differ only in their order and in the indices.\<close>

definition same_entries :: "'t timer_queue \<Rightarrow> 't timer_queue \<Rightarrow> bool" where
  "same_entries q q' =
     (set (heap q') = set (heap q) \<and> length (heap q') = length (heap q) \<and>
      timers_head q' = timers_head q \<and>
      (\<forall>t. t_ops (timer_data q' t) = t_ops (timer_data q t) \<and>
           next_timer (timer_data q' t) = next_timer (timer_data q t) \<and>
           prev_timer (timer_data q' t) = prev_timer (timer_data q t)) \<and>
      (\<forall>t. t \<notin> he_timer ` set (heap q) \<longrightarrow> timer_data q' t = timer_data q t))"

lemma same_entries_refl [simp, intro]: "same_entries q q"
  by (simp add: same_entries_def)

lemma same_entries_trans: "same_entries q r \<Longrightarrow> same_entries r s \<Longrightarrow> same_entries q s"
  by (simp add: same_entries_def)

lemma length_times [simp]: "length (times q) = length (heap q)"
  by (simp add: times_def)

lemma times_nth: "i < length (heap q) \<Longrightarrow> times q ! i = heap_time q i"
  by (simp add: times_def heap_time_def)

lemma indexed_inject:
  assumes "indexed q" "i < length (heap q)" "j < length (heap q)"
    and "he_timer (heap q ! i) = he_timer (heap q ! j)"
  shows "i = j"
  using assms unfolding indexed_def by metis

lemma heap_swap: "heap (swap_heap i j q) = swapped i j (heap q)"
  by (simp add: swap_heap_def set_data_def swapped_def Let_def)

lemma times_swap:
  assumes "i < length (heap q)" "j < length (heap q)"
  shows "times (swap_heap i j q) = swapped i j (times q)"
  using assms by (simp add: times_def heap_swap swapped_def map_update)

lemma swap_heap_entries:
  assumes "i < length (heap q)" "j < length (heap q)"
  shows "same_entries q (swap_heap i j q)"
proof -
  have "he_timer (swapped i j (heap q) ! k) \<in> he_timer ` set (heap q)" if "k < length (heap q)" for k
    using that set_swapped [OF assms] by (metis image_eqI length_swapped nth_mem)
  then show ?thesis
    using assms set_swapped [OF assms]
    by (auto simp: same_entries_def heap_swap)
      (auto simp: swap_heap_def set_data_def Let_def swapped_def)
qed

lemma swap_heap_indexed:
  assumes "indexed q" "i < length (heap q)" "j < length (heap q)"
  shows "indexed (swap_heap i j q)"
proof -
  let ?h = "swapped i j (heap q)"
  have data: "timer_data (swap_heap i j q) t =
      (let d = timer_data q t
       in if t = he_timer (?h ! j) then heap_index_update (\<lambda>_. j) d
          else if t = he_timer (?h ! i) then heap_index_update (\<lambda>_. i) d else d)" for t
    by (auto simp: swap_heap_def set_data_def swapped_def Let_def)
  have other: "he_timer (heap q ! k) \<noteq> he_timer (heap q ! l)"
    if "k \<noteq> l" "k < length (heap q)" "l < length (heap q)" for k l
    using indexed_inject [OF assms(1) that(2,3)] that(1) by blast
  show ?thesis
    unfolding indexed_def heap_swap length_swapped
  proof (intro allI impI)
    fix k assume k: "k < length (heap q)"
    have nth: "?h ! l = (if l = i then heap q ! j else if l = j then heap q ! i else heap q ! l)" for l
      using assms by (simp add: nth_swapped)
    show "heap_index (timer_data (swap_heap i j q) (he_timer (?h ! k))) = k"
    proof (cases "k = i \<or> k = j")
      case True
      then show ?thesis using other [of i j] assms by (auto simp: data nth Let_def)
    next
      case False
      with k assms have "heap_index (timer_data q (he_timer (heap q ! k))) = k"
        by (simp add: indexed_def)
      with False show ?thesis
        using other [of k i] other [of k j] k assms by (simp add: data nth Let_def)
    qed
  qed
qed

lemma up_heap_rule:
  "indexed q \<Longrightarrow> up_defect (times q) index \<Longrightarrow>
   indexed (up_heap index q) \<and> heap_ordered (times (up_heap index q)) \<and>
   same_entries q (up_heap index q)"
proof (induction index q rule: up_heap.induct)
  case (1 index q)
  have i: "index < length (heap q)" using "1.prems" by (simp add: up_defect_def)
  show ?case
  proof (cases "index > 0 \<and> heap_time q index < heap_time q (parent index)")
    case True
    then have p: "parent index < length (heap q)" using i parent_less [of index] by simp
    let ?q = "swap_heap index (parent index) q"
    have "up_defect (times ?q) (parent index)"
      unfolding times_swap [OF i p] using "1.prems" True i p
      by (intro up_defect_step) (simp_all add: times_nth)
    moreover have "indexed ?q" by (rule swap_heap_indexed [OF "1.prems"(1) i p])
    ultimately have "indexed (up_heap (parent index) ?q) \<and>
        heap_ordered (times (up_heap (parent index) ?q)) \<and> same_entries ?q (up_heap (parent index) ?q)"
      using True by (intro "1.IH") auto
    with True show ?thesis
      using same_entries_trans [OF swap_heap_entries [OF i p]]
      by (subst (1 2 3) up_heap.simps) (simp add: Let_def)
  next
    case False
    then have "heap_ordered (times q)"
      using "1.prems"(2) i parent_less [of index] times_nth [of "parent index" q]
      by (cases "index = 0") (auto intro!: up_defect_done [of _ index] simp: times_nth not_less)
    moreover have "up_heap index q = q" using False by (subst up_heap.simps) (auto simp: Let_def)
    ultimately show ?thesis using "1.prems" by simp
  qed
qed

lemma min_child_least:
  assumes "2 * i + 1 < length (heap q)"
  shows "min_child q (2 * i + 1) < length (heap q)"
    and "min_child q (2 * i + 1) = 2 * i + 1 \<or> min_child q (2 * i + 1) = 2 * i + 2"
    and "j < length (heap q) \<Longrightarrow> j = 2 * i + 1 \<or> j = 2 * i + 2 \<Longrightarrow>
         heap_time q (min_child q (2 * i + 1)) \<le> heap_time q j"
  using assms by (auto simp: min_child_def)

lemma down_heap_rule:
  "indexed q \<Longrightarrow> down_defect (times q) index \<Longrightarrow>
   indexed (down_heap index q) \<and> heap_ordered (times (down_heap index q)) \<and>
   same_entries q (down_heap index q)"
proof (induction index q rule: down_heap.induct)
  case (1 index q)
  have i: "index < length (heap q)" using "1.prems" by (simp add: down_defect_def)
  let ?m = "min_child q (2 * index + 1)"
  show ?case
  proof (cases "2 * index + 1 < length (heap q) \<and> \<not> heap_time q index < heap_time q ?m")
    case True
    note m = min_child_least [OF conjunct1 [OF True]]
    let ?q = "swap_heap index ?m q"
    have "down_defect (times ?q) ?m"
      unfolding times_swap [OF i m(1)] using "1.prems" True i m
      by (intro down_defect_step) (simp_all add: times_nth not_less)
    moreover have "indexed ?q" by (rule swap_heap_indexed [OF "1.prems"(1) i m(1)])
    ultimately have "indexed (down_heap ?m ?q) \<and>
        heap_ordered (times (down_heap ?m ?q)) \<and> same_entries ?q (down_heap ?m ?q)"
      using True by (intro "1.IH") (auto simp: mult.commute)
    with True show ?thesis
      using same_entries_trans [OF swap_heap_entries [OF i m(1)]]
      by (subst (1 2 3) down_heap.simps) (simp add: Let_def mult.commute)
  next
    case False
    then have "heap_ordered (times q)"
    proof (cases "2 * index + 1 < length (heap q)")
      case True
      note m = min_child_least [OF True]
      show ?thesis
      proof (rule down_defect_done [OF "1.prems"(2)])
        fix j assume j: "j < length (times q)" "j = 2 * index + 1 \<or> j = 2 * index + 2"
        have "heap_time q index \<le> heap_time q ?m" using True False by auto
        also have "\<dots> \<le> heap_time q j" using j by (intro m(3)) simp_all
        finally show "times q ! index \<le> times q ! j" using i j(1) by (simp add: times_nth)
      qed
    qed (intro down_defect_done [OF "1.prems"(2)], auto)
    moreover have "down_heap index q = q"
      using False by (subst down_heap.simps) (auto simp: Let_def mult.commute)
    ultimately show ?thesis using "1.prems" by simp
  qed
qed

end
