(* ===== verification/Timer_Queue.thy ===== *)
theory Timer_Queue
  imports Timer_Heap
begin

text \<open>
  The operations of \<open>asio::detail::timer_queue\<close> (\<open>detail/timer_queue.hpp\<close>): adding a wait to a
  timer, taking the waits that are due, and the three ways to cancel. Beside the heap they
  keep a doubly linked list of the timers that have an entry. The list and the heap hold the
  same timers, each timer knows its place in both, and no timer without waits is in either:
  that invariant is kept by every operation, and it is what makes the loops end.
\<close>

section \<open>The operations\<close>

text \<open>
  A wait on a timer whose time never comes gets no entry in the code; the time type of the
  program's clock has no such time (\<open>is_positive_infinity\<close> of a type that is not
  \<open>boost::date_time\<close>'s is false).
\<close>

definition is_positive_infinity :: "'t \<Rightarrow> bool" where
  "is_positive_infinity _ = False"

definition enqueued :: "'t timer_queue \<Rightarrow> timer_id \<Rightarrow> bool" where
  "enqueued q t = (prev_timer (timer_data q t) \<noteq> None \<or> timers_head q = Some t)"

definition insert_timer :: "timer_id \<Rightarrow> 't timer_queue \<Rightarrow> 't timer_queue" where
  "insert_timer t q =
     (let q = set_data t (\<lambda>d. d\<lparr>next_timer := timers_head q, prev_timer := None\<rparr>) q;
          q = (case timers_head q of
                 Some h \<Rightarrow> set_data h (prev_timer_update (\<lambda>_. Some t)) q
               | None \<Rightarrow> q)
      in q\<lparr>timers_head := Some t\<rparr>)"

definition add_entry :: "'t::linorder \<Rightarrow> timer_id \<Rightarrow> 't timer_queue \<Rightarrow> 't timer_queue" where
  "add_entry time t q =
     (if is_positive_infinity time then set_data t (heap_index_update (\<lambda>_. no_index)) q
      else
        let q = set_data t (heap_index_update (\<lambda>_. length (heap q))) q;
            q = q\<lparr>heap := heap q @ [Entry time t]\<rparr>
        in up_heap (length (heap q) - 1) q)"

definition enqueue_timer ::
  "'t::linorder \<Rightarrow> timer_id \<Rightarrow> wait_op \<Rightarrow> 't timer_queue \<Rightarrow> bool \<times> 't timer_queue" where
  "enqueue_timer time t op q =
     (let q = (if \<not> enqueued q t then insert_timer t (add_entry time t q) else q);
          q = set_data t (t_ops_update (\<lambda>ops. ops @ [op])) q
      in (heap_index (timer_data q t) = 0 \<and>
            (case t_ops (timer_data q t) of x # _ \<Rightarrow> wo_id x = wo_id op | [] \<Rightarrow> False), q))"

definition queue_is_empty :: "'t timer_queue \<Rightarrow> bool" where
  "queue_is_empty q = (timers_head q = None)"

definition remove_entry :: "timer_id \<Rightarrow> 't::linorder timer_queue \<Rightarrow> 't timer_queue" where
  "remove_entry t q =
     (let index = heap_index (timer_data q t)
      in if heap q \<noteq> [] \<and> index < length (heap q) then
           if index = length (heap q) - 1 then
             let q = set_data t (heap_index_update (\<lambda>_. no_index)) q
             in q\<lparr>heap := butlast (heap q)\<rparr>
           else
             let q = swap_heap index (length (heap q) - 1) q;
                 q = set_data t (heap_index_update (\<lambda>_. no_index)) q;
                 q = q\<lparr>heap := butlast (heap q)\<rparr>
             in if index > 0 \<and> heap_time q index < heap_time q (parent index)
                then up_heap index q else down_heap index q
         else q)"

definition unlink_timer :: "timer_id \<Rightarrow> 't timer_queue \<Rightarrow> 't timer_queue" where
  "unlink_timer t q =
     (let q = (if timers_head q = Some t
               then q\<lparr>timers_head := next_timer (timer_data q t)\<rparr> else q);
          q = (case prev_timer (timer_data q t) of
                 Some p \<Rightarrow> set_data p (next_timer_update (\<lambda>_. next_timer (timer_data q t))) q
               | None \<Rightarrow> q);
          q = (case next_timer (timer_data q t) of
                 Some n \<Rightarrow> set_data n (prev_timer_update (\<lambda>_. prev_timer (timer_data q t))) q
               | None \<Rightarrow> q)
      in set_data t (\<lambda>d. d\<lparr>next_timer := None, prev_timer := None\<rparr>) q)"

definition remove_timer :: "timer_id \<Rightarrow> 't::linorder timer_queue \<Rightarrow> 't timer_queue" where
  "remove_timer t q = unlink_timer t (remove_entry t q)"

text \<open>Taking the waits of due timers; nothing bounds the loop but its own progress.\<close>

definition completed :: "wait_result \<Rightarrow> wait_op \<Rightarrow> wait_op" where
  "completed ec op = op\<lparr>wo_ec := ec\<rparr>"

fun complete_all :: "wait_op list \<Rightarrow> wait_op list \<Rightarrow> wait_op list" where
  "complete_all [] ops = ops"
| "complete_all (op # waits) ops = complete_all waits (ops @ [completed Success op])"

partial_function (option) ready_loop ::
  "'t::linorder \<Rightarrow> 't timer_queue \<Rightarrow> wait_op list \<Rightarrow> ('t timer_queue \<times> wait_op list) option" where
  "ready_loop now q ops =
     (if heap q \<noteq> [] \<and> \<not> now < heap_time q 0 then
        let t = he_timer (heap q ! 0);
            ops = complete_all (t_ops (timer_data q t)) ops;
            q = set_data t (t_ops_update (\<lambda>_. [])) q
        in ready_loop now (remove_timer t q) ops
      else Some (q, ops))"

definition get_ready_timers ::
  "'t::linorder \<Rightarrow> 't timer_queue \<Rightarrow> wait_op list \<Rightarrow> ('t timer_queue \<times> wait_op list) option" where
  "get_ready_timers now q ops = (if heap q \<noteq> [] then ready_loop now q ops else Some (q, ops))"

partial_function (option) all_loop ::
  "'t timer_queue \<Rightarrow> wait_op list \<Rightarrow> ('t timer_queue \<times> wait_op list) option" where
  "all_loop q ops =
     (case timers_head q of
        None \<Rightarrow> Some (q, ops)
      | Some t \<Rightarrow>
          let q = q\<lparr>timers_head := next_timer (timer_data q t)\<rparr>;
              ops = ops @ t_ops (timer_data q t)
          in all_loop
               (set_data t (\<lambda>d. d\<lparr>t_ops := [], next_timer := None, prev_timer := None\<rparr>) q) ops)"

definition get_all_timers ::
  "'t timer_queue \<Rightarrow> wait_op list \<Rightarrow> ('t timer_queue \<times> wait_op list) option" where
  "get_all_timers q ops =
     (case all_loop q ops of None \<Rightarrow> None | Some (q, ops) \<Rightarrow> Some (q\<lparr>heap := []\<rparr>, ops))"

fun cancel_loop ::
  "nat \<Rightarrow> nat \<Rightarrow> wait_op list \<Rightarrow> wait_op list \<Rightarrow> nat \<times> wait_op list \<times> wait_op list" where
  "cancel_loop num_cancelled max_cancelled [] ops = (num_cancelled, [], ops)"
| "cancel_loop num_cancelled max_cancelled (op # waits) ops =
     (if num_cancelled \<noteq> max_cancelled
      then cancel_loop (num_cancelled + 1) max_cancelled waits (ops @ [completed Operation_aborted op])
      else (num_cancelled, op # waits, ops))"

definition cancel_timer ::
  "timer_id \<Rightarrow> wait_op list \<Rightarrow> nat \<Rightarrow> 't::linorder timer_queue \<Rightarrow>
   nat \<times> 't timer_queue \<times> wait_op list" where
  "cancel_timer t ops max_cancelled q =
     (if enqueued q t then
        let (num_cancelled, waits, ops) = cancel_loop 0 max_cancelled (t_ops (timer_data q t)) ops;
            q = set_data t (t_ops_update (\<lambda>_. waits)) q;
            q = (if t_ops (timer_data q t) = [] then remove_timer t q else q)
        in (num_cancelled, q, ops)
      else (0, q, ops))"

fun key_loop ::
  "nat \<Rightarrow> wait_op list \<Rightarrow> wait_op list \<Rightarrow> wait_op list \<Rightarrow> wait_op list \<times> wait_op list" where
  "key_loop key [] ops other_ops = (ops, other_ops)"
| "key_loop key (op # waits) ops other_ops =
     (if cancellation_key op = key
      then key_loop key waits (ops @ [completed Operation_aborted op]) other_ops
      else key_loop key waits ops (other_ops @ [op]))"

definition cancel_timer_by_key ::
  "timer_id \<Rightarrow> wait_op list \<Rightarrow> nat \<Rightarrow> 't::linorder timer_queue \<Rightarrow> 't timer_queue \<times> wait_op list" where
  "cancel_timer_by_key t ops key q =
     (if enqueued q t then
        let (ops, other_ops) = key_loop key (t_ops (timer_data q t)) ops [];
            q = set_data t (t_ops_update (\<lambda>_. other_ops)) q;
            q = (if t_ops (timer_data q t) = [] then remove_timer t q else q)
        in (q, ops)
      else (q, ops))"

definition move_waits :: "timer_id \<Rightarrow> timer_id \<Rightarrow> 't timer_queue \<Rightarrow> 't timer_queue" where
  "move_waits target source q =
     (let q = set_data target (t_ops_update (\<lambda>ops. ops @ t_ops (timer_data q source))) q;
          q = set_data source (t_ops_update (\<lambda>_. [])) q;
          q = set_data target (heap_index_update (\<lambda>_. heap_index (timer_data q source))) q;
          q = set_data source (heap_index_update (\<lambda>_. no_index)) q;
          i = heap_index (timer_data q target)
      in if i < length (heap q)
         then q\<lparr>heap := (heap q)[i := Entry (heap_time q i) target]\<rparr> else q)"

definition move_links :: "timer_id \<Rightarrow> timer_id \<Rightarrow> 't timer_queue \<Rightarrow> 't timer_queue" where
  "move_links target source q =
     (let q = (if timers_head q = Some source then q\<lparr>timers_head := Some target\<rparr> else q);
          q = (case prev_timer (timer_data q source) of
                 Some p \<Rightarrow> set_data p (next_timer_update (\<lambda>_. Some target)) q | None \<Rightarrow> q);
          q = (case next_timer (timer_data q source) of
                 Some n \<Rightarrow> set_data n (prev_timer_update (\<lambda>_. Some target)) q | None \<Rightarrow> q);
          q = set_data target (\<lambda>d. d\<lparr>next_timer := next_timer (timer_data q source),
                                   prev_timer := prev_timer (timer_data q source)\<rparr>) q
      in set_data source (\<lambda>d. d\<lparr>next_timer := None, prev_timer := None\<rparr>) q)"

definition move_timer :: "timer_id \<Rightarrow> timer_id \<Rightarrow> 't timer_queue \<Rightarrow> 't timer_queue" where
  "move_timer target source q = move_links target source (move_waits target source q)"

section \<open>The list of timers\<close>

text \<open>
  \<open>linked d p h ts n\<close>: from the head \<open>h\<close> the timers \<open>ts\<close> are linked in both directions; \<open>p\<close> is
  what stands before them and \<open>n\<close> what follows.
\<close>

fun linked ::
  "(timer_id \<Rightarrow> per_timer_data) \<Rightarrow> timer_id option \<Rightarrow> timer_id option \<Rightarrow> timer_id list \<Rightarrow>
   timer_id option \<Rightarrow> bool" where
  "linked d p h [] n = (h = n)"
| "linked d p h (t # ts) n =
     (h = Some t \<and> prev_timer (d t) = p \<and> linked d (Some t) (next_timer (d t)) ts n)"

lemma linked_append:
  "linked d p h (xs @ ys) n =
   (\<exists>m. linked d p h xs m \<and> linked d (if xs = [] then p else Some (last xs)) m ys n)"
  by (induction xs arbitrary: p h) auto

lemma linked_cong:
  "(\<And>t. t \<in> set ts \<Longrightarrow> next_timer (d t) = next_timer (d' t) \<and> prev_timer (d t) = prev_timer (d' t)) \<Longrightarrow>
   linked d p h ts n = linked d' p h ts n"
  by (induction ts arbitrary: p h) auto

lemma linked_prev_None:
  "linked d None h ts n \<Longrightarrow> t \<in> set ts \<Longrightarrow> prev_timer (d t) = None \<longleftrightarrow> t = hd ts" if "distinct ts"
proof (cases ts)
  case (Cons x xs)
  have "prev_timer (d t) \<noteq> None" if "linked d (Some y) h xs n" "t \<in> set xs" for y h xs
    using that by (induction xs arbitrary: y h) auto
  from this [of x "next_timer (d x)" xs]
  show "linked d None h ts n \<Longrightarrow> t \<in> set ts \<Longrightarrow> ?thesis"
    using Cons that by auto
qed auto

lemma complete_all_eq [simp]: "complete_all waits ops = ops @ map (completed Success) waits"
  by (induction waits ops rule: complete_all.induct) simp_all

lemma cancel_loop_eq:
  "n \<le> m \<Longrightarrow> cancel_loop n m waits ops =
     (n + min (m - n) (length waits), drop (m - n) waits,
      ops @ map (completed Operation_aborted) (take (m - n) waits))"
proof (induction n m waits ops rule: cancel_loop.induct)
  case (2 n m op waits ops)
  show ?case
  proof (cases "n = m")
    case False
    with 2 have "n + 1 \<le> m" "m - n = Suc (m - (n + 1))" by simp_all
    with 2 False show ?thesis by simp
  qed simp
qed simp

lemma key_loop_eq:
  "key_loop key waits ops other =
     (ops @ map (completed Operation_aborted) (filter (\<lambda>op. cancellation_key op = key) waits),
      other @ filter (\<lambda>op. cancellation_key op \<noteq> key) waits)"
  by (induction key waits ops other rule: key_loop.induct) simp_all

section \<open>The invariant\<close>

definition heap_inv :: "'t::linorder timer_queue \<Rightarrow> bool" where
  "heap_inv q = (heap_ordered (times q) \<and> indexed q)"

definition link_inv :: "'t timer_queue \<Rightarrow> timer_id list \<Rightarrow> bool" where
  "link_inv q ts =
     (linked (timer_data q) None (timers_head q) ts None \<and> distinct ts \<and>
      (\<forall>t. t \<notin> set ts \<longrightarrow>
         next_timer (timer_data q t) = None \<and> prev_timer (timer_data q t) = None))"

definition timer_inv :: "'t::linorder timer_queue \<Rightarrow> timer_id list \<Rightarrow> bool" where
  "timer_inv q ts =
     (heap_inv q \<and> link_inv q ts \<and> set ts = he_timer ` set (heap q) \<and>
      (\<forall>t. t_ops (timer_data q t) \<noteq> [] \<longleftrightarrow> t \<in> set ts))"

lemma enqueued_iff: "link_inv q ts \<Longrightarrow> enqueued q t \<longleftrightarrow> t \<in> set ts"
proof (cases ts)
  case (Cons x xs)
  assume "link_inv q ts"
  then show ?thesis
    using Cons linked_prev_None [of ts "timer_data q" "timers_head q" None t]
    by (auto simp: link_inv_def enqueued_def)
qed (simp add: link_inv_def enqueued_def)

text \<open>Each part of the invariant looks at some of the state only.\<close>

lemma link_inv_cong:
  assumes "timers_head q = timers_head q'"
    and "\<And>t. next_timer (timer_data q t) = next_timer (timer_data q' t)"
    and "\<And>t. prev_timer (timer_data q t) = prev_timer (timer_data q' t)"
  shows "link_inv q ts = link_inv q' ts"
  using linked_cong [of ts "timer_data q" "timer_data q'"] assms by (simp add: link_inv_def)

lemma heap_inv_cong:
  assumes "heap q = heap q'"
    and "\<And>t. heap_index (timer_data q t) = heap_index (timer_data q' t)"
  shows "heap_inv q = heap_inv q'"
  using assms by (simp add: heap_inv_def times_def indexed_def)

lemma link_inv_same_entries: "same_entries q q' \<Longrightarrow> link_inv q' ts = link_inv q ts"
  by (rule link_inv_cong) (simp_all add: same_entries_def)

lemma timer_data_set_data:
  "timer_data (set_data t f q) s = (if s = t then f (timer_data q t) else timer_data q s)"
  by (simp add: set_data_def)

lemma set_data_simps [simp]:
  "heap (set_data t f q) = heap q" "timers_head (set_data t f q) = timers_head q"
  "times (set_data t f q) = times q" "heap_time (set_data t f q) i = heap_time q i"
  by (simp_all add: set_data_def times_def heap_time_def)

lemma insert_timer_links:
  assumes "link_inv q ts" "t \<notin> set ts"
  shows "link_inv (insert_timer t q) (t # ts)"
proof (cases ts)
  case Nil
  with assms show ?thesis
    by (simp add: link_inv_def insert_timer_def timer_data_set_data Let_def)
next
  case (Cons x xs)
  let ?q = "insert_timer t q"
  have x: "timers_head q = Some x" "x \<noteq> t" "x \<notin> set xs" "t \<notin> set xs"
    using assms Cons by (auto simp: link_inv_def)
  have data: "next_timer (timer_data ?q s) = (if s = t then Some x else next_timer (timer_data q s))"
    "prev_timer (timer_data ?q s) =
       (if s = x then Some t else if s = t then None else prev_timer (timer_data q s))" for s
    using x by (auto simp: insert_timer_def timer_data_set_data Let_def)
  have rest: "linked (timer_data q) (Some x) (next_timer (timer_data q x)) xs None" "distinct xs"
    "prev_timer (timer_data q x) = None"
    using assms(1) by (simp_all add: link_inv_def Cons)
  have outside: "next_timer (timer_data q s) = None" "prev_timer (timer_data q s) = None"
    if "s \<noteq> x" "s \<notin> set xs" for s
    using assms(1) that by (simp_all add: link_inv_def Cons)
  have "linked (timer_data ?q) (Some x) (next_timer (timer_data q x)) xs None"
    using rest x by (subst linked_cong [of xs "timer_data ?q" "timer_data q"]) (auto simp: data)
  moreover have "timers_head ?q = Some t" by (simp add: insert_timer_def Let_def)
  ultimately show ?thesis
    using x rest(2) outside unfolding link_inv_def Cons by (simp add: data)
qed

lemma unlink_timer_data:
  "prev_timer (timer_data q t) \<noteq> Some t \<Longrightarrow> next_timer (timer_data q t) \<noteq> Some t \<Longrightarrow>
   next_timer (timer_data (unlink_timer t q) s) =
     (if s = t then None else if prev_timer (timer_data q t) = Some s
      then next_timer (timer_data q t) else next_timer (timer_data q s))"
  "prev_timer (timer_data q t) \<noteq> Some t \<Longrightarrow> next_timer (timer_data q t) \<noteq> Some t \<Longrightarrow>
   prev_timer (timer_data (unlink_timer t q) s) =
     (if s = t then None else if next_timer (timer_data q t) = Some s
      then prev_timer (timer_data q t) else prev_timer (timer_data q s))"
  "timers_head (unlink_timer t q) =
     (if timers_head q = Some t then next_timer (timer_data q t) else timers_head q)"
  by (auto simp: unlink_timer_def Let_def timer_data_set_data split: option.splits)

lemma linked_new_end:
  "linked d p h xs m \<Longrightarrow> distinct xs \<Longrightarrow>
   (\<And>x. x \<in> set xs \<Longrightarrow> prev_timer (d' x) = prev_timer (d x)) \<Longrightarrow>
   (\<And>x. x \<in> set xs \<Longrightarrow> next_timer (d' x) = (if x = last xs then n else next_timer (d x))) \<Longrightarrow>
   linked d' p (if xs = [] then n else h) xs n"
proof (induction xs arbitrary: p h)
  case (Cons x xs)
  show ?case
  proof (cases "xs = []")
    case False
    then have "x \<noteq> last xs" using Cons.prems(2) by auto
    moreover have "linked d' (Some x) (if xs = [] then n else next_timer (d x)) xs n"
      using Cons.prems False by (intro Cons.IH) (auto split: if_splits)
    ultimately show ?thesis using Cons.prems False by auto
  qed (use Cons.prems in auto)
qed simp

lemma linked_new_start:
  "linked d p h ys n \<Longrightarrow> distinct ys \<Longrightarrow>
   (\<And>y. y \<in> set ys \<Longrightarrow> next_timer (d' y) = next_timer (d y)) \<Longrightarrow>
   (\<And>y. y \<in> set ys \<Longrightarrow> prev_timer (d' y) = (if y = hd ys then p' else prev_timer (d y))) \<Longrightarrow>
   linked d' p' h ys n"
proof (cases ys)
  case (Cons y zs)
  moreover assume "linked d p h ys n" "distinct ys"
    "\<And>y. y \<in> set ys \<Longrightarrow> next_timer (d' y) = next_timer (d y)"
    "\<And>y. y \<in> set ys \<Longrightarrow> prev_timer (d' y) = (if y = hd ys then p' else prev_timer (d y))"
  ultimately show ?thesis by (auto intro: linked_cong [THEN iffD1, rotated])
qed simp

lemma unlink_timer_links:
  assumes inv: "link_inv q (xs @ t # ys)"
  shows "link_inv (unlink_timer t q) (xs @ ys)"
proof -
  let ?q = "unlink_timer t q" and ?p = "if xs = [] then None else Some (last xs)"
  let ?n = "if ys = [] then None else Some (hd ys)"
  have d: "distinct (xs @ t # ys)" using inv by (simp add: link_inv_def)
  obtain m where before: "linked (timer_data q) None (timers_head q) xs m"
    and t: "m = Some t" "prev_timer (timer_data q t) = ?p"
    and after: "linked (timer_data q) (Some t) (next_timer (timer_data q t)) ys None"
    using inv by (auto simp: link_inv_def linked_append)
  have n: "next_timer (timer_data q t) = ?n" using after by (cases ys) auto
  have pt: "?p \<noteq> Some t" "?n \<noteq> Some t" using d by (auto split: if_splits)
  note data = unlink_timer_data(1,2) [where q = q and t = t, unfolded t n, OF pt]
  have ends: "last xs \<notin> set ys" if "xs \<noteq> []"
    using last_in_set [OF that] d by auto
  have ends': "hd ys \<notin> set xs" if "ys \<noteq> []"
    using hd_in_set [OF that] d by auto
  have "linked (timer_data ?q) None (if xs = [] then ?n else timers_head q) xs ?n"
    by (rule linked_new_end [OF before]) (use d ends' in \<open>auto simp: data\<close>)
  moreover have "linked (timer_data ?q) ?p ?n ys None"
    by (rule linked_new_start [OF after [unfolded n]]) (use d ends in \<open>auto simp: data\<close>)
  moreover have "timers_head ?q = (if xs = [] then ?n else timers_head q)"
    using before t d by (cases xs) (auto simp: unlink_timer_data n)
  ultimately have "linked (timer_data ?q) None (timers_head ?q) (xs @ ys) None"
    by (auto simp: linked_append)
  then show ?thesis
    using inv d by (auto simp: link_inv_def data)
qed

section \<open>Entries\<close>

text \<open>What the operations on the heap leave alone.\<close>

definition same_rest :: "'t timer_queue \<Rightarrow> 't timer_queue \<Rightarrow> bool" where
  "same_rest q q' =
     (timers_head q' = timers_head q \<and>
      (\<forall>t. t_ops (timer_data q' t) = t_ops (timer_data q t) \<and>
           next_timer (timer_data q' t) = next_timer (timer_data q t) \<and>
           prev_timer (timer_data q' t) = prev_timer (timer_data q t)))"

lemma same_rest_trans: "same_rest q r \<Longrightarrow> same_rest r s \<Longrightarrow> same_rest q s"
  by (simp add: same_rest_def)

lemma same_rest_entries: "same_entries q q' \<Longrightarrow> same_rest q q'"
  by (simp add: same_entries_def same_rest_def)

lemma same_rest_links: "same_rest q q' \<Longrightarrow> link_inv q' ts = link_inv q ts"
  by (rule link_inv_cong) (simp_all add: same_rest_def)

lemma distinct_timers: "indexed q \<Longrightarrow> distinct (map he_timer (heap q))"
  by (auto simp: distinct_conv_nth dest: indexed_inject)

lemma entry_unique:
  "indexed q \<Longrightarrow> Entry time t \<in> set (heap q) \<Longrightarrow> e \<in> set (heap q) \<Longrightarrow> he_timer e = t \<Longrightarrow>
   e = Entry time t"
  by (metis distinct_timers distinct_map heap_entry.sel(2) inj_on_def)

lemma settled:
  assumes "indexed p \<and> heap_ordered (times p) \<and> same_entries r p" "same_rest q r" "set (heap r) = S"
  shows "heap_inv p \<and> set (heap p) = S \<and> same_rest q p"
  using assms same_rest_trans [OF assms(2) same_rest_entries]
  by (simp add: heap_inv_def same_entries_def)

lemma timers_without:
  assumes "indexed q" "Entry time t \<in> set (heap q)"
  shows "he_timer ` (set (heap q) - {Entry time t}) = he_timer ` set (heap q) - {t}"
proof -
  have "inj_on he_timer (set (heap q))" using distinct_timers [OF assms(1)] by (simp add: distinct_map)
  from inj_on_image_set_diff [OF this, of "set (heap q)" "{Entry time t}"] assms(2)
  show ?thesis by simp
qed

lemma add_entry_rule:
  assumes inv: "heap_inv q" and new: "t \<notin> he_timer ` set (heap q)"
  shows "heap_inv (add_entry time t q) \<and>
         set (heap (add_entry time t q)) = insert (Entry time t) (set (heap q)) \<and>
         same_rest q (add_entry time t q)"
proof -
  let ?n = "length (heap q)"
  let ?q = "set_data t (heap_index_update (\<lambda>_. ?n)) q"
  let ?r = "?q\<lparr>heap := heap q @ [Entry time t]\<rparr>"
  have "times ?r = times q @ [time]" by (simp add: times_def)
  then have "up_defect (times ?r) ?n"
    using heap_ordered_snoc [of "times q" time] inv by (simp add: heap_inv_def)
  moreover have "he_timer (heap q ! i) \<noteq> t" if "i < ?n" for i
    using that new by (metis image_eqI nth_mem)
  then have "indexed ?r"
    using inv by (auto simp: indexed_def heap_inv_def timer_data_set_data nth_append less_Suc_eq)
  ultimately have "indexed (up_heap ?n ?r) \<and> heap_ordered (times (up_heap ?n ?r)) \<and>
      same_entries ?r (up_heap ?n ?r)"
    by (intro up_heap_rule)
  moreover have "add_entry time t q = up_heap ?n ?r"
    by (simp add: add_entry_def is_positive_infinity_def Let_def)
  moreover have "same_rest q ?r" by (simp add: same_rest_def timer_data_set_data)
  moreover have "set (heap ?r) = insert (Entry time t) (set (heap q))" by simp
  ultimately show ?thesis using settled by metis
qed

text \<open>Swapping an entry with the last and dropping the end: the last takes its place.\<close>

lemma butlast_swapped:
  assumes "i < length xs - 1"
  shows "butlast (swapped i (length xs - 1) xs) = (butlast xs)[i := last xs]"
proof -
  have "xs \<noteq> []" using assms by auto
  with assms show ?thesis
    by (intro nth_equalityI) (auto simp: swapped_def nth_butlast nth_list_update last_conv_nth)
qed

lemma set_butlast_distinct: "distinct xs \<Longrightarrow> xs \<noteq> [] \<Longrightarrow> set (butlast xs) = set xs - {last xs}"
  by (induction xs rule: rev_induct) auto

lemma last_swapped:
  assumes "i < length xs" shows "last (swapped i (length xs - 1) xs) = xs ! i"
proof -
  have "swapped i (length xs - 1) xs \<noteq> []" using assms by (metis length_0_conv length_swapped not_less0)
  with assms show ?thesis by (simp add: last_conv_nth nth_swapped)
qed

lemma indexed_drop_end:
  assumes "indexed q" "heap q \<noteq> []" "he_timer (last (heap q)) = t"
  shows "indexed ((set_data t f q)\<lparr>heap := butlast (heap q)\<rparr>)"
proof -
  have "he_timer (heap q ! i) \<noteq> t" if i: "i < length (heap q) - 1" for i
  proof
    assume "he_timer (heap q ! i) = t"
    then have "he_timer (heap q ! i) = he_timer (heap q ! (length (heap q) - 1))"
      using assms(2,3) by (simp add: last_conv_nth)
    then have "i = length (heap q) - 1"
      using i by (elim indexed_inject [OF assms(1), rotated 2]) simp_all
    with i show False by simp
  qed
  moreover have "heap_index (timer_data q (he_timer (heap q ! i))) = i" if "i < length (heap q) - 1" for i
    using assms(1) that unfolding indexed_def by simp
  ultimately show ?thesis unfolding indexed_def by (simp add: nth_butlast timer_data_set_data)
qed

lemma remove_entry_rule:
  assumes inv: "heap_inv q" and e: "Entry time t \<in> set (heap q)"
  shows "heap_inv (remove_entry t q) \<and>
         set (heap (remove_entry t q)) = set (heap q) - {Entry time t} \<and>
         same_rest q (remove_entry t q)"
proof -
  let ?n = "length (heap q) - 1"
  obtain i where i: "i < length (heap q)" "heap q ! i = Entry time t"
    using e by (metis in_set_conv_nth)
  have idx: "indexed q" and ord: "heap_ordered (times q)" using inv by (simp_all add: heap_inv_def)
  have ix: "heap_index (timer_data q t) = i" using idx i by (auto simp: indexed_def)
  have dist: "distinct (heap q)" using distinct_timers [OF idx] by (simp add: distinct_map)
  have ne: "heap q \<noteq> []" using i by auto
  show ?thesis
  proof (cases "i = ?n")
    case True
    let ?r = "(set_data t (heap_index_update (\<lambda>_. no_index)) q)\<lparr>heap := butlast (heap q)\<rparr>"
    have last: "last (heap q) = Entry time t" using True i ne by (simp add: last_conv_nth)
    have "times ?r = butlast (times q)" by (simp add: times_def map_butlast)
    then have "heap_inv ?r"
      using indexed_drop_end [OF idx ne] last heap_ordered_butlast [OF ord] by (simp add: heap_inv_def)
    moreover have "set (heap ?r) = set (heap q) - {Entry time t}"
      using set_butlast_distinct [OF dist ne] last by simp
    moreover have "same_rest q ?r" by (simp add: same_rest_def timer_data_set_data)
    moreover have "remove_entry t q = ?r"
      using True i ix ne by (simp add: remove_entry_def Let_def)
    ultimately show ?thesis by simp
  next
    case False
    then have lt: "i < ?n" using i by simp
    let ?s = "swap_heap i ?n q"
    let ?r = "(set_data t (heap_index_update (\<lambda>_. no_index)) ?s)\<lparr>heap := butlast (heap ?s)\<rparr>"
    let ?e = "if i > 0 \<and> heap_time ?r i < heap_time ?r (parent i) then up_heap i ?r else down_heap i ?r"
    have n: "?n < length (heap q)" using i by simp
    have last: "last (heap ?s) = Entry time t" using i last_swapped [of i "heap q"] by (simp add: heap_swap)
    have sne: "heap ?s \<noteq> []" using ne by (metis length_0_conv length_heap_swap)
    have len: "length (heap ?r) = ?n" by simp
    have times: "times ?r = (butlast (times q))[i := last (times q)]"
      using butlast_swapped [OF lt]
      by (simp add: times_def heap_swap map_update last_map ne flip: map_butlast)
    have ind: "indexed ?r"
      using indexed_drop_end [OF swap_heap_indexed [OF idx i(1) n] sne] last by simp
    have hp: "heap_ordered (butlast (times q))" by (rule heap_ordered_butlast [OF ord])
    have at: "heap_time ?r i = last (times q)"
      "i > 0 \<Longrightarrow> heap_time ?r (parent i) = butlast (times q) ! parent i"
      using times_nth [of i ?r] times_nth [of "parent i" ?r] lt len times parent_less [of i]
      by (auto simp: nth_list_update)
    have e: "indexed ?e \<and> heap_ordered (times ?e) \<and> same_entries ?r ?e"
    proof (cases "i > 0 \<and> heap_time ?r i < heap_time ?r (parent i)")
      case True
      then have "up_defect (times ?r) i"
        unfolding times using at lt by (intro heap_ordered_replace [OF hp]) auto
      then show ?thesis unfolding if_P [OF True] by (rule up_heap_rule [OF ind])
    next
      case False
      then have "i = 0 \<or> butlast (times q) ! parent i \<le> last (times q)"
        using at by (cases "i = 0") (simp_all add: not_less)
      then have "down_defect (times ?r) i"
        unfolding times using lt by (intro heap_ordered_replace [OF hp]) simp_all
      then show ?thesis unfolding if_not_P [OF False] by (rule down_heap_rule [OF ind])
    qed
    have eq: "remove_entry t q = ?e"
      using False i ix ne by (simp add: remove_entry_def Let_def)
    have set: "set (heap ?r) = set (heap q) - {Entry time t}"
    proof -
      have "distinct (heap ?s)"
        using distinct_timers [OF swap_heap_indexed [OF idx i(1) n]] by (simp add: distinct_map)
      from set_butlast_distinct [OF this sne] last show ?thesis
        using swap_heap_entries [OF i(1) n] by (simp add: same_entries_def)
    qed
    have rest: "same_rest q ?r"
      using swap_heap_entries [OF i(1) n] by (simp add: same_rest_def same_entries_def timer_data_set_data)
    show ?thesis unfolding eq by (rule settled [OF e rest set])
  qed
qed

end
