(* ===== verification/Timer_Waits.thy ===== *)
theory Timer_Waits
  imports Timer_Queue
begin

text \<open>
  What the operations of \<open>timer_queue\<close> promise. A queue represents a map from timers to the
  time they expire and the waits on them; every operation is shown to do to that map what
  its name says, and to keep the invariant.
\<close>

section \<open>The waits as a map\<close>

text \<open>
  The abstract state: which timers have waits, until when, and which waits in which order.
\<close>

definition waiting :: "'t timer_queue \<Rightarrow> timer_id \<Rightarrow> ('t \<times> wait_op list) option" where
  "waiting q =
     map_of (map (\<lambda>e. (he_timer e, (he_time e, t_ops (timer_data q (he_timer e))))) (heap q))"

text \<open>The invariant without the condition that a timer in the queue has waits.\<close>

definition weak_inv :: "'t::linorder timer_queue \<Rightarrow> timer_id list \<Rightarrow> bool" where
  "weak_inv q ts = (heap_inv q \<and> link_inv q ts \<and> set ts = he_timer ` set (heap q))"

lemma timer_inv_weak:
  "timer_inv q ts = (weak_inv q ts \<and> (\<forall>t. t_ops (timer_data q t) \<noteq> [] \<longleftrightarrow> t \<in> set ts))"
  by (auto simp: timer_inv_def weak_inv_def)

lemma entry_eq: "e = Entry time t \<longleftrightarrow> he_time e = time \<and> he_timer e = t"
  by (cases e) auto

lemma waiting_Some:
  assumes "heap_inv q"
  shows "waiting q t = Some (time, ops) \<longleftrightarrow>
         Entry time t \<in> set (heap q) \<and> ops = t_ops (timer_data q t)"
proof -
  let ?f = "\<lambda>e. (he_timer e, (he_time e, t_ops (timer_data q (he_timer e))))"
  have "distinct (map fst (map ?f (heap q)))"
    using distinct_timers [of q] assms by (simp add: heap_inv_def o_def)
  then have "waiting q t = Some (time, ops) \<longleftrightarrow> (t, (time, ops)) \<in> set (map ?f (heap q))"
    unfolding waiting_def by (rule map_of_eq_Some_iff)
  also have "\<dots> \<longleftrightarrow> (\<exists>e \<in> set (heap q). e = Entry time t \<and> ops = t_ops (timer_data q t))"
    unfolding set_map image_iff by (rule bex_cong) (auto simp: entry_eq)
  finally show ?thesis by simp
qed

lemma waiting_None: "waiting q t = None \<longleftrightarrow> t \<notin> he_timer ` set (heap q)"
  by (simp add: waiting_def map_of_eq_None_iff image_image)

lemma waiting_eqI:
  assumes "heap_inv q'" "\<And>t time ops. f t = Some (time, ops) \<longleftrightarrow>
     Entry time t \<in> set (heap q') \<and> ops = t_ops (timer_data q' t)"
  shows "waiting q' = f"
proof
  fix t
  have "waiting q' t = Some x \<longleftrightarrow> f t = Some x" for x
    by (cases x) (simp add: waiting_Some [OF assms(1)] assms(2))
  then show "waiting q' t = f t" by (metis not_Some_eq)
qed

lemma heap_inv_data:
  "(\<And>d. heap_index (f d) = heap_index d) \<Longrightarrow> heap_inv (set_data t f q) = heap_inv q"
  by (rule heap_inv_cong) (simp_all add: timer_data_set_data)

lemma link_inv_data:
  "(\<And>d. next_timer (f d) = next_timer d) \<Longrightarrow> (\<And>d. prev_timer (f d) = prev_timer d) \<Longrightarrow>
   link_inv (set_data t f q) ts = link_inv q ts"
  by (rule link_inv_cong) (simp_all add: timer_data_set_data)

lemma weak_inv_ops [simp]: "weak_inv (set_data t (t_ops_update f) q) ts = weak_inv q ts"
  by (simp add: weak_inv_def heap_inv_data link_inv_data)

lemma entry_of: "weak_inv q ts \<Longrightarrow> t \<in> set ts \<Longrightarrow> \<exists>time. Entry time t \<in> set (heap q)"
  unfolding weak_inv_def by (metis heap_entry.collapse imageE)

lemma insert_timer_heap [simp]:
  "heap (insert_timer t q) = heap q"
  "t_ops (timer_data (insert_timer t q) s) = t_ops (timer_data q s)"
  "heap_index (timer_data (insert_timer t q) s) = heap_index (timer_data q s)"
  by (auto simp: insert_timer_def Let_def timer_data_set_data split: option.split)

lemma unlink_timer_heap [simp]:
  "heap (unlink_timer t q) = heap q"
  "t_ops (timer_data (unlink_timer t q) s) = t_ops (timer_data q s)"
  "heap_index (timer_data (unlink_timer t q) s) = heap_index (timer_data q s)"
  by (auto simp: unlink_timer_def Let_def timer_data_set_data split: option.split)

lemma remove_timer_rule:
  assumes inv: "weak_inv q ts" and t: "t \<in> set ts" and e: "Entry time t \<in> set (heap q)"
  shows "weak_inv (remove_timer t q) (remove1 t ts)"
    and "set (heap (remove_timer t q)) = set (heap q) - {Entry time t}"
    and "t_ops (timer_data (remove_timer t q) s) = t_ops (timer_data q s)"
proof -
  let ?r = "remove_entry t q"
  have r: "heap_inv ?r" "set (heap ?r) = set (heap q) - {Entry time t}" "same_rest q ?r"
    using remove_entry_rule [OF _ e] inv by (auto simp: weak_inv_def)
  obtain xs ys where ts: "ts = xs @ t # ys" "t \<notin> set xs" using t by (metis split_list_first)
  have "link_inv ?r ts" using inv same_rest_links [OF r(3)] by (simp add: weak_inv_def)
  then have "link_inv (remove_timer t q) (xs @ ys)"
    unfolding remove_timer_def ts by (rule unlink_timer_links)
  moreover have "remove1 t ts = xs @ ys" using ts by (simp add: remove1_append)
  moreover have "heap_inv (remove_timer t q)"
    using r(1) by (subst heap_inv_cong [of _ ?r]) (simp_all add: remove_timer_def)
  moreover have "distinct ts" using inv by (simp add: weak_inv_def link_inv_def)
  then have "set (xs @ ys) = set ts - {t}" by (auto simp: ts)
  moreover have "he_timer ` (set (heap q) - {Entry time t}) = set ts - {t}"
    using inv timers_without [OF _ e] by (simp add: weak_inv_def heap_inv_def)
  ultimately show "weak_inv (remove_timer t q) (remove1 t ts)"
    by (simp add: weak_inv_def) (simp add: remove_timer_def r(2))
  show "set (heap (remove_timer t q)) = set (heap q) - {Entry time t}"
    by (simp add: remove_timer_def r(2))
  show "t_ops (timer_data (remove_timer t q) s) = t_ops (timer_data q s)"
    using r(3) by (simp add: remove_timer_def same_rest_def)
qed

lemma add_timer_rule:
  assumes inv: "weak_inv q ts" and t: "t \<notin> set ts"
  shows "weak_inv (insert_timer t (add_entry time t q)) (t # ts)"
    and "set (heap (insert_timer t (add_entry time t q))) = insert (Entry time t) (set (heap q))"
    and "t_ops (timer_data (insert_timer t (add_entry time t q)) s) = t_ops (timer_data q s)"
proof -
  let ?r = "add_entry time t q"
  have r: "heap_inv ?r" "set (heap ?r) = insert (Entry time t) (set (heap q))" "same_rest q ?r"
    using add_entry_rule [of q t time] inv t by (auto simp: weak_inv_def)
  have "link_inv ?r ts" using inv same_rest_links [OF r(3)] by (simp add: weak_inv_def)
  then have "link_inv (insert_timer t ?r) (t # ts)" using t by (rule insert_timer_links)
  moreover have "heap_inv (insert_timer t ?r)" using r(1) by (subst heap_inv_cong [of _ ?r]) simp_all
  ultimately show "weak_inv (insert_timer t ?r) (t # ts)"
    using inv by (simp add: weak_inv_def r(2))
  show "set (heap (insert_timer t ?r)) = insert (Entry time t) (set (heap q))" by (simp add: r(2))
  show "t_ops (timer_data (insert_timer t ?r) s) = t_ops (timer_data q s)"
    using r(3) by (simp add: same_rest_def)
qed

section \<open>What the operations do to the waits\<close>

lemma timer_inv_heap: "timer_inv q ts \<Longrightarrow> heap_inv q"
  by (simp add: timer_inv_def)

lemma timer_inv_enqueued: "timer_inv q ts \<Longrightarrow> enqueued q t \<longleftrightarrow> t \<in> set ts"
  by (rule enqueued_iff) (simp add: timer_inv_def)

lemma waiting_enqueued: "timer_inv q ts \<Longrightarrow> waiting q t = None \<longleftrightarrow> t \<notin> set ts"
  by (simp add: waiting_None timer_inv_def)

lemma waiting_entry:
  assumes "timer_inv q ts" "Entry time t \<in> set (heap q)"
  shows "waiting q t = Some (time, t_ops (timer_data q t))"
  using assms by (simp add: waiting_Some timer_inv_heap)

lemma entry_listed: "timer_inv q ts \<Longrightarrow> Entry time t \<in> set (heap q) \<Longrightarrow> t \<in> set ts"
  unfolding timer_inv_def by (metis heap_entry.sel(2) imageI)

lemma waiting_times:
  assumes "timer_inv q ts" "Entry time t \<in> set (heap q)" "Entry time' t \<in> set (heap q)"
  shows "time' = time"
  using assms entry_unique [of q time t "Entry time' t"] by (simp add: timer_inv_def heap_inv_def)

lemma new_timer_queue_rule: "timer_inv new_timer_queue []" "waiting new_timer_queue = Map.empty"
  by (auto simp: timer_inv_def heap_inv_def link_inv_def heap_ordered_def indexed_def waiting_def
      new_timer_queue_def new_timer_def)

text \<open>The first entry of the heap is an earliest one.\<close>

lemma heap_first:
  assumes "heap_inv q" "e \<in> set (heap q)"
  shows "heap_time q 0 \<le> he_time e"
proof -
  obtain i where i: "i < length (heap q)" "heap q ! i = e" using assms(2) by (metis in_set_conv_nth)
  then have "0 < length (heap q)" by (metis not_gr_zero not_less0)
  with i heap_ordered_least [of "times q" i] assms(1) have "heap_time q 0 \<le> heap_time q i"
    by (simp add: heap_inv_def times_nth)
  with i show ?thesis by (simp add: heap_time_def)
qed

definition with_wait :: "'t \<Rightarrow> wait_op \<Rightarrow> ('t \<times> wait_op list) option \<Rightarrow> 't \<times> wait_op list" where
  "with_wait time op w = (case w of None \<Rightarrow> (time, [op]) | Some (due, ops) \<Rightarrow> (due, ops @ [op]))"

lemma enqueue_timer_rule:
  assumes inv: "timer_inv q ts" and call: "enqueue_timer time t op q = (earliest, q')"
  shows "timer_inv q' (if t \<in> set ts then ts else t # ts)"
    and "waiting q' = (waiting q)(t \<mapsto> with_wait time op (waiting q t))"
    and "earliest \<Longrightarrow> waiting q' s = Some (due, ops) \<Longrightarrow> fst (the (waiting q' t)) \<le> due"
proof -
  let ?r = "if t \<in> set ts then q else insert_timer t (add_entry time t q)"
  let ?ts = "if t \<in> set ts then ts else t # ts"
  have q': "q' = set_data t (t_ops_update (\<lambda>ops. ops @ [op])) ?r"
    and first: "earliest \<Longrightarrow> heap_index (timer_data q' t) = 0"
    using call timer_inv_enqueued [OF inv, of t]
    by (auto simp: enqueue_timer_def Let_def)
  have weak: "weak_inv q ts" using inv by (simp add: timer_inv_weak)
  have r: "weak_inv ?r ?ts" "t_ops (timer_data ?r s) = t_ops (timer_data q s)" for s
    using weak add_timer_rule [OF weak, of t time] by auto
  then have inv': "timer_inv q' ?ts"
    using inv by (auto simp: timer_inv_weak q' timer_data_set_data)
  show "timer_inv q' (if t \<in> set ts then ts else t # ts)" by (rule inv')
  show w: "waiting q' = (waiting q)(t \<mapsto> with_wait time op (waiting q t))"
  proof (rule waiting_eqI [OF timer_inv_heap [OF inv']])
    fix s due ops
    show "((waiting q)(t \<mapsto> with_wait time op (waiting q t))) s = Some (due, ops) \<longleftrightarrow>
        Entry due s \<in> set (heap q') \<and> ops = t_ops (timer_data q' s)"
    proof (cases "t \<in> set ts")
      case True
      then obtain x where x: "Entry x t \<in> set (heap q)" using entry_of [OF weak] by blast
      have "Entry due t \<in> set (heap q) \<longleftrightarrow> due = x" using waiting_times [OF inv x] x by blast
      then show ?thesis
        using True waiting_Some [OF timer_inv_heap [OF inv], of s]
        by (auto simp: q' timer_data_set_data with_wait_def waiting_entry [OF inv x])
    next
      case False
      have none: "waiting q t = None" using waiting_enqueued [OF inv] False by simp
      have "t \<notin> he_timer ` set (heap q)" using False weak by (simp add: weak_inv_def)
      then have "Entry due t \<notin> set (heap q)" by force
      moreover have "t_ops (timer_data q t) = []" using inv False by (auto simp: timer_inv_def)
      ultimately show ?thesis
        using False none r(2) add_timer_rule(2) [OF weak False, of time]
        by (auto simp: q' timer_data_set_data with_wait_def waiting_Some [OF timer_inv_heap [OF inv]])
    qed
  qed
  assume e: earliest and s: "waiting q' s = Some (due, ops)"
  have "t \<in> set ?ts" by simp
  then obtain x where x: "Entry x t \<in> set (heap q')" using inv' entry_of [of q'] unfolding timer_inv_weak by blast
  then obtain i where i: "i < length (heap q')" "heap q' ! i = Entry x t" by (metis in_set_conv_nth)
  have "i = 0" using first [OF e] inv' i by (auto simp: timer_inv_def heap_inv_def indexed_def)
  then have "heap_time q' 0 = x" using i by (simp add: heap_time_def)
  then have "x \<le> due"
    using heap_first [OF timer_inv_heap [OF inv']] s by (force simp: waiting_Some [OF timer_inv_heap [OF inv']])
  then show "fst (the (waiting q' t)) \<le> due" by (simp add: waiting_entry [OF inv' x])
qed

text \<open>Emptying a timer's waits and removing it.\<close>

lemma remove_timer_waits:
  assumes inv: "timer_inv q ts" and e: "Entry time t \<in> set (heap q)"
  shows "timer_inv (remove_timer t (set_data t (t_ops_update (\<lambda>_. [])) q)) (remove1 t ts)"
    and "waiting (remove_timer t (set_data t (t_ops_update (\<lambda>_. [])) q)) = (waiting q)(t := None)"
proof -
  let ?q = "set_data t (t_ops_update (\<lambda>_. [])) q"
  have t: "t \<in> set ts" by (rule entry_listed [OF inv e])
  have weak: "weak_inv ?q ts" using inv by (simp add: timer_inv_weak)
  have e': "Entry time t \<in> set (heap ?q)" using e by simp
  note rules = remove_timer_rule [OF weak t e']
  have "distinct ts" using inv by (simp add: timer_inv_def link_inv_def)
  then have ts: "set (remove1 t ts) = set ts - {t}" by (rule set_remove1_eq)
  show inv': "timer_inv (remove_timer t ?q) (remove1 t ts)"
    using inv rules by (auto simp: timer_inv_weak ts timer_data_set_data)
  show "waiting (remove_timer t ?q) = (waiting q)(t := None)"
  proof (rule waiting_eqI [OF timer_inv_heap [OF inv']])
    fix s due ops
    have "Entry due s \<in> set (heap q) \<and> s \<noteq> t \<longleftrightarrow> Entry due s \<in> set (heap q) - {Entry time t}"
      using waiting_times [OF inv e, of due] by auto
    then show "((waiting q)(t := None)) s = Some (due, ops) \<longleftrightarrow>
        Entry due s \<in> set (heap (remove_timer t ?q)) \<and> ops = t_ops (timer_data (remove_timer t ?q) s)"
      using rules(2,3) by (auto simp: timer_data_set_data waiting_Some [OF timer_inv_heap [OF inv]])
  qed
qed

text \<open>
  Taking the due waits: every round removes the earliest timer, so the loop ends; it takes
  the timers in the order of their times and leaves those of later times alone.
\<close>

definition due_timers :: "'t::linorder timer_queue \<Rightarrow> 't \<Rightarrow> timer_id set" where
  "due_timers q now = {t. \<exists>time ops. waiting q t = Some (time, ops) \<and> time \<le> now}"

definition due_time :: "'t timer_queue \<Rightarrow> timer_id \<Rightarrow> 't" where
  "due_time q t = fst (the (waiting q t))"

definition waits_of :: "'t timer_queue \<Rightarrow> timer_id \<Rightarrow> wait_op list" where
  "waits_of q t = (case waiting q t of None \<Rightarrow> [] | Some (_, ops) \<Rightarrow> ops)"

lemma waits_of_eq: "timer_inv q ts \<Longrightarrow> waits_of q t = t_ops (timer_data q t)"
proof (cases "waiting q t")
  case None
  assume inv: "timer_inv q ts"
  with None have "t \<notin> set ts" by (simp add: waiting_enqueued)
  then have "t_ops (timer_data q t) = []" using inv unfolding timer_inv_def by blast
  with None show ?thesis by (simp add: waits_of_def)
next
  case (Some w)
  assume inv: "timer_inv q ts"
  obtain time ops where w: "w = (time, ops)" by fastforce
  then have "ops = t_ops (timer_data q t)" using waiting_Some [OF timer_inv_heap [OF inv]] Some by blast
  with Some w show ?thesis by (simp add: waits_of_def)
qed

definition taken :: "'t timer_queue \<Rightarrow> timer_id list \<Rightarrow> wait_op list" where
  "taken q due = concat (map (\<lambda>t. map (completed Success) (waits_of q t)) due)"

definition take_all :: "'t timer_queue \<Rightarrow> 't timer_queue \<Rightarrow> timer_id list \<Rightarrow> bool" where
  "take_all q q' due = (waiting q' = (\<lambda>t. if t \<in> set due then None else waiting q t))"

lemma ready_loop_rule:
  "timer_inv q ts \<Longrightarrow>
   \<exists>q' due. ready_loop now q ops = Some (q', ops @ taken q due) \<and>
     (\<exists>ts'. timer_inv q' ts') \<and> take_all q q' due \<and>
     distinct due \<and> set due = due_timers q now \<and> sorted (map (due_time q) due)"
proof (induction "length ts" arbitrary: q ts ops rule: less_induct)
  case less
  note inv = less.prems
  show ?case
  proof (cases "heap q \<noteq> [] \<and> \<not> now < heap_time q 0")
    case False
    have "due_timers q now = {}"
    proof -
      have "now < time" if "Entry time t \<in> set (heap q)" for time t
        using False that heap_first [OF timer_inv_heap [OF inv] that] by (cases "heap q") auto
      then show ?thesis
        by (force simp: due_timers_def waiting_Some [OF timer_inv_heap [OF inv]] dest: leD)
    qed
    then have "take_all q q []" "distinct []" "set [] = due_timers q now"
      "sorted (map (due_time q) [])" "taken q [] = []"
      by (simp_all add: take_all_def taken_def)
    moreover have "ready_loop now q ops = Some (q, ops)"
      using False by (subst ready_loop.simps) (simp only: if_False)
    ultimately show ?thesis using inv by (metis append_Nil2)
  next
    case True
    let ?t = "he_timer (heap q ! 0)" and ?x = "heap_time q 0"
    let ?r = "remove_timer ?t (set_data ?t (t_ops_update (\<lambda>_. [])) q)"
    have e: "Entry ?x ?t \<in> set (heap q)" using True by (simp add: heap_time_def)
    have w: "waiting q ?t = Some (?x, waits_of q ?t)"
      using waiting_entry [OF inv e] by (simp add: waits_of_eq [OF inv])
    have t: "?t \<in> set ts" by (rule entry_listed [OF inv e])
    then have "length (remove1 ?t ts) < length ts"
      using length_pos_if_in_set [OF t] by (simp add: length_remove1)
    from less.hyps [OF this remove_timer_waits(1) [OF inv e], of "ops @ map (completed Success) (waits_of q ?t)"]
    obtain q' due where IH:
      "ready_loop now ?r (ops @ map (completed Success) (waits_of q ?t)) =
         Some (q', (ops @ map (completed Success) (waits_of q ?t)) @ taken ?r due)"
      "\<exists>ts'. timer_inv q' ts'" "take_all ?r q' due" "distinct due"
      "set due = due_timers ?r now" "sorted (map (due_time ?r) due)"
      by blast
    have wr: "waiting ?r = (waiting q)(?t := None)" by (rule remove_timer_waits(2) [OF inv e])
    have not: "?t \<notin> set due" unfolding IH(5) by (simp add: due_timers_def wr)
    have same: "due_time ?r s = due_time q s" "waits_of ?r s = waits_of q s" if "s \<in> set due" for s
      using that not by (auto simp: due_time_def waits_of_def wr)
    have later: "?x \<le> due_time q s" if "s \<in> set due" for s
    proof -
      from that not obtain y w where "waiting q s = Some (y, w)"
        unfolding IH(5) by (auto simp: due_timers_def wr split: if_splits)
      moreover from this have "Entry y s \<in> set (heap q)"
        using waiting_Some [OF timer_inv_heap [OF inv]] by blast
      from heap_first [OF timer_inv_heap [OF inv] this] have "?x \<le> y" by simp
      ultimately show ?thesis by (simp add: due_time_def)
    qed
    have "ready_loop now q ops = Some (q', ops @ taken q (?t # due))"
      using IH(1) same(2)
      by (subst ready_loop.simps) (simp add: True waits_of_eq [OF inv] taken_def cong: map_cong)
    moreover have "take_all q q' (?t # due)" using IH(3) by (auto simp: take_all_def wr)
    moreover have "set (?t # due) = due_timers q now"
      using True w by (auto simp: IH(5) due_timers_def wr)
    moreover have "sorted (map (due_time q) (?t # due))"
      using IH(6) later same(1) w by (simp add: due_time_def cong: map_cong)
    moreover have "distinct (?t # due)" using IH(4) not by simp
    ultimately show ?thesis using IH(2) by blast
  qed
qed

lemma get_ready_timers_eq: "get_ready_timers now q ops = ready_loop now q ops"
proof (cases "heap q = []")
  case True
  then have "ready_loop now q ops = Some (q, ops)"
    by (subst ready_loop.simps) (simp only: simp_thms if_False)
  with True show ?thesis by (simp add: get_ready_timers_def)
qed (simp add: get_ready_timers_def)

text \<open>Taking everything, as at shutdown.\<close>

lemma all_loop_rule:
  "linked (timer_data q) p (timers_head q) ts None \<Longrightarrow> distinct ts \<Longrightarrow>
   (\<And>t. t \<notin> set ts \<Longrightarrow>
      t_ops (timer_data q t) = [] \<and> next_timer (timer_data q t) = None \<and>
      prev_timer (timer_data q t) = None) \<Longrightarrow>
   \<exists>q'. all_loop q ops = Some (q', ops @ concat (map (\<lambda>t. t_ops (timer_data q t)) ts)) \<and>
     timers_head q' = None \<and>
     (\<forall>t. t_ops (timer_data q' t) = [] \<and> next_timer (timer_data q' t) = None \<and>
          prev_timer (timer_data q' t) = None)"
proof (induction ts arbitrary: q p ops)
  case Nil
  then show ?case by (subst all_loop.simps) simp
next
  case (Cons t ts)
  let ?q = "q\<lparr>timers_head := next_timer (timer_data q t)\<rparr>"
  let ?r = "set_data t (\<lambda>d. d\<lparr>t_ops := [], next_timer := None, prev_timer := None\<rparr>) ?q"
  have data: "timer_data ?r s = (if s = t then (timer_data q t)\<lparr>t_ops := [], next_timer := None,
      prev_timer := None\<rparr> else timer_data q s)" for s
    by (simp add: timer_data_set_data)
  have "linked (timer_data ?r) (Some t) (timers_head ?r) ts None"
    using Cons.prems(1,2) by (subst linked_cong [of ts _ "timer_data q"]) (auto simp: data)
  moreover have "t_ops (timer_data ?r s) = [] \<and> next_timer (timer_data ?r s) = None \<and>
      prev_timer (timer_data ?r s) = None" if "s \<notin> set ts" for s
    using Cons.prems(3) [of s] that by (simp add: data)
  ultimately obtain q' where IH:
    "all_loop ?r (ops @ t_ops (timer_data q t)) =
       Some (q', (ops @ t_ops (timer_data q t)) @ concat (map (\<lambda>t. t_ops (timer_data ?r t)) ts))"
    "timers_head q' = None"
    "\<forall>t. t_ops (timer_data q' t) = [] \<and> next_timer (timer_data q' t) = None \<and>
         prev_timer (timer_data q' t) = None"
    using Cons.IH [of ?r "Some t" "ops @ t_ops (timer_data q t)"] Cons.prems(2) by auto
  have rest: "map (\<lambda>t. t_ops (timer_data ?r t)) ts = map (\<lambda>t. t_ops (timer_data q t)) ts"
    using Cons.prems(2) by (intro map_cong refl) (auto simp: data)
  have "all_loop q ops = all_loop ?r (ops @ t_ops (timer_data q t))"
    using Cons.prems(1) by (subst all_loop.simps) (simp add: Let_def)
  then show ?case using IH(2,3) unfolding IH(1) [unfolded rest] by auto
qed

lemma get_all_timers_rule:
  assumes "timer_inv q ts"
  shows "\<exists>q'. get_all_timers q ops = Some (q', ops @ concat (map (waits_of q) ts)) \<and>
    timer_inv q' [] \<and> waiting q' = Map.empty"
proof -
  have "t_ops (timer_data q t) = [] \<and> next_timer (timer_data q t) = None \<and>
      prev_timer (timer_data q t) = None" if "t \<notin> set ts" for t
    using assms that by (auto simp: timer_inv_def link_inv_def)
  then obtain q' where q': "all_loop q ops = Some (q', ops @ concat (map (\<lambda>t. t_ops (timer_data q t)) ts))"
    "timers_head q' = None" "\<forall>t. t_ops (timer_data q' t) = [] \<and> next_timer (timer_data q' t) = None \<and>
       prev_timer (timer_data q' t) = None"
    using all_loop_rule [of q None ts ops] assms by (auto simp: timer_inv_def link_inv_def)
  have "timer_inv (q'\<lparr>heap := []\<rparr>) []"
    using q' by (simp add: timer_inv_def heap_inv_def link_inv_def heap_ordered_def indexed_def)
  then show ?thesis
    using q' waits_of_eq [OF assms] by (auto simp: get_all_timers_def waiting_def cong: map_cong)
qed

text \<open>Leaving only some of a timer's waits, and removing it when none is left.\<close>

lemma keep_waits:
  assumes inv: "timer_inv q ts" and t: "t \<in> set ts"
    and q': "q' = (let r = set_data t (t_ops_update (\<lambda>_. waits)) q
                   in if t_ops (timer_data r t) = [] then remove_timer t r else r)"
  shows "timer_inv q' (if waits = [] then remove1 t ts else ts)"
    and "waiting q' = (waiting q)(t := if waits = [] then None else Some (due_time q t, waits))"
proof -
  have weak: "weak_inv q ts" using inv by (simp add: timer_inv_weak)
  obtain x where x: "Entry x t \<in> set (heap q)" using entry_of [OF weak t] by blast
  have due: "due_time q t = x" using waiting_entry [OF inv x] by (simp add: due_time_def)
  show inv': "timer_inv q' (if waits = [] then remove1 t ts else ts)"
    using remove_timer_waits(1) [OF inv x] inv t
    by (auto simp: q' timer_inv_weak timer_data_set_data Let_def)
  show "waiting q' = (waiting q)(t := if waits = [] then None else Some (due_time q t, waits))"
  proof (cases "waits = []")
    case True
    then show ?thesis using remove_timer_waits(2) [OF inv x] by (simp add: q' timer_data_set_data)
  next
    case False
    show ?thesis
    proof (rule waiting_eqI [OF timer_inv_heap [OF inv']])
      fix s y ops
      have "Entry y t \<in> set (heap q) \<longleftrightarrow> y = x" using waiting_times [OF inv x] x by blast
      then show "((waiting q)(t := if waits = [] then None else Some (due_time q t, waits))) s =
          Some (y, ops) \<longleftrightarrow> Entry y s \<in> set (heap q') \<and> ops = t_ops (timer_data q' s)"
        using False waiting_Some [OF timer_inv_heap [OF inv], of s]
        by (auto simp: q' timer_data_set_data due Let_def)
    qed
  qed
qed

text \<open>What the abstract state becomes when only \<open>waits\<close> are left on a timer.\<close>

definition left_with ::
  "'t timer_queue \<Rightarrow> timer_id \<Rightarrow> wait_op list \<Rightarrow> timer_id \<Rightarrow> ('t \<times> wait_op list) option" where
  "left_with q t waits =
     (waiting q)(t := if waits = [] then None else Some (due_time q t, waits))"

lemma left_with_nothing: "waiting q t = None \<Longrightarrow> left_with q t [] = waiting q"
  by (auto simp: left_with_def)

lemma waits_of_absent: "waiting q t = None \<Longrightarrow> waits_of q t = []"
  by (simp add: waits_of_def)

lemma cancel_timer_rule:
  assumes inv: "timer_inv q ts" and call: "cancel_timer t ops max_cancelled q = (n, q', ops')"
  shows "n = min max_cancelled (length (waits_of q t))"
    and "ops' = ops @ map (completed Operation_aborted) (take max_cancelled (waits_of q t))"
    and "\<exists>ts'. timer_inv q' ts'"
    and "waiting q' = left_with q t (drop max_cancelled (waits_of q t))"
proof -
  have *: "n = min max_cancelled (length (waits_of q t)) \<and>
      ops' = ops @ map (completed Operation_aborted) (take max_cancelled (waits_of q t)) \<and>
      (\<exists>ts'. timer_inv q' ts') \<and> waiting q' = left_with q t (drop max_cancelled (waits_of q t))"
  proof (cases "t \<in> set ts")
    case True
    let ?w = "drop max_cancelled (waits_of q t)"
    have q': "q' = (let r = set_data t (t_ops_update (\<lambda>_. ?w)) q
        in if t_ops (timer_data r t) = [] then remove_timer t r else r)"
      and "n = min max_cancelled (length (waits_of q t))"
      "ops' = ops @ map (completed Operation_aborted) (take max_cancelled (waits_of q t))"
      using call True
      by (simp_all add: cancel_timer_def timer_inv_enqueued [OF inv] cancel_loop_eq Let_def
          waits_of_eq [OF inv])
    then show ?thesis using keep_waits [OF inv True q'] by (auto simp: left_with_def)
  next
    case False
    then have none: "waiting q t = None" by (simp add: waiting_enqueued [OF inv])
    then show ?thesis
      using call inv False
      by (auto simp: cancel_timer_def timer_inv_enqueued [OF inv] waits_of_absent left_with_nothing)
  qed
  then show "n = min max_cancelled (length (waits_of q t))"
    "ops' = ops @ map (completed Operation_aborted) (take max_cancelled (waits_of q t))"
    "\<exists>ts'. timer_inv q' ts'" "waiting q' = left_with q t (drop max_cancelled (waits_of q t))"
    by blast+
qed

lemma cancel_timer_by_key_rule:
  assumes inv: "timer_inv q ts" and call: "cancel_timer_by_key t ops key q = (q', ops')"
  shows "ops' = ops @ map (completed Operation_aborted)
           (filter (\<lambda>op. cancellation_key op = key) (waits_of q t))"
    and "\<exists>ts'. timer_inv q' ts'"
    and "waiting q' = left_with q t (filter (\<lambda>op. cancellation_key op \<noteq> key) (waits_of q t))"
proof -
  have *: "ops' = ops @ map (completed Operation_aborted)
           (filter (\<lambda>op. cancellation_key op = key) (waits_of q t)) \<and>
      (\<exists>ts'. timer_inv q' ts') \<and>
      waiting q' = left_with q t (filter (\<lambda>op. cancellation_key op \<noteq> key) (waits_of q t))"
  proof (cases "t \<in> set ts")
    case True
    let ?w = "filter (\<lambda>op. cancellation_key op \<noteq> key) (waits_of q t)"
    have q': "q' = (let r = set_data t (t_ops_update (\<lambda>_. ?w)) q
        in if t_ops (timer_data r t) = [] then remove_timer t r else r)"
      and "ops' = ops @ map (completed Operation_aborted)
           (filter (\<lambda>op. cancellation_key op = key) (waits_of q t))"
      using call True
      by (simp_all add: cancel_timer_by_key_def timer_inv_enqueued [OF inv] key_loop_eq Let_def
          waits_of_eq [OF inv])
    then show ?thesis using keep_waits [OF inv True q'] by (auto simp: left_with_def)
  next
    case False
    then have none: "waiting q t = None" by (simp add: waiting_enqueued [OF inv])
    then show ?thesis
      using call inv False
      by (auto simp: cancel_timer_by_key_def timer_inv_enqueued [OF inv] waits_of_absent
          left_with_nothing)
  qed
  then show "ops' = ops @ map (completed Operation_aborted)
           (filter (\<lambda>op. cancellation_key op = key) (waits_of q t))"
    "\<exists>ts'. timer_inv q' ts'"
    "waiting q' = left_with q t (filter (\<lambda>op. cancellation_key op \<noteq> key) (waits_of q t))"
    by blast+
qed

text \<open>
  Moving a timer: the new one takes the old one's place in the heap and in the list, with its
  waits and its time.
\<close>

definition renamed :: "timer_id \<Rightarrow> timer_id \<Rightarrow> timer_id \<Rightarrow> timer_id" where
  "renamed target source t = (if t = source then target else t)"

lemma move_links_data:
  assumes "prev_timer (timer_data q source) \<noteq> Some source" "next_timer (timer_data q source) \<noteq> Some source"
    and "prev_timer (timer_data q source) \<noteq> Some target" "next_timer (timer_data q source) \<noteq> Some target"
    and "target \<noteq> source"
  shows "next_timer (timer_data (move_links target source q) s) =
     (if s = source then None else if s = target then next_timer (timer_data q source)
      else if prev_timer (timer_data q source) = Some s then Some target
      else next_timer (timer_data q s))"
    and "prev_timer (timer_data (move_links target source q) s) =
     (if s = source then None else if s = target then prev_timer (timer_data q source)
      else if next_timer (timer_data q source) = Some s then Some target
      else prev_timer (timer_data q s))"
    and "timers_head (move_links target source q) =
     (if timers_head q = Some source then Some target else timers_head q)"
  using assms
  by (cases "prev_timer (timer_data q source)"; cases "next_timer (timer_data q source)";
      simp add: move_links_def Let_def timer_data_set_data; fail)+

lemma move_links_heap [simp]:
  "heap (move_links target source q) = heap q"
  "t_ops (timer_data (move_links target source q) s) = t_ops (timer_data q s)"
  "heap_index (timer_data (move_links target source q) s) = heap_index (timer_data q s)"
  by (auto simp: move_links_def Let_def timer_data_set_data split: option.split)

lemma move_waits_data:
  assumes "target \<noteq> source"
  shows "next_timer (timer_data (move_waits target source q) s) = next_timer (timer_data q s)"
    and "prev_timer (timer_data (move_waits target source q) s) = prev_timer (timer_data q s)"
    and "timers_head (move_waits target source q) = timers_head q"
    and "t_ops (timer_data (move_waits target source q) s) =
     (if s = source then [] else if s = target then t_ops (timer_data q target) @ t_ops (timer_data q source)
      else t_ops (timer_data q s))"
    and "heap_index (timer_data (move_waits target source q) s) =
     (if s = source then no_index else if s = target then heap_index (timer_data q source)
      else heap_index (timer_data q s))"
    and "heap (move_waits target source q) =
     (let i = heap_index (timer_data q source)
      in if i < length (heap q) then (heap q)[i := Entry (heap_time q i) target] else heap q)"
  using assms by (simp_all add: move_waits_def Let_def timer_data_set_data)

lemma heap_rename:
  assumes "heap_inv q" "i < length (heap q)" "he_timer (heap q ! i) = source"
    and "target \<notin> he_timer ` set (heap q)" "heap q' = (heap q)[i := Entry (heap_time q i) target]"
    and "heap_index (timer_data q' target) = i"
    and "\<And>s. s \<noteq> source \<Longrightarrow> s \<noteq> target \<Longrightarrow> heap_index (timer_data q' s) = heap_index (timer_data q s)"
  shows "heap_inv q'" and "set (heap q') = insert (Entry (heap_time q i) target)
           (set (heap q) - {Entry (heap_time q i) source})"
proof -
  have idx: "indexed q" using assms(1) by (simp add: heap_inv_def)
  have dist: "distinct (heap q)" using distinct_timers [OF idx] by (simp add: distinct_map)
  have ei: "heap q ! i = Entry (heap_time q i) source" using assms(3) by (simp add: heap_time_def entry_eq)
  have "times q' = times q"
    using assms(2,5) by (simp add: times_def map_update) (simp add: heap_time_def list_update_same_conv)
  moreover have "indexed q'"
    unfolding indexed_def
  proof (intro allI impI)
    fix j assume j: "j < length (heap q')"
    show "heap_index (timer_data q' (he_timer (heap q' ! j))) = j"
    proof (cases "j = i")
      case False
      then have "he_timer (heap q ! j) \<noteq> source"
        using indexed_inject [OF idx _ assms(2), of j] j assms(3,5) by auto
      moreover have "he_timer (heap q ! j) \<noteq> target" using assms(4,5) j by force
      ultimately show ?thesis using idx False j assms(5,7) by (simp add: indexed_def)
    qed (use assms in simp)
  qed
  ultimately show "heap_inv q'" using assms(1) by (simp add: heap_inv_def)
  show "set (heap q') = insert (Entry (heap_time q i) target)
           (set (heap q) - {Entry (heap_time q i) source})"
    using set_update_distinct [OF dist assms(2)] by (simp add: assms(5) ei)
qed

lemma move_links_rule:
  assumes inv: "link_inv q (xs @ source # ys)" and target: "target \<notin> set (xs @ source # ys)"
  shows "link_inv (move_links target source q) (xs @ target # ys)"
proof -
  let ?q = "move_links target source q" and ?p = "if xs = [] then None else Some (last xs)"
  let ?n = "if ys = [] then None else Some (hd ys)"
  have d: "distinct (xs @ source # ys)" using inv by (simp add: link_inv_def)
  obtain m where before: "linked (timer_data q) None (timers_head q) xs m"
    and t: "m = Some source" "prev_timer (timer_data q source) = ?p"
    and after: "linked (timer_data q) (Some source) (next_timer (timer_data q source)) ys None"
    using inv by (auto simp: link_inv_def linked_append)
  have n: "next_timer (timer_data q source) = ?n" using after by (cases ys) auto
  have ends: "last xs \<notin> set ys" "last xs \<noteq> source" "last xs \<noteq> target" if "xs \<noteq> []"
    using last_in_set [OF that] d target by auto
  have ends': "hd ys \<notin> set xs" "hd ys \<noteq> source" "hd ys \<noteq> target" if "ys \<noteq> []"
    using hd_in_set [OF that] d target by auto
  have no: "?p \<noteq> Some source" "?n \<noteq> Some source" "?p \<noteq> Some target" "?n \<noteq> Some target"
    and ne: "target \<noteq> source"
    using ends ends' target by auto
  note data = move_links_data [where q = q and source = source and target = target, unfolded t n, OF no ne]
  have "linked (timer_data ?q) None (if xs = [] then Some target else timers_head q) xs (Some target)"
    by (rule linked_new_end [OF before]) (use d ends' target in \<open>auto simp: data\<close>)
  moreover have "linked (timer_data ?q) (Some target) ?n ys None"
    by (rule linked_new_start [OF after [unfolded n]]) (use d ends target in \<open>auto simp: data\<close>)
  moreover have "timers_head ?q = (if xs = [] then Some target else timers_head q)"
    using before t d by (cases xs) (auto simp: data)
  moreover have "prev_timer (timer_data ?q target) = ?p" "next_timer (timer_data ?q target) = ?n"
    using ne by (simp_all add: data)
  ultimately have "linked (timer_data ?q) None (timers_head ?q) (xs @ target # ys) None"
    by (auto simp: linked_append)
  then show ?thesis
    using inv d target by (auto simp: link_inv_def data)
qed

lemma move_timer_rule:
  assumes inv: "timer_inv q ts" and source: "source \<in> set ts" and target: "target \<notin> set ts"
  shows "timer_inv (move_timer target source q) (map (renamed target source) ts)"
    and "waiting (move_timer target source q) = (waiting q)(source := None, target := waiting q source)"
proof -
  let ?r = "move_waits target source q" and ?q = "move_timer target source q"
  obtain xs ys where ts: "ts = xs @ source # ys" using source by (metis split_list)
  have d: "distinct ts" using inv by (simp add: timer_inv_def link_inv_def)
  have ne: "target \<noteq> source" using source target by auto
  have renamed: "map (renamed target source) ts = xs @ target # ys"
    using d by (auto simp: ts renamed_def intro!: map_idI)
  note moved = move_waits_data [OF ne, where q = q]
  have "link_inv ?r ts" using inv by (subst link_inv_cong [of _ q]) (simp_all add: moved timer_inv_def)
  then have links: "link_inv ?q (xs @ target # ys)"
    using target unfolding move_timer_def ts by (intro move_links_rule)
  obtain x where x: "Entry x source \<in> set (heap q)"
    using entry_of [of q ts source] inv source by (auto simp: timer_inv_weak)
  then obtain i where i: "i < length (heap q)" "heap q ! i = Entry x source" by (metis in_set_conv_nth)
  have hi: "heap_inv q" and ti: "target \<notin> he_timer ` set (heap q)"
    using inv target by (simp_all add: timer_inv_def)
  have ix: "heap_index (timer_data q source) = i" using hi i by (auto simp: heap_inv_def indexed_def)
  have ht: "heap_time q i = x" using i by (simp add: heap_time_def)
  have hr: "heap ?r = (heap q)[i := Entry (heap_time q i) target]" using i ix by (simp add: moved)
  have rest: "heap ?q = heap ?r" "heap_index (timer_data ?q s) = heap_index (timer_data ?r s)"
    "t_ops (timer_data ?q s) = t_ops (timer_data ?r s)" for s
    by (simp_all add: move_timer_def)
  have rename: "heap_inv ?q" "set (heap ?q) = insert (Entry x target) (set (heap q) - {Entry x source})"
    using heap_rename [of q i source target ?q] hi i ti hr ht ne ix
    by (simp_all add: rest moved)
  have "set (xs @ target # ys) = insert target (set ts - {source})" using d target by (auto simp: ts)
  moreover have "he_timer ` (set (heap q) - {Entry x source}) = set ts - {source}"
    using timers_without [OF _ x] inv by (simp add: timer_inv_def heap_inv_def)
  ultimately show inv': "timer_inv ?q (map (renamed target source) ts)"
    using rename links inv source target ne unfolding renamed
    by (auto simp: timer_inv_def rest moved)
  have none: "Entry y target \<notin> set (heap q)" for y
    using target entry_listed [OF inv] by blast
  show "waiting ?q = (waiting q)(source := None, target := waiting q source)"
  proof (rule waiting_eqI [OF timer_inv_heap [OF inv']])
    fix s y ops
    have "t_ops (timer_data q target) = []" using inv target by (auto simp: timer_inv_def)
    then show "((waiting q)(source := None, target := waiting q source)) s = Some (y, ops) \<longleftrightarrow>
        Entry y s \<in> set (heap ?q) \<and> ops = t_ops (timer_data ?q s)"
      using ne none waiting_times [OF inv x, of y] x waiting_Some [OF hi, of s y ops]
        waiting_Some [OF hi, of source y ops]
      by (auto simp: rename(2) rest(3) moved(4))
  qed
qed

section \<open>Taking what is due\<close>

text \<open>
  C35. Taking the due waits ends, and takes exactly them. From every state that satisfies the
  invariant the loop of \<open>get_ready_timers\<close> returns; it has added the waits of all timers whose
  time has come, the earliest timer first and each timer's waits in the order they were
  started, and left every other timer as it was.
\<close>

theorem ready_timers_terminate:
  assumes "timer_inv q ts"
  shows "\<exists>q' due. get_ready_timers now q ops = Some (q', ops @ taken q due) \<and>
    (\<exists>ts'. timer_inv q' ts') \<and> distinct due \<and> set due = due_timers q now \<and>
    sorted (map (due_time q) due) \<and>
    waiting q' = (\<lambda>t. if t \<in> set due then None else waiting q t)"
  using ready_loop_rule [OF assms, of now ops] by (auto simp: get_ready_timers_eq take_all_def)

definition sample_timers :: "nat timer_queue" where
  "sample_timers =
     snd (enqueue_timer 30 1 \<lparr>wo_id = 7, wo_ec = Success, cancellation_key = 0\<rparr>
       (snd (enqueue_timer 20 2 \<lparr>wo_id = 8, wo_ec = Success, cancellation_key = 0\<rparr> new_timer_queue)))"

lemma sample_timers_rule:
  "\<exists>ts. timer_inv sample_timers ts"
  "waiting sample_timers = [2 \<mapsto> (20, [\<lparr>wo_id = 8, wo_ec = Success, cancellation_key = 0\<rparr>]),
     1 \<mapsto> (30, [\<lparr>wo_id = 7, wo_ec = Success, cancellation_key = 0\<rparr>])]"
proof -
  let ?w = "\<lambda>i. \<lparr>wo_id = i, wo_ec = Success, cancellation_key = 0\<rparr>"
  obtain b q where q: "enqueue_timer (20 :: nat) 2 (?w 8) new_timer_queue = (b, q)" by fastforce
  obtain c r where r: "enqueue_timer 30 1 (?w 7) q = (c, r)" by fastforce
  note first = enqueue_timer_rule [OF new_timer_queue_rule(1) q]
  note second = enqueue_timer_rule [OF first(1) r]
  have s: "sample_timers = r" by (simp only: sample_timers_def q r snd_conv)
  show "\<exists>ts. timer_inv sample_timers ts" using second(1) unfolding s by blast
  show "waiting sample_timers = [2 \<mapsto> (20, [?w 8]), 1 \<mapsto> (30, [?w 7])]"
    unfolding s second(2) first(2) new_timer_queue_rule(2) by (simp add: with_wait_def)
qed

lemma ready_timers_terminate_witness:
  "\<exists>q' due. get_ready_timers 25 sample_timers [] = Some (q', [] @ taken sample_timers due) \<and>
    (\<exists>ts'. timer_inv q' ts') \<and> distinct due \<and> set due = due_timers sample_timers 25 \<and>
    sorted (map (due_time sample_timers) due) \<and>
    waiting q' = (\<lambda>t. if t \<in> set due then None else waiting sample_timers t)"
  using sample_timers_rule(1) ready_timers_terminate [of sample_timers _ 25 "[]"] by blast

text \<open>
  Moving a timer keeps its waits. The new timer takes the place of the old one in the heap
  and in the list, with its time and its waits, and the old one has none; nothing else
  changes, and every pointer and index is right again.
\<close>

theorem moved_timer_keeps_waits:
  assumes "timer_inv q ts" "source \<in> set ts" "target \<notin> set ts"
  shows "timer_inv (move_timer target source q) (map (renamed target source) ts) \<and>
    waiting (move_timer target source q) = (waiting q)(source := None, target := waiting q source)"
  using move_timer_rule [OF assms] by simp

lemma moved_timer_keeps_waits_witness:
  "waiting (move_timer 3 2 sample_timers) 3 =
     Some (20, [\<lparr>wo_id = 8, wo_ec = Success, cancellation_key = 0\<rparr>])"
proof -
  obtain ts where ts: "timer_inv sample_timers ts" using sample_timers_rule(1) by blast
  have "2 \<in> set ts" "3 \<notin> set ts"
    using waiting_enqueued [OF ts, of 2] waiting_enqueued [OF ts, of 3]
    by (simp_all add: sample_timers_rule(2))
  from moved_timer_keeps_waits [OF ts this] show ?thesis by (simp add: sample_timers_rule(2))
qed

end
