(* ===== verification/Chrono_Time.thy ===== *)
theory Chrono_Time
  imports Prelude "HOL-Library.Signed_Division"
begin

text \<open>
  \<open>asio::detail::chrono_time_traits\<close> (\<open>detail/chrono_time_traits.hpp\<close>): times and durations
  of the clock the program's timers use, as counts of its ticks. They are 64-bit signed
  numbers, so every operation the code does on them is checked here for overflow, which is
  undefined behaviour. The theory shows that the guards of \<open>add\<close> and \<open>subtract\<close> are right:
  they never overflow and give the true value, or the bound it lies beyond.
\<close>

section \<open>Ticks\<close>

type_synonym ticks = int

definition max_ticks :: ticks where
  "max_ticks = 9223372036854775807"

definition min_ticks :: ticks where
  "min_ticks = - 9223372036854775808"

definition in_ticks :: "int \<Rightarrow> bool" where
  "in_ticks x = (min_ticks \<le> x \<and> x \<le> max_ticks)"

text \<open>The result of an operation on 64-bit signed numbers.\<close>

definition i64 :: "int \<Rightarrow> ticks result" where
  "i64 x = (if in_ticks x then Inr x else Inl OutOfRange)"

lemma i64_in [simp, result_simps]: "in_ticks x \<Longrightarrow> i64 x = Inr x"
  by (simp add: i64_def)

section \<open>Adding and subtracting\<close>

text \<open>The epoch is time 0.\<close>

definition time_add :: "ticks \<Rightarrow> ticks \<Rightarrow> ticks result" where
  "time_add t d =
     (if t \<ge> 0 then
        bindR (i64 (max_ticks - t)) (\<lambda>room.
        if room < d then Inr max_ticks else i64 (t + d))
      else
        bindR (i64 (t - min_ticks)) (\<lambda>above. bindR (i64 (- above)) (\<lambda>lowest.
        if lowest > d then Inr min_ticks else i64 (t + d))))"

definition time_subtract :: "ticks \<Rightarrow> ticks \<Rightarrow> ticks result" where
  "time_subtract t1 t2 =
     (if t1 \<ge> 0 then
        if t2 \<ge> 0 then i64 (t1 - t2)
        else if t2 = min_ticks then Inr max_ticks
        else
          bindR (i64 (max_ticks - t1)) (\<lambda>room. bindR (i64 (0 - t2)) (\<lambda>d.
          if room < d then Inr max_ticks else i64 (t1 - t2)))
      else
        if t2 < 0 then i64 (t1 - t2)
        else if t1 = min_ticks then Inr min_ticks
        else
          bindR (i64 (max_ticks - t2)) (\<lambda>room. bindR (i64 (0 - t1)) (\<lambda>d.
          if room < d then Inr min_ticks
          else bindR (i64 (t2 - t1)) (\<lambda>d. i64 (- d)))))"

definition time_less_than :: "ticks \<Rightarrow> ticks \<Rightarrow> bool" where
  "time_less_than t1 t2 = (t1 < t2)"

text \<open>What they compute: the nearest time there is.\<close>

definition saturate :: "int \<Rightarrow> ticks" where
  "saturate x = max min_ticks (min max_ticks x)"

lemmas tick_bounds = in_ticks_def max_ticks_def min_ticks_def saturate_def

lemma saturate_in [simp]: "in_ticks (saturate x)"
  by (simp add: tick_bounds)

lemma saturate_id: "in_ticks x \<Longrightarrow> saturate x = x"
  by (simp add: tick_bounds)

lemma time_add_saturates: "in_ticks t \<Longrightarrow> in_ticks d \<Longrightarrow> time_add t d = Inr (saturate (t + d))"
  by (auto simp: time_add_def i64_def tick_bounds)

lemma time_subtract_saturates:
  "in_ticks t1 \<Longrightarrow> in_ticks t2 \<Longrightarrow> time_subtract t1 t2 = Inr (saturate (t1 - t2))"
  by (auto simp: time_subtract_def i64_def tick_bounds)

section \<open>Durations for the system\<close>

text \<open>
  \<open>posix_time_duration\<close>: the ticks in another unit. The code computes the fraction
  between the units at compile time, with a \<open>gcd\<close> of its own, and divides or multiplies as
  the fraction needs; a division truncates towards zero.
\<close>

function euclid :: "nat \<Rightarrow> nat \<Rightarrow> nat" where
  "euclid v1 v2 = (if v2 = 0 then v1 else euclid v2 (v1 mod v2))"
  by pat_completeness auto
termination by (relation "measure snd") simp_all

declare euclid.simps [simp del]

lemma euclid_gcd: "euclid v1 v2 = gcd v1 v2"
proof (induction v1 v2 rule: euclid.induct)
  case (1 v1 v2)
  then show ?case by (subst euclid.simps) (simp add: gcd_red_nat [of v1 v2])
qed

definition duration_cast :: "nat \<Rightarrow> nat \<Rightarrow> nat \<Rightarrow> nat \<Rightarrow> ticks \<Rightarrow> ticks result" where
  "duration_cast period_num period_den Num Den d =
     (let num1 = period_num div euclid period_num Num;
          num2 = Num div euclid period_num Num;
          den1 = period_den div euclid period_den Den;
          den2 = Den div euclid period_den Den;
          num = num1 * den2;
          den = num2 * den1
      in if num = 1 \<and> den = 1 then Inr d
         else if num \<noteq> 1 \<and> den = 1 then i64 (d * int num)
         else if num = 1 \<and> period_den \<noteq> 1 then Inr (d sdiv int den)
         else bindR (i64 (d * int num)) (\<lambda>x. Inr (x sdiv int den)))"

text \<open>The clock of \<open>steady_timer\<close> counts nanoseconds.\<close>

definition steady_den :: nat where
  "steady_den = 1000000000"

definition total_seconds :: "ticks \<Rightarrow> ticks result" where
  "total_seconds = duration_cast 1 steady_den 1 1"

definition total_milliseconds :: "ticks \<Rightarrow> ticks result" where
  "total_milliseconds = duration_cast 1 steady_den 1 1000"

definition total_microseconds :: "ticks \<Rightarrow> ticks result" where
  "total_microseconds = duration_cast 1 steady_den 1 1000000"

lemma sdiv_pos: "0 \<le> d \<Longrightarrow> 0 < n \<Longrightarrow> d sdiv n = d div (n :: int)"
  by (simp add: signed_divide_int_def sgn_if)

lemma total_milliseconds_eq: "0 \<le> d \<Longrightarrow> total_milliseconds d = Inr (d div 1000000)"
  by (simp add: total_milliseconds_def duration_cast_def steady_den_def euclid_gcd sdiv_pos)

lemma total_microseconds_eq: "0 \<le> d \<Longrightarrow> total_microseconds d = Inr (d div 1000)"
  by (simp add: total_microseconds_def duration_cast_def steady_den_def euclid_gcd sdiv_pos)

text \<open>
  \<open>timer_queue::to_msec\<close> and \<open>to_usec\<close>: nothing for a time that has come, at least one unit for
  one that has not, and no more than \<open>max_duration\<close>.
\<close>

definition to_msec :: "ticks \<Rightarrow> int \<Rightarrow> int result" where
  "to_msec d max_duration =
     (if d \<le> 0 then Inr 0
      else bindR (total_milliseconds d) (\<lambda>msec.
        if msec = 0 then Inr 1
        else if msec > max_duration then Inr max_duration else Inr msec))"

definition to_usec :: "ticks \<Rightarrow> int \<Rightarrow> int result" where
  "to_usec d max_duration =
     (if d \<le> 0 then Inr 0
      else bindR (total_microseconds d) (\<lambda>usec.
        if usec = 0 then Inr 1
        else if usec > max_duration then Inr max_duration else Inr usec))"

text \<open>
  What both promise, for a unit of \<open>unit\<close> ticks: not to wait beyond the duration \<open>d\<close>, except
  that the shortest wait is one unit.
\<close>

definition waits_well :: "int \<Rightarrow> ticks \<Rightarrow> int \<Rightarrow> int \<Rightarrow> bool" where
  "waits_well unit d max_duration m =
     (0 \<le> m \<and> m \<le> max 1 max_duration \<and> (d \<le> 0 \<longrightarrow> m = 0) \<and> (m \<le> 1 \<or> m * unit \<le> d) \<and>
      (m = 0 \<longrightarrow> d \<le> 0 \<or> max_duration = 0))"

lemma waits_well_unit:
  assumes "0 \<le> mx" "0 < d" "0 < unit"
  shows "waits_well unit d mx
    (if d div unit = 0 then 1 else if d div unit > mx then mx else d div unit)"
proof -
  have "d div unit * unit \<le> d" using assms by (simp add: minus_mod_eq_div_mult [symmetric])
  moreover have "0 \<le> d div unit" using assms by (simp add: pos_imp_zdiv_nonneg_iff)
  moreover have "mx * unit \<le> d" if "mx < d div unit"
    using that calculation(1) mult_right_mono [of mx "d div unit" unit] assms by linarith
  ultimately show ?thesis using assms by (auto simp: waits_well_def)
qed

lemma to_msec_waits: "0 \<le> mx \<Longrightarrow> \<exists>m. to_msec d mx = Inr m \<and> waits_well 1000000 d mx m"
  using waits_well_unit [of mx d 1000000]
  by (cases "d \<le> 0") (auto simp: to_msec_def total_milliseconds_eq waits_well_def)

lemma to_usec_waits: "0 \<le> mx \<Longrightarrow> \<exists>m. to_usec d mx = Inr m \<and> waits_well 1000 d mx m"
  using waits_well_unit [of mx d 1000]
  by (cases "d \<le> 0") (auto simp: to_usec_def total_microseconds_eq waits_well_def)

section \<open>Bounds\<close>

text \<open>
  The arithmetic on times never overflows. For all times and durations that 64 bits can
  hold, adding and subtracting give the exact result or, where that does not fit, the
  nearest bound; no intermediate result of the guards overflows either.
\<close>

theorem time_arithmetic_safe:
  assumes "in_ticks a" "in_ticks b"
  shows "time_add a b = Inr (saturate (a + b)) \<and> time_subtract a b = Inr (saturate (a - b))"
  using time_add_saturates [OF assms] time_subtract_saturates [OF assms] by simp

lemma time_arithmetic_safe_witness:
  "time_add max_ticks 5 = Inr max_ticks \<and> time_subtract max_ticks 5 = Inr (max_ticks - 5)"
  using time_arithmetic_safe [of max_ticks 5] by (simp add: tick_bounds)

end
