(* ===== verification/Timer_Set.thy ===== *)
theory Timer_Set
  imports Timer_Waits Chrono_Time
begin

text \<open>
  The timer queues of a reactor: how long it may sleep (\<open>timer_queue::wait_duration_msec\<close> and
  \<open>wait_duration_usec\<close>) and \<open>asio::detail::timer_queue_set\<close>
  (\<open>detail/impl/timer_queue_set.ipp\<close>), which asks every queue through the virtual functions of
  \<open>timer_queue_base\<close>. Those functions are a locale here, with what the set relies on; the
  timer queue of the steady clock provides them, with milliseconds and with microseconds.
\<close>

section \<open>How long to sleep\<close>

definition wait_duration_msec :: "ticks \<Rightarrow> ticks timer_queue \<Rightarrow> int \<Rightarrow> int result" where
  "wait_duration_msec now q max_duration =
     (if heap q = [] then Inr max_duration
      else bindR (time_subtract (heap_time q 0) now) (\<lambda>d. to_msec d max_duration))"

definition wait_duration_usec :: "ticks \<Rightarrow> ticks timer_queue \<Rightarrow> int \<Rightarrow> int result" where
  "wait_duration_usec now q max_duration =
     (if heap q = [] then Inr max_duration
      else bindR (time_subtract (heap_time q 0) now) (\<lambda>d. to_usec d max_duration))"

section \<open>The set of queues\<close>

text \<open>The linked list of queues, each with its address.\<close>

type_synonym 'q queue_set = "(nat \<times> 'q) list"

definition new_queue_set :: "'q queue_set" where
  "new_queue_set = []"

definition set_insert :: "nat \<Rightarrow> 'q \<Rightarrow> 'q queue_set \<Rightarrow> 'q queue_set" where
  "set_insert a q qs = (a, q) # qs"

fun set_erase :: "nat \<Rightarrow> 'q queue_set \<Rightarrow> 'q queue_set" where
  "set_erase a [] = []"
| "set_erase a ((b, q) # qs) = (if b = a then qs else (b, q) # set_erase a qs)"

fun all_empty :: "('q \<Rightarrow> bool) \<Rightarrow> 'q queue_set \<Rightarrow> bool" where
  "all_empty is_empty [] = True"
| "all_empty is_empty ((a, q) # qs) = (if \<not> is_empty q then False else all_empty is_empty qs)"

fun set_wait_duration :: "('q \<Rightarrow> int \<Rightarrow> int result) \<Rightarrow> 'q queue_set \<Rightarrow> int \<Rightarrow> int result" where
  "set_wait_duration wait [] min_duration = Inr min_duration"
| "set_wait_duration wait ((a, q) # qs) min_duration =
     bindR (wait q min_duration) (set_wait_duration wait qs)"

text \<open>Both loops that collect operations; a queue's own loop may not return.\<close>

fun set_get_timers ::
  "('q \<Rightarrow> wait_op list \<Rightarrow> ('q \<times> wait_op list) option) \<Rightarrow> 'q queue_set \<Rightarrow> wait_op list \<Rightarrow>
   ('q queue_set \<times> wait_op list) option" where
  "set_get_timers get [] ops = Some ([], ops)"
| "set_get_timers get ((a, q) # qs) ops =
     Option.bind (get q ops) (\<lambda>(q, ops).
     Option.bind (set_get_timers get qs ops) (\<lambda>(qs, ops). Some ((a, q) # qs, ops)))"

section \<open>The interface of a queue\<close>

type_synonym waits_map = "timer_id \<Rightarrow> (ticks \<times> wait_op list) option"

text \<open>The due waits, in the order of their times, each with its result.\<close>

definition serves :: "ticks \<Rightarrow> waits_map \<Rightarrow> wait_op list \<Rightarrow> bool" where
  "serves now w ops =
     (\<exists>due. distinct due \<and> set due = {t. \<exists>time ws. w t = Some (time, ws) \<and> time \<le> now} \<and>
        sorted (map (\<lambda>t. fst (the (w t))) due) \<and>
        ops = concat (map (\<lambda>t. map (completed Success) (snd (the (w t)))) due))"

definition later :: "ticks \<Rightarrow> waits_map \<Rightarrow> waits_map" where
  "later now w = (\<lambda>t. case w t of None \<Rightarrow> None
     | Some (time, ws) \<Rightarrow> if time \<le> now then None else Some (time, ws))"

locale timer_source =
  fixes inv :: "'q \<Rightarrow> bool" and waits :: "'q \<Rightarrow> waits_map"
    and is_empty :: "'q \<Rightarrow> bool"
    and wait_duration :: "ticks \<Rightarrow> 'q \<Rightarrow> int \<Rightarrow> int result"
    and get_ready :: "ticks \<Rightarrow> 'q \<Rightarrow> wait_op list \<Rightarrow> ('q \<times> wait_op list) option"
    and unit :: int
  assumes empty_law: "inv q \<Longrightarrow> is_empty q \<longleftrightarrow> waits q = Map.empty"
    and wait_law: "inv q \<Longrightarrow> in_ticks now \<Longrightarrow> 0 \<le> mx \<Longrightarrow>
      \<exists>m. wait_duration now q mx = Inr m \<and> 0 \<le> m \<and> m \<le> max 1 mx \<and>
        (\<forall>t time ws. waits q t = Some (time, ws) \<longrightarrow> m \<le> 1 \<or> m * unit \<le> time - now)"
    and ready_law: "inv q \<Longrightarrow>
      \<exists>q' taken. get_ready now q ops = Some (q', ops @ taken) \<and> inv q' \<and>
        waits q' = later now (waits q) \<and> serves now (waits q) taken"
    and unit_pos: "0 < unit"
begin

lemma all_empty_iff:
  "\<forall>(a, q) \<in> set qs. inv q \<Longrightarrow> all_empty is_empty qs \<longleftrightarrow> (\<forall>(a, q) \<in> set qs. waits q = Map.empty)"
  by (induction qs) (auto simp: empty_law split: if_splits)

lemma set_wait:
  "\<forall>(a, q) \<in> set qs. inv q \<Longrightarrow> in_ticks now \<Longrightarrow> 0 \<le> mx \<Longrightarrow>
   \<exists>m. set_wait_duration (wait_duration now) qs mx = Inr m \<and> 0 \<le> m \<and> m \<le> max 1 mx \<and>
     (\<forall>(a, q) \<in> set qs. \<forall>t time ws. waits q t = Some (time, ws) \<longrightarrow> m \<le> 1 \<or> m * unit \<le> time - now)"
proof (induction qs arbitrary: mx)
  case (Cons aq qs)
  obtain a q where aq: "aq = (a, q)" by fastforce
  obtain m where m: "wait_duration now q mx = Inr m" "0 \<le> m" "m \<le> max 1 mx"
    "\<forall>t time ws. waits q t = Some (time, ws) \<longrightarrow> m \<le> 1 \<or> m * unit \<le> time - now"
    using wait_law [of q now mx] Cons.prems aq by auto
  then obtain n where n: "set_wait_duration (wait_duration now) qs m = Inr n" "0 \<le> n" "n \<le> max 1 m"
    "\<forall>(a, q) \<in> set qs. \<forall>t time ws. waits q t = Some (time, ws) \<longrightarrow> n \<le> 1 \<or> n * unit \<le> time - now"
    using Cons.IH [of m] Cons.prems by auto
  have "n \<le> 1 \<or> n * unit \<le> time - now" if "waits q t = Some (time, ws)" for t time ws
  proof (cases "n \<le> 1")
    case False
    then have "n \<le> m" "\<not> m \<le> 1" using n(3) by auto
    moreover have "n * unit \<le> m * unit" using calculation(1) unit_pos by simp
    moreover have "m \<le> 1 \<or> m * unit \<le> time - now" using m(4) that by blast
    ultimately show ?thesis by linarith
  qed simp
  then show ?case using m n by (auto simp: aq)
qed simp

lemma set_ready:
  "\<forall>(a, q) \<in> set qs. inv q \<Longrightarrow>
   \<exists>qs' taken. set_get_timers (get_ready now) qs ops = Some (qs', ops @ concat taken) \<and>
     list_all2 (\<lambda>(a, q) (a', q'). a' = a \<and> inv q' \<and> waits q' = later now (waits q)) qs qs' \<and>
     list_all2 (\<lambda>(a, q) ops. serves now (waits q) ops) qs taken"
proof (induction qs arbitrary: ops)
  case Nil
  show ?case by (intro exI [of _ "[]"]) simp
next
  case (Cons aq qs)
  obtain a q where aq: "aq = (a, q)" by fastforce
  obtain q' tk where q': "get_ready now q ops = Some (q', ops @ tk)" "inv q'"
    "waits q' = later now (waits q)" "serves now (waits q) tk"
    using ready_law [of q now ops] Cons.prems aq by auto
  obtain qs' taken where IH: "set_get_timers (get_ready now) qs (ops @ tk) = Some (qs', (ops @ tk) @ concat taken)"
    "list_all2 (\<lambda>(a, q) (a', q'). a' = a \<and> inv q' \<and> waits q' = later now (waits q)) qs qs'"
    "list_all2 (\<lambda>(a, q) ops. serves now (waits q) ops) qs taken"
    using Cons.IH [of "ops @ tk"] Cons.prems by auto
  show ?case
    by (intro exI [of _ "(a, q') # qs'"] exI [of _ "tk # taken"]) (simp add: aq q' IH)
qed

end

section \<open>The queue of the steady clock\<close>

definition steady_inv :: "ticks timer_queue \<Rightarrow> bool" where
  "steady_inv q = ((\<exists>ts. timer_inv q ts) \<and> (\<forall>e \<in> set (heap q). in_ticks (he_time e)))"

lemma steady_empty: "steady_inv q \<Longrightarrow> queue_is_empty q \<longleftrightarrow> waiting q = Map.empty"
proof -
  assume "steady_inv q"
  then obtain ts where inv: "timer_inv q ts" by (auto simp: steady_inv_def)
  have "timers_head q = None \<longleftrightarrow> ts = []" using inv by (cases ts) (auto simp: timer_inv_def link_inv_def)
  moreover have "waiting q = Map.empty \<longleftrightarrow> (\<forall>t. t \<notin> set ts)"
    using waiting_enqueued [OF inv] by (auto simp: fun_eq_iff)
  moreover have "(\<forall>t. t \<notin> set ts) \<longleftrightarrow> ts = []" by (cases ts) auto
  ultimately show ?thesis by (simp add: queue_is_empty_def)
qed

text \<open>The wait for the first entry of the heap is short enough for every entry.\<close>

lemma steady_wait:
  assumes inv: "steady_inv q" and now: "in_ticks now" and mx: "0 \<le> mx" and unit: "0 < unit"
    and conv: "\<And>d. \<exists>m. to_unit d mx = Inr m \<and> waits_well unit d mx m"
    and f: "f = (if heap q = [] then Inr mx
                 else bindR (time_subtract (heap_time q 0) now) (\<lambda>d. to_unit d mx))"
  shows "\<exists>m. f = Inr m \<and> 0 \<le> m \<and> m \<le> max 1 mx \<and>
    (\<forall>t time ws. waiting q t = Some (time, ws) \<longrightarrow> m \<le> 1 \<or> m * unit \<le> time - now)"
proof (cases "heap q = []")
  case True
  then show ?thesis using mx f by (auto simp: waiting_def)
next
  case False
  obtain ts where ts: "timer_inv q ts" using inv by (auto simp: steady_inv_def)
  let ?d = "saturate (heap_time q 0 - now)"
  have "in_ticks (heap_time q 0)" using inv False by (auto simp: steady_inv_def heap_time_def)
  then have sub: "time_subtract (heap_time q 0) now = Inr ?d" using now by (rule time_subtract_saturates)
  obtain m where m: "to_unit ?d mx = Inr m" "waits_well unit ?d mx m" using conv by blast
  have "m \<le> 1 \<or> m * unit \<le> time - now" if "waiting q t = Some (time, ws)" for t time ws
  proof -
    have "heap_time q 0 \<le> time"
      using heap_first [OF timer_inv_heap [OF ts]] that waiting_Some [OF timer_inv_heap [OF ts]] by force
    moreover have "0 < m \<Longrightarrow> 0 < ?d" using m(2) by (auto simp: waits_well_def)
    moreover have "0 < ?d \<Longrightarrow> ?d \<le> heap_time q 0 - now" by (auto simp: tick_bounds)
    ultimately show ?thesis using m(2) by (auto simp: waits_well_def)
  qed
  then show ?thesis using False m f sub by (auto simp: waits_well_def)
qed

lemma steady_ready:
  assumes "steady_inv q"
  shows "\<exists>q' taken. get_ready_timers now q ops = Some (q', ops @ taken) \<and> steady_inv q' \<and>
    waiting q' = later now (waiting q) \<and> serves now (waiting q) taken"
proof -
  obtain ts where inv: "timer_inv q ts" using assms by (auto simp: steady_inv_def)
  from ready_loop_rule [OF inv, of now ops] obtain q' due ts' where r:
    "ready_loop now q ops = Some (q', ops @ taken q due)" "timer_inv q' ts'" "take_all q q' due"
    "distinct due" "set due = due_timers q now" "sorted (map (due_time q) due)"
    by blast
  have later: "waiting q' = later now (waiting q)"
    using r(3,5) by (auto simp: take_all_def later_def due_timers_def fun_eq_iff split: option.split)
  have "in_ticks (he_time e)" if "e \<in> set (heap q')" for e
  proof -
    obtain time t where e: "e = Entry time t" by (cases e)
    then have "waiting q' t = Some (time, t_ops (timer_data q' t))"
      using that waiting_entry [OF r(2)] by simp
    then have "Entry time t \<in> set (heap q)"
      using waiting_Some [OF timer_inv_heap [OF inv]]
      by (auto simp: later later_def split: option.splits if_splits)
    then show ?thesis using assms e by (force simp: steady_inv_def)
  qed
  then have "steady_inv q'" using r(2) by (auto simp: steady_inv_def)
  moreover have "waits_of q t = snd (the (waiting q t))" if "t \<in> set due" for t
    using that unfolding r(5) by (auto simp: waits_of_def due_timers_def)
  then have "taken q due = concat (map (\<lambda>t. map (completed Success) (snd (the (waiting q t)))) due)"
    by (simp add: taken_def cong: map_cong)
  then have "serves now (waiting q) (taken q due)"
    using r(4,5,6) unfolding serves_def
    by (intro exI [of _ due]) (simp add: due_timers_def due_time_def [abs_def])
  ultimately show ?thesis using r(1) later by (auto simp: get_ready_timers_eq)
qed

interpretation steady_msec: timer_source steady_inv waiting queue_is_empty wait_duration_msec
    get_ready_timers 1000000
proof
  fix now mx :: int and q :: "ticks timer_queue" assume a: "steady_inv q" "in_ticks now" "0 \<le> mx"
  show "\<exists>m. wait_duration_msec now q mx = Inr m \<and> 0 \<le> m \<and> m \<le> max 1 mx \<and>
      (\<forall>t time ws. waiting q t = Some (time, ws) \<longrightarrow> m \<le> 1 \<or> m * 1000000 \<le> time - now)"
    by (rule steady_wait [OF a, where to_unit = to_msec])
      (simp_all add: a to_msec_waits wait_duration_msec_def)
qed (simp_all add: steady_empty steady_ready)

interpretation steady_usec: timer_source steady_inv waiting queue_is_empty wait_duration_usec
    get_ready_timers 1000
proof
  fix now mx :: int and q :: "ticks timer_queue" assume a: "steady_inv q" "in_ticks now" "0 \<le> mx"
  show "\<exists>m. wait_duration_usec now q mx = Inr m \<and> 0 \<le> m \<and> m \<le> max 1 mx \<and>
      (\<forall>t time ws. waiting q t = Some (time, ws) \<longrightarrow> m \<le> 1 \<or> m * 1000 \<le> time - now)"
    by (rule steady_wait [OF a, where to_unit = to_usec])
      (simp_all add: a to_usec_waits wait_duration_usec_def)
qed (simp_all add: steady_empty steady_ready)

end
