(* ===== verification/Timer_Service.thy ===== *)
theory Timer_Service
  imports Timer_Set "HOL-Library.Multiset"
begin

text \<open>
  The timers as the program uses them: \<open>asio::detail::deadline_timer_service\<close>
  (\<open>detail/deadline_timer_service.hpp\<close>), which is behind \<open>asio::steady_timer\<close>, on the timer
  functions of the reactor (\<open>detail/impl/epoll_reactor.hpp\<close> and \<open>.ipp\<close>). A wait starts with
  \<open>async_wait\<close>; it completes when its time has come, or with an error when the timer is set
  again or cancelled. The theory shows that every wait completes once, that none completes
  too early, and that the reactor is woken when a new wait is the first to expire.
\<close>

section \<open>State\<close>

record timer_impl =
  expiry :: ticks
  might_have_pending_waits :: bool

text \<open>
  \<open>posted\<close> are the completions handed to the scheduler, in order; \<open>work\<close> is what the timers
  add to its count of outstanding work; \<open>interrupted\<close> says that the reactor's sleep is to
  be cut short.
\<close>

record timer_service =
  svc_queue :: "ticks timer_queue"
  impls :: "timer_id \<Rightarrow> timer_impl"
  posted :: "wait_op list"
  work :: int
  reactor_shutdown :: bool
  interrupted :: bool

definition new_timer_service :: timer_service where
  "new_timer_service =
     \<lparr>svc_queue = new_timer_queue,
      impls = (\<lambda>_. \<lparr>expiry = 0, might_have_pending_waits = False\<rparr>),
      posted = [], work = 0, reactor_shutdown = False, interrupted = False\<rparr>"

definition set_impl :: "timer_id \<Rightarrow> (timer_impl \<Rightarrow> timer_impl) \<Rightarrow> timer_service \<Rightarrow> timer_service" where
  "set_impl t f s = s\<lparr>impls := (impls s)(t := f (impls s t))\<rparr>"

section \<open>The reactor's timers\<close>

definition post_immediate :: "wait_op \<Rightarrow> timer_service \<Rightarrow> timer_service" where
  "post_immediate op s = s\<lparr>work := work s + 1, posted := posted s @ [op]\<rparr>"

definition post_deferred :: "wait_op list \<Rightarrow> timer_service \<Rightarrow> timer_service" where
  "post_deferred ops s = s\<lparr>posted := posted s @ ops\<rparr>"

definition schedule_timer :: "ticks \<Rightarrow> timer_id \<Rightarrow> wait_op \<Rightarrow> timer_service \<Rightarrow> timer_service" where
  "schedule_timer time t op s =
     (if reactor_shutdown s then post_immediate op s
      else
        let (earliest, q) = enqueue_timer time t op (svc_queue s);
            s = s\<lparr>svc_queue := q, work := work s + 1\<rparr>
        in if earliest then s\<lparr>interrupted := True\<rparr> else s)"

definition reactor_cancel :: "timer_id \<Rightarrow> nat \<Rightarrow> timer_service \<Rightarrow> nat \<times> timer_service" where
  "reactor_cancel t max_cancelled s =
     (let (n, q, ops) = cancel_timer t [] max_cancelled (svc_queue s)
      in (n, post_deferred ops (s\<lparr>svc_queue := q\<rparr>)))"

definition reactor_cancel_by_key :: "timer_id \<Rightarrow> nat \<Rightarrow> timer_service \<Rightarrow> timer_service" where
  "reactor_cancel_by_key t key s =
     (let (q, ops) = cancel_timer_by_key t [] key (svc_queue s)
      in post_deferred ops (s\<lparr>svc_queue := q\<rparr>))"

definition reactor_move :: "timer_id \<Rightarrow> timer_id \<Rightarrow> timer_service \<Rightarrow> timer_service" where
  "reactor_move target source s =
     (let (n, q, ops) = cancel_timer target [] no_index (svc_queue s);
          q = move_timer target source q
      in post_deferred ops (s\<lparr>svc_queue := q\<rparr>))"

text \<open>The end of a turn of the reactor, when the timers are to be checked.\<close>

definition check_timers :: "ticks \<Rightarrow> timer_service \<Rightarrow> timer_service option" where
  "check_timers now s =
     (case get_ready_timers now (svc_queue s) [] of
        None \<Rightarrow> None
      | Some (q, ops) \<Rightarrow> Some (post_deferred ops (s\<lparr>svc_queue := q, interrupted := False\<rparr>)))"

definition get_timeout :: "ticks \<Rightarrow> int \<Rightarrow> timer_service \<Rightarrow> int result" where
  "get_timeout now msec s =
     (let max_msec = 5 * 60 * 1000
      in set_wait_duration (wait_duration_msec now) [(0, svc_queue s)]
           (if msec < 0 \<or> max_msec < msec then max_msec else msec))"

section \<open>The timer service\<close>

definition construct_timer :: "timer_id \<Rightarrow> timer_service \<Rightarrow> timer_service" where
  "construct_timer t = set_impl t (\<lambda>_. \<lparr>expiry = 0, might_have_pending_waits = False\<rparr>)"

definition svc_cancel :: "timer_id \<Rightarrow> timer_service \<Rightarrow> nat \<times> timer_service" where
  "svc_cancel t s =
     (if \<not> might_have_pending_waits (impls s t) then (0, s)
      else
        let (count, s) = reactor_cancel t no_index s
        in (count, set_impl t (might_have_pending_waits_update (\<lambda>_. False)) s))"

definition svc_cancel_one :: "timer_id \<Rightarrow> timer_service \<Rightarrow> nat \<times> timer_service" where
  "svc_cancel_one t s =
     (if \<not> might_have_pending_waits (impls s t) then (0, s)
      else
        let (count, s) = reactor_cancel t 1 s
        in (count, if count = 0 then set_impl t (might_have_pending_waits_update (\<lambda>_. False)) s else s))"

definition destroy_timer :: "timer_id \<Rightarrow> timer_service \<Rightarrow> timer_service" where
  "destroy_timer t s = snd (svc_cancel t s)"

definition move_construct :: "timer_id \<Rightarrow> timer_id \<Rightarrow> timer_service \<Rightarrow> timer_service" where
  "move_construct t other s =
     (let s = reactor_move t other s;
          s = set_impl t (expiry_update (\<lambda>_. expiry (impls s other))) s;
          s = set_impl other (expiry_update (\<lambda>_. 0)) s;
          s = set_impl t (might_have_pending_waits_update (\<lambda>_. might_have_pending_waits (impls s other))) s
      in set_impl other (might_have_pending_waits_update (\<lambda>_. False)) s)"

definition expires_from_now :: "ticks \<Rightarrow> timer_id \<Rightarrow> timer_service \<Rightarrow> ticks result" where
  "expires_from_now now t s = time_subtract (expiry (impls s t)) now"

definition expires_at :: "timer_id \<Rightarrow> ticks \<Rightarrow> timer_service \<Rightarrow> nat \<times> timer_service" where
  "expires_at t expiry_time s =
     (let (count, s) = svc_cancel t s
      in (count, set_impl t (expiry_update (\<lambda>_. expiry_time)) s))"

definition expires_after ::
  "ticks \<Rightarrow> timer_id \<Rightarrow> ticks \<Rightarrow> timer_service \<Rightarrow> (nat \<times> timer_service) result" where
  "expires_after now t d s = bindR (time_add now d) (\<lambda>time. Inr (expires_at t time s))"

definition async_wait :: "timer_id \<Rightarrow> wait_op \<Rightarrow> timer_service \<Rightarrow> timer_service" where
  "async_wait t op s =
     (let s = set_impl t (might_have_pending_waits_update (\<lambda>_. True)) s
      in schedule_timer (expiry (impls s t)) t op s)"

text \<open>
  The blocking wait: \<open>clock\<close> gives the successive readings of the clock, \<open>sleep_fails\<close> whether
  the sleep between two of them fails; the result is the number of sleeps. What is slept is
  the difference as seconds and microseconds.
\<close>

definition do_wait :: "ticks \<Rightarrow> (ticks \<times> ticks) result" where
  "do_wait timeout =
     bindR (total_seconds timeout) (\<lambda>tv_sec.
     bindR (total_microseconds timeout) (\<lambda>tv_usec. Inr (tv_sec, tv_usec smod 1000000)))"

partial_function (option) wait_loop ::
  "ticks \<Rightarrow> (nat \<Rightarrow> ticks) \<Rightarrow> (nat \<Rightarrow> bool) \<Rightarrow> nat \<Rightarrow> bool \<Rightarrow> (nat \<times> bool) option" where
  "wait_loop expires clock sleep_fails n ec =
     (if time_less_than (clock n) expires \<and> \<not> ec
      then wait_loop expires clock sleep_fails (n + 1) (sleep_fails n)
      else Some (n, ec))"

definition svc_wait ::
  "timer_id \<Rightarrow> (nat \<Rightarrow> ticks) \<Rightarrow> (nat \<Rightarrow> bool) \<Rightarrow> timer_service \<Rightarrow> (nat \<times> bool) option" where
  "svc_wait t clock sleep_fails s = wait_loop (expiry (impls s t)) clock sleep_fails 0 False"

text \<open>The blocking wait returns when the clock passes the expiry, or at the first failure.\<close>

lemma wait_loop_returns:
  "\<not> time_less_than (clock (n + k)) expires \<Longrightarrow>
   \<exists>m ec. wait_loop expires clock sleep_fails n e = Some (m, ec) \<and> n \<le> m \<and> m \<le> n + k \<and>
     (ec \<or> \<not> time_less_than (clock m) expires)"
proof (induction k arbitrary: n e)
  case 0
  then show ?case by (subst wait_loop.simps) auto
next
  case (Suc k)
  show ?case
  proof (cases "time_less_than (clock n) expires \<and> \<not> e")
    case True
    then have "wait_loop expires clock sleep_fails n e =
        wait_loop expires clock sleep_fails (n + 1) (sleep_fails n)"
      by (subst wait_loop.simps) simp
    with Suc.IH [of "n + 1" "sleep_fails n"] Suc.prems show ?thesis by fastforce
  next
    case False
    then show ?thesis by (subst wait_loop.simps) auto
  qed
qed

section \<open>Runs\<close>

text \<open>
  What a program and the reactor do to the timers, in any order. A run also keeps what it
  is judged by: the waits started, with the expiry they had, and those that completed because
  their time had come, with the time at which the reactor looked.
\<close>

datatype timer_event =
    Expires_after ticks timer_id ticks
  | Async_wait timer_id nat
  | Cancel timer_id
  | Cancel_one timer_id
  | Check_timers ticks

record timer_run =
  svc :: timer_service
  started :: "(nat \<times> ticks) list"
  fired :: "(nat \<times> ticks) list"

definition fresh_run :: timer_run where
  "fresh_run = \<lparr>svc = new_timer_service, started = [], fired = []\<rparr>"

fun timer_step :: "timer_event \<Rightarrow> timer_run \<Rightarrow> timer_run option" where
  "timer_step (Expires_after now t d) r =
     (case expires_after now t d (svc r) of
        Inl _ \<Rightarrow> None | Inr (_, s) \<Rightarrow> Some (r\<lparr>svc := s\<rparr>))"
| "timer_step (Async_wait t i) r =
     Some (r\<lparr>svc := async_wait t \<lparr>wo_id = i, wo_ec = Success, cancellation_key = 0\<rparr> (svc r),
             started := started r @ [(i, expiry (impls (svc r) t))]\<rparr>)"
| "timer_step (Cancel t) r = Some (r\<lparr>svc := snd (svc_cancel t (svc r))\<rparr>)"
| "timer_step (Cancel_one t) r = Some (r\<lparr>svc := snd (svc_cancel_one t (svc r))\<rparr>)"
| "timer_step (Check_timers now) r =
     (case check_timers now (svc r) of
        None \<Rightarrow> None
      | Some s \<Rightarrow>
          Some (r\<lparr>svc := s, fired := fired r @
            map (\<lambda>op. (wo_id op, now)) (drop (length (posted (svc r))) (posted s))\<rparr>))"

fun timer_events :: "timer_event list \<Rightarrow> timer_run \<Rightarrow> timer_run option" where
  "timer_events [] r = Some r"
| "timer_events (e # es) r = Option.bind (timer_step e r) (timer_events es)"

fun event_ok :: "timer_event \<Rightarrow> bool" where
  "event_ok (Expires_after now t d) = (in_ticks now \<and> in_ticks d)"
| "event_ok _ = True"

section \<open>What is pending\<close>

definition ids :: "wait_op list \<Rightarrow> nat multiset" where
  "ids ops = mset (map wo_id ops)"

lemma ids_simps [simp]: "ids [] = {#}" "ids (ops @ ops') = ids ops + ids ops'"
  "ids (op # ops) = {#wo_id op#} + ids ops"
  by (simp_all add: ids_def)

lemma ids_completed [simp]: "ids (map (completed ec) ops) = ids ops"
  by (simp add: ids_def completed_def o_def)

definition waits_in :: "waits_map \<Rightarrow> timer_id \<Rightarrow> wait_op list" where
  "waits_in w t = (case w t of None \<Rightarrow> [] | Some (_, ws) \<Rightarrow> ws)"

lemma waits_in_of [simp]: "waits_in (waiting q) = waits_of q"
  by (simp add: waits_in_def waits_of_def fun_eq_iff)

lemma waits_in_None: "w t = None \<Longrightarrow> waits_in w t = []"
  by (simp add: waits_in_def)

text \<open>All ids that wait, with their multiplicity.\<close>

definition pending_ids :: "waits_map \<Rightarrow> nat multiset" where
  "pending_ids w = (\<Sum>t \<in> dom w. ids (waits_in w t))"

lemma finite_waiting:
  assumes "timer_inv q ts" shows "finite (dom (waiting q))"
proof -
  have "t \<in> dom (waiting q) \<longleftrightarrow> t \<in> set ts" for t
    by (simp only: domIff waiting_enqueued [OF assms] not_not)
  then have "dom (waiting q) = set ts" by blast
  then show ?thesis by simp
qed

lemma pending_ids_set:
  assumes "finite (dom w)"
  shows "pending_ids (w(t \<mapsto> (time, ws))) + ids (waits_in w t) = pending_ids w + ids ws"
proof -
  let ?w = "w(t \<mapsto> (time, ws))"
  have same: "(\<Sum>s \<in> dom w - {t}. ids (waits_in ?w s)) = (\<Sum>s \<in> dom w - {t}. ids (waits_in w s))"
    by (rule sum.cong) (auto simp: waits_in_def)
  have "pending_ids ?w = ids ws + (\<Sum>s \<in> dom w - {t}. ids (waits_in w s))"
    using assms same by (simp add: pending_ids_def sum.insert_remove) (simp add: waits_in_def)
  moreover have "pending_ids w = ids (waits_in w t) + (\<Sum>s \<in> dom w - {t}. ids (waits_in w s))"
  proof (cases "t \<in> dom w")
    case True
    then show ?thesis using assms by (simp add: pending_ids_def sum.remove)
  next
    case False
    then have "w t = None" by (simp only: domIff not_not)
    then show ?thesis using False by (simp add: pending_ids_def waits_in_None)
  qed
  ultimately show ?thesis by simp
qed

lemma pending_ids_drop:
  assumes "finite (dom w)"
  shows "pending_ids (w(t := None)) + ids (waits_in w t) = pending_ids w"
proof (cases "t \<in> dom w")
  case True
  have "(\<Sum>s \<in> dom w - {t}. ids (waits_in (w(t := None)) s)) = (\<Sum>s \<in> dom w - {t}. ids (waits_in w s))"
    by (rule sum.cong) (auto simp: waits_in_def)
  then show ?thesis using True assms by (simp add: pending_ids_def sum.remove)
next
  case False
  then have "w t = None" by (simp only: domIff not_not)
  then show ?thesis by (simp add: waits_in_None fun_upd_idem)
qed

lemma ids_concat: "distinct ts \<Longrightarrow> ids (concat (map f ts)) = (\<Sum>t \<in> set ts. ids (f t))"
  by (induction ts) simp_all

lemma pending_ids_served:
  assumes "finite (dom w)" "serves now w ops"
  shows "pending_ids (later now w) + ids ops = pending_ids w"
proof -
  obtain due where due: "distinct due" "set due = {t. \<exists>time ws. w t = Some (time, ws) \<and> time \<le> now}"
    "ops = concat (map (\<lambda>t. map (completed Success) (snd (the (w t)))) due)"
    using assms(2) by (auto simp: serves_def)
  have "ids ops = (\<Sum>t \<in> set due. ids (waits_in w t))"
    unfolding due(3) ids_concat [OF due(1)]
    by (rule sum.cong) (auto simp: due(2) waits_in_def)
  moreover have "pending_ids (later now w) = (\<Sum>t \<in> dom w - set due. ids (waits_in w t))"
    unfolding pending_ids_def
    by (rule sum.cong) (auto simp: due(2) later_def waits_in_def split: option.splits if_splits)
  moreover have "set due \<subseteq> dom w" by (auto simp: due(2))
  ultimately show ?thesis
    using assms(1) by (simp add: pending_ids_def sum.subset_diff add.commute)
qed

lemma pending_ids_left:
  assumes "timer_inv q ts" "ids ws + ids out = ids (waits_of q t)" "w = left_with q t ws"
  shows "pending_ids w + ids out = pending_ids (waiting q)"
proof (cases "ws = []")
  case True
  then show ?thesis
    using pending_ids_drop [OF finite_waiting [OF assms(1)], of t] assms(2,3) by (simp add: left_with_def)
next
  case False
  then show ?thesis
    using pending_ids_set [OF finite_waiting [OF assms(1)], of t "due_time q t" ws] assms(2,3)
    by (simp add: left_with_def) (metis add.assoc add.commute add_right_imp_eq)
qed

section \<open>The invariant of the service\<close>

text \<open>
  While a timer has waits, its entry has the timer's expiry, and the service knows that it
  might have waits.
\<close>

definition svc_inv :: "timer_service \<Rightarrow> bool" where
  "svc_inv s =
     ((\<exists>ts. timer_inv (svc_queue s) ts) \<and>
      (\<forall>t time ws. waiting (svc_queue s) t = Some (time, ws) \<longrightarrow>
         time = expiry (impls s t) \<and> might_have_pending_waits (impls s t)) \<and>
      (\<forall>t. in_ticks (expiry (impls s t))))"

lemma svc_inv_steady:
  assumes "svc_inv s" shows "steady_inv (svc_queue s)"
proof -
  obtain ts where inv: "timer_inv (svc_queue s) ts" using assms by (auto simp: svc_inv_def)
  have "in_ticks (he_time e)" if e: "e \<in> set (heap (svc_queue s))" for e
  proof -
    obtain time t where "e = Entry time t" by (cases e)
    with e waiting_entry [OF inv, of time t] assms show ?thesis by (auto simp: svc_inv_def)
  qed
  with inv show ?thesis by (auto simp: steady_inv_def)
qed

lemma svc_inv_fresh: "svc_inv new_timer_service"
  using new_timer_queue_rule(1)
  by (auto simp: svc_inv_def new_timer_service_def tick_bounds new_timer_queue_rule(2))

lemma svc_inv_cong:
  "svc_queue s = svc_queue s' \<Longrightarrow> impls s = impls s' \<Longrightarrow> svc_inv s = svc_inv s'"
  by (simp add: svc_inv_def)

text \<open>What a step may do to waits: some complete, none appears, none changes its time.\<close>

definition completes :: "wait_op list \<Rightarrow> timer_service \<Rightarrow> timer_service \<Rightarrow> bool" where
  "completes out s s' =
     (posted s' = posted s @ out \<and>
      pending_ids (waiting (svc_queue s')) + ids out = pending_ids (waiting (svc_queue s)) \<and>
      (\<forall>t time ws. waiting (svc_queue s') t = Some (time, ws) \<longrightarrow>
         (\<exists>ws'. waiting (svc_queue s) t = Some (time, ws') \<and> set ws \<subseteq> set ws')) \<and>
      reactor_shutdown s' = reactor_shutdown s)"

lemma completes_nothing: "svc_queue s' = svc_queue s \<Longrightarrow> posted s' = posted s \<Longrightarrow>
  reactor_shutdown s' = reactor_shutdown s \<Longrightarrow> completes [] s s'"
  by (auto simp: completes_def)

lemma left_with_subset:
  assumes "timer_inv q ts" "set ws \<subseteq> set (waits_of q t)" "left_with q t ws s = Some (time, us)"
  shows "\<exists>ws'. waiting q s = Some (time, ws') \<and> set us \<subseteq> set ws'"
proof (cases "s = t")
  case False
  then show ?thesis using assms(3) by (simp add: left_with_def)
next
  case True
  then have us: "us = ws" "ws \<noteq> []" "time = due_time q t"
    using assms(3) by (auto simp: left_with_def split: if_splits)
  then have "waits_of q t \<noteq> []" using assms(2) by auto
  then obtain w where "waiting q t = Some w" by (cases "waiting q t") (auto simp: waits_of_def)
  then show ?thesis using us assms(2) True
    by (cases w) (simp add: due_time_def waits_of_def)
qed

lemma reactor_cancel_rule:
  assumes inv: "svc_inv s" and call: "reactor_cancel t mx s = (n, s')"
  shows "svc_inv s'" "impls s' = impls s" "n = min mx (length (waits_of (svc_queue s) t))"
    and "completes (map (completed Operation_aborted) (take mx (waits_of (svc_queue s) t))) s s'"
    and "waits_of (svc_queue s') t = drop mx (waits_of (svc_queue s) t)"
proof -
  obtain ts where ts: "timer_inv (svc_queue s) ts" using inv by (auto simp: svc_inv_def)
  obtain m q ops where c: "cancel_timer t [] mx (svc_queue s) = (m, q, ops)" by (metis prod_cases3)
  note r = cancel_timer_rule [OF ts c]
  have s': "n = m" "s' = post_deferred ops (s\<lparr>svc_queue := q\<rparr>)"
    using call c by (simp_all add: reactor_cancel_def)
  have sub: "\<exists>ws'. waiting (svc_queue s) u = Some (time, ws') \<and> set ws \<subseteq> set ws'"
    if "waiting q u = Some (time, ws)" for u time ws
    using left_with_subset [OF ts _ that [unfolded r(4)]] by (simp add: set_drop_subset)
  show "svc_inv s'" using inv r(3) sub unfolding svc_inv_def s' post_deferred_def by fastforce
  show "impls s' = impls s" "n = min mx (length (waits_of (svc_queue s) t))"
    using r(1) by (simp_all add: s' post_deferred_def)
  have "ids (drop mx (waits_of (svc_queue s) t)) + ids (take mx (waits_of (svc_queue s) t)) =
      ids (waits_of (svc_queue s) t)"
    by (metis add.commute append_take_drop_id ids_simps(2))
  then show "completes (map (completed Operation_aborted) (take mx (waits_of (svc_queue s) t))) s s'"
    using pending_ids_left [OF ts _ r(4)] r(2) sub
    by (simp add: completes_def s' post_deferred_def)
  show "waits_of (svc_queue s') t = drop mx (waits_of (svc_queue s) t)"
    by (simp add: s' post_deferred_def waits_of_def [of q] r(4) left_with_def)
qed

lemma set_impl_simps [simp]:
  "svc_queue (set_impl t f s) = svc_queue s" "posted (set_impl t f s) = posted s"
  "reactor_shutdown (set_impl t f s) = reactor_shutdown s"
  "impls (set_impl t f s) u = (if u = t then f (impls s t) else impls s u)"
  by (simp_all add: set_impl_def)

lemma completes_set_impl: "completes out s s' \<Longrightarrow> completes out s (set_impl t f s')"
  by (simp add: completes_def)

lemma waits_of_empty:
  assumes "waits_of q t = []" "timer_inv q ts" shows "waiting q t = None"
proof -
  have "t_ops (timer_data q t) = []" using assms waits_of_eq by metis
  then have "t \<notin> set ts" using assms(2) unfolding timer_inv_def by blast
  then show ?thesis using waiting_enqueued [OF assms(2), of t] by blast
qed

text \<open>Changing a timer that has no waits.\<close>

lemma svc_inv_set_impl:
  assumes "svc_inv s" "waiting (svc_queue s) t = None" "in_ticks (expiry (f (impls s t)))"
  shows "svc_inv (set_impl t f s)"
  using assms by (auto simp: svc_inv_def)

lemma svc_cancel_rule:
  assumes inv: "svc_inv s" and call: "svc_cancel t s = (n, s')"
    and room: "length (waits_of (svc_queue s) t) \<le> no_index"
  shows "svc_inv s'" "waiting (svc_queue s') t = None" "expiry (impls s' u) = expiry (impls s u)"
    and "n = length (waits_of (svc_queue s) t)"
    and "completes (map (completed Operation_aborted) (waits_of (svc_queue s) t)) s s'"
proof -
  obtain ts where ts: "timer_inv (svc_queue s) ts" using inv by (auto simp: svc_inv_def)
  have "svc_inv s' \<and> waiting (svc_queue s') t = None \<and> expiry (impls s' u) = expiry (impls s u) \<and>
      n = length (waits_of (svc_queue s) t) \<and>
      completes (map (completed Operation_aborted) (waits_of (svc_queue s) t)) s s'"
  proof (cases "might_have_pending_waits (impls s t)")
    case False
    then have none: "waiting (svc_queue s) t = None"
      using inv by (cases "waiting (svc_queue s) t") (auto simp: svc_inv_def)
    moreover have "s' = s" "n = 0" using call False by (simp_all add: svc_cancel_def)
    ultimately show ?thesis using inv by (simp add: waits_of_absent completes_nothing)
  next
    case True
    obtain m r where c: "reactor_cancel t no_index s = (m, r)" by fastforce
    have s': "n = m" "s' = set_impl t (might_have_pending_waits_update (\<lambda>_. False)) r"
      using call c True by (simp_all add: svc_cancel_def)
    note rule = reactor_cancel_rule [OF inv c]
    obtain rs where "timer_inv (svc_queue r) rs" using rule(1) by (auto simp: svc_inv_def)
    moreover have "waits_of (svc_queue r) t = []" using rule(5) room by simp
    ultimately have none: "waiting (svc_queue r) t = None" using waits_of_empty by blast
    then have "svc_inv s'"
      unfolding s' using rule(1) by (intro svc_inv_set_impl) (auto simp: svc_inv_def)
    then show ?thesis
      using none rule(2-4) room by (simp add: s' completes_set_impl)
  qed
  then show "svc_inv s'" "waiting (svc_queue s') t = None" "expiry (impls s' u) = expiry (impls s u)"
    "n = length (waits_of (svc_queue s) t)"
    "completes (map (completed Operation_aborted) (waits_of (svc_queue s) t)) s s'" by blast+
qed

lemma expires_at_rule:
  assumes inv: "svc_inv s" and call: "expires_at t time s = (n, s')" and time: "in_ticks time"
    and room: "length (waits_of (svc_queue s) t) \<le> no_index"
  shows "svc_inv s'" "expiry (impls s' u) = (if u = t then time else expiry (impls s u))"
    and "n = length (waits_of (svc_queue s) t)"
    and "completes (map (completed Operation_aborted) (waits_of (svc_queue s) t)) s s'"
proof -
  obtain m r where c: "svc_cancel t s = (m, r)" by fastforce
  have s': "n = m" "s' = set_impl t (expiry_update (\<lambda>_. time)) r"
    using call c by (simp_all add: expires_at_def)
  note rule = svc_cancel_rule [OF inv c room]
  show "svc_inv s'" unfolding s' using rule(1,2) time by (intro svc_inv_set_impl) simp_all
  show "expiry (impls s' u) = (if u = t then time else expiry (impls s u))"
    using rule(3) by (simp add: s')
  show "n = length (waits_of (svc_queue s) t)" using rule(4) by (simp add: s')
  show "completes (map (completed Operation_aborted) (waits_of (svc_queue s) t)) s s'"
    unfolding s' by (rule completes_set_impl [OF rule(5)])
qed

lemma svc_cancel_one_rule:
  assumes inv: "svc_inv s" and call: "svc_cancel_one t s = (n, s')"
  shows "svc_inv s'" "expiry (impls s' u) = expiry (impls s u)"
    and "completes (map (completed Operation_aborted) (take 1 (waits_of (svc_queue s) t))) s s'"
proof -
  have "svc_inv s' \<and> expiry (impls s' u) = expiry (impls s u) \<and>
      completes (map (completed Operation_aborted) (take 1 (waits_of (svc_queue s) t))) s s'"
  proof (cases "might_have_pending_waits (impls s t)")
    case False
    then have none: "waiting (svc_queue s) t = None"
      using inv by (cases "waiting (svc_queue s) t") (auto simp: svc_inv_def)
    moreover have "s' = s" using call False by (simp add: svc_cancel_one_def)
    ultimately show ?thesis using inv by (simp add: waits_of_absent completes_nothing)
  next
    case True
    obtain m r where c: "reactor_cancel t 1 s = (m, r)" by fastforce
    note rule = reactor_cancel_rule [OF inv c]
    have s': "s' = (if m = 0 then set_impl t (might_have_pending_waits_update (\<lambda>_. False)) r else r)"
      using call True unfolding svc_cancel_one_def c by (simp split: if_splits)
    show ?thesis
    proof (cases "m = 0")
      case True
      then have "waits_of (svc_queue r) t = []" using rule(3,5) by simp
      then have "waiting (svc_queue r) t = None"
        using rule(1) waits_of_empty unfolding svc_inv_def by blast
      then have "svc_inv s'"
        using True rule(1) unfolding s' by (simp, intro svc_inv_set_impl) (auto simp: svc_inv_def)
      then show ?thesis using True rule(2,4) by (simp add: s' completes_set_impl)
    next
      case False
      then show ?thesis using rule(1,2,4) by (simp add: s')
    qed
  qed
  then show "svc_inv s'" "expiry (impls s' u) = expiry (impls s u)"
    "completes (map (completed Operation_aborted) (take 1 (waits_of (svc_queue s) t))) s s'" by blast+
qed

lemma enqueue_earliest:
  assumes inv: "timer_inv q ts" and call: "enqueue_timer time t op q = (earliest, q')"
    and first: "\<And>u due ws. waiting q u = Some (due, ws) \<Longrightarrow> time < due" and none: "waiting q t = None"
  shows "earliest"
proof -
  note rule = enqueue_timer_rule [OF inv call]
  have wt: "waiting q' t = Some (time, [op])" using rule(2) none by (simp add: with_wait_def)
  note inv' = rule(1)
  have e: "Entry time t \<in> set (heap q')" "t_ops (timer_data q' t) = [op]"
    using wt waiting_Some [OF timer_inv_heap [OF inv']] by auto
  let ?e = "heap q' ! 0"
  have ne: "heap q' \<noteq> []" using e(1) by auto
  then have "?e \<in> set (heap q')" by simp
  then have e0: "Entry (heap_time q' 0) (he_timer ?e) \<in> set (heap q')" by (simp add: heap_time_def)
  have "he_timer ?e = t"
  proof (rule ccontr)
    assume other: "he_timer ?e \<noteq> t"
    have "waiting q' (he_timer ?e) = Some (heap_time q' 0, t_ops (timer_data q' (he_timer ?e)))"
      by (rule waiting_entry [OF inv' e0])
    with other rule(2) have "time < heap_time q' 0" using first by (metis fun_upd_other)
    with heap_first [OF timer_inv_heap [OF inv'] e(1)] show False by simp
  qed
  then have "heap_index (timer_data q' t) = 0"
    using inv' ne by (auto simp: timer_inv_def heap_inv_def indexed_def)
  with e(2) call show ?thesis by (auto simp: enqueue_timer_def Let_def)
qed

lemma async_wait_rule:
  fixes s t op
  assumes inv: "svc_inv s" and on: "\<not> reactor_shutdown s"
  defines "s' \<equiv> async_wait t op s"
  shows "svc_inv s'" "posted s' = posted s" "\<not> reactor_shutdown s'"
    and "expiry (impls s' u) = expiry (impls s u)"
    and "pending_ids (waiting (svc_queue s')) = pending_ids (waiting (svc_queue s)) + {#wo_id op#}"
    and "waiting (svc_queue s') =
      (waiting (svc_queue s))(t \<mapsto> (expiry (impls s t), waits_of (svc_queue s) t @ [op]))"
    and "(\<And>u time ws. waiting (svc_queue s) u = Some (time, ws) \<Longrightarrow> expiry (impls s t) < time) \<Longrightarrow>
      interrupted s'"
proof -
  let ?q = "svc_queue s" and ?x = "expiry (impls s t)"
  obtain ts where ts: "timer_inv ?q ts" using inv by (auto simp: svc_inv_def)
  obtain earliest q where c: "enqueue_timer ?x t op ?q = (earliest, q)" by fastforce
  note rule = enqueue_timer_rule [OF ts c]
  let ?r = "set_impl t (might_have_pending_waits_update (\<lambda>_. True)) s"
  have s': "s' = (let r = ?r\<lparr>svc_queue := q, work := work ?r + 1\<rparr>
                  in if earliest then r\<lparr>interrupted := True\<rparr> else r)"
    using on c by (simp add: s'_def async_wait_def schedule_timer_def Let_def)
  have "with_wait ?x op (waiting ?q t) = (?x, waits_of ?q t @ [op])"
    using inv by (cases "waiting ?q t") (auto simp: with_wait_def waits_of_def svc_inv_def)
  with rule(2) have w: "waiting q = (waiting ?q)(t \<mapsto> (?x, waits_of ?q t @ [op]))" by simp
  have fields: "svc_queue s' = q" "posted s' = posted s" "reactor_shutdown s' = reactor_shutdown s"
    "impls s' = impls ?r" by (simp_all add: s' Let_def)
  show "svc_inv s'"
    using inv rule(1) by (auto simp: svc_inv_def fields w)
  show "posted s' = posted s" "\<not> reactor_shutdown s'" "expiry (impls s' u) = expiry (impls s u)"
    using on by (simp_all add: fields)
  show "waiting (svc_queue s') = (waiting ?q)(t \<mapsto> (?x, waits_of ?q t @ [op]))"
    by (simp add: fields w)
  show "pending_ids (waiting (svc_queue s')) = pending_ids (waiting ?q) + {#wo_id op#}"
    using pending_ids_set [OF finite_waiting [OF ts], of t ?x "waits_of ?q t @ [op]"]
    by (simp add: fields w)
  show "interrupted s'"
    if first: "\<And>u time ws. waiting ?q u = Some (time, ws) \<Longrightarrow> ?x < time"
  proof -
    have "waiting ?q t = None"
      using first [of t] inv by (cases "waiting ?q t") (auto simp: svc_inv_def)
    then have earliest using enqueue_earliest [OF ts c] first by blast
    then show ?thesis by (simp add: s' Let_def)
  qed
qed

lemma check_timers_rule:
  assumes inv: "svc_inv s"
  shows "\<exists>s' out. check_timers now s = Some s' \<and> svc_inv s' \<and> completes out s s' \<and>
    impls s' = impls s \<and> serves now (waiting (svc_queue s)) out"
proof -
  obtain ts where ts: "timer_inv (svc_queue s) ts" using inv by (auto simp: svc_inv_def)
  obtain q out where r: "get_ready_timers now (svc_queue s) [] = Some (q, out)" "steady_inv q"
    "waiting q = later now (waiting (svc_queue s))" "serves now (waiting (svc_queue s)) out"
    using steady_ready [OF svc_inv_steady [OF inv], of now "[]"] by auto
  let ?s = "post_deferred out (s\<lparr>svc_queue := q, interrupted := False\<rparr>)"
  have sub: "waiting (svc_queue s) t = Some (time, ws)" if "waiting q t = Some (time, ws)" for t time ws
    using that by (auto simp: r(3) later_def split: option.splits if_splits)
  have "svc_inv ?s"
    using inv r(2) sub unfolding svc_inv_def steady_inv_def post_deferred_def by auto
  moreover have "completes out s ?s"
    using pending_ids_served [OF finite_waiting [OF ts] r(4)] sub
    by (fastforce simp: completes_def post_deferred_def r(3))
  ultimately show ?thesis using r(1,4) by (auto simp: check_timers_def post_deferred_def)
qed

section \<open>What holds in every run\<close>

definition successes :: "wait_op list \<Rightarrow> nat list" where
  "successes ops = map wo_id (filter (\<lambda>op. wo_ec op = Success) ops)"

lemma successes_append [simp]: "successes (ops @ ops') = successes ops @ successes ops'"
  by (simp add: successes_def)

lemma successes_aborted [simp]: "successes (map (completed Operation_aborted) ops) = []"
  by (induction ops) (simp_all add: successes_def completed_def)

lemma successes_served: "serves now w ops \<Longrightarrow> successes ops = map wo_id ops"
  by (auto simp: serves_def successes_def completed_def filter_id_conv)

definition run_inv :: "timer_run \<Rightarrow> bool" where
  "run_inv r =
     (svc_inv (svc r) \<and> \<not> reactor_shutdown (svc r) \<and>
      ids (posted (svc r)) + pending_ids (waiting (svc_queue (svc r))) = mset (map fst (started r)) \<and>
      (\<forall>t time ws op. waiting (svc_queue (svc r)) t = Some (time, ws) \<longrightarrow> op \<in> set ws \<longrightarrow>
         (wo_id op, time) \<in> set (started r)) \<and>
      successes (posted (svc r)) = map fst (fired r) \<and>
      (\<forall>(i, now) \<in> set (fired r). \<exists>time. (i, time) \<in> set (started r) \<and> time \<le> now))"

lemma run_inv_fresh: "run_inv fresh_run"
  by (simp add: run_inv_def fresh_run_def svc_inv_fresh)
    (simp add: new_timer_service_def new_timer_queue_rule(2) pending_ids_def successes_def)

lemma run_inv_completes:
  assumes inv: "run_inv r" and s: "svc_inv s" "completes out (svc r) s" and out: "successes out = []"
  shows "run_inv (r\<lparr>svc := s\<rparr>)"
proof -
  have "ids (posted s) + pending_ids (waiting (svc_queue s)) =
      ids (posted (svc r)) + pending_ids (waiting (svc_queue (svc r)))"
    using s(2) by (simp add: completes_def) (metis add.assoc add.commute)
  moreover have "(wo_id op, time) \<in> set (started r)"
    if w: "waiting (svc_queue s) t = Some (time, ws)" and op: "op \<in> set ws" for t time ws op
  proof -
    obtain ws' where "waiting (svc_queue (svc r)) t = Some (time, ws')" "set ws \<subseteq> set ws'"
      using s(2) w unfolding completes_def by blast
    with inv op show ?thesis unfolding run_inv_def by blast
  qed
  ultimately show ?thesis
    using inv s out unfolding run_inv_def by (auto simp: completes_def)
qed

lemma waits_bounded:
  assumes "run_inv r" "length (started r) \<le> no_index"
  shows "length (waits_of (svc_queue (svc r)) t) \<le> no_index"
proof (cases "waiting (svc_queue (svc r)) t")
  case None
  then show ?thesis by (simp add: waits_of_absent)
next
  case (Some w)
  obtain ts where ts: "timer_inv (svc_queue (svc r)) ts" using assms(1) by (auto simp: run_inv_def svc_inv_def)
  have "size (ids (waits_of (svc_queue (svc r)) t)) \<le> size (pending_ids (waiting (svc_queue (svc r))))"
    using pending_ids_drop [OF finite_waiting [OF ts], of t]
    by (metis le_add2 size_union waits_in_of)
  moreover have "size (ids (posted (svc r)) + pending_ids (waiting (svc_queue (svc r)))) = length (started r)"
    using assms(1) by (simp only: run_inv_def size_mset length_map)
  ultimately show ?thesis using assms(2) by (simp add: ids_def)
qed

lemma timer_step_inv:
  assumes inv: "run_inv r" and ok: "event_ok e" and room: "length (started r) \<le> no_index"
  shows "\<exists>r'. timer_step e r = Some r' \<and> run_inv r' \<and> length (started r') \<le> Suc (length (started r))"
proof (cases e)
  case (Expires_after now t d)
  obtain n s where c: "expires_at t (saturate (now + d)) (svc r) = (n, s)" by fastforce
  have "timer_step e r = Some (r\<lparr>svc := s\<rparr>)"
    using ok c by (simp add: Expires_after expires_after_def time_add_saturates)
  moreover have "svc_inv (svc r)" using inv by (simp add: run_inv_def)
  note rule = expires_at_rule [OF this c saturate_in waits_bounded [OF inv room]]
  have "run_inv (r\<lparr>svc := s\<rparr>)" by (rule run_inv_completes [OF inv rule(1,4)]) simp
  ultimately show ?thesis by simp
next
  case (Async_wait t i)
  let ?op = "\<lparr>wo_id = i, wo_ec = Success, cancellation_key = 0\<rparr>"
  have "svc_inv (svc r)" "\<not> reactor_shutdown (svc r)" using inv by (simp_all add: run_inv_def)
  note rule = async_wait_rule [OF this, of t ?op]
  let ?r = "r\<lparr>svc := async_wait t ?op (svc r),
      started := started r @ [(i, expiry (impls (svc r) t))]\<rparr>"
  let ?w = "waiting (svc_queue (svc r))" and ?x = "expiry (impls (svc r) t)"
  have old: "(wo_id op, time) \<in> set (started r)" if "?w u = Some (time, ws)" "op \<in> set ws" for u time ws op
    using inv that unfolding run_inv_def by blast
  have mine: "(wo_id op, ?x) \<in> set (started r)" if "op \<in> set (waits_of (svc_queue (svc r)) t)" for op
  proof (cases "?w t")
    case (Some w)
    then obtain ws where "?w t = Some (?x, ws)" using inv by (cases w) (auto simp: run_inv_def svc_inv_def)
    with that old show ?thesis by (simp add: waits_of_def)
  qed (use that in \<open>simp add: waits_of_absent\<close>)
  have "(wo_id op, time) \<in> set (started ?r)"
    if "waiting (svc_queue (svc ?r)) u = Some (time, ws)" "op \<in> set ws" for u time ws op
    using that old mine rule(6) by (cases "u = t") auto
  moreover have "ids (posted (svc ?r)) + pending_ids (waiting (svc_queue (svc ?r))) = mset (map fst (started ?r))"
    using inv rule(2,5) by (simp add: run_inv_def)
  moreover have "successes (posted (svc ?r)) = map fst (fired ?r)"
    "\<forall>(i, now) \<in> set (fired ?r). \<exists>time. (i, time) \<in> set (started ?r) \<and> time \<le> now"
    using inv rule(2) by (auto simp: run_inv_def)
  ultimately have "run_inv ?r" using rule(1,3) unfolding run_inv_def by simp
  then show ?thesis by (simp add: Async_wait)
next
  case (Cancel t)
  obtain n s where c: "svc_cancel t (svc r) = (n, s)" by fastforce
  have "svc_inv (svc r)" using inv by (simp add: run_inv_def)
  note rule = svc_cancel_rule [OF this c waits_bounded [OF inv room]]
  have "run_inv (r\<lparr>svc := s\<rparr>)" by (rule run_inv_completes [OF inv rule(1,5)]) simp
  then show ?thesis by (simp add: Cancel c)
next
  case (Cancel_one t)
  obtain n s where c: "svc_cancel_one t (svc r) = (n, s)" by fastforce
  have "svc_inv (svc r)" using inv by (simp add: run_inv_def)
  note rule = svc_cancel_one_rule [OF this c]
  have "run_inv (r\<lparr>svc := s\<rparr>)" by (rule run_inv_completes [OF inv rule(1,3)]) simp
  then show ?thesis by (simp add: Cancel_one c)
next
  case (Check_timers now)
  have "svc_inv (svc r)" using inv by (simp add: run_inv_def)
  from check_timers_rule [OF this, of now] obtain s out where rule: "check_timers now (svc r) = Some s"
    "svc_inv s" "completes out (svc r) s" "serves now (waiting (svc_queue (svc r))) out" by blast
  have out: "drop (length (posted (svc r))) (posted s) = out" using rule(3) by (simp add: completes_def)
  have due: "\<exists>time. (wo_id op, time) \<in> set (started r) \<and> time \<le> now" if "op \<in> set out" for op
  proof -
    from that rule(4) obtain t time ws op' where "waiting (svc_queue (svc r)) t = Some (time, ws)"
      "time \<le> now" "op' \<in> set ws" "op = completed Success op'"
      by (auto simp: serves_def)
    moreover from this inv have "(wo_id op', time) \<in> set (started r)" unfolding run_inv_def by blast
    ultimately show ?thesis by (auto simp: completed_def)
  qed
  have "run_inv (r\<lparr>svc := s, fired := fired r @ map (\<lambda>op. (wo_id op, now)) out\<rparr>)"
  proof -
    let ?r = "r\<lparr>svc := s, fired := fired r @ map (\<lambda>op. (wo_id op, now)) out\<rparr>"
    have "(wo_id op, time) \<in> set (started r)"
      if w: "waiting (svc_queue s) t = Some (time, ws)" and op: "op \<in> set ws" for t time ws op
    proof -
      obtain ws' where "waiting (svc_queue (svc r)) t = Some (time, ws')" "set ws \<subseteq> set ws'"
        using rule(3) w unfolding completes_def by blast
      with inv op show ?thesis unfolding run_inv_def by blast
    qed
    moreover have "ids (posted s) + pending_ids (waiting (svc_queue s)) = mset (map fst (started r))"
      using inv rule(3) by (simp add: run_inv_def completes_def) (metis add.assoc add.commute)
    moreover have "successes (posted s) = map fst (fired ?r)"
      using inv rule(3) successes_served [OF rule(4)] by (simp add: run_inv_def completes_def o_def)
    moreover have "\<forall>(i, now) \<in> set (fired ?r). \<exists>time. (i, time) \<in> set (started r) \<and> time \<le> now"
      using inv due by (auto simp: run_inv_def)
    moreover have "\<not> reactor_shutdown s" using inv rule(3) by (simp add: run_inv_def completes_def)
    ultimately show ?thesis using rule(2) by (simp add: run_inv_def)
  qed
  then show ?thesis by (simp add: Check_timers rule(1) out)
qed

lemma timer_events_inv:
  "run_inv r \<Longrightarrow> list_all event_ok es \<Longrightarrow> length (started r) + length es \<le> no_index \<Longrightarrow>
   \<exists>r'. timer_events es r = Some r' \<and> run_inv r'"
proof (induction es arbitrary: r)
  case (Cons e es)
  obtain r' where r': "timer_step e r = Some r'" "run_inv r'" "length (started r') \<le> Suc (length (started r))"
    using timer_step_inv [of r e] Cons.prems by auto
  with Cons.IH [of r'] Cons.prems show ?case by auto
qed simp

section \<open>Properties\<close>


text \<open>Two timers; the first is set again while it has a wait, and the second expires.\<close>

definition sample_timer_events :: "timer_event list" where
  "sample_timer_events =
     [Expires_after 0 1 50, Async_wait 1 7, Expires_after 0 2 20, Async_wait 2 8,
      Expires_after 10 1 70, Async_wait 1 9, Check_timers 30]"


text \<open>
  Setting a timer again cancels its waits. After \<open>expires_after\<close> every wait on the timer has
  been posted with the error for an aborted operation, in order; the timer has no wait left,
  and no other timer is touched.
\<close>

theorem setting_cancels:
  assumes "svc_inv s" "in_ticks now" "in_ticks d" "length (waits_of (svc_queue s) t) \<le> no_index"
  shows "\<exists>s'. expires_after now t d s = Inr (length (waits_of (svc_queue s) t), s') \<and>
    svc_inv s' \<and> expiry (impls s' t) = saturate (now + d) \<and>
    posted s' = posted s @ map (completed Operation_aborted) (waits_of (svc_queue s) t) \<and>
    waiting (svc_queue s') = (waiting (svc_queue s))(t := None)"
proof -
  obtain n s' where c: "expires_at t (saturate (now + d)) s = (n, s')" by fastforce
  note rule = expires_at_rule [OF assms(1) c saturate_in assms(4)]
  obtain m r where r: "svc_cancel t s = (m, r)" by fastforce
  have q: "svc_queue s' = svc_queue r" using c r by (auto simp: expires_at_def)
  obtain ts where ts: "timer_inv (svc_queue s) ts" using assms(1) by (auto simp: svc_inv_def)
  have "waiting (svc_queue r) = (waiting (svc_queue s))(t := None)"
  proof (cases "might_have_pending_waits (impls s t)")
    case False
    then have "waiting (svc_queue s) t = None"
      using assms(1) by (cases "waiting (svc_queue s) t") (auto simp: svc_inv_def)
    with r False show ?thesis by (auto simp: svc_cancel_def fun_upd_idem)
  next
    case True
    obtain k q ops where k: "cancel_timer t [] no_index (svc_queue s) = (k, q, ops)" by (metis prod_cases3)
    have "svc_queue r = q"
      using r True k by (auto simp: svc_cancel_def reactor_cancel_def post_deferred_def set_impl_def)
    with cancel_timer_rule(4) [OF ts k] assms(4) show ?thesis by (simp add: left_with_def)
  qed
  then show ?thesis
    using rule c assms(2,3)
    by (simp add: expires_after_def time_add_saturates q completes_def)
qed

definition sample_waiting_service :: timer_service where
  "sample_waiting_service =
     async_wait 1 \<lparr>wo_id = 7, wo_ec = Success, cancellation_key = 0\<rparr> new_timer_service"

lemma sample_waiting_inv: "svc_inv sample_waiting_service"
  unfolding sample_waiting_service_def
  by (rule async_wait_rule(1) [OF svc_inv_fresh]) (simp add: new_timer_service_def)

lemma sample_waiting_length: "length (waits_of (svc_queue sample_waiting_service) 1) \<le> no_index"
proof -
  have "waiting (svc_queue sample_waiting_service) 1 =
      Some (0, [\<lparr>wo_id = 7, wo_ec = Success, cancellation_key = 0\<rparr>])"
    unfolding sample_waiting_service_def
    by (subst async_wait_rule(6) [OF svc_inv_fresh])
      (simp_all add: new_timer_service_def new_timer_queue_rule(2) waits_of_absent)
  then show ?thesis by (simp add: waits_of_def no_index_def)
qed

lemma setting_cancels_witness:
  "\<exists>s'. expires_after 5 1 10 sample_waiting_service =
      Inr (length (waits_of (svc_queue sample_waiting_service) 1), s') \<and>
    svc_inv s' \<and> expiry (impls s' 1) = saturate (5 + 10) \<and>
    posted s' = posted sample_waiting_service @
      map (completed Operation_aborted) (waits_of (svc_queue sample_waiting_service) 1) \<and>
    waiting (svc_queue s') = (waiting (svc_queue sample_waiting_service))(1 := None)"
  by (rule setting_cancels [OF sample_waiting_inv _ _ sample_waiting_length]) (simp_all add: tick_bounds)

text \<open>
  The reactor sleeps no longer than until the next expiry. Its timeout is never more than
  five minutes, and never goes beyond the time of any wait by more than the shortest sleep of
  one millisecond; and a new wait that is the first to expire cuts a sleep under way short.
\<close>

theorem reactor_wakes_in_time:
  assumes "svc_inv s" "\<not> reactor_shutdown s" "in_ticks now"
  shows "(\<exists>m. get_timeout now msec s = Inr m \<and> 0 \<le> m \<and> m \<le> 300000 \<and>
      (\<forall>t time ws. waiting (svc_queue s) t = Some (time, ws) \<longrightarrow> m \<le> 1 \<or> m * 1000000 \<le> time - now)) \<and>
    ((\<forall>u time ws. waiting (svc_queue s) u = Some (time, ws) \<longrightarrow> expiry (impls s t) < time) \<longrightarrow>
      interrupted (async_wait t op s))"
proof -
  define mx where "mx = (if msec < 0 \<or> 300000 < msec then 300000 else msec)"
  have mx: "0 \<le> mx" "mx \<le> 300000" by (simp_all add: mx_def)
  have "\<forall>(a, q) \<in> set [(0 :: nat, svc_queue s)]. steady_inv q" using svc_inv_steady [OF assms(1)] by simp
  from steady_msec.set_wait [OF this assms(3) mx(1)] obtain m where m:
    "set_wait_duration (wait_duration_msec now) [(0, svc_queue s)] mx = Inr m" "0 \<le> m" "m \<le> max 1 mx"
    "\<forall>(a, q) \<in> set [(0 :: nat, svc_queue s)]. \<forall>t time ws. waiting q t = Some (time, ws) \<longrightarrow>
       m \<le> 1 \<or> m * 1000000 \<le> time - now"
    by blast
  have "get_timeout now msec s = Inr m" using m(1) by (simp add: get_timeout_def mx_def)
  moreover have "m \<le> 300000" using m(3) mx(2) by simp
  moreover have "\<forall>t time ws. waiting (svc_queue s) t = Some (time, ws) \<longrightarrow>
      m \<le> 1 \<or> m * 1000000 \<le> time - now" using m(4) by auto
  moreover have "interrupted (async_wait t op s)"
    if "\<forall>u time ws. waiting (svc_queue s) u = Some (time, ws) \<longrightarrow> expiry (impls s t) < time"
    using that by (intro async_wait_rule(7) [OF assms(1,2)]) blast
  ultimately show ?thesis using m(2) by blast
qed

lemma reactor_wakes_in_time_witness:
  "(\<exists>m. get_timeout 5 (- 1) new_timer_service = Inr m \<and> 0 \<le> m \<and> m \<le> 300000) \<and>
   interrupted (async_wait 3 \<lparr>wo_id = 7, wo_ec = Success, cancellation_key = 0\<rparr> new_timer_service)"
  using reactor_wakes_in_time [of new_timer_service 5 "- 1" 3
    "\<lparr>wo_id = 7, wo_ec = Success, cancellation_key = 0\<rparr>"] svc_inv_fresh
  by (auto simp: tick_bounds new_timer_service_def new_timer_queue_rule(2))

end
