(* ===== verification/Op_Queue.thy ===== *)
theory Op_Queue
  imports Prelude
begin

text \<open>
  \<open>asio::detail::op_queue\<close> (\<open>detail/op_queue.hpp\<close>): the singly linked queue in which
  completion handlers wait. The operations are nodes of a store, linked through their
  \<open>next_\<close> pointers; a queue is a pair of pointers to its first and last node. The theory
  shows that the pointer operations implement those of a first-in first-out list, that two
  queues over one store do not disturb each other, and that emptying a queue ends.
\<close>

section \<open>The queue in the store\<close>

type_synonym op_id = nat

text \<open>A null pointer is \<open>None\<close>; the store gives every operation's \<open>next_\<close>.\<close>

type_synonym op_store = "op_id \<Rightarrow> op_id option"

record op_queue =
  q_front :: "op_id option"
  q_back :: "op_id option"

definition new_op_queue :: op_queue where
  "new_op_queue = \<lparr>q_front = None, q_back = None\<rparr>"

definition op_front :: "op_queue \<Rightarrow> op_id option" where
  "op_front q = q_front q"

definition op_pop :: "op_store \<Rightarrow> op_queue \<Rightarrow> op_store \<times> op_queue" where
  "op_pop m q =
     (case q_front q of
        None \<Rightarrow> (m, q)
      | Some tmp \<Rightarrow>
          let q = q\<lparr>q_front := m tmp\<rparr>;
              q = (if q_front q = None then q\<lparr>q_back := None\<rparr> else q)
          in (m(tmp := None), q))"

definition op_push :: "op_store \<Rightarrow> op_queue \<Rightarrow> op_id \<Rightarrow> op_store \<times> op_queue" where
  "op_push m q h =
     (let m = m(h := None)
      in case q_back q of
           Some b \<Rightarrow> (m(b := Some h), q\<lparr>q_back := Some h\<rparr>)
         | None \<Rightarrow> (m, q\<lparr>q_front := Some h, q_back := Some h\<rparr>))"

text \<open>Moving all operations of \<open>other\<close> to the end of \<open>q\<close>.\<close>

definition op_push_queue ::
  "op_store \<Rightarrow> op_queue \<Rightarrow> op_queue \<Rightarrow> op_store \<times> op_queue \<times> op_queue" where
  "op_push_queue m q other =
     (case q_front other of
        None \<Rightarrow> (m, q, other)
      | Some other_front \<Rightarrow>
          let (m, q) = (case q_back q of
                          Some b \<Rightarrow> (m(b := Some other_front), q)
                        | None \<Rightarrow> (m, q\<lparr>q_front := Some other_front\<rparr>))
          in (m, q\<lparr>q_back := q_back other\<rparr>, other\<lparr>q_front := None, q_back := None\<rparr>))"

definition op_empty :: "op_queue \<Rightarrow> bool" where
  "op_empty q = (q_front q = None)"

definition is_enqueued :: "op_store \<Rightarrow> op_queue \<Rightarrow> op_id \<Rightarrow> bool" where
  "is_enqueued m q h = (m h \<noteq> None \<or> q_back q = Some h)"

text \<open>
  The destructor, and every loop \<open>while (op = front()) { pop(); ... }\<close>: it takes the
  operations one by one. A cycle of pointers would keep it running, so it is a partial
  function; the second component is what was taken.
\<close>

partial_function (option) op_drain ::
  "op_store \<Rightarrow> op_queue \<Rightarrow> (op_store \<times> op_queue \<times> op_id list) option" where
  "op_drain m q =
     (case q_front q of
        None \<Rightarrow> Some (m, q, [])
      | Some h \<Rightarrow>
          (let (m', q') = op_pop m q
           in Option.bind (op_drain m' q') (\<lambda>(m'', q'', hs). Some (m'', q'', h # hs))))"

section \<open>What a queue represents\<close>

text \<open>\<open>chain m p xs\<close>: following the pointers from \<open>p\<close> visits \<open>xs\<close> and ends at null.\<close>

fun chain :: "op_store \<Rightarrow> op_id option \<Rightarrow> op_id list \<Rightarrow> bool" where
  "chain m p [] = (p = None)"
| "chain m p (x # xs) = (p = Some x \<and> chain m (m x) xs)"

definition queue_of :: "op_store \<Rightarrow> op_queue \<Rightarrow> op_id list \<Rightarrow> bool" where
  "queue_of m q xs =
     (chain m (q_front q) xs \<and> distinct xs \<and> q_back q = (if xs = [] then None else Some (last xs)))"

lemma chain_None [simp]: "chain m None xs = (xs = [])"
  by (cases xs) auto

lemma chain_frame [simp]: "h \<notin> set xs \<Longrightarrow> chain (m(h := v)) p xs = chain m p xs"
  by (induction xs arbitrary: p) auto

lemma chain_link:
  "chain m p xs \<Longrightarrow> xs \<noteq> [] \<Longrightarrow> distinct xs \<Longrightarrow> chain m r ys \<Longrightarrow> set xs \<inter> set ys = {} \<Longrightarrow>
   chain (m(last xs := r)) p (xs @ ys)"
proof (induction xs arbitrary: p)
  case (Cons x xs)
  show ?case
  proof (cases "xs = []")
    case True
    have "chain (m(x := r)) r ys = chain m r ys"
      using Cons.prems by (intro chain_frame) simp
    with True Cons.prems show ?thesis by (simp only: append_Cons append_Nil last.simps chain.simps) simp
  next
    case False
    with Cons.prems have "last xs \<noteq> x" by (metis distinct.simps(2) last_in_set)
    moreover have "chain (m(last xs := r)) (m x) (xs @ ys)"
      using Cons.prems False by (intro Cons.IH) auto
    moreover have "last (x # xs) = last xs" using False by simp
    ultimately show ?thesis using Cons.prems by (simp only: append_Cons chain.simps) simp
  qed
qed simp

lemma chain_next_in:
  "chain m p xs \<Longrightarrow> h \<in> set xs \<Longrightarrow> m h = None \<longleftrightarrow> h = last xs" if "distinct xs"
  using that
proof (induction xs arbitrary: p)
  case (Cons x xs)
  then show ?case by (cases xs) auto
qed simp

lemma chain_unique: "chain m p xs \<Longrightarrow> chain m p ys \<Longrightarrow> xs = ys"
proof (induction xs arbitrary: p ys)
  case Nil
  then show ?case by (cases ys) auto
next
  case (Cons x xs)
  then show ?case by (cases ys) auto
qed

lemma queue_of_unique: "queue_of m q xs \<Longrightarrow> queue_of m q ys \<Longrightarrow> xs = ys"
  by (auto simp: queue_of_def dest: chain_unique)

text \<open>A queue is not disturbed by writes to operations that are not in it.\<close>

lemma queue_of_frame: "h \<notin> set xs \<Longrightarrow> queue_of (m(h := v)) q xs = queue_of m q xs"
  by (simp add: queue_of_def)

named_theorems op_queue_rules "what the queue's operations do to the list it represents"

lemma new_op_queue_rule [op_queue_rules]: "queue_of m new_op_queue []"
  by (simp add: queue_of_def new_op_queue_def)

lemma op_front_rule [op_queue_rules]:
  "queue_of m q xs \<Longrightarrow> op_front q = (case xs of [] \<Rightarrow> None | x # _ \<Rightarrow> Some x)"
  by (cases xs) (auto simp: queue_of_def op_front_def)

lemma op_empty_rule [op_queue_rules]: "queue_of m q xs \<Longrightarrow> op_empty q \<longleftrightarrow> xs = []"
  by (cases xs) (auto simp: queue_of_def op_empty_def)

lemma op_push_rule [op_queue_rules]:
  assumes "queue_of m q xs" "h \<notin> set xs" "op_push m q h = (m', q')"
  shows "queue_of m' q' (xs @ [h])"
proof (cases "xs = []")
  case False
  with assms have "chain (m(h := None)) (q_front q) xs" "distinct xs" "q_back q = Some (last xs)"
    by (simp_all add: queue_of_def)
  with assms False show ?thesis
    using chain_link [of "m(h := None)" "q_front q" xs "Some h" "[h]"]
    by (auto simp: op_push_def queue_of_def)
qed (use assms in \<open>auto simp: op_push_def queue_of_def\<close>)

lemma op_pop_rule [op_queue_rules]:
  assumes "queue_of m q xs" "op_pop m q = (m', q')"
  shows "queue_of m' q' (tl xs)"
  using assms by (cases xs) (auto simp: queue_of_def op_pop_def Let_def split: if_splits list.splits)

lemma op_push_queue_rule [op_queue_rules]:
  assumes "queue_of m q xs" "queue_of m other ys" "set xs \<inter> set ys = {}"
    and "op_push_queue m q other = (m', q', other')"
  shows "queue_of m' q' (xs @ ys)" "queue_of m' other' []"
proof -
  have chains: "chain m (q_front q) xs" "chain m (q_front other) ys" "distinct xs"
    using assms(1,2) by (simp_all add: queue_of_def)
  show "queue_of m' q' (xs @ ys)"
  proof (cases "xs = [] \<or> ys = []")
    case True
    then show ?thesis using assms by (cases ys; auto simp: op_push_queue_def queue_of_def)
  next
    case False
    then have "xs \<noteq> []" by simp
    from chain_link [OF chains(1) this chains(3,2) assms(3)] show ?thesis
      using False assms by (cases ys) (auto simp: op_push_queue_def queue_of_def)
  qed
  show "queue_of m' other' []"
    using assms by (cases ys) (auto simp: op_push_queue_def queue_of_def Let_def split: option.splits prod.splits)
qed

text \<open>
  Which operations a step writes to: a queue over the same store that shares none of them
  represents the same list afterwards.
\<close>

lemma op_push_frame:
  assumes "queue_of m q xs" "op_push m q h = (m', q')"
    and "queue_of m q2 ys" "set xs \<inter> set ys = {}" "h \<notin> set ys"
  shows "queue_of m' q2 ys"
  using assms by (cases xs rule: rev_cases) (auto simp: op_push_def Let_def queue_of_def)

lemma op_pop_frame:
  assumes "queue_of m q xs" "op_pop m q = (m', q')" "queue_of m q2 ys" "set xs \<inter> set ys = {}"
  shows "queue_of m' q2 ys"
  using assms by (cases xs) (auto simp: op_pop_def Let_def queue_of_def)

lemma op_pop_unlinks:
  assumes "queue_of m q (x # xs)" "op_pop m q = (m', q')"
  shows "m' x = None"
  using assms by (auto simp: op_pop_def Let_def queue_of_def)

text \<open>
  \<open>is_enqueued\<close> is right for the operations of this queue and those of none; an operation
  of another queue passes for one of this queue unless it is the last of its own.
\<close>

lemma is_enqueued_rule [op_queue_rules]:
  assumes "queue_of m q xs" "h \<notin> set xs \<Longrightarrow> m h = None"
  shows "is_enqueued m q h \<longleftrightarrow> h \<in> set xs"
proof (cases "h \<in> set xs")
  case True
  then have "xs \<noteq> []" by auto
  with True assms show ?thesis
    using chain_next_in [of xs m "q_front q" h] by (auto simp: is_enqueued_def queue_of_def)
next
  case False
  with assms have "m h = None" "q_back q \<noteq> Some h" by (auto simp: queue_of_def split: if_splits)
  with False show ?thesis by (simp add: is_enqueued_def)
qed

text \<open>Emptying a queue ends, and takes the operations in the order they were pushed.\<close>

lemma op_drain_rule [op_queue_rules]:
  "queue_of m q xs \<Longrightarrow>
   \<exists>m' q'. op_drain m q = Some (m', q', xs) \<and> queue_of m' q' [] \<and>
     (\<forall>x \<in> set xs. m' x = None) \<and> (\<forall>y. y \<notin> set xs \<longrightarrow> m' y = m y)"
proof (induction xs arbitrary: m q)
  case Nil
  then show ?case by (subst op_drain.simps) (auto simp: queue_of_def)
next
  case (Cons x xs)
  obtain m1 q1 where pop: "op_pop m q = (m1, q1)" by fastforce
  have front: "q_front q = Some x" using Cons.prems by (simp add: queue_of_def)
  have m1: "m1 = m(x := None)" using pop front by (auto simp: op_pop_def Let_def)
  have "x \<notin> set xs" using Cons.prems by (simp add: queue_of_def)
  moreover obtain m' q' where "op_drain m1 q1 = Some (m', q', xs)" "queue_of m' q' []"
    "\<forall>x \<in> set xs. m' x = None" "\<forall>y. y \<notin> set xs \<longrightarrow> m' y = m1 y"
    using Cons.IH [of m1 q1] op_pop_rule [OF Cons.prems pop] by auto
  ultimately show ?case
    using front pop m1 by (subst op_drain.simps) auto
qed

section \<open>Two queues over one store\<close>

text \<open>
  A program of queue operations, as the reactor and the scheduler run them: operations are
  pushed to and popped from two queues, and the second is appended to the first. What it
  should do is written with lists; an operation is pushed only while it is in neither queue.
\<close>

datatype queue_cmd = Push_first op_id | Push_second op_id | Pop_first | Pop_second | Append_second

fun list_cmd :: "queue_cmd \<Rightarrow> op_id list \<times> op_id list \<Rightarrow> (op_id list \<times> op_id list) option" where
  "list_cmd (Push_first h) (xs, ys) = (if h \<in> set xs \<union> set ys then None else Some (xs @ [h], ys))"
| "list_cmd (Push_second h) (xs, ys) = (if h \<in> set xs \<union> set ys then None else Some (xs, ys @ [h]))"
| "list_cmd Pop_first (xs, ys) = Some (tl xs, ys)"
| "list_cmd Pop_second (xs, ys) = Some (xs, tl ys)"
| "list_cmd Append_second (xs, ys) = Some (xs @ ys, [])"

type_synonym two_queues = "op_store \<times> op_queue \<times> op_queue"

fun run_cmd :: "queue_cmd \<Rightarrow> two_queues \<Rightarrow> two_queues" where
  "run_cmd (Push_first h) (m, q, r) = (let (m, q) = op_push m q h in (m, q, r))"
| "run_cmd (Push_second h) (m, q, r) = (let (m, r) = op_push m r h in (m, q, r))"
| "run_cmd Pop_first (m, q, r) = (let (m, q) = op_pop m q in (m, q, r))"
| "run_cmd Pop_second (m, q, r) = (let (m, r) = op_pop m r in (m, q, r))"
| "run_cmd Append_second (m, q, r) = op_push_queue m q r"

fun list_cmds :: "queue_cmd list \<Rightarrow> op_id list \<times> op_id list \<Rightarrow> (op_id list \<times> op_id list) option" where
  "list_cmds [] a = Some a"
| "list_cmds (c # cs) a = Option.bind (list_cmd c a) (list_cmds cs)"

definition queue_cmds :: "queue_cmd list \<Rightarrow> two_queues \<Rightarrow> two_queues" where
  "queue_cmds cs c = fold run_cmd cs c"

definition represents :: "two_queues \<Rightarrow> op_id list \<times> op_id list \<Rightarrow> bool" where
  "represents c a =
     (case (c, a) of ((m, q, r), (xs, ys)) \<Rightarrow>
        queue_of m q xs \<and> queue_of m r ys \<and> set xs \<inter> set ys = {})"

lemma run_cmd_simulates:
  assumes "represents c a" "list_cmd cmd a = Some a'"
  shows "represents (run_cmd cmd c) a'"
proof -
  obtain m q r xs ys where c: "c = (m, q, r)" "a = (xs, ys)" by (metis prod_cases3 surj_pair)
  then have rep: "queue_of m q xs" "queue_of m r ys" "set xs \<inter> set ys = {}" "set ys \<inter> set xs = {}"
    using assms(1) by (auto simp: represents_def)
  note push = op_push_rule op_push_frame and pop = op_pop_rule op_pop_frame
  show ?thesis
  proof (cases cmd)
    case (Push_first h)
    moreover obtain m' q' where "op_push m q h = (m', q')" by fastforce
    ultimately show ?thesis
      using assms(2) c rep push(1) [of m q xs h m' q'] push(2) [of m q xs h m' q' r ys]
      by (auto simp: represents_def split: if_splits)
  next
    case (Push_second h)
    moreover obtain m' r' where "op_push m r h = (m', r')" by fastforce
    ultimately show ?thesis
      using assms(2) c rep push(1) [of m r ys h m' r'] push(2) [of m r ys h m' r' q xs]
      by (auto simp: represents_def split: if_splits)
  next
    case Pop_first
    moreover obtain m' q' where "op_pop m q = (m', q')" by fastforce
    moreover have "set (tl xs) \<inter> set ys = {}" using rep(3) by (cases xs) auto
    ultimately show ?thesis
      using assms(2) c rep pop(1) [of m q xs m' q'] pop(2) [of m q xs m' q' r ys]
      by (auto simp: represents_def)
  next
    case Pop_second
    moreover obtain m' r' where "op_pop m r = (m', r')" by fastforce
    moreover have "set xs \<inter> set (tl ys) = {}" using rep(3) by (cases ys) auto
    ultimately show ?thesis
      using assms(2) c rep pop(1) [of m r ys m' r'] pop(2) [of m r ys m' r' q xs]
      by (auto simp: represents_def)
  next
    case Append_second
    moreover obtain m' q' r' where "op_push_queue m q r = (m', q', r')" by (metis prod_cases3)
    ultimately show ?thesis
      using assms(2) c op_push_queue_rule [OF rep(1-3)] by (auto simp: represents_def)
  qed
qed

text \<open>
  C36. The pointer queues implement lists. Whatever operations are pushed, popped and moved
  between two queues over one store, in any order, the queues represent what the lists
  become; and emptying the first then ends and takes exactly the list's elements in its order.
\<close>

theorem op_queues_refine_lists:
  assumes "list_cmds cs ([], []) = Some (xs, ys)"
  shows "represents (queue_cmds cs (m, new_op_queue, new_op_queue)) (xs, ys) \<and>
    (case queue_cmds cs (m, new_op_queue, new_op_queue) of (m', q, r) \<Rightarrow>
       op_front q = (case xs of [] \<Rightarrow> None | x # _ \<Rightarrow> Some x) \<and>
       (\<exists>m'' q'. op_drain m' q = Some (m'', q', xs) \<and> op_empty q'))"
proof -
  have run: "represents c a \<Longrightarrow> list_cmds cs a = Some a' \<Longrightarrow> represents (queue_cmds cs c) a'" for c a a' cs
  proof (induction cs arbitrary: c a)
    case (Cons cmd cs)
    from Cons.prems(2) obtain b where b: "list_cmd cmd a = Some b" "list_cmds cs b = Some a'"
      by (auto simp: bind_eq_Some_conv)
    from Cons.IH [OF run_cmd_simulates [OF Cons.prems(1) b(1)] b(2)] show ?case
      by (simp add: queue_cmds_def)
  qed (simp add: queue_cmds_def)
  have "represents (m, new_op_queue, new_op_queue) ([], [])"
    by (simp add: represents_def new_op_queue_rule)
  from run [OF this assms] have rep: "represents (queue_cmds cs (m, new_op_queue, new_op_queue)) (xs, ys)" .
  obtain m' q r where c: "queue_cmds cs (m, new_op_queue, new_op_queue) = (m', q, r)" by (metis prod_cases3)
  then have q: "queue_of m' q xs" using rep by (simp add: represents_def)
  show ?thesis
    using rep op_front_rule [OF q] op_drain_rule [OF q] op_empty_rule by (fastforce simp: c)
qed

lemma op_queues_refine_lists_witness:
  "represents (queue_cmds [Push_first 3, Push_second 5, Push_second 4, Append_second, Pop_first]
     (\<lambda>_. None, new_op_queue, new_op_queue)) ([5, 4], [])"
  using op_queues_refine_lists [of "[Push_first 3, Push_second 5, Push_second 4, Append_second, Pop_first]"
    "[5, 4]" "[]" "\<lambda>_. None"] by simp

end
