(* ===== verification/Scheduler.thy ===== *)
theory Scheduler
  imports Prelude "HOL-Library.Multiset"
begin

text \<open>
  \<open>asio::detail::scheduler\<close> (\<open>detail/impl/scheduler.ipp\<close>), which is behind \<open>io_context::run\<close>,
  with the event its threads wait on (\<open>detail/posix_event.hpp\<close>). A step is one section of
  the code that holds the lock, with the signal given behind it and the change of the counter of
  work before it, or a change of the counter alone; the threads' steps interleave in any order.
  (A post that is interrupted between its count and its push is \<open>Start_work\<close> and then \<open>Defer\<close>.)
  Deciding to stop and stopping are two steps, as they are in the code.
  The reactor is the task: its run returns with some completed handlers when it likes, and
  \<open>interrupt\<close> makes it return.
\<close>

section \<open>State\<close>

type_synonym handler = nat

text \<open>The queue of handlers, with the mark that stands for the task's place in it.\<close>

datatype item = Task | Handler handler

text \<open>
  Where a thread is: not inside, before taking the lock, asleep on the event, woken but not yet
  with the lock, inside the task (blocking or not), inside a handler, behind a handler
  with its work counted (after a throw or not, with a call of \<open>stop\<close> to come or not), or with no
  work found and the call of \<open>stop\<close> to come.
\<close>

datatype status =
    Outside | Ready | Blocked | Woken | In_task bool | In_handler handler | Finishing bool bool |
    Leaving

record thread_info =
  t_status :: status
  private_op_queue :: "handler list"
  private_outstanding_work :: int
  t_loops :: bool

text \<open>
  \<open>wakeup\<close> is the \<open>state_\<close> of the event: twice the number of waiters, plus one when it is
  signalled. \<open>task_signalled\<close> says that the task has been interrupted since it began to run;
  \<open>stop_calls\<close> counts the calls of \<open>stop\<close> to come from work finished outside the threads;
  \<open>ran\<close> and \<open>pushed\<close> are the handlers run and those queued so far.
\<close>

record scheduler =
  one_thread :: bool
  has_task :: bool
  task_interrupted :: bool
  outstanding_work :: int
  sched_queue :: "item list"
  stopped :: bool
  shut_down :: bool
  stop_calls :: nat
  wakeup :: nat
  task_signalled :: bool
  threads :: "thread_info list"
  ran :: "handler list"
  pushed :: "handler list"

definition outside_thread :: thread_info where
  "outside_thread =
     \<lparr>t_status = Outside, private_op_queue = [], private_outstanding_work = 0, t_loops = False\<rparr>"

text \<open>The constructor, without a thread of its own, and the threads that may come in.\<close>

definition new_scheduler :: "bool \<Rightarrow> nat \<Rightarrow> scheduler" where
  "new_scheduler one n =
     \<lparr>one_thread = one, has_task = False, task_interrupted = True, outstanding_work = 0,
      sched_queue = [], stopped = False, shut_down = False, stop_calls = 0, wakeup = 0, task_signalled = False,
      threads = replicate n outside_thread, ran = [], pushed = []\<rparr>"

definition thread :: "scheduler \<Rightarrow> nat \<Rightarrow> thread_info" where
  "thread s t = threads s ! t"

definition set_thread :: "nat \<Rightarrow> (thread_info \<Rightarrow> thread_info) \<Rightarrow> scheduler \<Rightarrow> scheduler" where
  "set_thread t f s = s\<lparr>threads := (threads s)[t := f (thread s t)]\<rparr>"

definition set_status :: "nat \<Rightarrow> status \<Rightarrow> scheduler \<Rightarrow> scheduler" where
  "set_status t st = set_thread t (t_status_update (\<lambda>_. st))"

text \<open>The call stack of a thread has the scheduler on it.\<close>

definition inside :: "scheduler \<Rightarrow> nat option \<Rightarrow> bool" where
  "inside s caller =
     (case caller of None \<Rightarrow> False
      | Some t \<Rightarrow> (case t_status (thread s t) of In_handler _ \<Rightarrow> True | _ \<Rightarrow> False))"

definition push_handlers :: "handler list \<Rightarrow> scheduler \<Rightarrow> scheduler" where
  "push_handlers hs s = s\<lparr>sched_queue := sched_queue s @ map Handler hs, pushed := pushed s @ hs\<rparr>"

definition push_task :: "scheduler \<Rightarrow> scheduler" where
  "push_task s = s\<lparr>sched_queue := sched_queue s @ [Task]\<rparr>"

section \<open>The event\<close>

text \<open>Waking one of the sleeping threads: \<open>w\<close> if it sleeps, else the first.\<close>

fun wake_first :: "thread_info list \<Rightarrow> thread_info list" where
  "wake_first [] = []"
| "wake_first (t # ts) =
     (if t_status t = Blocked then t\<lparr>t_status := Woken\<rparr> # ts else t # wake_first ts)"

definition cond_signal :: "nat \<Rightarrow> thread_info list \<Rightarrow> thread_info list" where
  "cond_signal w ts =
     (if w < length ts \<and> t_status (ts ! w) = Blocked then ts[w := (ts ! w)\<lparr>t_status := Woken\<rparr>]
      else wake_first ts)"

definition cond_broadcast :: "thread_info list \<Rightarrow> thread_info list" where
  "cond_broadcast ts = map (\<lambda>t. if t_status t = Blocked then t\<lparr>t_status := Woken\<rparr> else t) ts"

definition event_signal_all :: "scheduler \<Rightarrow> scheduler" where
  "event_signal_all s = s\<lparr>wakeup := or (wakeup s) 1, threads := cond_broadcast (threads s)\<rparr>"

definition event_signal_one :: "nat \<Rightarrow> scheduler \<Rightarrow> scheduler" where
  "event_signal_one w s =
     (let s = s\<lparr>wakeup := or (wakeup s) 1\<rparr>; have_waiters = wakeup s > 1
      in if have_waiters then s\<lparr>threads := cond_signal w (threads s)\<rparr> else s)"

definition event_maybe_signal_one :: "nat \<Rightarrow> scheduler \<Rightarrow> bool \<times> scheduler" where
  "event_maybe_signal_one w s =
     (let s = s\<lparr>wakeup := or (wakeup s) 1\<rparr>
      in if wakeup s > 1 then (True, s\<lparr>threads := cond_signal w (threads s)\<rparr>) else (False, s))"

definition event_clear :: "scheduler \<Rightarrow> scheduler" where
  "event_clear s = s\<lparr>wakeup := wakeup s - wakeup s mod 2\<rparr>"

definition event_sleep :: "nat \<Rightarrow> scheduler \<Rightarrow> scheduler" where
  "event_sleep t s = set_status t Blocked (s\<lparr>wakeup := wakeup s + 2\<rparr>)"

section \<open>Stopping and waking\<close>

definition interrupt_task :: "scheduler \<Rightarrow> scheduler" where
  "interrupt_task s =
     (if \<not> task_interrupted s \<and> has_task s
      then s\<lparr>task_interrupted := True, task_signalled := True\<rparr> else s)"

definition stop_all_threads :: "scheduler \<Rightarrow> scheduler" where
  "stop_all_threads s = interrupt_task (event_signal_all (s\<lparr>stopped := True\<rparr>))"

definition wake_one_thread_and_unlock :: "nat \<Rightarrow> scheduler \<Rightarrow> scheduler" where
  "wake_one_thread_and_unlock w s =
     (case event_maybe_signal_one w s of
        (True, s) \<Rightarrow> s
      | (False, s) \<Rightarrow> interrupt_task s)"

definition restart :: "scheduler \<Rightarrow> scheduler" where
  "restart s = s\<lparr>stopped := False\<rparr>"

definition init_task :: "nat \<Rightarrow> scheduler \<Rightarrow> scheduler" where
  "init_task w s =
     (if \<not> shut_down s \<and> \<not> has_task s
      then wake_one_thread_and_unlock w (push_task (s\<lparr>has_task := True\<rparr>)) else s)"

definition sched_shutdown :: "scheduler \<Rightarrow> scheduler" where
  "sched_shutdown s = s\<lparr>shut_down := True, sched_queue := [], has_task := False\<rparr>"

section \<open>Work and posting\<close>

definition work_started :: "scheduler \<Rightarrow> scheduler" where
  "work_started s = s\<lparr>outstanding_work := outstanding_work s + 1\<rparr>"

text \<open>One piece of work less, and whether \<open>stop\<close> is to be called.\<close>

definition work_finished :: "scheduler \<Rightarrow> bool \<times> scheduler" where
  "work_finished s =
     (let s = s\<lparr>outstanding_work := outstanding_work s - 1\<rparr> in (outstanding_work s = 0, s))"

definition push_private :: "nat \<Rightarrow> int \<Rightarrow> handler list \<Rightarrow> scheduler \<Rightarrow> scheduler" where
  "push_private t n hs =
     set_thread t (\<lambda>th. th\<lparr>private_outstanding_work := private_outstanding_work th + n,
                          private_op_queue := private_op_queue th @ hs\<rparr>)"

definition post_immediate_completion ::
  "nat \<Rightarrow> nat option \<Rightarrow> handler \<Rightarrow> bool \<Rightarrow> scheduler \<Rightarrow> scheduler" where
  "post_immediate_completion w caller h is_continuation s =
     (if (one_thread s \<or> is_continuation) \<and> inside s caller
      then push_private (the caller) 1 [h] s
      else wake_one_thread_and_unlock w (push_handlers [h] (work_started s)))"

definition post_immediate_completions ::
  "nat \<Rightarrow> nat option \<Rightarrow> handler list \<Rightarrow> bool \<Rightarrow> scheduler \<Rightarrow> scheduler" where
  "post_immediate_completions w caller hs is_continuation s =
     (if (one_thread s \<or> is_continuation) \<and> inside s caller
      then push_private (the caller) (int (length hs)) hs s
      else wake_one_thread_and_unlock w (push_handlers hs
             (s\<lparr>outstanding_work := outstanding_work s + int (length hs)\<rparr>)))"

definition post_deferred_completions ::
  "nat \<Rightarrow> nat option \<Rightarrow> handler list \<Rightarrow> scheduler \<Rightarrow> scheduler" where
  "post_deferred_completions w caller hs s =
     (if hs \<noteq> [] then
        if one_thread s \<and> inside s caller then push_private (the caller) 0 hs s
        else wake_one_thread_and_unlock w (push_handlers hs s)
      else s)"

definition do_dispatch :: "nat \<Rightarrow> handler \<Rightarrow> scheduler \<Rightarrow> scheduler" where
  "do_dispatch w h s = wake_one_thread_and_unlock w (push_handlers [h] (work_started s))"

section \<open>Running\<close>

text \<open>
  One pass of the loop of \<open>do_run_one\<close>, with the lock held: the thread leaves, goes into the
  task or a handler without the lock, or falls asleep.
\<close>

definition run_pass :: "nat \<Rightarrow> nat \<Rightarrow> scheduler \<Rightarrow> scheduler" where
  "run_pass w t s =
     (if stopped s then set_status t Outside s
      else case sched_queue s of
        [] \<Rightarrow> event_sleep t (event_clear s)
      | Task # q \<Rightarrow>
          let more_handlers = (q \<noteq> []);
              s = s\<lparr>sched_queue := q, task_interrupted := more_handlers, task_signalled := False\<rparr>;
              s = set_status t (In_task (\<not> more_handlers)) s
          in if more_handlers \<and> \<not> one_thread s then event_signal_one w s else s
      | Handler h # q \<Rightarrow>
          let more_handlers = (q \<noteq> []);
              s = set_status t (In_handler h) (s\<lparr>sched_queue := q, ran := ran s @ [h]\<rparr>)
          in if more_handlers \<and> \<not> one_thread s then wake_one_thread_and_unlock w s else s)"

text \<open>Taking the lock at the head of the loop, or after a sleep.\<close>

definition take_lock :: "nat \<Rightarrow> nat \<Rightarrow> scheduler \<Rightarrow> scheduler option" where
  "take_lock w t s =
     (case t_status (thread s t) of
        Ready \<Rightarrow> Some (run_pass w t s)
      | Woken \<Rightarrow>
          let s = set_status t Ready (s\<lparr>wakeup := wakeup s - 2\<rparr>)
          in Some (if even (wakeup s) then event_sleep t s else run_pass w t s)
      | _ \<Rightarrow> None)"

definition sched_run :: "bool \<Rightarrow> nat \<Rightarrow> scheduler \<Rightarrow> scheduler option" where
  "sched_run loops t s =
     (if t_status (thread s t) \<noteq> Outside then None
      else if outstanding_work s = 0 then Some (set_status t Leaving s)
      else Some (set_thread t (\<lambda>_. \<lparr>t_status = Ready, private_op_queue = [],
                   private_outstanding_work = 0, t_loops = loops\<rparr>) s))"

definition task_cleanup :: "nat \<Rightarrow> scheduler \<Rightarrow> scheduler" where
  "task_cleanup t s =
     (let s = (if private_outstanding_work (thread s t) > 0
               then s\<lparr>outstanding_work := outstanding_work s + private_outstanding_work (thread s t)\<rparr>
               else s);
          s = set_thread t (private_outstanding_work_update (\<lambda>_. 0)) s;
          s = push_handlers (private_op_queue (thread s t)) (s\<lparr>task_interrupted := True\<rparr>);
          s = set_thread t (private_op_queue_update (\<lambda>_. [])) s
      in push_task s)"

text \<open>The task returns with the handlers \<open>ops\<close>; the loop goes on with the lock held.\<close>

definition task_done :: "nat \<Rightarrow> nat \<Rightarrow> handler list \<Rightarrow> scheduler \<Rightarrow> scheduler option" where
  "task_done w t ops s =
     (case t_status (thread s t) of
        In_task _ \<Rightarrow>
          Some (run_pass w t (set_status t Ready (task_cleanup t (push_private t 0 ops s))))
      | _ \<Rightarrow> None)"

text \<open>The handler returns or throws: first its work is counted, then its own posts are queued.\<close>

definition handler_done :: "nat \<Rightarrow> bool \<Rightarrow> scheduler \<Rightarrow> scheduler option" where
  "handler_done t throws s =
     (case t_status (thread s t) of
        In_handler _ \<Rightarrow>
          let p = private_outstanding_work (thread s t);
              s = set_thread t (private_outstanding_work_update (\<lambda>_. 0)) s;
              (stops, s) =
                (if p > 1 then (False, s\<lparr>outstanding_work := outstanding_work s + (p - 1)\<rparr>)
                 else if p < 1 then work_finished s else (False, s))
          in Some (set_status t (Finishing throws stops) s)
      | _ \<Rightarrow> None)"

text \<open>The calls of \<open>stop\<close> that were decided on.\<close>

definition thread_stops :: "nat \<Rightarrow> scheduler \<Rightarrow> scheduler option" where
  "thread_stops t s =
     (case t_status (thread s t) of
        Finishing throws True \<Rightarrow> Some (set_status t (Finishing throws False) (stop_all_threads s))
      | Leaving \<Rightarrow> Some (set_status t Outside (stop_all_threads s))
      | _ \<Rightarrow> None)"

definition finish_work :: "scheduler \<Rightarrow> scheduler" where
  "finish_work s =
     (case work_finished s of (stops, s) \<Rightarrow> s\<lparr>stop_calls := stop_calls s + of_bool stops\<rparr>)"

definition called_stop :: "scheduler \<Rightarrow> scheduler option" where
  "called_stop s =
     (if stop_calls s > 0 then Some (stop_all_threads (s\<lparr>stop_calls := stop_calls s - 1\<rparr>)) else None)"

definition finish_handler :: "nat \<Rightarrow> nat \<Rightarrow> scheduler \<Rightarrow> scheduler option" where
  "finish_handler w t s =
     (case t_status (thread s t) of
        Finishing throws False \<Rightarrow>
          let hs = private_op_queue (thread s t);
              s = push_handlers hs (set_thread t (private_op_queue_update (\<lambda>_. [])) s)
          in Some (if throws \<or> \<not> t_loops (thread s t) then set_status t Outside s
                   else if hs \<noteq> [] then run_pass w t (set_status t Ready s)
                   else set_status t Ready s)
      | _ \<Rightarrow> None)"

section \<open>Steps\<close>

text \<open>
  What can happen next. The first number of most steps is the thread that a signal wakes, if
  there is a choice; \<open>Spurious\<close> is a wake-up that nothing caused.
\<close>

datatype sched_event =
    Run nat | Run_one nat | Take_lock nat nat | Spurious nat
  | Task_done nat nat "handler list" | Handler_done nat bool | Finish nat nat
  | Post nat "nat option" handler bool | Post_all nat "nat option" "handler list" bool
  | Defer nat "nat option" "handler list" | Dispatch nat handler
  | Start_work | Finish_work | Thread_stops nat | Called_stop | Stop | Restart | Init_task nat

text \<open>The thread that a step is of; a post from a handler is one of the handler's thread.\<close>

fun event_thread :: "sched_event \<Rightarrow> nat option" where
  "event_thread (Run t) = Some t"
| "event_thread (Run_one t) = Some t"
| "event_thread (Take_lock w t) = Some t"
| "event_thread (Spurious t) = Some t"
| "event_thread (Task_done w t ops) = Some t"
| "event_thread (Handler_done t throws) = Some t"
| "event_thread (Finish w t) = Some t"
| "event_thread (Thread_stops t) = Some t"
| "event_thread (Post w caller h c) = caller"
| "event_thread (Post_all w caller hs c) = caller"
| "event_thread (Defer w caller hs) = caller"
| "event_thread _ = None"

fun sched_apply :: "sched_event \<Rightarrow> scheduler \<Rightarrow> scheduler option" where
  "sched_apply (Run t) s = sched_run True t s"
| "sched_apply (Run_one t) s = sched_run False t s"
| "sched_apply (Take_lock w t) s = take_lock w t s"
| "sched_apply (Spurious t) s =
     (if t_status (thread s t) = Blocked then Some (set_status t Woken s) else None)"
| "sched_apply (Task_done w t ops) s = task_done w t ops s"
| "sched_apply (Handler_done t throws) s = handler_done t throws s"
| "sched_apply (Finish w t) s = finish_handler w t s"
| "sched_apply (Post w caller h c) s = Some (post_immediate_completion w caller h c s)"
| "sched_apply (Post_all w caller hs c) s = Some (post_immediate_completions w caller hs c s)"
| "sched_apply (Defer w caller hs) s = Some (post_deferred_completions w caller hs s)"
| "sched_apply (Dispatch w h) s = Some (do_dispatch w h s)"
| "sched_apply Start_work s = Some (work_started s)"
| "sched_apply Finish_work s = Some (finish_work s)"
| "sched_apply (Thread_stops t) s = thread_stops t s"
| "sched_apply Called_stop s = called_stop s"
| "sched_apply Stop s = Some (stop_all_threads s)"
| "sched_apply Restart s = Some (restart s)"
| "sched_apply (Init_task w) s = Some (init_task w s)"

fun event_caller :: "sched_event \<Rightarrow> nat option" where
  "event_caller (Post w caller h c) = caller"
| "event_caller (Post_all w caller hs c) = caller"
| "event_caller (Defer w caller hs) = caller"
| "event_caller _ = None"

definition sched_step :: "sched_event \<Rightarrow> scheduler \<Rightarrow> scheduler option" where
  "sched_step e s =
     (if (case event_thread e of None \<Rightarrow> True | Some t \<Rightarrow> t < length (threads s)) \<and>
         (event_caller e = None \<or> inside s (event_caller e))
      then sched_apply e s else None)"

fun sched_events :: "sched_event list \<Rightarrow> scheduler \<Rightarrow> scheduler option" where
  "sched_events [] s = Some s"
| "sched_events (e # es) s = Option.bind (sched_step e s) (sched_events es)"

end
