(* ===== verification/Scheduler_Runs.thy ===== *)
theory Scheduler_Runs
  imports Scheduler
begin

text \<open>
  Every handler given to the scheduler is run once, in the order in which the handlers were
  queued, whatever the threads do; and the scheduler stops by itself only when there is
  nothing left to do.
\<close>

section \<open>The handlers\<close>

fun handler_of :: "item \<Rightarrow> handler list" where
  "handler_of Task = []"
| "handler_of (Handler h) = [h]"

definition handlers_in :: "item list \<Rightarrow> handler list" where
  "handlers_in q = concat (map handler_of q)"

definition privates :: "scheduler \<Rightarrow> handler list" where
  "privates s = concat (map private_op_queue (threads s))"

lemma handlers_in_simps [simp]:
  "handlers_in [] = []" "handlers_in (Task # q) = handlers_in q"
  "handlers_in (Handler h # q) = h # handlers_in q"
  "handlers_in (q @ r) = handlers_in q @ handlers_in r" "handlers_in (map Handler hs) = hs"
  by (simp_all add: handlers_in_def) (induction hs; simp)

named_theorems sched_frame "what the operations of the scheduler leave as it was"

lemma wake_first_private [simp]: "map private_op_queue (wake_first ts) = map private_op_queue ts"
  by (induction ts) auto

lemma wake_first_length [simp]: "length (wake_first ts) = length ts"
  by (induction ts) auto

lemma cond_signal_private [simp]: "map private_op_queue (cond_signal w ts) = map private_op_queue ts"
proof -
  have "ts ! w = (ts[w := ts ! w]) ! w" by simp
  have "(map private_op_queue ts)[w := private_op_queue (ts ! w)] = map private_op_queue ts"
    by (metis list_update_id map_update)
  then show ?thesis by (simp add: cond_signal_def map_update)
qed

lemma cond_broadcast_private [simp]: "map private_op_queue (cond_broadcast ts) = map private_op_queue ts"
  by (simp add: cond_broadcast_def)

lemma cond_length [simp]: "length (cond_signal w ts) = length ts" "length (cond_broadcast ts) = length ts"
  by (simp_all add: cond_signal_def cond_broadcast_def)

lemma event_frame [sched_frame]:
  "ran (event_signal_all s) = ran s" "pushed (event_signal_all s) = pushed s"
  "sched_queue (event_signal_all s) = sched_queue s" "privates (event_signal_all s) = privates s"
  "length (threads (event_signal_all s)) = length (threads s)"
  "ran (event_signal_one w s) = ran s" "pushed (event_signal_one w s) = pushed s"
  "sched_queue (event_signal_one w s) = sched_queue s" "privates (event_signal_one w s) = privates s"
  "length (threads (event_signal_one w s)) = length (threads s)"
  "ran (interrupt_task s) = ran s" "pushed (interrupt_task s) = pushed s"
  "sched_queue (interrupt_task s) = sched_queue s" "privates (interrupt_task s) = privates s"
  "length (threads (interrupt_task s)) = length (threads s)"
  by (simp_all add: event_signal_all_def event_signal_one_def interrupt_task_def privates_def Let_def)

lemma wake_one_frame [sched_frame]:
  "ran (wake_one_thread_and_unlock w s) = ran s" "pushed (wake_one_thread_and_unlock w s) = pushed s"
  "sched_queue (wake_one_thread_and_unlock w s) = sched_queue s"
  "privates (wake_one_thread_and_unlock w s) = privates s"
  "length (threads (wake_one_thread_and_unlock w s)) = length (threads s)"
  by (simp_all add: wake_one_thread_and_unlock_def event_maybe_signal_one_def interrupt_task_def
      privates_def Let_def)

lemma stop_frame [sched_frame]:
  "ran (stop_all_threads s) = ran s" "pushed (stop_all_threads s) = pushed s"
  "sched_queue (stop_all_threads s) = sched_queue s" "privates (stop_all_threads s) = privates s"
  "length (threads (stop_all_threads s)) = length (threads s)"
  by (simp_all add: stop_all_threads_def sched_frame) (simp add: privates_def)

lemma work_frame [sched_frame]:
  "ran (work_started s) = ran s" "pushed (work_started s) = pushed s"
  "sched_queue (work_started s) = sched_queue s" "privates (work_started s) = privates s"
  "length (threads (work_started s)) = length (threads s)"
  by (simp_all add: work_started_def privates_def)

lemma thread_frame [sched_frame]:
  "ran (set_thread t f s) = ran s" "pushed (set_thread t f s) = pushed s"
  "sched_queue (set_thread t f s) = sched_queue s"
  "length (threads (set_thread t f s)) = length (threads s)"
  "t < length (threads s) \<Longrightarrow> thread (set_thread t f s) t = f (thread s t)"
  by (simp_all add: set_thread_def thread_def)

lemma push_frame [sched_frame]:
  "ran (push_handlers hs s) = ran s" "pushed (push_handlers hs s) = pushed s @ hs"
  "handlers_in (sched_queue (push_handlers hs s)) = handlers_in (sched_queue s) @ hs"
  "privates (push_handlers hs s) = privates s" "threads (push_handlers hs s) = threads s"
  "ran (push_task s) = ran s" "pushed (push_task s) = pushed s"
  "handlers_in (sched_queue (push_task s)) = handlers_in (sched_queue s)"
  "privates (push_task s) = privates s" "threads (push_task s) = threads s"
  by (simp_all add: push_handlers_def push_task_def privates_def)

lemma mset_concat_update:
  "t < length xss \<Longrightarrow> mset (concat (xss[t := ys])) + mset (xss ! t) = mset (concat xss) + mset ys"
  by (induction xss arbitrary: t) (auto split: nat.splits simp: ac_simps)

lemma privates_set_thread:
  assumes "t < length (threads s)"
  shows "mset (privates (set_thread t f s)) + mset (private_op_queue (thread s t)) =
         mset (privates s) + mset (private_op_queue (f (thread s t)))"
  using mset_concat_update [of t "map private_op_queue (threads s)" "private_op_queue (f (thread s t))"] assms
  by (simp add: privates_def set_thread_def thread_def map_update)

lemma privates_set_status [sched_frame]:
  "t < length (threads s) \<Longrightarrow> mset (privates (set_status t st s)) = mset (privates s)"
  using privates_set_thread [of t s "t_status_update (\<lambda>_. st)"] by (simp add: set_status_def)

lemma set_status_frame [sched_frame]:
  "ran (set_status t st s) = ran s" "pushed (set_status t st s) = pushed s"
  "sched_queue (set_status t st s) = sched_queue s"
  "length (threads (set_status t st s)) = length (threads s)"
  by (simp_all add: set_status_def sched_frame)

text \<open>Queued handlers are run from the front of the queue.\<close>

definition in_order :: "scheduler \<Rightarrow> bool" where
  "in_order s \<longleftrightarrow> ran s @ handlers_in (sched_queue s) = pushed s"

definition given :: "scheduler \<Rightarrow> handler multiset" where
  "given s = mset (pushed s) + mset (privates s)"

lemma run_pass_ops:
  assumes "t < length (threads s)" "in_order s"
  shows "in_order (run_pass w t s) \<and> given (run_pass w t s) = given s \<and>
         length (threads (run_pass w t s)) = length (threads s)"
  using assms
  by (auto simp: run_pass_def in_order_def given_def sched_frame event_sleep_def event_clear_def Let_def
      split: list.split item.split) (auto simp: sched_frame privates_def)

section \<open>The threads\<close>

text \<open>
  Only a thread in a handler has posts of its own, and it counts no more of them than it has;
  behind the handler they are counted.
\<close>

definition thread_ok :: "thread_info \<Rightarrow> bool" where
  "thread_ok th \<longleftrightarrow>
     (case t_status th of
        In_handler h \<Rightarrow> 0 \<le> private_outstanding_work th \<and>
          private_outstanding_work th \<le> int (length (private_op_queue th))
      | Finishing throws stops \<Rightarrow> private_outstanding_work th = 0
      | _ \<Rightarrow> private_op_queue th = [] \<and> private_outstanding_work th = 0)"

definition threads_ok :: "scheduler \<Rightarrow> bool" where
  "threads_ok s \<longleftrightarrow> list_all thread_ok (threads s)"

lemma threads_ok_thread: "threads_ok s \<Longrightarrow> t < length (threads s) \<Longrightarrow> thread_ok (thread s t)"
  by (auto simp: threads_ok_def thread_def list_all_length)

lemma cond_ok [simp]:
  "list_all thread_ok ts \<Longrightarrow> list_all thread_ok (wake_first ts)"
  "list_all thread_ok ts \<Longrightarrow> list_all thread_ok (cond_signal w ts)"
  "list_all thread_ok ts \<Longrightarrow> list_all thread_ok (cond_broadcast ts)"
proof -
  have woken: "thread_ok (th\<lparr>t_status := Woken\<rparr>)" if "thread_ok th" "t_status th = Blocked" for th
    using that by (simp add: thread_ok_def)
  show first: "list_all thread_ok ts \<Longrightarrow> list_all thread_ok (wake_first ts)" for ts
    by (induction ts) (auto simp: woken)
  show "list_all thread_ok ts \<Longrightarrow> list_all thread_ok (cond_signal w ts)"
    using first [of ts] by (auto simp: cond_signal_def list_all_length nth_list_update woken)
  show "list_all thread_ok ts \<Longrightarrow> list_all thread_ok (cond_broadcast ts)"
    by (auto simp: cond_broadcast_def list_all_iff woken)
qed

lemma set_thread_ok:
  "threads_ok s \<Longrightarrow> (t < length (threads s) \<Longrightarrow> thread_ok (f (thread s t))) \<Longrightarrow> threads_ok (set_thread t f s)"
  by (cases "t < length (threads s)")
    (auto simp: threads_ok_def set_thread_def list_all_length nth_list_update thread_def)

lemma threads_ok_frame [sched_frame]:
  "threads_ok s \<Longrightarrow> threads_ok (event_signal_all s)"
  "threads_ok s \<Longrightarrow> threads_ok (event_signal_one w s)"
  "threads_ok s \<Longrightarrow> threads_ok (interrupt_task s)"
  "threads_ok s \<Longrightarrow> threads_ok (wake_one_thread_and_unlock w s)"
  "threads_ok s \<Longrightarrow> threads_ok (stop_all_threads s)"
  "threads_ok s \<Longrightarrow> threads_ok (work_started s)"
  "threads_ok s \<Longrightarrow> threads_ok (push_handlers hs s)"
  "threads_ok s \<Longrightarrow> threads_ok (push_task s)"
  by (auto simp: threads_ok_def event_signal_all_def event_signal_one_def interrupt_task_def
      wake_one_thread_and_unlock_def event_maybe_signal_one_def stop_all_threads_def work_started_def
      push_handlers_def push_task_def Let_def)

text \<open>What a thread contributes to the work there is, beyond what the queue has.\<close>

definition thread_work :: "thread_info \<Rightarrow> int" where
  "thread_work th =
     int (length (private_op_queue th)) - private_outstanding_work th +
     (case t_status th of In_handler _ \<Rightarrow> 1 | _ \<Rightarrow> 0)"

definition work_left :: "scheduler \<Rightarrow> int" where
  "work_left s = int (length (handlers_in (sched_queue s))) + sum_list (map thread_work (threads s))"

lemma thread_work_nonneg: "thread_ok th \<Longrightarrow> 0 \<le> thread_work th"
  by (auto simp: thread_work_def thread_ok_def split: status.splits)

lemma sum_thread_work_nonneg: "list_all thread_ok ts \<Longrightarrow> 0 \<le> sum_list (map thread_work ts)"
  by (induction ts) (auto intro!: add_nonneg_nonneg thread_work_nonneg)

lemma cond_thread_work [simp]:
  "map thread_work (wake_first ts) = map thread_work ts"
  "map thread_work (cond_signal w ts) = map thread_work ts"
  "map thread_work (cond_broadcast ts) = map thread_work ts"
proof -
  have woken: "thread_work (th\<lparr>t_status := Woken\<rparr>) = thread_work th" if "t_status th = Blocked" for th
    using that by (simp add: thread_work_def)
  show first: "map thread_work (wake_first ts) = map thread_work ts" for ts
    by (induction ts) (auto simp: woken)
  show "map thread_work (cond_signal w ts) = map thread_work ts"
  proof (cases "w < length ts \<and> t_status (ts ! w) = Blocked")
    case True
    then have "map thread_work (cond_signal w ts) = (map thread_work ts)[w := map thread_work ts ! w]"
      by (simp add: cond_signal_def map_update woken)
    then show ?thesis by (simp only: list_update_id)
  qed (auto simp: cond_signal_def first)
  show "map thread_work (cond_broadcast ts) = map thread_work ts"
    by (auto simp: cond_broadcast_def woken)
qed

lemma work_left_frame [sched_frame]:
  "work_left (event_signal_all s) = work_left s" "work_left (event_signal_one w s) = work_left s"
  "work_left (interrupt_task s) = work_left s"
  "work_left (wake_one_thread_and_unlock w s) = work_left s"
  "work_left (stop_all_threads s) = work_left s" "work_left (work_started s) = work_left s"
  "work_left (push_handlers hs s) = work_left s + int (length hs)"
  "work_left (push_task s) = work_left s"
  by (simp_all add: work_left_def event_signal_all_def event_signal_one_def interrupt_task_def
      wake_one_thread_and_unlock_def event_maybe_signal_one_def stop_all_threads_def work_started_def
      push_handlers_def push_task_def Let_def)

lemma sum_list_update_int:
  "t < length xs \<Longrightarrow> sum_list (xs[t := y]) = sum_list xs - xs ! t + y" for xs :: "int list"
  by (induction xs arbitrary: t) (auto split: nat.splits)

lemma work_left_set_thread:
  "t < length (threads s) \<Longrightarrow>
   work_left (set_thread t f s) = work_left s - thread_work (thread s t) + thread_work (f (thread s t))"
  by (simp add: work_left_def set_thread_def thread_def map_update sum_list_update_int)

lemma outstanding_frame [sched_frame]:
  "outstanding_work (event_signal_all s) = outstanding_work s"
  "outstanding_work (event_signal_one w s) = outstanding_work s"
  "outstanding_work (interrupt_task s) = outstanding_work s"
  "outstanding_work (wake_one_thread_and_unlock w s) = outstanding_work s"
  "outstanding_work (stop_all_threads s) = outstanding_work s"
  "outstanding_work (work_started s) = outstanding_work s + 1"
  "outstanding_work (push_handlers hs s) = outstanding_work s"
  "outstanding_work (push_task s) = outstanding_work s"
  "outstanding_work (set_thread t f s) = outstanding_work s"
  "outstanding_work (set_status t st s) = outstanding_work s"
  by (simp_all add: event_signal_all_def event_signal_one_def interrupt_task_def
      wake_one_thread_and_unlock_def event_maybe_signal_one_def stop_all_threads_def work_started_def
      push_handlers_def push_task_def set_thread_def set_status_def Let_def)

lemma stopped_frame [sched_frame]:
  "stopped (event_signal_one w s) = stopped s" "stopped (interrupt_task s) = stopped s"
  "stopped (wake_one_thread_and_unlock w s) = stopped s" "stopped (stop_all_threads s)"
  "stopped (work_started s) = stopped s" "stopped (push_handlers hs s) = stopped s"
  "stopped (push_task s) = stopped s" "stopped (set_thread t f s) = stopped s"
  "stopped (set_status t st s) = stopped s"
  by (simp_all add: event_signal_all_def event_signal_one_def interrupt_task_def
      wake_one_thread_and_unlock_def event_maybe_signal_one_def stop_all_threads_def work_started_def
      push_handlers_def push_task_def set_thread_def set_status_def Let_def)

section \<open>One step\<close>

text \<open>
  The handlers a step gives to the scheduler, and how it changes the work that is held from
  outside: work started for an operation counts until its handler is queued.
\<close>

fun posted_by :: "sched_event \<Rightarrow> handler list" where
  "posted_by (Task_done w t ops) = ops"
| "posted_by (Post w caller h c) = [h]"
| "posted_by (Post_all w caller hs c) = hs"
| "posted_by (Defer w caller hs) = hs"
| "posted_by (Dispatch w h) = [h]"
| "posted_by _ = []"

fun held_by :: "sched_event \<Rightarrow> int" where
  "held_by Start_work = 1"
| "held_by Finish_work = - 1"
| "held_by (Task_done w t ops) = - int (length ops)"
| "held_by (Defer w caller hs) = - int (length hs)"
| "held_by _ = 0"

text \<open>All that the bookkeeping promises, with the work \<open>g\<close> held from outside.\<close>

definition books :: "int \<Rightarrow> scheduler \<Rightarrow> bool" where
  "books g s \<longleftrightarrow> in_order s \<and> threads_ok s \<and> outstanding_work s = work_left s + g"

lemma thread_ok_idle:
  "thread_ok th \<Longrightarrow> t_status th \<in> {Outside, Ready, Blocked, Woken, In_task b, Leaving} \<Longrightarrow>
   private_op_queue th = [] \<and> private_outstanding_work th = 0"
  by (auto simp: thread_ok_def)

text \<open>A thread with no posts may go anywhere; going into a handler is one piece of work.\<close>

definition idle :: "thread_info \<Rightarrow> bool" where
  "idle th \<longleftrightarrow> private_op_queue th = [] \<and> private_outstanding_work th = 0 \<and> (\<forall>h. t_status th \<noteq> In_handler h)"

lemma idle_status_ok: "idle (thread s t) \<Longrightarrow> threads_ok s \<Longrightarrow> threads_ok (set_status t st s)"
  unfolding set_status_def
  by (rule set_thread_ok) (auto simp: idle_def thread_ok_def split: status.splits)

lemma idle_status_work:
  "idle (thread s t) \<Longrightarrow> t < length (threads s) \<Longrightarrow>
   work_left (set_status t st s) = work_left s + (case st of In_handler _ \<Rightarrow> 1 | _ \<Rightarrow> 0)"
  by (auto simp: set_status_def work_left_set_thread thread_work_def idle_def split: status.splits)

lemma run_pass_books:
  assumes t: "t < length (threads s)" and "books g s" "idle (thread s t)"
  shows "books g (run_pass w t s)"
proof -
  have "in_order (run_pass w t s)" using run_pass_ops [OF t] assms(2) by (simp add: books_def)
  moreover have "threads_ok (run_pass w t s)"
  proof -
    have ok: "threads_ok (set_status t st s')"
      if "threads s' = threads s" for st s'
      using assms(2,3) that by (intro idle_status_ok) (simp_all add: books_def threads_ok_def thread_def)
    show ?thesis
      by (auto simp: run_pass_def event_sleep_def event_clear_def Let_def ok
          intro!: threads_ok_frame split: list.split item.split)
  qed
  moreover have "outstanding_work (run_pass w t s) = work_left (run_pass w t s) + g"
  proof -
    have left: "work_left (set_status t st s') = int (length (handlers_in (sched_queue s'))) +
        sum_list (map thread_work (threads s)) + (case st of In_handler _ \<Rightarrow> 1 | _ \<Rightarrow> 0)"
      if "threads s' = threads s" for st s'
      using assms that by (subst idle_status_work) (simp_all add: thread_def work_left_def)
    have "outstanding_work s =
        int (length (handlers_in (sched_queue s))) + sum_list (map thread_work (threads s)) + g"
      using assms(2) by (simp add: books_def work_left_def)
    then show ?thesis
      by (auto simp: run_pass_def event_sleep_def event_clear_def Let_def left sched_frame
          split: list.split item.split)
  qed
  ultimately show ?thesis by (simp add: books_def)
qed

text \<open>What the small steps do to the books and to the handlers given so far.\<close>

lemma books_frame [sched_frame]:
  "books g s \<Longrightarrow> books g (event_signal_all s)" "books g s \<Longrightarrow> books g (interrupt_task s)"
  "books g s \<Longrightarrow> books g (wake_one_thread_and_unlock w s)"
  "books g s \<Longrightarrow> books g (stop_all_threads s)" "books g s \<Longrightarrow> books g (push_task s)"
  by (simp_all add: books_def in_order_def sched_frame)

lemma given_frame [sched_frame]:
  "given (event_signal_all s) = given s" "given (interrupt_task s) = given s"
  "given (wake_one_thread_and_unlock w s) = given s" "given (stop_all_threads s) = given s"
  "given (work_started s) = given s" "given (s\<lparr>stop_calls := k\<rparr>) = given s"
  "given (push_task s) = given s" "given (push_handlers hs s) = given s + mset hs"
  "given (s\<lparr>outstanding_work := n\<rparr>) = given s" "given (s\<lparr>task_interrupted := b\<rparr>) = given s"
  "given (s\<lparr>stopped := b\<rparr>) = given s" "given (s\<lparr>has_task := b\<rparr>) = given s"
  by (simp_all add: given_def sched_frame) (simp_all add: privates_def)

lemma given_set_status [sched_frame]: "t < length (threads s) \<Longrightarrow> given (set_status t st s) = given s"
  by (simp add: given_def sched_frame)

lemma given_set_thread:
  assumes "t < length (threads s)" "private_op_queue (f (thread s t)) = private_op_queue (thread s t)"
  shows "given (set_thread t f s) = given s"
  using privates_set_thread [OF assms(1), of f] assms(2) by (simp add: given_def sched_frame)

lemma books_work [sched_frame]:
  "books g s \<Longrightarrow> books (g + 1) (work_started s)"
  "books g s \<Longrightarrow> books (g + n) (s\<lparr>outstanding_work := outstanding_work s + n\<rparr>)"
  by (simp_all add: books_def in_order_def sched_frame) (simp add: threads_ok_def work_left_def)

lemma books_flags [sched_frame]:
  "books g (s\<lparr>task_interrupted := b\<rparr>) = books g s" "books g (s\<lparr>stopped := b\<rparr>) = books g s"
  "books g (s\<lparr>has_task := b\<rparr>) = books g s" "books g (s\<lparr>stop_calls := k\<rparr>) = books g s"
  by (simp_all add: books_def in_order_def threads_ok_def work_left_def)

lemma books_push: "books g s \<Longrightarrow> books (g - int (length hs)) (push_handlers hs s)"
  by (simp add: books_def in_order_def sched_frame flip: append_assoc)

lemma books_set_thread:
  assumes "t < length (threads s)" "books g s" "thread_ok (f (thread s t))"
  shows "books (g + thread_work (thread s t) - thread_work (f (thread s t))) (set_thread t f s)"
  using assms by (simp add: books_def in_order_def sched_frame set_thread_ok work_left_set_thread)

lemma push_private_books:
  assumes "t < length (threads s)" "books g s" "t_status (thread s t) = In_handler h"
    "0 \<le> n" "n \<le> int (length hs)"
  shows "books (g + n - int (length hs)) (push_private t n hs s)"
proof -
  have "thread_ok (thread s t)" using assms(1,2) threads_ok_thread by (simp add: books_def)
  then show ?thesis
    using books_set_thread [OF assms(1,2), of "\<lambda>th. th\<lparr>private_outstanding_work := private_outstanding_work th + n,
        private_op_queue := private_op_queue th @ hs\<rparr>"] assms(3-5)
    by (simp add: push_private_def thread_ok_def thread_work_def algebra_simps)
qed

lemma push_private_given:
  "t < length (threads s) \<Longrightarrow> given (push_private t n hs s) = given s + mset hs"
  using privates_set_thread [of t s "\<lambda>th. th\<lparr>private_outstanding_work := private_outstanding_work th + n,
      private_op_queue := private_op_queue th @ hs\<rparr>"]
  by (simp add: push_private_def given_def sched_frame ac_simps)

text \<open>Posting.\<close>

lemma inside_handler:
  "inside s caller \<Longrightarrow> \<exists>t h. caller = Some t \<and> t_status (thread s t) = In_handler h"
  by (auto simp: inside_def split: option.splits status.splits)

lemma post_books:
  assumes "books g s" "\<And>t. caller = Some t \<Longrightarrow> t < length (threads s)"
  shows "books g (post_immediate_completion w caller h c s)"
    and "books g (post_immediate_completions w caller hs c s)"
    and "books (g - int (length hs)) (post_deferred_completions w caller hs s)"
proof -
  have one: "books g (push_private (the caller) 1 [h] s)" if "inside s caller"
    using inside_handler [OF that] push_private_books [of "the caller" s g _ 1 "[h]"] assms by auto
  have all: "books (g + n - int (length hs)) (push_private (the caller) n hs s)"
    if "inside s caller" "0 \<le> n" "n \<le> int (length hs)" for n
    using inside_handler [OF that(1)] push_private_books [of "the caller" s g _ n hs] assms that(2,3) by auto
  show "books g (post_immediate_completion w caller h c s)"
    using one books_push [OF books_work(1) [OF assms(1)], of "[h]"]
    by (auto simp: post_immediate_completion_def intro: books_frame)
  show "books g (post_immediate_completions w caller hs c s)"
    using all [of "int (length hs)"] books_push [OF books_work(2) [OF assms(1), of "int (length hs)"], of hs]
    by (auto simp: post_immediate_completions_def intro: books_frame)
  show "books (g - int (length hs)) (post_deferred_completions w caller hs s)"
    using all [of 0] books_push [OF assms(1), of hs] assms(1)
    by (auto simp: post_deferred_completions_def intro: books_frame)
qed

lemma post_given:
  assumes "\<And>t. caller = Some t \<Longrightarrow> t < length (threads s)"
  shows "given (post_immediate_completion w caller h c s) = given s + {#h#}"
    and "given (post_immediate_completions w caller hs c s) = given s + mset hs"
    and "given (post_deferred_completions w caller hs s) = given s + mset hs"
proof -
  have "given (push_private (the caller) n hs' s) = given s + mset hs'" if "inside s caller" for n hs'
    using inside_handler [OF that] push_private_given [of "the caller" s n hs'] assms by auto
  then show "given (post_immediate_completion w caller h c s) = given s + {#h#}"
    "given (post_immediate_completions w caller hs c s) = given s + mset hs"
    "given (post_deferred_completions w caller hs s) = given s + mset hs"
    by (auto simp: post_immediate_completion_def post_immediate_completions_def
        post_deferred_completions_def given_frame)
qed

text \<open>A thread that comes in, takes the lock, or comes back from the task or from a handler.\<close>

abbreviation keeps :: "int \<Rightarrow> handler multiset \<Rightarrow> nat \<Rightarrow> scheduler \<Rightarrow> bool" where
  "keeps g hs n s \<equiv> books g s \<and> given s = hs \<and> length (threads s) = n"

lemma idle_statusI:
  "threads_ok s \<Longrightarrow> t < length (threads s) \<Longrightarrow> t_status (thread s t) \<in> {Outside, Ready, Blocked, Woken, In_task b, Leaving} \<Longrightarrow>
   idle (thread s t)"
  using threads_ok_thread [of s t] by (auto simp: idle_def thread_ok_def)

lemma set_status_keeps:
  assumes "t < length (threads s)" "books g s" "idle (thread s t)" "\<forall>h. st \<noteq> In_handler h"
  shows "books g (set_status t st s)" "given (set_status t st s) = given s"
    "t_status (thread (set_status t st s) t) = st" "length (threads (set_status t st s)) = length (threads s)"
proof -
  have "work_left (set_status t st s) = work_left s"
    using idle_status_work [OF assms(3,1), of st] assms(4) by (simp split: status.splits)
  then show "books g (set_status t st s)"
    using assms(2,3) by (simp add: books_def in_order_def sched_frame idle_status_ok)
  show "given (set_status t st s) = given s" by (simp add: sched_frame assms(1))
  show "t_status (thread (set_status t st s) t) = st" using assms(1) by (simp add: set_status_def sched_frame)
  show "length (threads (set_status t st s)) = length (threads s)" by (simp add: sched_frame)
qed

lemma idle_set_status:
  "t < length (threads s) \<Longrightarrow> idle (thread s t) \<Longrightarrow> \<forall>h. st \<noteq> In_handler h \<Longrightarrow> idle (thread (set_status t st s) t)"
  by (simp add: set_status_def sched_frame idle_def)

lemma run_pass_keeps:
  assumes "t < length (threads s)" "books g s" "idle (thread s t)"
  shows "keeps g (given s) (length (threads s)) (run_pass w t s)"
  using run_pass_books [OF assms] run_pass_ops [OF assms(1)] assms(2) by (simp add: books_def)

lemma take_lock_keeps:
  assumes t: "t < length (threads s)" and b: "books g s" and "take_lock w t s = Some s'"
  shows "keeps g (given s) (length (threads s)) s'"
proof (cases "t_status (thread s t)")
  case Ready
  then have "idle (thread s t)" using b t by (auto simp: books_def intro: idle_statusI)
  then show ?thesis using assms Ready run_pass_keeps [OF t b] by (auto simp: take_lock_def)
next
  case Woken
  let ?r = "s\<lparr>wakeup := wakeup s - 2\<rparr>" and ?s = "set_status t Ready (s\<lparr>wakeup := wakeup s - 2\<rparr>)"
  have r: "books g ?r" "given ?r = given s" "thread ?r t = thread s t" "t < length (threads ?r)"
    using b t by (simp_all add: books_def in_order_def threads_ok_def work_left_def given_def privates_def thread_def)
  have "idle (thread ?r t)" unfolding r(3) using b t Woken by (auto simp: books_def intro: idle_statusI)
  then have s: "t < length (threads ?s)" "books g ?s" "given ?s = given s" "idle (thread ?s t)"
    using set_status_keeps [OF r(4,1), of Ready] idle_set_status [OF r(4), of Ready] r(2) t by auto
  have len: "length (threads ?s) = length (threads s)" by (simp add: sched_frame)
  let ?e = "?s\<lparr>wakeup := wakeup ?s + 2\<rparr>"
  have e: "books g ?e" "given ?e = given s" "thread ?e t = thread ?s t" "t < length (threads ?e)"
    using s by (simp_all add: books_def in_order_def threads_ok_def work_left_def given_def privates_def thread_def)
  have "keeps g (given s) (length (threads s)) (event_sleep t ?s)"
    using set_status_keeps [OF e(4,1), of Blocked] e(2,3) s(4) len by (simp add: event_sleep_def)
  then show ?thesis
    using assms(3) Woken run_pass_keeps [OF s(1,2,4), of w] s(3) len
    by (auto simp: take_lock_def Let_def split: if_splits)
qed (use assms in \<open>simp_all add: take_lock_def\<close>)

lemma sched_run_keeps:
  assumes "t < length (threads s)" "books g s" "sched_run l t s = Some s'"
  shows "keeps g (given s) (length (threads s)) s'"
proof -
  let ?th = "\<lparr>t_status = Ready, private_op_queue = [], private_outstanding_work = 0, t_loops = l\<rparr>"
  have out: "idle (thread s t)" if "t_status (thread s t) = Outside"
    using assms(1,2) that by (auto simp: books_def intro: idle_statusI)
  have "books g (set_thread t (\<lambda>_. ?th) s) \<and> given (set_thread t (\<lambda>_. ?th) s) = given s"
    if "t_status (thread s t) = Outside"
    using books_set_thread [OF assms(1,2), of "\<lambda>_. ?th"] given_set_thread [OF assms(1), of "\<lambda>_. ?th"]
      out [OF that] that by (simp add: thread_ok_def thread_work_def idle_def)
  moreover have "books g (set_status t Leaving s)" if "t_status (thread s t) = Outside"
    using set_status_keeps(1) [OF assms(1,2) out [OF that]] by simp
  ultimately show ?thesis
    using assms by (auto simp: sched_run_def sched_frame split: if_splits)
qed

lemma task_cleanup_eq:
  assumes "t < length (threads s)" "idle (thread s t)"
  shows "set_status t Ready (task_cleanup t (push_private t 0 ops s)) =
    push_task (push_handlers ops (set_status t Ready (s\<lparr>task_interrupted := True\<rparr>)))"
  using assms by (cases "threads s ! t")
    (simp add: task_cleanup_def push_private_def set_status_def set_thread_def thread_def
      push_handlers_def push_task_def idle_def Let_def)

lemma task_done_keeps:
  assumes t: "t < length (threads s)" and b: "books g s" and "task_done w t ops s = Some s'"
  shows "keeps (g - int (length ops)) (given s + mset ops) (length (threads s)) s'"
proof -
  obtain bl where st: "t_status (thread s t) = In_task bl" and
    s': "s' = run_pass w t (set_status t Ready (task_cleanup t (push_private t 0 ops s)))"
    using assms(3) by (auto simp: task_done_def split: status.splits)
  have idle: "idle (thread s t)" using b t st by (auto simp: books_def intro: idle_statusI [where b = bl])
  let ?s = "push_task (push_handlers ops (set_status t Ready (s\<lparr>task_interrupted := True\<rparr>)))"
  let ?i = "s\<lparr>task_interrupted := True\<rparr>"
  have i: "t < length (threads ?i)" "books g ?i" "idle (thread ?i t)"
    using t b idle by (simp_all add: sched_frame thread_def)
  have "books (g - int (length ops)) ?s"
    using set_status_keeps(1) [OF i, of Ready] by (intro sched_frame books_push) simp
  moreover have "given ?s = given s + mset ops"
    using set_status_keeps(2) [OF i, of Ready] by (simp add: given_frame)
  moreover have "idle (thread ?s t)" "length (threads ?s) = length (threads s)"
    using idle_set_status [OF i(1,3), of Ready] by (simp_all add: thread_def sched_frame)
  ultimately show ?thesis
    using run_pass_keeps [of t ?s "g - int (length ops)" w] t unfolding s' task_cleanup_eq [OF t idle]
    by simp
qed

lemma handler_done_eq:
  assumes "t < length (threads s)" "t_status (thread s t) = In_handler h" "0 \<le> private_outstanding_work (thread s t)"
  shows "handler_done t throws s = Some
    ((set_thread t (\<lambda>th. th\<lparr>t_status := Finishing throws
         (private_outstanding_work th = 0 \<and> outstanding_work s = 1), private_outstanding_work := 0\<rparr>) s)
       \<lparr>outstanding_work := outstanding_work s + (private_outstanding_work (thread s t) - 1)\<rparr>)"
  using assms
  by (cases s; cases "threads s ! t")
    (auto simp: handler_done_def set_status_def set_thread_def thread_def work_finished_def Let_def)

lemma handler_done_handler:
  "handler_done t throws s = Some s' \<Longrightarrow> \<exists>h. t_status (thread s t) = In_handler h"
  by (auto simp: handler_done_def split: status.splits)

lemma handler_done_keeps:
  assumes t: "t < length (threads s)" and b: "books g s" and d: "handler_done t throws s = Some s'"
  shows "keeps g (given s) (length (threads s)) s'"
proof -
  let ?p = "private_outstanding_work (thread s t)"
  let ?f = "\<lambda>th. th\<lparr>t_status := Finishing throws
      (private_outstanding_work th = 0 \<and> outstanding_work s = 1), private_outstanding_work := 0\<rparr>"
  let ?s = "set_thread t ?f s"
  obtain h where st: "t_status (thread s t) = In_handler h" using handler_done_handler [OF d] by blast
  then have "0 \<le> ?p" using b t threads_ok_thread [of s t] by (simp add: books_def thread_ok_def)
  then have s': "s' = ?s\<lparr>outstanding_work := outstanding_work ?s + (?p - 1)\<rparr>"
    using d handler_done_eq [OF t st, of throws] by (simp add: outstanding_frame)
  have s: "books (g + 1 - ?p) ?s" "given ?s = given s" "length (threads ?s) = length (threads s)"
    using books_set_thread [OF t b, of ?f] given_set_thread [OF t, of ?f] st
    by (simp_all add: thread_ok_def thread_work_def sched_frame algebra_simps)
  show ?thesis using books_work(2) [OF s(1), of "?p - 1"] s(2,3) unfolding s' by (simp add: given_frame)
qed

lemma finish_work_keeps:
  assumes "books g s"
  shows "keeps (g - 1) (given s) (length (threads s)) (finish_work s)"
proof -
  have "finish_work s = (s\<lparr>outstanding_work := outstanding_work s + - 1\<rparr>)
      \<lparr>stop_calls := stop_calls s + of_bool (outstanding_work s = 1)\<rparr>"
    by (simp add: finish_work_def work_finished_def)
  then show ?thesis using books_work(2) [OF assms, of "- 1"] by (simp add: books_flags given_frame)
qed

lemma thread_stops_keeps:
  assumes t: "t < length (threads s)" and b: "books g s" and "thread_stops t s = Some s'"
  shows "keeps g (given s) (length (threads s)) s'"
proof -
  let ?s = "stop_all_threads s"
  have s: "t < length (threads ?s)" "books g ?s" "length (threads ?s) = length (threads s)"
    using t b by (simp_all add: sched_frame)
  have th: "thread ?s t = thread s t" if "t_status (thread s t) \<noteq> Blocked"
    using t that by (simp add: stop_all_threads_def interrupt_task_def event_signal_all_def
        cond_broadcast_def thread_def)
  consider (finishing) throws where "t_status (thread s t) = Finishing throws True"
      "s' = set_status t (Finishing throws False) ?s"
    | (leaving) "t_status (thread s t) = Leaving" "s' = set_status t Outside ?s"
    using assms(3) by (auto simp: thread_stops_def split: status.splits bool.splits)
  then show ?thesis
  proof cases
    case finishing
    let ?f = "t_status_update (\<lambda>_. Finishing throws False)"
    have "thread_ok (thread s t)" using b t threads_ok_thread by (simp add: books_def)
    then have "books g (set_thread t ?f ?s)"
      using books_set_thread [OF s(1,2), of ?f] finishing(1) th by (simp add: thread_ok_def thread_work_def)
    then show ?thesis using finishing(2) s given_set_status [OF s(1)]
      by (simp add: set_status_def thread_frame given_frame)
  next
    case leaving
    have "idle (thread s t)" using leaving(1) t b by (auto simp: books_def intro: idle_statusI)
    then show ?thesis using set_status_keeps [OF s(1,2), of Outside] leaving th s(3) by (simp add: given_frame)
  qed
qed

lemma finish_handler_keeps:
  assumes t: "t < length (threads s)" and b: "books g s" and d: "finish_handler w t s = Some s'"
  shows "keeps g (given s) (length (threads s)) s'"
proof -
  let ?hs = "private_op_queue (thread s t)" and ?f = "private_op_queue_update (\<lambda>_. [])"
  let ?s = "push_handlers ?hs (set_thread t ?f s)"
  obtain throws where st: "t_status (thread s t) = Finishing throws False" and
    s': "s' = (if throws \<or> \<not> t_loops (thread ?s t) then set_status t Outside ?s
               else if ?hs \<noteq> [] then run_pass w t (set_status t Ready ?s) else set_status t Ready ?s)"
    using d by (auto simp: finish_handler_def Let_def split: status.splits bool.splits)
  have zero: "private_outstanding_work (thread s t) = 0"
    using b t threads_ok_thread [of s t] st by (simp add: books_def thread_ok_def)
  have "books (g + int (length ?hs)) (set_thread t ?f s)"
    using books_set_thread [OF t b, of ?f] st zero by (simp add: thread_ok_def thread_work_def)
  then have s: "books g ?s" using books_push [of "g + int (length ?hs)" _ ?hs] by simp
  have "given (set_thread t ?f s) + mset ?hs = given s"
    using privates_set_thread [OF t, of ?f] by (simp add: given_def sched_frame)
  then have g: "given ?s = given s" by (simp add: given_frame)
  have i: "t < length (threads ?s)" "idle (thread ?s t)"
    using t st zero by (simp_all add: idle_def thread_def sched_frame set_thread_def)
  have len: "length (threads ?s) = length (threads s)" by (simp add: sched_frame)
  note out = set_status_keeps [OF i(1) s i(2)]
  have ready: "keeps g (given s) (length (threads s)) (run_pass w t (set_status t Ready ?s))"
    using run_pass_keeps [of t "set_status t Ready ?s" g w] out [of Ready] idle_set_status [OF i, of Ready]
      i(1) g len by simp
  from s' consider "s' = set_status t Outside ?s" | "s' = run_pass w t (set_status t Ready ?s)"
    | "s' = set_status t Ready ?s" by metis
  then show ?thesis using ready out [of Outside] out [of Ready] g len by cases simp_all
qed

text \<open>The loop leaves every other step to the frame.\<close>

lemma posts_length:
  "length (threads (post_immediate_completion w c h k s)) = length (threads s)"
  "length (threads (post_immediate_completions w c hs k s)) = length (threads s)"
  "length (threads (post_deferred_completions w c hs s)) = length (threads s)"
  by (simp_all add: post_immediate_completion_def post_immediate_completions_def
      post_deferred_completions_def push_private_def sched_frame)

lemma dispatch_keeps:
  "books g s \<Longrightarrow> keeps g (given s + {#h#}) (length (threads s)) (do_dispatch w h s)"
  using books_push [OF books_work(1), of g s "[h]"]
  by (simp add: do_dispatch_def sched_frame)

lemma init_task_keeps:
  "books g s \<Longrightarrow> keeps g (given s) (length (threads s)) (init_task w s)"
  by (simp add: init_task_def sched_frame)

lemma sched_step_keeps:
  assumes b: "books g s" and "sched_step e s = Some s'"
  shows "keeps (g + held_by e) (given s + mset (posted_by e)) (length (threads s)) s'"
proof -
  have app: "sched_apply e s = Some s'" and
    t: "\<And>t. event_thread e = Some t \<Longrightarrow> t < length (threads s)"
    using assms(2) by (auto simp: sched_step_def split: if_splits)
  show ?thesis
  proof (cases e)
    case (Spurious t)
    then have "idle (thread s t)" "t < length (threads s)" "s' = set_status t Woken s"
      using app t b by (auto simp: books_def intro!: idle_statusI split: if_splits)
    then show ?thesis using set_status_keeps [OF _ b, of t Woken] Spurious by simp
  qed (use app t b in \<open>auto dest: sched_run_keeps take_lock_keeps task_done_keeps handler_done_keeps
      finish_handler_keeps thread_stops_keeps simp: finish_work_keeps called_stop_def post_books post_given posts_length dispatch_keeps init_task_keeps
      sched_frame restart_def split: if_splits\<close>)
qed

lemma sched_events_keep:
  "books g s \<Longrightarrow> sched_events es s = Some s' \<Longrightarrow>
   keeps (g + (\<Sum>e\<leftarrow>es. held_by e)) (given s + mset (concat (map posted_by es))) (length (threads s)) s'"
proof (induction es arbitrary: g s)
  case (Cons e es)
  then obtain r where r: "sched_step e s = Some r" "sched_events es r = Some s'"
    by (auto split: bind_splits)
  note step = sched_step_keeps [OF Cons.prems(1) r(1)]
  then have "books (g + held_by e) r" by simp
  from Cons.IH [OF this r(2)] step show ?case by (simp add: ac_simps)
qed simp

lemma new_books: "books 0 (new_scheduler one n)"
  by (simp add: books_def in_order_def new_scheduler_def threads_ok_def work_left_def list_all_iff
      outside_thread_def thread_ok_def thread_work_def sum_list_replicate)

lemma new_given: "given (new_scheduler one n) = {#}"
  by (simp add: given_def new_scheduler_def privates_def outside_thread_def)

section \<open>Handlers run once and in order\<close>

text \<open>
  C29. Whatever the threads of a scheduler do and in whatever order, the handlers that have been
  queued are those that were run, followed by those in the queue (so that they run in the order in
  which they were queued, and none runs twice), and every handler given to the scheduler has
  either been run or is in the queue or in the private queue of a thread.
\<close>
theorem handlers_run_once_in_order:
  assumes "sched_events es (new_scheduler one n) = Some s"
  shows "ran s @ handlers_in (sched_queue s) = pushed s \<and>
         mset (concat (map posted_by es)) = mset (ran s) + mset (handlers_in (sched_queue s)) + mset (privates s)"
proof -
  have s: "in_order s" "given s = mset (concat (map posted_by es))"
    using sched_events_keep [OF new_books assms] by (simp_all add: books_def new_given)
  then have "mset (pushed s) = mset (ran s) + mset (handlers_in (sched_queue s))"
    by (metis in_order_def mset_append)
  with s show ?thesis by (simp add: given_def in_order_def)
qed

definition example_events :: "sched_event list" where
  "example_events =
     [Init_task 0, Post 0 None 7 False, Run 0, Run 1, Take_lock 0 0, Task_done 0 0 [], Take_lock 0 1,
      Post 0 (Some 0) 8 False, Post 0 (Some 0) 9 True, Handler_done 0 False, Finish 0 0]"

lemma handlers_run_once_in_order_witness:
  "\<exists>s. sched_events example_events (new_scheduler False 2) = Some s \<and> ran s = [7, 8] \<and>
       handlers_in (sched_queue s) = [9] \<and> ran s @ handlers_in (sched_queue s) = pushed s"
proof -
  let ?r = "sched_events example_events (new_scheduler False 2)"
  have "ran (the ?r) = [7, 8] \<and> handlers_in (sched_queue (the ?r)) = [9] \<and> ?r \<noteq> None"
    by code_simp
  then show ?thesis using handlers_run_once_in_order [of example_events False 2] by auto
qed

section \<open>Stopping when nothing is left\<close>

text \<open>The steps that decide that \<open>stop\<close> is to be called.\<close>

fun decides :: "sched_event \<Rightarrow> scheduler \<Rightarrow> scheduler \<Rightarrow> bool" where
  "decides (Run t) s s' = (t_status (thread s' t) = Leaving)"
| "decides (Run_one t) s s' = (t_status (thread s' t) = Leaving)"
| "decides (Handler_done t throws) s s' = (t_status (thread s' t) = Finishing throws True)"
| "decides Finish_work s s' = (stop_calls s < stop_calls s')"
| "decides _ s s' = False"

lemma deciding_step:
  assumes "sched_step e s = Some s'" "decides e s s'" "books g s"
  shows "outstanding_work s' = 0"
proof -
  have app: "sched_apply e s = Some s'" and t: "\<And>t. event_thread e = Some t \<Longrightarrow> t < length (threads s)"
    using assms(1) by (auto simp: sched_step_def split: if_splits)
  have run: "outstanding_work s' = 0"
    if "sched_run l t s = Some s'" "t_status (thread s' t) = Leaving" "t < length (threads s)" for l t
    using that by (auto simp: sched_run_def sched_frame split: if_splits)
  show ?thesis
  proof (cases e)
    case (Handler_done t throws)
    have d: "handler_done t throws s = Some s'" "t < length (threads s)" using app t Handler_done by auto
    obtain h where st: "t_status (thread s t) = In_handler h" using handler_done_handler [OF d(1)] by blast
    then have "0 \<le> private_outstanding_work (thread s t)"
      using assms(3) d(2) threads_ok_thread [of s t] by (simp add: books_def thread_ok_def)
    from handler_done_eq [OF d(2) st this, of throws] d assms(2) Handler_done show ?thesis
      by (auto simp: thread_def set_thread_def)
  qed (use app assms(2) run t in \<open>auto simp: finish_work_def work_finished_def Let_def\<close>)
qed

lemma sum_zero_nonneg: "\<forall>x\<in>set xs. 0 \<le> x \<Longrightarrow> sum_list xs \<le> 0 \<Longrightarrow> x \<in> set xs \<Longrightarrow> x = 0" for x :: int
  using sum_list_nonneg_eq_0_iff [of xs] sum_list_nonneg [of xs] by auto

lemma nothing_left:
  assumes "books g s" "0 \<le> g" "outstanding_work s = 0"
  shows "handlers_in (sched_queue s) = [] \<and> privates s = [] \<and> g = 0 \<and>
         (\<forall>th\<in>set (threads s). \<forall>h. t_status th \<noteq> In_handler h)"
proof -
  have ok: "\<forall>th\<in>set (threads s). thread_ok th"
    using assms(1) by (simp add: books_def threads_ok_def list_all_iff)
  have sum: "0 \<le> sum_list (map thread_work (threads s))"
    using assms(1) by (simp add: books_def threads_ok_def sum_thread_work_nonneg)
  have "int (length (handlers_in (sched_queue s))) + sum_list (map thread_work (threads s)) + g = 0"
    using assms(1,3) by (simp add: books_def work_left_def)
  with sum assms(2) have "length (handlers_in (sched_queue s)) = 0"
    "sum_list (map thread_work (threads s)) = 0" "g = 0" by linarith+
  then have z: "handlers_in (sched_queue s) = []" "sum_list (map thread_work (threads s)) = 0" "g = 0"
    by simp_all
  have "private_op_queue th = [] \<and> (\<forall>h. t_status th \<noteq> In_handler h)" if "th \<in> set (threads s)" for th
  proof -
    have "thread_work th = 0"
      using sum_zero_nonneg [of "map thread_work (threads s)"] z(2) that ok thread_work_nonneg by auto
    then show ?thesis using ok that by (auto simp: thread_work_def thread_ok_def split: status.splits)
  qed
  then show ?thesis using z by (auto simp: privates_def)
qed

text \<open>
  C31. When a step decides that the scheduler is to be stopped (in \<open>run\<close>, behind a handler, or at the
  end of some work held from outside), nothing is left to do: no handler is queued, none is in
  the private queue of a thread, none is running, and no work is held from outside, as long as
  no more of that work was finished than was started.
\<close>
theorem stops_only_when_done:
  assumes "sched_events es (new_scheduler one n) = Some s" "sched_step e s = Some s'"
    and "decides e s s'" "0 \<le> (\<Sum>e\<leftarrow>es @ [e]. held_by e)"
  shows "handlers_in (sched_queue s') = [] \<and> privates s' = [] \<and> (\<Sum>e\<leftarrow>es @ [e]. held_by e) = 0 \<and>
         (\<forall>th\<in>set (threads s'). \<forall>h. t_status th \<noteq> In_handler h)"
proof -
  have b: "books (\<Sum>e\<leftarrow>es. held_by e) s" using sched_events_keep [OF new_books assms(1)] by simp
  then have "books (\<Sum>e\<leftarrow>es @ [e]. held_by e) s'" using sched_step_keeps [OF b assms(2)] by simp
  from nothing_left [OF this assms(4) deciding_step [OF assms(2,3) b]] show ?thesis .
qed

lemma stops_only_when_done_witness:
  "\<exists>s s'. sched_events (example_events @ [Task_done 0 1 [], Handler_done 0 False, Finish 0 0])
        (new_scheduler False 2) = Some s \<and>
      sched_step (Handler_done 1 False) s = Some s' \<and> ran s' = [7, 8, 9] \<and>
      handlers_in (sched_queue s') = [] \<and> privates s' = []"
proof -
  let ?es = "example_events @ [Task_done 0 1 [], Handler_done 0 False, Finish 0 0]"
  let ?s = "the (sched_events ?es (new_scheduler False 2))"
  let ?r = "sched_step (Handler_done 1 False) ?s"
  have "sched_events ?es (new_scheduler False 2) \<noteq> None \<and> ?r \<noteq> None \<and>
        decides (Handler_done 1 False) ?s (the ?r) \<and> ran (the ?r) = [7, 8, 9] \<and>
        0 \<le> (\<Sum>e\<leftarrow>?es @ [Handler_done 1 False]. held_by e)"
    by code_simp
  then show ?thesis
    using stops_only_when_done [of ?es False 2 ?s "Handler_done 1 False" "the ?r"] by auto
qed

text \<open>
  A handler may still be posted between the decision and the call: it is left in the queue of a
  stopped scheduler that nobody has asked to stop, and the thread leaves \<open>run\<close>.
\<close>

lemma stop_leaves_late_post:
  "\<exists>s. sched_events [Post 0 None 7 False, Run 0, Take_lock 0 0, Handler_done 0 False, Post 0 None 8 False,
        Thread_stops 0, Finish 0 0, Take_lock 0 0] (new_scheduler False 1) = Some s \<and>
       stopped s \<and> sched_queue s = [Handler 8] \<and> map t_status (threads s) = [Outside]"
proof -
  let ?r = "sched_events [Post 0 None 7 False, Run 0, Take_lock 0 0, Handler_done 0 False, Post 0 None 8 False,
        Thread_stops 0, Finish 0 0, Take_lock 0 0] (new_scheduler False 1)"
  have "?r \<noteq> None \<and> stopped (the ?r) \<and> sched_queue (the ?r) = [Handler 8] \<and>
      map t_status (threads (the ?r)) = [Outside]"
    by code_simp
  then show ?thesis by auto
qed

end
