(* ===== verification/Scheduler_Wakeups.thy ===== *)
theory Scheduler_Wakeups
  imports Scheduler_Runs
begin

text \<open>
  No wake-up of the scheduler is lost: while handlers are queued, some thread is on its way to
  the queue, or none is asleep; and when the scheduler is stopped no thread stays asleep.
\<close>

section \<open>Counting threads\<close>

definition how_many :: "(thread_info \<Rightarrow> bool) \<Rightarrow> scheduler \<Rightarrow> nat" where
  "how_many P s = length (filter P (threads s))"

definition waiter :: "thread_info \<Rightarrow> bool" where
  "waiter th \<longleftrightarrow> t_status th = Blocked \<or> t_status th = Woken"

fun in_task :: "status \<Rightarrow> bool" where
  "in_task (In_task b) = True"
| "in_task _ = False"

definition some_thread :: "(thread_info \<Rightarrow> bool) \<Rightarrow> scheduler \<Rightarrow> bool" where
  "some_thread P s \<longleftrightarrow> list_ex P (threads s)"

lemma length_filter_update:
  "t < length xs \<Longrightarrow> length (filter P (xs[t := y])) + of_bool (P (xs ! t)) = length (filter P xs) + of_bool (P y)"
proof (induction xs arbitrary: t)
  case (Cons x xs)
  then show ?case using Cons.IH [of "t - 1"] by (cases t) auto
qed simp

lemma how_many_set_thread:
  "t < length (threads s) \<Longrightarrow>
   how_many P (set_thread t f s) + of_bool (P (thread s t)) = how_many P s + of_bool (P (f (thread s t)))"
  unfolding how_many_def set_thread_def thread_def by (simp add: length_filter_update)

lemma how_many_set_status:
  "t < length (threads s) \<Longrightarrow> how_many P (set_status t st s) + of_bool (P (thread s t)) =
   how_many P s + of_bool (P ((thread s t)\<lparr>t_status := st\<rparr>))"
  unfolding set_status_def by (simp add: how_many_set_thread)

lemma some_thread_count: "some_thread P s \<longleftrightarrow> 0 < how_many P s"
  by (auto simp: some_thread_def how_many_def list_ex_iff filter_empty_conv)

text \<open>Waking a thread keeps what is true of threads asleep and of threads woken alike.\<close>

lemma wake_first_filter:
  assumes "\<And>th. t_status th = Blocked \<Longrightarrow> P (th\<lparr>t_status := Woken\<rparr>) = P th"
  shows "length (filter P (wake_first ts)) = length (filter P ts)"
  using assms by (induction ts) auto

lemma how_many_cond:
  assumes "\<And>th. t_status th = Blocked \<Longrightarrow> P (th\<lparr>t_status := Woken\<rparr>) = P th"
  shows "length (filter P (cond_signal w ts)) = length (filter P ts)"
    and "length (filter P (cond_broadcast ts)) = length (filter P ts)"
proof -
  show "length (filter P (cond_signal w ts)) = length (filter P ts)"
    using length_filter_update [of w ts P "(ts ! w)\<lparr>t_status := Woken\<rparr>"] assms [of "ts ! w"]
      wake_first_filter [where P = P and ts = ts] assms
    by (auto simp: cond_signal_def)
  show "length (filter P (cond_broadcast ts)) = length (filter P ts)"
    using assms by (induction ts) (auto simp: cond_broadcast_def)
qed

lemma waiter_cases:
  "waiter (th\<lparr>t_status := st\<rparr>) \<longleftrightarrow> st = Blocked \<or> st = Woken" by (simp add: waiter_def)

text \<open>A signal wakes a sleeper, if there is one.\<close>

lemma wake_first_woken:
  "list_ex (\<lambda>th. t_status th = Blocked) ts \<Longrightarrow> list_ex (\<lambda>th. t_status th = Woken) (wake_first ts)"
  by (induction ts) auto

lemma cond_signal_woken:
  "list_ex (\<lambda>th. t_status th = Blocked) ts \<Longrightarrow> list_ex (\<lambda>th. t_status th = Woken) (cond_signal w ts)"
  using wake_first_woken [of ts]
  by (auto simp: cond_signal_def list_ex_length intro!: exI [of _ w])

lemma cond_signal_some:
  "list_ex (\<lambda>th. t_status th = Woken) ts \<Longrightarrow> list_ex (\<lambda>th. t_status th = Woken) (cond_signal w ts)"
proof -
  have "list_ex (\<lambda>th. t_status th = Woken) ts \<Longrightarrow> list_ex (\<lambda>th. t_status th = Woken) (wake_first ts)"
    by (induction ts) auto
  moreover assume "list_ex (\<lambda>th. t_status th = Woken) ts"
  ultimately show ?thesis by (auto simp: cond_signal_def list_ex_length nth_list_update)
qed

section \<open>The invariant\<close>

text \<open>
  The event counts its waiters; at most one thread has the task, or the queue has it; a task that
  is blocking has been signalled if it has been interrupted; and every thread runs the loop.
\<close>

definition looping :: "thread_info \<Rightarrow> bool" where
  "looping th \<longleftrightarrow> (t_status th \<in> {Outside, Leaving} \<or> t_loops th) \<and>
     (\<forall>stops. t_status th \<noteq> Finishing True stops)"

definition tasks :: "scheduler \<Rightarrow> nat" where
  "tasks s = length (filter (\<lambda>i. i = Task) (sched_queue s)) + how_many (\<lambda>th. in_task (t_status th)) s"

definition sound :: "scheduler \<Rightarrow> bool" where
  "sound s \<longleftrightarrow> wakeup s div 2 = how_many waiter s \<and> tasks s \<le> of_bool (has_task s) \<and>
     (task_interrupted s \<and> \<not> task_signalled s \<longrightarrow> \<not> some_thread (\<lambda>th. t_status th = In_task True) s) \<and>
     list_all looping (threads s) \<and> \<not> one_thread s"

text \<open>A thread that waits, and one that is on its way to the queue.\<close>

definition asleep :: "scheduler \<Rightarrow> bool" where
  "asleep s \<longleftrightarrow> some_thread (\<lambda>th. t_status th = Blocked) s \<or>
     (\<not> task_signalled s \<and> some_thread (\<lambda>th. t_status th = In_task True) s)"

definition coming :: "scheduler \<Rightarrow> bool" where
  "coming s \<longleftrightarrow> some_thread (\<lambda>th. t_status th \<in> {Ready, Woken, In_task False}) s \<or>
     (task_signalled s \<and> some_thread (\<lambda>th. t_status th = In_task True) s)"

definition told :: "scheduler \<Rightarrow> bool" where
  "told s \<longleftrightarrow> (stopped s \<longrightarrow> \<not> asleep s \<and> odd (wakeup s))"

definition alert :: "scheduler \<Rightarrow> bool" where
  "alert s \<longleftrightarrow> sound s \<and> told s \<and> (sched_queue s \<noteq> [] \<longrightarrow> odd (wakeup s) \<and> (coming s \<or> \<not> asleep s))"


lemma some_thread_mono: "some_thread P s \<Longrightarrow> (\<And>th. P th \<Longrightarrow> Q th) \<Longrightarrow> some_thread Q s"
  by (auto simp: some_thread_def list_ex_iff)

lemma waiting_sleeper:
  assumes "sound s" "1 < wakeup s"
  shows "some_thread (\<lambda>th. t_status th = Blocked) s \<or> some_thread (\<lambda>th. t_status th = Woken) s"
proof -
  have "some_thread waiter s" using assms by (auto simp: sound_def some_thread_count)
  then show ?thesis by (auto simp: some_thread_def list_ex_iff waiter_def)
qed

lemma no_waiter:
  assumes "sound s" "wakeup s \<le> 1"
  shows "\<not> some_thread (\<lambda>th. t_status th = Blocked) s"
proof -
  have "\<not> some_thread waiter s" using assms by (auto simp: sound_def some_thread_count)
  then show ?thesis by (auto simp: some_thread_def list_ex_iff waiter_def)
qed

lemma or_1_nat: "odd (or n 1)" "or n 1 div 2 = n div 2" "1 < or n 1 \<longleftrightarrow> 1 < n" for n :: nat
  unfolding or_one_eq by (cases "even n"; auto; presburger)+

lemmas or_1 = or_1_nat [simplified]

text \<open>Signals keep everything that does not tell sleeping threads from woken ones.\<close>

definition with_threads :: "(thread_info list \<Rightarrow> thread_info list) \<Rightarrow> scheduler \<Rightarrow> scheduler" where
  "with_threads f s = s\<lparr>threads := f (threads s), wakeup := or (wakeup s) 1\<rparr>"

lemma looping_cond:
  "list_all looping ts \<Longrightarrow> list_all looping (cond_signal w ts)"
  "list_all looping ts \<Longrightarrow> list_all looping (cond_broadcast ts)"
proof -
  have "length (filter looping (cond_signal w ts)) = length (filter looping ts)"
    "length (filter looping (cond_broadcast ts)) = length (filter looping ts)"
    by (intro how_many_cond; simp add: looping_def)+
  moreover have "list_all looping xs \<longleftrightarrow> length (filter looping xs) = length xs" for xs
    by (metis filter_True length_filter_less less_irrefl list_all_iff)
  ultimately show "list_all looping ts \<Longrightarrow> list_all looping (cond_signal w ts)"
    "list_all looping ts \<Longrightarrow> list_all looping (cond_broadcast ts)" by simp_all
qed

lemma with_threads_sound:
  assumes "f = cond_signal w \<or> f = cond_broadcast \<or> f = id" "sound s"
  shows "sound (with_threads f s)"
proof -
  have same: "how_many P (with_threads f s) = how_many P s"
    if "\<And>th. t_status th = Blocked \<Longrightarrow> P (th\<lparr>t_status := Woken\<rparr>) = P th" for P
    using assms(1) how_many_cond(1) [where P = P and w = w and ts = "threads s"]
      how_many_cond(2) [where P = P and ts = "threads s"] that by (auto simp: how_many_def with_threads_def)
  have "how_many waiter (with_threads f s) = how_many waiter s"
    "how_many (\<lambda>th. in_task (t_status th)) (with_threads f s) = how_many (\<lambda>th. in_task (t_status th)) s"
    "how_many (\<lambda>th. t_status th = In_task True) (with_threads f s) = how_many (\<lambda>th. t_status th = In_task True) s"
    by (intro same; simp add: waiter_def)+
  moreover have "list_all looping (threads (with_threads f s))"
    using assms by (auto simp: with_threads_def sound_def looping_cond)
  ultimately show ?thesis
    using assms(2) by (simp add: sound_def tasks_def some_thread_count with_threads_def or_1)
qed

lemma interrupt_sound: "sound s \<Longrightarrow> sound (interrupt_task s)"
  by (auto simp: interrupt_task_def sound_def tasks_def how_many_def some_thread_def)

text \<open>After an interrupt no thread sleeps in the task.\<close>

lemma interrupt_task_awake:
  assumes "sound s"
  shows "\<not> some_thread (\<lambda>th. t_status th = In_task True) (interrupt_task s) \<or> task_signalled (interrupt_task s)"
proof (cases "has_task s \<and> \<not> task_interrupted s")
  case False
  have "\<not> some_thread (\<lambda>th. t_status th = In_task True) s" if "\<not> has_task s"
  proof -
    have "\<not> some_thread (\<lambda>th. in_task (t_status th)) s"
      using assms that by (simp add: sound_def tasks_def some_thread_count)
    then show ?thesis using some_thread_mono [of "\<lambda>th. t_status th = In_task True" s] by force
  qed
  then show ?thesis using False assms by (auto simp: interrupt_task_def sound_def)
qed (simp add: interrupt_task_def)


lemma signals_with_threads:
  "event_signal_all s = with_threads cond_broadcast s"
  "event_signal_one w s = with_threads (if 1 < wakeup s then cond_signal w else id) s"
  "event_maybe_signal_one w s =
     (if 1 < wakeup s then (True, with_threads (cond_signal w) s) else (False, with_threads id s))"
  unfolding event_signal_all_def event_signal_one_def event_maybe_signal_one_def with_threads_def Let_def
  by (simp_all add: or_1)

lemma event_signal_one_sound: "sound s \<Longrightarrow> sound (event_signal_one w s)"
  unfolding signals_with_threads by (rule with_threads_sound [where w = w]) simp_all

section \<open>Waking and stopping\<close>

lemma asleep_cond_signal:
  "some_thread (\<lambda>th. t_status th = Blocked) (with_threads (cond_signal w) s) \<Longrightarrow>
   some_thread (\<lambda>th. t_status th = Blocked) s"
proof -
  have "list_ex (\<lambda>th. t_status th = Blocked) (wake_first ts) \<Longrightarrow> list_ex (\<lambda>th. t_status th = Blocked) ts" for ts
    by (induction ts) (auto split: if_splits)
  then show "some_thread (\<lambda>th. t_status th = Blocked) (with_threads (cond_signal w) s) \<Longrightarrow> ?thesis"
    by (auto simp: some_thread_def with_threads_def cond_signal_def list_ex_length nth_list_update split: if_splits)
qed

lemma in_task_cond:
  "f = cond_signal w \<or> f = cond_broadcast \<or> f = id \<Longrightarrow>
   some_thread (\<lambda>th. t_status th = In_task True) (with_threads f s) = some_thread (\<lambda>th. t_status th = In_task True) s"
  using how_many_cond(1) [where P = "\<lambda>th. t_status th = In_task True" and w = w and ts = "threads s"]
    how_many_cond(2) [where P = "\<lambda>th. t_status th = In_task True" and ts = "threads s"]
  by (auto simp: some_thread_count how_many_def with_threads_def)

text \<open>A wake-up leaves a thread on its way, or none asleep.\<close>

lemma wake_alert:
  assumes "sound s" "told s"
  shows "alert (wake_one_thread_and_unlock w s)"
proof (cases "1 < wakeup s")
  case True
  let ?s = "with_threads (cond_signal w) s"
  have eq: "wake_one_thread_and_unlock w s = ?s"
    using True by (simp add: wake_one_thread_and_unlock_def signals_with_threads)
  have "some_thread (\<lambda>th. t_status th = Woken) ?s"
    using waiting_sleeper [OF assms(1) True] cond_signal_woken cond_signal_some
    by (auto simp: some_thread_def with_threads_def)
  then have "coming ?s" using some_thread_mono by (fastforce simp: coming_def)
  moreover have "odd (wakeup ?s)" unfolding with_threads_def by (simp add: or_1)
  moreover have "asleep ?s \<Longrightarrow> asleep s"
    using asleep_cond_signal [of w s] in_task_cond [of "cond_signal w" w s]
    by (auto simp: asleep_def with_threads_def)
  moreover have "stopped ?s = stopped s" by (simp add: with_threads_def)
  moreover have "sound ?s" using with_threads_sound assms(1) by blast
  ultimately show ?thesis using assms(2) unfolding eq by (auto simp: alert_def told_def)
next
  case False
  let ?t = "with_threads id s"
  have eq: "wake_one_thread_and_unlock w s = interrupt_task ?t"
    using False by (simp add: wake_one_thread_and_unlock_def signals_with_threads)
  have t: "sound ?t" using with_threads_sound assms(1) by blast
  have "\<not> some_thread (\<lambda>th. t_status th = Blocked) s" using no_waiter assms(1) False by simp
  then have "\<not> some_thread (\<lambda>th. t_status th = Blocked) (interrupt_task ?t)"
    by (simp add: some_thread_def interrupt_task_def with_threads_def)
  then have "\<not> asleep (interrupt_task ?t)"
    using interrupt_task_awake [OF t] by (auto simp: asleep_def)
  moreover have "odd (wakeup (interrupt_task ?t))"
    unfolding with_threads_def interrupt_task_def by (simp add: or_1)
  ultimately show ?thesis using interrupt_sound [OF t] unfolding eq by (simp add: alert_def told_def)
qed

lemma stop_alert:
  assumes "sound s"
  shows "alert (stop_all_threads s)"
proof -
  let ?t = "with_threads cond_broadcast (s\<lparr>stopped := True\<rparr>)"
  have eq: "stop_all_threads s = interrupt_task ?t"
    by (simp add: stop_all_threads_def signals_with_threads)
  have "sound (s\<lparr>stopped := True\<rparr>)"
    using assms by (simp add: sound_def tasks_def how_many_def some_thread_def)
  then have t: "sound ?t" using with_threads_sound by blast
  have "\<not> some_thread (\<lambda>th. t_status th = Blocked) (interrupt_task ?t)"
    by (auto simp: some_thread_def interrupt_task_def with_threads_def cond_broadcast_def list_ex_iff)
  then have "\<not> asleep (interrupt_task ?t)"
    using interrupt_task_awake [OF t] by (auto simp: asleep_def)
  moreover have "odd (wakeup (interrupt_task ?t))"
    unfolding with_threads_def interrupt_task_def by (simp add: or_1)
  ultimately show ?thesis using interrupt_sound [OF t] unfolding eq by (simp add: alert_def told_def)
qed


section \<open>One thread moves\<close>

text \<open>What the invariant asks for when a thread goes from one place to another.\<close>

lemma set_status_frame2 [sched_frame]:
  "wakeup (set_status t st s) = wakeup s" "has_task (set_status t st s) = has_task s"
  "task_interrupted (set_status t st s) = task_interrupted s"
  "task_signalled (set_status t st s) = task_signalled s" "one_thread (set_status t st s) = one_thread s"
  by (simp_all add: set_status_def set_thread_def)

lemma looping_set_status:
  "list_all looping (threads s) \<Longrightarrow> \<forall>stops. st \<noteq> Finishing True stops \<Longrightarrow> st \<in> {Outside, Leaving} \<or> t_loops (thread s t) \<Longrightarrow>
   list_all looping (threads (set_status t st s))"
  by (cases "t < length (threads s)")
    (auto simp: set_status_def set_thread_def thread_def list_all_length nth_list_update looping_def)

lemma how_many_in_task:
  "how_many (\<lambda>th. in_task (t_status th)) s =
   how_many (\<lambda>th. t_status th = In_task True) s + how_many (\<lambda>th. t_status th = In_task False) s"
proof -
  have "length (filter (\<lambda>th. in_task (t_status th)) ts) =
    length (filter (\<lambda>th. t_status th = In_task True) ts) + length (filter (\<lambda>th. t_status th = In_task False) ts)" for ts
  proof (induction ts)
    case (Cons th ts)
    then show ?case by (cases "t_status th") auto
  qed simp
  then show ?thesis by (simp add: how_many_def)
qed

lemma how_many_member: "t < length (threads s) \<Longrightarrow> P (thread s t) \<Longrightarrow> 0 < how_many P s"
  by (auto simp: how_many_def thread_def filter_empty_conv)

lemma sound_set_status:
  assumes t: "t < length (threads s)" and "sound s"
    and "threads r = threads s" "one_thread r = one_thread s" "has_task r = has_task s"
    and "wakeup r div 2 + of_bool (waiter (thread s t)) = wakeup s div 2 + of_bool (st = Blocked \<or> st = Woken)"
    and "length (filter (\<lambda>i. i = Task) (sched_queue r)) + of_bool (in_task st) =
         length (filter (\<lambda>i. i = Task) (sched_queue s)) + of_bool (in_task (t_status (thread s t)))"
    and "task_interrupted r \<and> \<not> task_signalled r \<Longrightarrow> st \<noteq> In_task True"
    and "task_interrupted r \<and> \<not> task_signalled r \<Longrightarrow>
         in_task st \<or> in_task (t_status (thread s t)) \<or> task_interrupted s \<and> \<not> task_signalled s"
    and "\<forall>stops. st \<noteq> Finishing True stops" "st \<in> {Outside, Leaving} \<or> t_loops (thread s t)"
  shows "sound (set_status t st r)"
proof -
  have same: "how_many P r = how_many P s" "thread r t = thread s t" "t < length (threads r)" for P
    using t assms(3) by (simp_all add: how_many_def thread_def)
  note count = how_many_set_status [OF same(3), of _ st, unfolded same]
  have task: "tasks (set_status t st r) = tasks s"
    using count [of "\<lambda>th. in_task (t_status th)"] assms(7) by (simp add: tasks_def set_status_frame)
  have w: "wakeup (set_status t st r) div 2 = how_many waiter (set_status t st r)"
    using count [of waiter] assms(2,6) by (simp add: sound_def waiter_cases sched_frame)
  have no: "\<not> some_thread (\<lambda>th. t_status th = In_task True) (set_status t st r)"
    if ti: "task_interrupted r \<and> \<not> task_signalled r"
  proof -
    have new: "how_many (\<lambda>th. t_status th = In_task True) (set_status t st r)
        + of_bool (t_status (thread s t) = In_task True) = how_many (\<lambda>th. t_status th = In_task True) s"
      using count [of "\<lambda>th. t_status th = In_task True"] assms(8) ti by simp
    have le: "how_many (\<lambda>th. t_status th = In_task True) u = 0"
      if "sound u" "0 < how_many (\<lambda>th. t_status th = In_task False) u" for u
      using that how_many_in_task [of u] by (auto simp: sound_def tasks_def of_bool_def split: if_splits)
    have "how_many (\<lambda>th. t_status th = In_task True) (set_status t st r) = 0"
      if "in_task st"
    proof -
      have "st = In_task False" using that assms(8) ti by (cases st) auto
      then have "0 < how_many (\<lambda>th. t_status th = In_task False) (set_status t st r)"
        using count [of "\<lambda>th. t_status th = In_task False"] how_many_member [OF t, of "\<lambda>th. t_status th = In_task False"]
        by (auto split: if_splits simp: of_bool_def)
      then show ?thesis using how_many_in_task [of "set_status t st r"] task assms(2)
        by (auto simp: sound_def tasks_def of_bool_def split: if_splits)
    qed
    moreover have "how_many (\<lambda>th. t_status th = In_task True) (set_status t st r) = 0"
      if "in_task (t_status (thread s t))"
    proof -
      from that consider "t_status (thread s t) = In_task True" | "t_status (thread s t) = In_task False"
        by (cases "t_status (thread s t)") auto
      then show ?thesis
      proof cases
        case 1
        then show ?thesis using new how_many_in_task [of s] assms(2)
          by (auto simp: sound_def tasks_def of_bool_def split: if_splits)
      next
        case 2
        then show ?thesis using new le [OF assms(2)] how_many_member [OF t, of "\<lambda>th. t_status th = In_task False"] by simp
      qed
    qed
    moreover have "how_many (\<lambda>th. t_status th = In_task True) (set_status t st r) = 0"
      if "task_interrupted s \<and> \<not> task_signalled s"
      using that new assms(2) by (simp add: sound_def some_thread_count)
    ultimately show ?thesis using assms(9) [OF ti] by (auto simp: some_thread_count)
  qed
  have "list_all looping (threads (set_status t st r))"
    using assms by (intro looping_set_status) (auto simp: sound_def thread_def)
  then show ?thesis using assms(2,4,5) task w no by (simp add: sound_def sched_frame)
qed


lemma some_set_status:
  "some_thread (\<lambda>th. Q (t_status th)) (set_status t st s) \<Longrightarrow> some_thread (\<lambda>th. Q (t_status th)) s \<or> Q st"
  by (cases "t < length (threads s)")
    (auto simp: some_thread_def set_status_def set_thread_def list_ex_length nth_list_update split: if_splits)

lemma asleep_set_status:
  assumes "asleep (set_status t st s)" "st \<noteq> Blocked" "st \<noteq> In_task True"
  shows "asleep s"
proof -
  have "some_thread (\<lambda>th. t_status th = x) (set_status t st s) \<Longrightarrow> x \<noteq> st \<Longrightarrow>
      some_thread (\<lambda>th. t_status th = x) s" for x
    using some_set_status [of "\<lambda>y. y = x" t st s] by auto
  then show ?thesis using assms by (auto simp: asleep_def sched_frame)
qed

lemma looping_thread: "sound s \<Longrightarrow> t < length (threads s) \<Longrightarrow> looping (thread s t)"
  by (simp add: sound_def list_all_length thread_def)

lemma some_threadI: "t < length (threads s) \<Longrightarrow> P (thread s t) \<Longrightarrow> some_thread P s"
  by (auto simp: some_thread_def list_ex_length thread_def)

lemma told_running: "\<not> stopped s \<Longrightarrow> told s" by (simp add: told_def)

lemma alert_empty: "sound s \<Longrightarrow> \<not> stopped s \<Longrightarrow> sched_queue s = [] \<Longrightarrow> alert s"
  by (simp add: alert_def told_running)

lemma thread_set_status:
  "t < length (threads s) \<Longrightarrow> thread (set_status t st s) t = (thread s t)\<lparr>t_status := st\<rparr>"
  by (simp add: set_status_def sched_frame)

lemma how_many_new: "t < length (threads s) \<Longrightarrow> 0 < how_many (\<lambda>th. t_status th = st) (set_status t st s)"
  by (rule how_many_member [of t]) (simp_all add: thread_set_status set_status_frame)

lemma in_task_coming: "some_thread (\<lambda>th. t_status th = In_task False) s \<Longrightarrow> coming s"
  by (auto simp: coming_def some_thread_def list_ex_iff)

lemma run_task_alert:
  assumes t: "t < length (threads s)" and s: "sound s" "\<not> stopped s"
    and st: "t_status (thread s t) = Ready" and q: "sched_queue s = Task # q"
  shows "alert (run_pass w t s)"
proof -
  let ?r = "s\<lparr>sched_queue := q, task_interrupted := (q \<noteq> []), task_signalled := False\<rparr>"
  let ?s = "set_status t (In_task (\<not> (q \<noteq> []))) ?r" and ?P = "\<lambda>th. t_status th = In_task False"
  let ?u = "event_signal_one w ?s"
  have "t_loops (thread s t)" using looping_thread [OF s(1) t] st by (simp add: looping_def)
  then have sound: "sound ?s"
    by (intro sound_set_status [OF t s(1)]) (simp_all add: q st waiter_def)
  show ?thesis
  proof (cases "q = []")
    case True
    then show ?thesis using sound s q by (intro alert_empty) (simp_all add: run_pass_def Let_def sched_frame)
  next
    case False
    have pass: "run_pass w t s = ?u" using s q False by (simp add: run_pass_def Let_def sched_frame sound_def)
    have "how_many ?P ?u = how_many ?P ?s"
      using how_many_cond(1) [where P = ?P] by (simp add: how_many_def event_signal_one_def Let_def)
    moreover have "0 < how_many ?P ?s"
      using how_many_new [of t ?r "In_task False"] t False by simp
    ultimately have "some_thread ?P ?u" by (simp only: some_thread_count)
    then have "coming ?u" by (intro in_task_coming)
    moreover have "odd (wakeup ?u)" unfolding signals_with_threads with_threads_def by (simp add: or_1)
    ultimately show ?thesis using event_signal_one_sound [OF sound, of w] s(2) False unfolding pass
      by (simp add: alert_def told_def sched_frame)
  qed
qed

lemma run_pass_alert:
  assumes t: "t < length (threads s)" and s: "sound s" "told s" and st: "t_status (thread s t) = Ready"
  shows "alert (run_pass w t s)"
proof -
  have loops: "t_loops (thread s t)" using looping_thread [OF s(1) t] st by (simp add: looping_def)
  note move = sound_set_status [OF t s(1), simplified st waiter_def, simplified]
  show ?thesis
  proof (cases "stopped s")
    case True
    have "sound (set_status t Outside s)" by (rule move) simp_all
    moreover have "\<not> asleep (set_status t Outside s)"
      using True s(2) asleep_set_status [of t Outside s] by (auto simp: told_def)
    ultimately show ?thesis using True s(2) by (simp add: run_pass_def alert_def told_def sched_frame)
  next
    case running: False
    show ?thesis
    proof (cases "sched_queue s" rule: list.exhaust [case_names Nil Cons])
      case Nil
      have "sound (event_sleep t (event_clear s))"
        unfolding event_sleep_def by (rule move) (simp_all add: event_clear_def loops minus_mod_eq_mult_div)
      then show ?thesis using running Nil
        by (intro alert_empty) (simp_all add: run_pass_def event_sleep_def event_clear_def sched_frame)
    next
      case (Cons i q)
      show ?thesis
      proof (cases i)
        case (Handler h)
        let ?s = "set_status t (In_handler h) (s\<lparr>sched_queue := q, ran := ran s @ [h]\<rparr>)"
        have sound: "sound ?s" by (rule move) (simp_all add: Cons Handler loops)
        have "alert (if q \<noteq> [] then wake_one_thread_and_unlock w ?s else ?s)"
          using wake_alert [OF sound told_running, of w] alert_empty [OF sound] running by (simp add: sched_frame)
        then show ?thesis using s(1) running Cons Handler by (simp add: run_pass_def Let_def sched_frame sound_def)
      qed (use Cons run_task_alert [OF t s(1) running st] in simp)
    qed
  qed
qed

section \<open>What the invariant looks at\<close>

definition view :: "scheduler \<Rightarrow> status list \<times> nat \<times> bool \<times> bool \<times> bool \<times> bool \<times> bool \<times> item list" where
  "view s = (map t_status (threads s), wakeup s, has_task s, task_interrupted s, task_signalled s,
             stopped s, one_thread s, sched_queue s)"

lemma how_many_view: "view s = view r \<Longrightarrow> how_many (\<lambda>th. Q (t_status th)) s = how_many (\<lambda>th. Q (t_status th)) r"
proof -
  have "how_many (\<lambda>th. Q (t_status th)) u = length (filter Q (map t_status (threads u)))" for u
    by (simp add: how_many_def filter_map o_def)
  moreover have "view s = view r \<Longrightarrow> map t_status (threads s) = map t_status (threads r)" by (simp add: view_def)
  ultimately show "view s = view r \<Longrightarrow> ?thesis" by (simp only:)
qed

lemma some_view: "view s = view r \<Longrightarrow> some_thread (\<lambda>th. Q (t_status th)) s = some_thread (\<lambda>th. Q (t_status th)) r"
  using how_many_view [of s r Q] by (simp add: some_thread_count)

lemma view_alert:
  assumes "view r = view s" "list_all looping (threads s) \<Longrightarrow> list_all looping (threads r)"
  shows "sound s \<Longrightarrow> sound r" "told s \<Longrightarrow> told r" "alert s \<Longrightarrow> alert r"
proof -
  have eq: "wakeup r = wakeup s" "has_task r = has_task s" "task_interrupted r = task_interrupted s"
    "task_signalled r = task_signalled s" "stopped r = stopped s" "one_thread r = one_thread s"
    "sched_queue r = sched_queue s" using assms(1) by (simp_all add: view_def)
  have "how_many waiter r = how_many waiter s" "tasks r = tasks s"
    using how_many_view [OF assms(1), of "\<lambda>x. x = Blocked \<or> x = Woken"] how_many_view [OF assms(1), of in_task] eq
    by (simp_all add: waiter_def [abs_def] tasks_def)
  moreover have "asleep r = asleep s" "coming r = coming s"
    using some_view [OF assms(1), of "\<lambda>x. x = _"] some_view [OF assms(1), of "\<lambda>x. x \<in> _"] eq
    by (simp_all only: asleep_def coming_def)
  ultimately show sound: "sound s \<Longrightarrow> sound r" and told: "told s \<Longrightarrow> told r"
    using some_view [OF assms(1), of "\<lambda>x. x = _"] assms(2) eq by (auto simp: sound_def told_def)
  show "alert s \<Longrightarrow> alert r"
    using sound told eq \<open>asleep r = asleep s\<close> \<open>coming r = coming s\<close> by (simp add: alert_def)
qed


text \<open>A change of a thread's own posts and count is not seen.\<close>

lemma quiet_thread_view:
  assumes "\<And>th. t_status (f th) = t_status th"
  shows "view (set_thread t f s) = view s"
proof -
  have "map t_status ((threads s)[t := f (threads s ! t)]) = (map t_status (threads s))[t := map t_status (threads s) ! t]"
    by (cases "t < length (threads s)") (simp_all add: map_update assms list_update_beyond)
  then have "map t_status (threads (set_thread t f s)) = map t_status (threads s)"
    by (simp add: set_thread_def thread_def del: nth_map)
  then show ?thesis by (simp add: view_def set_thread_def)
qed

lemma quiet_thread_looping:
  assumes "\<And>th. t_status (f th) = t_status th" "\<And>th. t_loops (f th) = t_loops th" "list_all looping (threads s)"
  shows "list_all looping (threads (set_thread t f s))"
  using assms by (cases "t < length (threads s)")
    (auto simp: set_thread_def thread_def list_all_length nth_list_update looping_def)

lemma push_private_view:
  "view (push_private t n hs s) = view s" "list_all looping (threads s) \<Longrightarrow> list_all looping (threads (push_private t n hs s))"
proof -
  let ?f = "\<lambda>th. th\<lparr>private_outstanding_work := private_outstanding_work th + n,
                     private_op_queue := private_op_queue th @ hs\<rparr>"
  show "view (push_private t n hs s) = view s" by (simp add: push_private_def quiet_thread_view)
  show "list_all looping (threads s) \<Longrightarrow> list_all looping (threads (push_private t n hs s))"
    by (simp add: push_private_def quiet_thread_looping)
qed


text \<open>A step of a thread that neither sleeps nor is on its way changes nothing for the others.\<close>

lemma some_keep:
  assumes "t < length (threads s)" "\<not> P (thread s t)" "some_thread P s"
  shows "some_thread P (set_status t st s)"
  using how_many_set_status [OF assms(1), of P st] assms(2,3) by (simp add: some_thread_count)

lemma quiet_move_sound:
  assumes t: "t < length (threads s)" and s: "sound s"
    and "\<not> waiter (thread s t)" "\<not> in_task (t_status (thread s t))" "st \<in> {Outside, Leaving} \<or> t_loops (thread s t)"
    and "st \<in> {Outside, Leaving, Ready, In_handler h, Finishing False b}"
  shows "sound (set_status t st s)"
  using assms by (intro sound_set_status [OF t s]) (auto simp: sound_def)

lemma quiet_move_told:
  assumes "told s" "st \<in> {Outside, Leaving, Ready, In_handler h, Finishing False b}"
  shows "told (set_status t st s)"
  using assms asleep_set_status [of t st s] by (auto simp: told_def sched_frame)

lemma quiet_move_alert:
  assumes t: "t < length (threads s)" and s: "alert s"
    and old: "t_status (thread s t) \<in> {Outside, Leaving, In_handler h', Finishing b' c'}"
    and st: "st \<in> {Outside, Leaving} \<or> t_loops (thread s t)" "st \<in> {Outside, Leaving, Ready, In_handler h, Finishing False b}"
  shows "alert (set_status t st s)"
proof -
  have "sound (set_status t st s)"
    using s old st by (intro quiet_move_sound [OF t, where h = h and b = b]) (auto simp: alert_def waiter_def)
  moreover have "told (set_status t st s)" using s st quiet_move_told by (auto simp: alert_def)
  moreover have "coming s \<Longrightarrow> coming (set_status t st s)"
    using old some_keep [OF t, of "\<lambda>th. t_status th \<in> {Ready, Woken, In_task False}" st]
      some_keep [OF t, of "\<lambda>th. t_status th = In_task True" st] by (auto simp: coming_def sched_frame)
  moreover have "asleep (set_status t st s) \<Longrightarrow> asleep s" using st(2) asleep_set_status by auto
  ultimately show ?thesis using s by (auto simp: alert_def sched_frame)
qed

section \<open>The steps\<close>

lemma push_handlers_sound:
  "sound s \<Longrightarrow> sound (push_handlers hs s)" "told s \<Longrightarrow> told (push_handlers hs s)"
proof -
  have none: "filter (\<lambda>i. i = Task) (map Handler hs) = []" by (induction hs) auto
  show "sound s \<Longrightarrow> sound (push_handlers hs s)"
    by (simp add: sound_def tasks_def how_many_def some_thread_def push_handlers_def none)
  show "told s \<Longrightarrow> told (push_handlers hs s)"
    by (simp add: told_def asleep_def some_thread_def push_handlers_def)
qed

lemma outstanding_view: "view (s\<lparr>outstanding_work := n\<rparr>) = view s" by (simp add: view_def)

lemma work_view: "view (work_started s) = view s"
  by (simp add: work_started_def outstanding_view)

lemma posts_alert:
  assumes "alert s"
  shows "alert (post_immediate_completion w caller h c s)"
    and "alert (post_immediate_completions w caller hs c s)"
    and "alert (post_deferred_completions w caller hs s)"
    and "alert (do_dispatch w h s)"
proof -
  have s: "sound s" "told s" using assms by (simp_all add: alert_def)
  have own: "alert (push_private t n xs s)" for t n xs
    using view_alert(3) [OF push_private_view] assms by blast
  have pushed: "alert (wake_one_thread_and_unlock w (push_handlers xs (s\<lparr>outstanding_work := n\<rparr>)))" for xs n
  proof -
    have "sound (s\<lparr>outstanding_work := n\<rparr>)" "told (s\<lparr>outstanding_work := n\<rparr>)"
      using s view_alert(1,2) [OF outstanding_view] by simp_all
    then show ?thesis by (intro wake_alert push_handlers_sound)
  qed
  have direct: "alert (wake_one_thread_and_unlock w (push_handlers xs s))" for xs
    using s by (intro wake_alert push_handlers_sound)
  show "alert (post_immediate_completion w caller h c s)"
    "alert (post_immediate_completions w caller hs c s)"
    "alert (post_deferred_completions w caller hs s)" "alert (do_dispatch w h s)"
    using assms own pushed direct
    by (simp_all add: post_immediate_completion_def post_immediate_completions_def
        post_deferred_completions_def do_dispatch_def work_started_def)
qed


lemma finish_work_alert: "alert s \<Longrightarrow> alert (finish_work s)"
  by (rule view_alert(3) [rotated 2]) (simp_all add: finish_work_def work_finished_def view_def Let_def)

lemma called_stop_alert: "alert s \<Longrightarrow> called_stop s = Some s' \<Longrightarrow> alert s'"
proof -
  assume s: "alert s"
  then have "sound (s\<lparr>stop_calls := n\<rparr>)" for n
    using view_alert(1) [of "s\<lparr>stop_calls := n\<rparr>" s] by (simp add: view_def alert_def)
  then show "called_stop s = Some s' \<Longrightarrow> alert s'"
    by (auto simp: called_stop_def stop_alert split: if_splits)
qed

lemma thread_stops_alert:
  assumes t: "t < length (threads s)" and s: "alert s" and "thread_stops t s = Some s'"
  shows "alert s'"
proof -
  let ?s = "stop_all_threads s"
  have r: "alert ?s" "t < length (threads ?s)" using s t stop_alert by (simp_all add: alert_def sched_frame)
  have th: "thread ?s t = thread s t" if "t_status (thread s t) \<noteq> Blocked"
    using t that by (simp add: stop_all_threads_def interrupt_task_def event_signal_all_def
        cond_broadcast_def thread_def)
  have l: "looping (thread s t)" using looping_thread [OF _ t] s by (simp add: alert_def)
  consider (finishing) throws where "t_status (thread s t) = Finishing throws True"
      "s' = set_status t (Finishing throws False) ?s"
    | (leaving) "t_status (thread s t) = Leaving" "s' = set_status t Outside ?s"
    using assms(3) by (auto simp: thread_stops_def split: status.splits bool.splits)
  then show ?thesis
  proof cases
    case finishing
    then show ?thesis using l th by (auto simp: looping_def intro!: quiet_move_alert [OF r(2,1)])
  next
    case leaving
    then show ?thesis using th by (auto intro!: quiet_move_alert [OF r(2,1)])
  qed
qed

lemma init_task_alert:
  assumes "alert s"
  shows "alert (init_task w s)"
proof (cases "shut_down s \<or> has_task s")
  case False
  let ?s = "push_task (s\<lparr>has_task := True\<rparr>)"
  have "tasks s = 0" using assms False by (simp add: alert_def sound_def)
  then have "sound ?s" using assms
    by (simp add: alert_def sound_def tasks_def how_many_def some_thread_def push_task_def)
  moreover have "told ?s" using assms by (simp add: alert_def told_def asleep_def some_thread_def push_task_def)
  ultimately show ?thesis using False wake_alert by (simp add: init_task_def)
qed (use assms in \<open>auto simp: init_task_def\<close>)

lemma restart_alert: "alert s \<Longrightarrow> alert (restart s)"
  by (simp add: alert_def restart_def sound_def tasks_def told_def how_many_def some_thread_def
      coming_def asleep_def)

lemma spurious_alert:
  assumes t: "t < length (threads s)" and "alert s" and st: "t_status (thread s t) = Blocked"
  shows "alert (set_status t Woken s)"
proof -
  have "t_loops (thread s t)" using looping_thread [OF _ t] assms(2) st by (simp add: alert_def looping_def)
  then have "sound (set_status t Woken s)"
    using assms by (intro sound_set_status [OF t]) (auto simp: alert_def waiter_def sound_def)
  moreover have "asleep (set_status t Woken s) \<Longrightarrow> asleep s" using asleep_set_status by auto
  moreover have "0 < how_many (\<lambda>th. t_status th = Woken) (set_status t Woken s)" using how_many_new [OF t] .
  then have "coming (set_status t Woken s)"
    by (auto simp: coming_def some_thread_def list_ex_iff how_many_def filter_empty_conv)
  ultimately show ?thesis using assms(2) by (auto simp: alert_def told_def sched_frame)
qed

lemma take_lock_alert:
  assumes t: "t < length (threads s)" and s: "alert s" and "take_lock w t s = Some s'"
  shows "alert s'"
proof (cases "t_status (thread s t)")
  case Ready
  then show ?thesis using assms run_pass_alert by (auto simp: take_lock_def alert_def)
next
  case Woken
  let ?r = "s\<lparr>wakeup := wakeup s - 2\<rparr>"
  let ?s = "set_status t Ready ?r"
  have sound: "sound s" and told: "told s" using s by (simp_all add: alert_def)
  have loops: "t_loops (thread s t)" using looping_thread [OF sound t] Woken by (simp add: looping_def)
  have "0 < how_many waiter s" using t Woken by (intro how_many_member [of t]) (simp_all add: waiter_def)
  then have two: "2 \<le> wakeup s" using sound by (auto simp: sound_def)
  have half: "Suc ((wakeup s - 2) div 2) = wakeup s div 2" using two by presburger
  have rt: "sound ?s"
    using half loops Woken sound
    by (intro sound_set_status [OF t sound]) (auto simp: waiter_def sound_def)
  have ev: "even (wakeup ?s) \<longleftrightarrow> even (wakeup s)" using two by (simp add: sched_frame)
  have td: "told ?s"
    using told ev asleep_set_status [of t Ready ?r] by (auto simp: told_def asleep_def some_thread_def sched_frame)
  have thr: "t < length (threads ?s)" "t_status (thread ?s t) = Ready" "t_loops (thread ?s t)"
    using t loops by (simp_all add: thread_set_status sched_frame) (simp add: thread_def)
  show ?thesis
  proof (cases "even (wakeup s)")
    case True
    then have q: "sched_queue s = []" "\<not> stopped s" using s by (auto simp: alert_def told_def)
    have "sound (event_sleep t ?s)" unfolding event_sleep_def
      using thr rt by (intro sound_set_status [OF thr(1) rt]) (auto simp: waiter_def sound_def)
    then have "alert (event_sleep t ?s)"
      using q by (intro alert_empty) (simp_all add: event_sleep_def sched_frame)
    then show ?thesis using assms(3) Woken True ev by (simp add: take_lock_def Let_def)
  next
    case False
    then show ?thesis using assms(3) Woken ev run_pass_alert [OF thr(1) rt td thr(2), of w]
      by (simp add: take_lock_def Let_def)
  qed
qed (use assms in \<open>simp_all add: take_lock_def\<close>)


lemma sched_run_alert:
  assumes t: "t < length (threads s)" and s: "alert s" and "sched_run True t s = Some s'"
  shows "alert s'"
proof (cases "outstanding_work s = 0")
  case True
  then show ?thesis
    using assms(3) by (auto simp: sched_run_def intro!: quiet_move_alert [OF t s] split: if_splits)
next
  case False
  let ?f = "\<lambda>th. th\<lparr>private_op_queue := [], private_outstanding_work := 0, t_loops := True\<rparr>"
  let ?r = "set_thread t ?f s"
  have out: "t_status (thread s t) = Outside" and
    s': "s' = set_thread t (\<lambda>_. \<lparr>t_status = Ready, private_op_queue = [], private_outstanding_work = 0,
      t_loops = True\<rparr>) s"
    using assms(3) False by (simp_all add: sched_run_def split: if_splits)
  have eq: "s' = set_status t Ready ?r"
    unfolding s' using t by (cases "threads s ! t") (simp add: set_status_def set_thread_def thread_def)
  have "list_all looping (threads ?r)" if "list_all looping (threads s)"
    using that t by (auto simp: set_thread_def list_all_length nth_list_update looping_def thread_def)
  then have "alert ?r" using view_alert(3) [OF quiet_thread_view [of ?f t s]] s by simp
  moreover have "t < length (threads ?r)" "thread ?r t = ?f (thread s t)" using t by (simp_all add: sched_frame)
  ultimately show ?thesis unfolding eq using out by (intro quiet_move_alert) auto
qed

lemma handler_done_alert:
  assumes t: "t < length (threads s)" and s: "alert s" and b: "books g s" and d: "handler_done t False s = Some s'"
  shows "alert s'"
proof -
  let ?p = "private_outstanding_work (thread s t)" and ?f = "private_outstanding_work_update (\<lambda>_. 0)"
  obtain h where h: "t_status (thread s t) = In_handler h" using handler_done_handler [OF d] by blast
  have p: "0 \<le> ?p" using b t threads_ok_thread [of s t] h by (simp add: books_def thread_ok_def)
  have l: "t_loops (thread s t)" using looping_thread [OF _ t] s h by (simp add: alert_def looping_def)
  have r: "alert (set_thread t ?f s)"
    using s by (rule view_alert(3) [rotated 2]) (simp_all add: quiet_thread_view quiet_thread_looping)
  have "alert (set_status t (Finishing False (?p = 0 \<and> outstanding_work s = 1)) (set_thread t ?f s))"
    using h l t by (intro quiet_move_alert [OF _ r]) (auto simp: sched_frame)
  moreover have "set_status t (Finishing False (?p = 0 \<and> outstanding_work s = 1)) (set_thread t ?f s) =
    set_thread t (\<lambda>th. th\<lparr>t_status := Finishing False
         (private_outstanding_work th = 0 \<and> outstanding_work s = 1), private_outstanding_work := 0\<rparr>) s"
    using t by (cases "threads s ! t") (simp add: set_status_def set_thread_def thread_def)
  ultimately show ?thesis
    using handler_done_eq [OF t h p, of False] d view_alert(3) [OF outstanding_view] by auto
qed

lemma finish_handler_alert:
  assumes t: "t < length (threads s)" and s: "alert s" and "finish_handler w t s = Some s'"
  shows "alert s'"
proof -
  let ?hs = "private_op_queue (thread s t)" and ?r = "set_thread t (private_op_queue_update (\<lambda>_. [])) s"
  let ?s = "push_handlers ?hs ?r"
  obtain b where b: "t_status (thread s t) = Finishing b False"
    using assms(3) by (auto simp: finish_handler_def split: status.splits bool.splits)
  have l: "\<not> b" "t_loops (thread s t)"
    using looping_thread [OF _ t] s b by (auto simp: alert_def looping_def dest: spec [of _ False])
  have r: "alert ?r"
    using s by (rule view_alert(3) [rotated 2]) (simp_all add: quiet_thread_view quiet_thread_looping)
  have th: "thread ?s t = (thread s t)\<lparr>private_op_queue := []\<rparr>" "t < length (threads ?s)"
    using t by (simp_all add: thread_def push_handlers_def set_thread_def)
  have sound: "sound ?s" "told ?s" using r push_handlers_sound by (simp_all add: alert_def)
  have s': "s' = (if ?hs \<noteq> [] then run_pass w t (set_status t Ready ?s) else set_status t Ready ?s)"
    using assms(3) b l th(1) by (simp add: finish_handler_def Let_def split: if_splits)
  show ?thesis
  proof (cases "?hs = []")
    case True
    then have "?s = ?r" by (simp add: push_handlers_def)
    then have "alert ?s" using r by simp
    then have "alert (set_status t Ready ?s)"
      using th b l by (intro quiet_move_alert) auto
    then show ?thesis using s' True by simp
  next
    case False
    have "sound (set_status t Ready ?s)" "told (set_status t Ready ?s)"
      using quiet_move_sound [OF th(2) sound(1)] quiet_move_told [OF sound(2)] th b l by (auto simp: waiter_def)
    then have "alert (run_pass w t (set_status t Ready ?s))"
      by (rule run_pass_alert [rotated]) (use th in \<open>simp_all add: thread_set_status sched_frame\<close>)
    then show ?thesis using s' False by simp
  qed
qed

lemma task_done_alert:
  assumes t: "t < length (threads s)" and s: "alert s" and "books g s" "task_done w t ops s = Some s'"
  shows "alert s'"
proof -
  obtain b where b: "t_status (thread s t) = In_task b" and
    s': "s' = run_pass w t (set_status t Ready (task_cleanup t (push_private t 0 ops s)))"
    using assms(4) by (auto simp: task_done_def split: status.splits)
  have idle: "idle (thread s t)" using assms(3) t b by (auto simp: books_def intro: idle_statusI [where b = b])
  let ?r = "push_task (push_handlers ops (s\<lparr>task_interrupted := True\<rparr>))"
  have eq: "set_status t Ready (task_cleanup t (push_private t 0 ops s)) = set_status t Ready ?r"
    unfolding task_cleanup_eq [OF t idle]
    by (simp add: push_task_def push_handlers_def set_status_def set_thread_def thread_def)
  have sound: "sound s" and told: "told s" using s by (simp_all add: alert_def)
  have none: "filter (\<lambda>i. i = Task) (map Handler ops) = []" by (induction ops) auto
  have "t_loops (thread s t)" using looping_thread [OF sound t] b by (simp add: looping_def)
  then have "sound (set_status t Ready ?r)"
    using b none by (intro sound_set_status [OF t sound])
      (auto simp: waiter_def push_task_def push_handlers_def sound_def sound [unfolded sound_def])
  moreover have "told ?r" using told
    by (simp add: told_def asleep_def some_thread_def push_task_def push_handlers_def)
  then have "told (set_status t Ready ?r)" by (rule quiet_move_told) simp
  moreover have "t_status (thread (set_status t Ready ?r) t) = Ready"
    using t by (simp add: thread_set_status sched_frame)
  ultimately show ?thesis unfolding s' eq using t by (intro run_pass_alert) (simp_all add: sched_frame)
qed


section \<open>No wake-up is lost\<close>

text \<open>Steps of threads that stay in \<open>run\<close>: none uses \<open>run_one\<close>, and no handler throws.\<close>

fun in_run :: "sched_event \<Rightarrow> bool" where
  "in_run (Run_one t) = False"
| "in_run (Handler_done t throws) = (\<not> throws)"
| "in_run _ = True"

lemma sched_step_alert:
  assumes s: "alert s" and b: "books g s" and "sched_step e s = Some s'" "in_run e"
  shows "alert s'"
proof -
  have app: "sched_apply e s = Some s'" and
    t: "\<And>t. event_thread e = Some t \<Longrightarrow> t < length (threads s)"
    using assms(3) by (auto simp: sched_step_def split: if_splits)
  note finish = handler_done_alert [OF _ s b] finish_handler_alert [OF _ s] thread_stops_alert [OF _ s]
  show ?thesis
  proof (cases e)
    case (Spurious t)
    then show ?thesis using app t spurious_alert [OF _ s] by (auto split: if_splits)
  next
    case Start_work
    have "alert (work_started s)" using view_alert(3) [OF work_view _ s] by (simp add: work_started_def)
    then show ?thesis using app Start_work by simp
  next
    case Stop
    then show ?thesis using app s stop_alert by (auto simp: alert_def)
  qed (use app t assms(4) s sched_run_alert [OF _ s] take_lock_alert [OF _ s] task_done_alert [OF _ s b] finish
      called_stop_alert [OF s] in \<open>auto simp: posts_alert finish_work_alert restart_alert init_task_alert\<close>)
qed

lemma sched_events_alert:
  "alert s \<Longrightarrow> books g s \<Longrightarrow> list_all in_run es \<Longrightarrow> sched_events es s = Some s' \<Longrightarrow> alert s'"
proof (induction es arbitrary: s g)
  case (Cons e es)
  then obtain r where r: "sched_step e s = Some r" "sched_events es r = Some s'"
    by (auto split: bind_splits)
  have "alert r" using sched_step_alert [OF Cons.prems(1,2) r(1)] Cons.prems(3) by simp
  moreover have "books (g + held_by e) r" using sched_step_keeps [OF Cons.prems(2) r(1)] by simp
  ultimately show ?case using Cons.IH r(2) Cons.prems(3) by auto
qed simp

lemma new_alert: "alert (new_scheduler False n)"
  by (simp add: new_scheduler_def alert_def sound_def tasks_def told_def how_many_def some_thread_def
      list_ex_iff list_all_iff outside_thread_def waiter_def looping_def)

text \<open>
  C30. In a scheduler made for many threads, all of them in \<open>run\<close> and with handlers that do not
  throw, no wake-up is lost: whatever the order of their steps, while something is queued
  some thread is on its way to the queue (it is ready or woken, or in a task that does not
  block or has been interrupted), or no thread sleeps; and when the scheduler is stopped
  none sleeps.
\<close>
theorem no_lost_wakeup:
  assumes "sched_events es (new_scheduler False n) = Some s" "list_all in_run es"
    and "sched_queue s \<noteq> [] \<or> stopped s"
  shows "(\<not> stopped s \<and> coming s) \<or> \<not> asleep s"
proof -
  have "alert s" using sched_events_alert [OF new_alert new_books assms(2,1)] .
  then show ?thesis using assms(3) by (auto simp: alert_def told_def)
qed

lemma no_lost_wakeup_witness:
  "\<exists>s. sched_events [Start_work, Run 0, Run 1, Take_lock 0 0, Take_lock 0 1, Post 1 None 7 False]
        (new_scheduler False 2) = Some s \<and> sched_queue s = [Handler 7] \<and> asleep s \<and> coming s"
proof -
  let ?es = "[Start_work, Run 0, Run 1, Take_lock 0 0, Take_lock 0 1, Post 1 None 7 False]"
  let ?r = "sched_events ?es (new_scheduler False 2)"
  have "?r \<noteq> None \<and> list_all in_run ?es \<and> sched_queue (the ?r) = [Handler 7] \<and> asleep (the ?r)"
    by code_simp
  then show ?thesis using no_lost_wakeup [of ?es 2 "the ?r"] by auto
qed

text \<open>
  With \<open>run_one\<close> a wake-up can be lost: the thread leaves with the handler that its own handler
  posted as a continuation put in the queue, and the thread asleep in \<open>run\<close> is not told.
\<close>

lemma run_one_leaves_sleeper:
  "\<exists>s. sched_events [Start_work, Post 0 None 7 False, Run_one 0, Run 1, Take_lock 0 0, Take_lock 0 1,
        Post 0 (Some 0) 8 True, Handler_done 0 False, Finish 0 0] (new_scheduler False 2) = Some s \<and>
       sched_queue s = [Handler 8] \<and> \<not> coming s \<and> map t_status (threads s) = [Outside, Blocked]"
proof -
  let ?r = "sched_events [Start_work, Post 0 None 7 False, Run_one 0, Run 1, Take_lock 0 0, Take_lock 0 1,
        Post 0 (Some 0) 8 True, Handler_done 0 False, Finish 0 0] (new_scheduler False 2)"
  have "?r \<noteq> None \<and> sched_queue (the ?r) = [Handler 8] \<and> \<not> coming (the ?r) \<and>
      map t_status (threads (the ?r)) = [Outside, Blocked]"
    by code_simp
  then show ?thesis by auto
qed

end
