(* ===== verification/Server_Context.thy ===== *)
theory Server_Context
  imports Scheduler_Wakeups
begin

text \<open>
  The thread of a server's io_context (\<open>netlib_server.h\<close>, \<open>start\<close> and \<open>stop\<close>) on the scheduler: it
  stays in \<open>run\<close> as long as the server holds its idle work and \<open>stop\<close> is not called, and
  after the call it leaves in a few steps of its own.
\<close>

section \<open>Start and stop\<close>

text \<open>
  The io_context of a server is made for any number of threads and has one; \<open>start\<close> makes the idle
  work before the thread.
\<close>

definition start_context :: "sched_event list" where
  "start_context = [Start_work, Run 0]"

section \<open>Staying in run\<close>

text \<open>The work held from outside is never given back more often than it was taken.\<close>

fun work_kept :: "int \<Rightarrow> sched_event list \<Rightarrow> bool" where
  "work_kept g [] = True"
| "work_kept g (e # es) = (0 \<le> g + held_by e \<and> work_kept (g + held_by e) es)"

definition staying :: "thread_info \<Rightarrow> bool" where
  "staying th \<longleftrightarrow> t_loops th \<and> t_status th \<noteq> Outside \<and> t_status th \<noteq> Leaving \<and>
     (\<forall>stops. t_status th \<noteq> Finishing True stops) \<and> (\<forall>throws. t_status th \<noteq> Finishing throws True)"

definition in_service :: "scheduler \<Rightarrow> bool" where
  "in_service s \<longleftrightarrow> \<not> stopped s \<and> stop_calls s = 0 \<and> list_all staying (threads s)"

lemma staying_woken: "staying th \<Longrightarrow> staying (th\<lparr>t_status := Woken\<rparr>)"
  by (simp add: staying_def)

lemma staying_cond:
  "list_all staying ts \<Longrightarrow> list_all staying (cond_signal w ts)"
proof -
  have "list_all staying ts \<Longrightarrow> list_all staying (wake_first ts)"
    by (induction ts) (auto simp: staying_woken)
  then show "list_all staying ts \<Longrightarrow> ?thesis"
    by (auto simp: cond_signal_def list_all_length nth_list_update staying_woken)
qed

lemma wake_in_service [intro]:
  "in_service s \<Longrightarrow> in_service (wake_one_thread_and_unlock w s)"
  "in_service s \<Longrightarrow> in_service (event_signal_one w s)"
  by (auto simp: in_service_def wake_one_thread_and_unlock_def event_maybe_signal_one_def
      event_signal_one_def interrupt_task_def staying_cond Let_def)

lemma set_thread_in_service [intro]:
  "in_service s \<Longrightarrow> (staying (thread s t) \<Longrightarrow> staying (f (thread s t))) \<Longrightarrow> in_service (set_thread t f s)"
  by (cases "t < length (threads s)")
    (auto simp: in_service_def set_thread_def thread_def list_all_length nth_list_update)

lemma set_status_in_service [intro]:
  "in_service s \<Longrightarrow> st \<notin> {Outside, Leaving} \<Longrightarrow> \<forall>stops. st \<noteq> Finishing True stops \<Longrightarrow>
   \<forall>throws. st \<noteq> Finishing throws True \<Longrightarrow> in_service (set_status t st s)"
  unfolding set_status_def by (rule set_thread_in_service) (simp_all add: staying_def)

lemma field_in_service [simp]:
  "in_service (s\<lparr>sched_queue := q\<rparr>) = in_service s" "in_service (s\<lparr>ran := hs\<rparr>) = in_service s"
  "in_service (s\<lparr>pushed := hs\<rparr>) = in_service s" "in_service (s\<lparr>wakeup := n\<rparr>) = in_service s"
  "in_service (s\<lparr>task_interrupted := b\<rparr>) = in_service s" "in_service (s\<lparr>task_signalled := b\<rparr>) = in_service s"
  "in_service (s\<lparr>outstanding_work := i\<rparr>) = in_service s" "in_service (s\<lparr>has_task := b\<rparr>) = in_service s"
  by (simp_all add: in_service_def)

lemma push_in_service [intro]:
  "in_service s \<Longrightarrow> in_service (push_handlers hs s)" "in_service s \<Longrightarrow> in_service (push_task s)"
  "in_service s \<Longrightarrow> in_service (push_private t n hs s)" "in_service s \<Longrightarrow> in_service (work_started s)"
proof -
  show "in_service s \<Longrightarrow> in_service (push_private t n hs s)"
    unfolding push_private_def by (rule set_thread_in_service) (simp_all add: staying_def)
qed (simp_all add: push_handlers_def push_task_def work_started_def)

lemma run_pass_in_service:
  assumes "in_service s"
  shows "in_service (run_pass w t s)"
proof -
  have "\<not> stopped s" using assms by (simp add: in_service_def)
  then show ?thesis using assms
    by (auto simp: run_pass_def event_sleep_def event_clear_def Let_def
        intro!: wake_in_service set_status_in_service split: list.split item.split)
qed

lemma take_lock_in_service: "in_service s \<Longrightarrow> take_lock w t s = Some s' \<Longrightarrow> in_service s'"
  by (auto simp: take_lock_def event_sleep_def Let_def intro!: run_pass_in_service set_status_in_service
      split: status.splits if_splits)

lemma task_done_in_service: "in_service s \<Longrightarrow> task_done w t ops s = Some s' \<Longrightarrow> in_service s'"
  by (auto simp: task_done_def task_cleanup_def Let_def staying_def
      intro!: run_pass_in_service set_status_in_service set_thread_in_service push_in_service
      split: status.splits)

lemma finish_handler_in_service:
  assumes t: "t < length (threads s)" and s: "in_service s" and f: "finish_handler w t s = Some s'"
  shows "in_service s'"
proof -
  let ?hs = "private_op_queue (thread s t)"
  let ?s = "push_handlers ?hs (set_thread t (private_op_queue_update (\<lambda>_. [])) s)"
  have r: "in_service ?s"
    using s by (intro push_in_service set_thread_in_service) (simp_all add: staying_def)
  have "staying (thread s t)" using s t by (simp add: in_service_def list_all_length thread_def)
  moreover have "t_loops (thread ?s t) = t_loops (thread s t)"
    using t by (simp add: thread_def push_handlers_def set_thread_def)
  ultimately have "s' = run_pass w t (set_status t Ready ?s) \<or> s' = set_status t Ready ?s"
    using f by (auto simp: finish_handler_def Let_def staying_def split: status.splits bool.splits if_splits)
  then show ?thesis using r by (auto intro!: run_pass_in_service set_status_in_service)
qed

lemma posts_in_service:
  assumes "in_service s"
  shows "in_service (post_immediate_completion w caller h c s)"
    and "in_service (post_immediate_completions w caller hs c s)"
    and "in_service (post_deferred_completions w caller hs s)"
    and "in_service (do_dispatch w h s)" and "in_service (init_task w s)"
  using assms by (auto simp: post_immediate_completion_def post_immediate_completions_def
      post_deferred_completions_def do_dispatch_def init_task_def intro!: wake_in_service push_in_service)

lemma work_left_nonneg: "threads_ok s \<Longrightarrow> 0 \<le> work_left s"
  using sum_thread_work_nonneg [of "threads s"] by (simp add: work_left_def threads_ok_def)

text \<open>A step keeps the threads in \<open>run\<close> while some work is held.\<close>

lemma step_in_service:
  assumes s: "in_service s" and b: "books g s" and e: "sched_step e s = Some s'" "in_run e" "e \<noteq> Stop"
    and g: "1 \<le> g + held_by e"
  shows "in_service s'"
proof -
  have app: "sched_apply e s = Some s'" and t: "\<And>t. event_thread e = Some t \<Longrightarrow> t < length (threads s)"
    using e(1) by (auto simp: sched_step_def split: if_splits)
  have "books (g + held_by e) s'" using sched_step_keeps [OF b e(1)] by simp
  then have "0 < outstanding_work s'" using work_left_nonneg [of s'] g by (simp add: books_def)
  then have no: "\<not> decides e s s'" using deciding_step [OF e(1) _ b] by fastforce
  have at: "staying (thread s t)" if "t < length (threads s)" for t
    using s that by (simp add: in_service_def list_all_length thread_def)
  show ?thesis
  proof (cases e)
    case (Spurious t)
    then show ?thesis using app s by (auto split: if_splits intro!: set_status_in_service)
  next
    case (Handler_done t throws)
    have t': "t < length (threads s)" and d: "handler_done t throws s = Some s'" using t app Handler_done by simp_all
    obtain h where h: "t_status (thread s t) = In_handler h" using handler_done_handler [OF d] by blast
    then have p: "0 \<le> private_outstanding_work (thread s t)"
      using b t' threads_ok_thread [of s t] by (simp add: books_def thread_ok_def)
    let ?stops = "private_outstanding_work (thread s t) = 0 \<and> outstanding_work s = 1"
    have "t_status (thread s' t) = Finishing throws ?stops"
      using handler_done_eq [OF t' h p, of throws] d t' by (auto simp: thread_def set_thread_def)
    then have "\<not> ?stops" "\<not> throws" using no e(2) Handler_done by auto
    then show ?thesis using handler_done_eq [OF t' h p, of throws] d s
      by (auto simp: staying_def intro!: set_thread_in_service)
  next
    case Finish_work
    then show ?thesis using app no s
      by (auto simp: finish_work_def work_finished_def in_service_def Let_def split: if_splits)
  next
    case (Thread_stops t)
    then show ?thesis using app at t by (auto simp: thread_stops_def staying_def split: status.splits bool.splits)
  next
    case (Run t)
    then show ?thesis using app at t by (auto simp: sched_run_def staying_def)
  next
    case Called_stop
    then show ?thesis using app s by (simp add: called_stop_def in_service_def)
  next
    case Restart
    then show ?thesis using app s by (auto simp: restart_def in_service_def)
  next
    case (Finish w t)
    then show ?thesis using app s finish_handler_in_service t by auto
  qed (use app s e(2,3) in \<open>auto simp: posts_in_service intro: take_lock_in_service task_done_in_service\<close>)
qed

lemma steps_in_service:
  assumes "in_service s" "books g s" "sched_events es s = Some s'"
    and "list_all in_run es" "Stop \<notin> set es" "work_kept (g - 1) es"
  shows "in_service s'"
  using assms
proof (induction es arbitrary: s g)
  case (Cons e es)
  then obtain r where r: "sched_step e s = Some r" "sched_events es r = Some s'"
    by (auto split: bind_splits)
  have "in_service r" using Cons.prems r(1) by (intro step_in_service [OF Cons.prems(1,2) r(1)]) auto
  moreover have "books (g + held_by e) r" using sched_step_keeps [OF Cons.prems(2) r(1)] by simp
  ultimately show ?case
    using Cons.IH [OF _ _ r(2), of "g + held_by e"] Cons.prems(4-6) by (simp add: algebra_simps)
qed simp

text \<open>
  C32. From the start of a server on, whatever its handlers, the reactor and other threads do in
  whatever order, the thread of its io_context stays in \<open>run\<close> and the io_context is not
  stopped, as long as nobody calls \<open>stop\<close>, no handler throws and the work taken for
  operations is given back no more often than it was taken.
\<close>
theorem context_thread_stays:
  assumes "sched_events (start_context @ es) (new_scheduler False 1) = Some s"
    and "list_all in_run es" "Stop \<notin> set es" "work_kept 0 es"
  shows "\<not> stopped s \<and> t_status (thread s 0) \<notin> {Outside, Leaving}"
proof -
  obtain r where r: "sched_events start_context (new_scheduler False 1) = Some r" "sched_events es r = Some s"
    using assms(1) by (auto simp: start_context_def split: bind_splits)
  have "books 1 r" using sched_events_keep [OF new_books r(1)] by (simp add: start_context_def)
  moreover have "in_service r"
    using r(1) by (auto simp: start_context_def sched_step_def new_scheduler_def work_started_def sched_run_def
        thread_def outside_thread_def set_thread_def in_service_def staying_def)
  ultimately have i: "in_service s" using steps_in_service [OF _ _ r(2)] assms(2-4) by simp
  have "length (threads s) = 1"
    using sched_events_keep [OF new_books assms(1)] by (simp add: new_scheduler_def)
  then have "staying (thread s 0)" using i by (simp add: in_service_def list_all_length thread_def)
  then show ?thesis using i by (simp add: in_service_def staying_def)
qed

lemma context_thread_stays_witness:
  "\<exists>s. sched_events (start_context @ [Take_lock 0 0, Init_task 0, Start_work, Take_lock 0 0, Task_done 0 0 [5],
        Handler_done 0 False, Finish 0 0]) (new_scheduler False 1) = Some s \<and> ran s = [5] \<and> \<not> stopped s"
proof -
  let ?es = "[Take_lock 0 0, Init_task 0, Start_work, Take_lock 0 0, Task_done 0 0 [5], Handler_done 0 False, Finish 0 0]"
  let ?r = "sched_events (start_context @ ?es) (new_scheduler False 1)"
  have "?r \<noteq> None \<and> ran (the ?r) = [5] \<and> list_all in_run ?es \<and> work_kept 0 ?es" by code_simp
  then show ?thesis using context_thread_stays [of ?es "the ?r"] by auto
qed

section \<open>Leaving after stop\<close>

text \<open>
  The step that a thread takes by itself: none while it sleeps, on the event or in a blocking task
  that has not been interrupted.
\<close>

definition own_step :: "nat \<Rightarrow> scheduler \<Rightarrow> sched_event option" where
  "own_step t s =
     (case t_status (thread s t) of
        Ready \<Rightarrow> Some (Take_lock 0 t)
      | Woken \<Rightarrow> Some (Take_lock 0 t)
      | In_task blocks \<Rightarrow> if blocks \<and> \<not> task_signalled s then None else Some (Task_done 0 t [])
      | In_handler _ \<Rightarrow> Some (Handler_done t False)
      | Finishing _ stops \<Rightarrow> Some (if stops then Thread_stops t else Finish 0 t)
      | Leaving \<Rightarrow> Some (Thread_stops t)
      | _ \<Rightarrow> None)"

fun own_steps :: "nat \<Rightarrow> nat \<Rightarrow> scheduler \<Rightarrow> scheduler" where
  "own_steps 0 t s = s"
| "own_steps (Suc k) t s =
     (case Option.bind (own_step t s) (\<lambda>e. sched_step e s) of None \<Rightarrow> s | Some s' \<Rightarrow> own_steps k t s')"

abbreviation out :: "nat \<Rightarrow> scheduler \<Rightarrow> bool" where
  "out t s \<equiv> t_status (thread s t) = Outside"

lemma own_steps_out: "out t s \<Longrightarrow> out t (own_steps k t s)"
  by (cases k) (simp_all add: own_step_def)

lemma run_pass_out: "stopped s \<Longrightarrow> t < length (threads s) \<Longrightarrow> out t (run_pass w t s)"
  by (simp add: run_pass_def thread_set_status)

lemma own_steps_step:
  assumes "t < length (threads s)" "own_step t s = Some e" "event_thread e = Some t" "event_caller e = None"
    and "sched_apply e s = Some s'"
  shows "own_steps (Suc k) t s = own_steps k t s'"
  using assms by (simp add: sched_step_def)

lemma ready_leaves:
  assumes "stopped s" "t < length (threads s)" "t_status (thread s t) = Ready"
  shows "out t (own_steps (Suc k) t s)"
  using assms own_steps_step [of t s "Take_lock 0 t" "run_pass 0 t s" k] own_steps_out [OF run_pass_out]
  by (simp add: own_step_def take_lock_def)

lemma finishing_leaves:
  assumes s: "stopped s" and t: "t < length (threads s)" and st: "t_status (thread s t) = Finishing b False"
  shows "out t (own_steps (Suc (Suc k)) t s)"
proof -
  let ?hs = "private_op_queue (thread s t)"
  let ?s = "push_handlers ?hs (set_thread t (private_op_queue_update (\<lambda>_. [])) s)"
  have r: "stopped ?s" "t < length (threads ?s)" using s t by (simp_all add: sched_frame)
  obtain s' where f: "finish_handler 0 t s = Some s'" and
    s': "s' = set_status t Outside ?s \<or> s' = run_pass 0 t (set_status t Ready ?s) \<or> s' = set_status t Ready ?s"
    using st by (auto simp: finish_handler_def Let_def)
  have "own_steps (Suc (Suc k)) t s = own_steps (Suc k) t s'"
    using t st f by (intro own_steps_step [where e = "Finish 0 t"]) (simp_all add: own_step_def)
  moreover have "out t (set_status t Outside ?s)" using r by (simp add: thread_set_status)
  moreover have "out t (run_pass 0 t (set_status t Ready ?s))" using r by (intro run_pass_out) (simp_all add: sched_frame)
  moreover have "out t (own_steps (Suc k) t (set_status t Ready ?s))"
    using r by (intro ready_leaves) (simp_all add: sched_frame thread_set_status)
  ultimately show ?thesis using s' own_steps_out by metis
qed

lemma stop_all_same:
  "t < length (threads s) \<Longrightarrow> t_status (thread s t) \<noteq> Blocked \<Longrightarrow> thread (stop_all_threads s) t = thread s t"
  by (simp add: stop_all_threads_def interrupt_task_def event_signal_all_def cond_broadcast_def thread_def)

lemma stopping_leaves:
  assumes s: "stopped s" and t: "t < length (threads s)"
    and st: "t_status (thread s t) = Finishing b True \<or> t_status (thread s t) = Leaving"
  shows "out t (own_steps (Suc (Suc (Suc k))) t s)"
proof -
  let ?s = "stop_all_threads s"
  have r: "stopped ?s" "t < length (threads ?s)" using t by (simp_all add: sched_frame)
  have same: "thread ?s t = thread s t" using stop_all_same [OF t] st by auto
  obtain s' where f: "thread_stops t s = Some s'" and
    s': "s' = set_status t Outside ?s \<or> s' = set_status t (Finishing b False) ?s"
    using st by (auto simp: thread_stops_def)
  have "own_steps (Suc (Suc (Suc k))) t s = own_steps (Suc (Suc k)) t s'"
    using t st f by (intro own_steps_step [where e = "Thread_stops t"]) (auto simp: own_step_def)
  moreover have "out t (set_status t Outside ?s)" using r by (simp add: thread_set_status)
  moreover have "out t (own_steps (Suc (Suc k)) t (set_status t (Finishing b False) ?s))"
    using r by (intro finishing_leaves) (simp_all add: sched_frame thread_set_status)
  ultimately show ?thesis using s' own_steps_out by metis
qed

lemma handler_leaves:
  assumes s: "stopped s" and t: "t < length (threads s)" and st: "t_status (thread s t) = In_handler h"
    and p: "0 \<le> private_outstanding_work (thread s t)"
  shows "out t (own_steps (Suc (Suc (Suc (Suc 0)))) t s)"
proof -
  let ?stops = "private_outstanding_work (thread s t) = 0 \<and> outstanding_work s = 1"
  let ?f = "\<lambda>th. th\<lparr>t_status := Finishing False
      (private_outstanding_work th = 0 \<and> outstanding_work s = 1), private_outstanding_work := 0\<rparr>"
  let ?s' = "(set_thread t ?f s)
      \<lparr>outstanding_work := outstanding_work s + (private_outstanding_work (thread s t) - 1)\<rparr>"
  note d = handler_done_eq [OF t st p, of False]
  have "thread ?s' t = thread (set_thread t ?f s) t" by (simp add: thread_def)
  then have r: "stopped ?s'" "t < length (threads ?s')" "t_status (thread ?s' t) = Finishing False ?stops"
    using s t by (simp_all add: sched_frame)
  have "own_steps (Suc (Suc (Suc (Suc 0)))) t s = own_steps (Suc (Suc (Suc 0))) t ?s'"
    using t st d by (intro own_steps_step [where e = "Handler_done t False"]) (simp_all add: own_step_def)
  moreover have "out t (own_steps (Suc (Suc (Suc 0))) t ?s')"
    using stopping_leaves [OF r(1,2), of False 0] finishing_leaves [OF r(1,2), of False "Suc 0"] r(3)
    by (cases ?stops) (simp_all only: simp_thms)
  ultimately show ?thesis by simp
qed

lemma alert_stopped_leaves:
  assumes a: "alert s" and b: "books g s" and s: "stopped s" and t: "t < length (threads s)"
  shows "out t (own_steps (Suc (Suc (Suc (Suc 0)))) t s)"
proof -
  have awake: "\<not> asleep s" "odd (wakeup s)" using a s by (simp_all add: alert_def told_def)
  show ?thesis
  proof (cases "t_status (thread s t)")
    case Outside
    then show ?thesis by (rule own_steps_out)
  next
    case Ready
    then show ?thesis by (rule ready_leaves [OF s t])
  next
    case Blocked
    then have "asleep s" using t some_threadI [of t s "\<lambda>th. t_status th = Blocked"] by (simp add: asleep_def)
    then show ?thesis using awake by simp
  next
    case Woken
    let ?s = "set_status t Ready (s\<lparr>wakeup := wakeup s - 2\<rparr>)"
    have "0 < how_many waiter s" using t Woken by (intro how_many_member [of t]) (simp_all add: waiter_def)
    then have "2 \<le> wakeup s" using a by (auto simp: alert_def sound_def)
    then have odd: "odd (wakeup ?s)" using awake(2) by (simp add: sched_frame)
    have "own_steps (Suc (Suc (Suc (Suc 0)))) t s = own_steps (Suc (Suc (Suc 0))) t (run_pass 0 t ?s)"
      using t Woken odd
      by (intro own_steps_step [where e = "Take_lock 0 t"]) (simp_all add: own_step_def take_lock_def Let_def)
    moreover have "stopped ?s" "t < length (threads ?s)" using s t by (simp_all add: sched_frame)
    ultimately show ?thesis using own_steps_out [OF run_pass_out] by (simp only:)
  next
    case (In_task blocks)
    have "\<not> (blocks \<and> \<not> task_signalled s)"
      using awake(1) t In_task some_threadI [of t s "\<lambda>th. t_status th = In_task True"] by (auto simp: asleep_def)
    then have o: "own_step t s = Some (Task_done 0 t [])" using In_task by (simp add: own_step_def)
    let ?s = "set_status t Ready (task_cleanup t (push_private t 0 [] s))"
    have idle: "idle (thread s t)" using b t In_task by (auto simp: books_def intro: idle_statusI [where b = blocks])
    have r: "stopped ?s" "t < length (threads ?s)"
      unfolding task_cleanup_eq [OF t idle] using s t by (simp_all add: sched_frame)
    have "own_steps (Suc (Suc (Suc (Suc 0)))) t s = own_steps (Suc (Suc (Suc 0))) t (run_pass 0 t ?s)"
      using t In_task by (intro own_steps_step [OF t o]) (simp_all add: task_done_def)
    then show ?thesis using own_steps_out [OF run_pass_out [OF r]] by (simp only:)
  next
    case (In_handler h)
    have "0 \<le> private_outstanding_work (thread s t)"
      using b t threads_ok_thread [of s t] In_handler by (simp add: books_def thread_ok_def)
    then show ?thesis by (rule handler_leaves [OF s t In_handler])
  next
    case (Finishing throws stops)
    then show ?thesis using stopping_leaves [OF s t, of throws] finishing_leaves [OF s t, of throws]
      by (cases stops) (simp_all only: simp_thms)
  next
    case Leaving
    then show ?thesis using stopping_leaves [OF s t] by blast
  qed
qed

text \<open>
  \<open>stop\<close> of a server: the io_context is stopped, its thread is joined, and the idle work is given
  back. The join is four steps of the thread, which are always enough.
\<close>

definition server_stop :: "scheduler \<Rightarrow> scheduler" where
  "server_stop s = finish_work (own_steps 4 0 (stop_all_threads s))"

lemma finish_work_frame: "thread (finish_work s) t = thread s t"
  by (simp_all add: finish_work_def work_finished_def thread_def Let_def)

text \<open>
  C33. Stopping a server ends its thread: whatever the thread is doing in the io_context when the
  server is stopped, four steps of its own, none of which waits for a signal still to come,
  take it out of \<open>run\<close>; so the join returns as soon as the handler that is running returns.
\<close>
theorem server_stop_joins:
  assumes "sched_events (start_context @ es) (new_scheduler False 1) = Some s" "list_all in_run es"
  shows "t_status (thread (server_stop s) 0) = Outside"
proof -
  have run: "list_all in_run (start_context @ es)" using assms(2) by (simp add: start_context_def)
  have b: "books (\<Sum>e\<leftarrow>start_context @ es. held_by e) s" "length (threads s) = 1"
    using sched_events_keep [OF new_books assms(1)] by (simp_all add: new_scheduler_def)
  have "alert s" using sched_events_alert [OF new_alert new_books run assms(1)] .
  then have a: "alert (stop_all_threads s)" by (simp add: alert_def stop_alert [unfolded alert_def])
  have "out 0 (own_steps 4 0 (stop_all_threads s))"
    using alert_stopped_leaves [OF a books_frame(4) [OF b(1)]] b(2) by (simp add: sched_frame eval_nat_numeral)
  then show ?thesis by (simp add: server_stop_def finish_work_frame)
qed

lemma server_stop_joins_witness:
  "\<exists>s. sched_events (start_context @ [Take_lock 0 0, Init_task 0, Take_lock 0 0]) (new_scheduler False 1) = Some s \<and>
       t_status (thread s 0) = In_task True \<and> t_status (thread (server_stop s) 0) = Outside"
proof -
  let ?es = "[Take_lock 0 0, Init_task 0, Take_lock 0 0]"
  let ?r = "sched_events (start_context @ ?es) (new_scheduler False 1)"
  have "?r \<noteq> None \<and> list_all in_run ?es \<and> t_status (thread (the ?r) 0) = In_task True" by code_simp
  then show ?thesis using server_stop_joins [of ?es "the ?r"] by auto
qed

end
