(* ===== verification/V6_Text.thy ===== *)
theory V6_Text
  imports Net_Address
begin

text \<open>
  The text form of IPv6 addresses, as \<open>detail/impl/socket_ops.ipp\<close> spells it out for targets
  without a system call for it: \<open>inet_ntop\<close> prints groups in hexadecimal and replaces the
  first run of zero groups by \<open>::\<close>; \<open>inet_pton\<close> is a state machine over the characters. The
  theory shows that the machine always stops, that it never writes outside its sixteen
  bytes, and that it reads back what was printed.
\<close>

section \<open>Printing\<close>

definition hex_lower :: "nat \<Rightarrow> char" where
  "hex_lower d = (if d < 10 then char_of (48 + d) else char_of (87 + d))"

fun to_hex :: "nat \<Rightarrow> string" where
  "to_hex n = (if n < 16 then [] else to_hex (n div 16)) @ [hex_lower (n mod 16)]"

declare to_hex.simps [simp del]

text \<open>The two bytes at \<open>b\<close> as one group.\<close>

definition group_at :: "u8 list \<Rightarrow> nat \<Rightarrow> nat" where
  "group_at bytes b = or (push_bit 8 (unat (bytes ! b))) (unat (bytes ! (b + 1)))"

definition zero_group :: "u8 list \<Rightarrow> nat \<Rightarrow> bool" where
  "zero_group bytes b = (bytes ! b = 0 \<and> bytes ! (b + 1) = 0)"

function skip_zeros :: "u8 list \<Rightarrow> nat \<Rightarrow> nat" where
  "skip_zeros bytes b = (if b < 16 \<and> zero_group bytes b then skip_zeros bytes (b + 2) else b)"
  by pat_completeness auto
termination by (relation "measure (\<lambda>(_, b). 16 - b)") auto

declare skip_zeros.simps [simp del]

lemma skip_zeros_le: "b \<le> skip_zeros bytes b"
  by (induction bytes b rule: skip_zeros.induct) (subst skip_zeros.simps, auto)

text \<open>The loop, with the room in the buffer, the position and the number of runs replaced.\<close>

function ntop_loop :: "nat \<Rightarrow> u8 list \<Rightarrow> string \<Rightarrow> nat \<Rightarrow> nat \<Rightarrow> string" where
  "ntop_loop room bytes dest b z =
     (if length dest < room \<and> b < 16 then
        if zero_group bytes b \<and> z = 0 then
          let b = skip_zeros bytes (b + 2)
          in ntop_loop room bytes (dest @ '':'' @ (if b < 16 then '''' else '':'')) b (z + 1)
        else
          ntop_loop room bytes
            (dest @ (if b \<noteq> 0 then '':'' else '''') @ to_hex (group_at bytes b)) (b + 2) z
      else dest)"
  by pat_completeness auto
termination
proof (relation "measure (\<lambda>(_, _, _, b, _). 16 - b)")
  fix room bytes dest b z x
  assume "length (dest :: string) < room \<and> b < 16" "x = skip_zeros bytes (b + 2)"
  moreover have "b + 2 \<le> skip_zeros bytes (b + 2)" by (rule skip_zeros_le)
  ultimately have "16 - x < 16 - b" by linarith
  then show "((room, bytes, dest @ '':'' @ (if x < 16 then '''' else '':''), x, z + 1),
      room, bytes, dest, b, z) \<in> measure (\<lambda>(_, _, _, b, _). 16 - b)" by simp
qed auto

declare ntop_loop.simps [simp del]

definition max_addr_v6_str_len :: nat where
  "max_addr_v6_str_len = 256"

definition inet_ntop_v6 :: "u8 list \<Rightarrow> u32 \<Rightarrow> string" where
  "inet_ntop_v6 bytes scope =
     (let dest = ntop_loop max_addr_v6_str_len bytes '''' 0 0
      in if scope \<noteq> 0 then dest @ ''%'' @ to_string (unat scope) else dest)"

section \<open>Reading\<close>

datatype pton_state = Fword | Fcolon | Bword | Scope

text \<open>The character at the pointer; a string ends with a null character.\<close>

definition peek :: "string \<Rightarrow> nat" where
  "peek p = (case p of [] \<Rightarrow> 0 | c # _ \<Rightarrow> of_char c)"

definition xdigit :: "string \<Rightarrow> nat option" where
  "xdigit p =
     (if 48 \<le> peek p \<and> peek p \<le> 57 then Some (peek p - 48)
      else if 97 \<le> peek p \<and> peek p \<le> 102 then Some (peek p - 97 + 10)
      else if 65 \<le> peek p \<and> peek p \<le> 70 then Some (peek p - 65 + 10)
      else None)"

definition group_bytes :: "nat \<Rightarrow> u8 list" where
  "group_bytes w = [word_of_nat (drop_bit 8 w), word_of_nat w]"

text \<open>
  The machine: the state, the rest of the text, the group or scope being read, the bytes
  before and after a \<open>::\<close>. The state \<open>done\<close> is the result, with the scope id where it was
  written; \<open>None\<close> is the error.
\<close>

function pton_loop ::
  "pton_state \<Rightarrow> string \<Rightarrow> nat \<Rightarrow> u8 list \<Rightarrow> u8 list \<Rightarrow> (u8 list \<times> u8 list \<times> nat) option" where
  "pton_loop state p current_word front back =
     (if current_word > 65535 then None
      else case state of
        Fword \<Rightarrow>
          (case xdigit p of
             Some d \<Rightarrow> pton_loop Fword (tl p) (current_word * 16 + d) front back
           | None \<Rightarrow>
               if length front = 16 then None
               else
                 let front = front @ group_bytes current_word
                 in if peek p = 58 then pton_loop Fcolon (tl p) 0 front back
                    else if peek p = 37 then pton_loop Scope (tl p) 0 front back
                    else if peek p = 0 then Some (front, back, 0)
                    else None)
      | Fcolon \<Rightarrow>
          if peek p = 58 then pton_loop Bword (tl p) current_word front back
          else pton_loop Fword p current_word front back
      | Bword \<Rightarrow>
          (case xdigit p of
             Some d \<Rightarrow> pton_loop Bword (tl p) (current_word * 16 + d) front back
           | None \<Rightarrow>
               if length front + length back = 16 then None
               else
                 let back = back @ group_bytes current_word
                 in if peek p = 58 then pton_loop Bword (tl p) 0 front back
                    else if peek p = 37 then pton_loop Scope (tl p) 0 front back
                    else if peek p = 0 then Some (front, back, 0)
                    else None)
      | Scope \<Rightarrow>
          if 48 \<le> peek p \<and> peek p \<le> 57
          then pton_loop Scope (tl p) (current_word * 10 + (peek p - 48)) front back
          else if peek p = 0 then Some (front, back, current_word)
          else None)"
  by pat_completeness auto
termination
proof (relation "measure (\<lambda>(state, p, _). 2 * length p + (if state = Fcolon then 1 else 0))")
qed (auto simp: peek_def xdigit_def split: list.splits if_splits)

declare pton_loop.simps [simp del]

definition inet_pton_v6 :: "string \<Rightarrow> (u8 list \<times> u32) option" where
  "inet_pton_v6 src =
     map_option (\<lambda>(front, back, scope).
       (take (16 - length back) (front @ replicate (16 - length front) 0) @ back, word_of_nat scope))
       (pton_loop Fword src 0 [] [])"

section \<open>The printed text\<close>

definition pair_value :: "u8 \<Rightarrow> u8 \<Rightarrow> nat" where
  "pair_value x y = or (push_bit 8 (unat x)) (unat y)"

lemma pair_value_eq: "pair_value x y = unat x * 256 + unat y"
proof -
  have "\<not> bit (unat y) n" if "8 \<le> n" for n
    using that bit_imp_le_length [of y n] by (auto simp: bit_simps)
  then have "and (push_bit 8 (unat x)) (unat y) = 0"
    by (intro bit_eqI) (auto simp: bit_simps)
  from disjunctive_add_eq_or [OF this] show ?thesis
    by (simp add: pair_value_def push_bit_eq_mult mult.commute)
qed

lemma unat_u8: "unat (x :: u8) < 256"
proof -
  have "unat x < 2 ^ LENGTH(8)" by (rule unsigned_less)
  then show ?thesis by simp
qed

lemma pair_value_less: "pair_value x y < 65536"
  using unat_u8 [of x] unat_u8 [of y] by (simp add: pair_value_eq)

lemma word_of_nat_unat_zero: "x * (256 :: u8) = 0"
proof -
  have "(256 :: u8) = 0" by simp
  then show ?thesis by (metis mult_zero_right)
qed

lemma group_bytes_pair [simp]: "group_bytes (pair_value x y) = [x, y]"
proof -
  have "(unat x * 256 + unat y) div 256 = unat x"
    using unat_u8 [of y] by simp
  moreover have "word_of_nat (unat x * 256 + unat y) = y"
    by (simp add: word_of_nat_unat_zero)
  ultimately show ?thesis by (simp add: group_bytes_def pair_value_eq drop_bit_eq_div)
qed

text \<open>The text of the groups after the first, before and after the run of zeros.\<close>

fun skip_pairs :: "u8 list \<Rightarrow> u8 list" where
  "skip_pairs (x # y # r) = (if x = 0 \<and> y = 0 then skip_pairs r else x # y # r)"
| "skip_pairs r = r"

fun text_after :: "u8 list \<Rightarrow> string" where
  "text_after (x # y # r) = '':'' @ to_hex (pair_value x y) @ text_after r"
| "text_after _ = ''''"

definition run_text :: "u8 list \<Rightarrow> string" where
  "run_text r = '':'' @ (if r = [] then '':'' else '''') @ text_after r"

fun text_before :: "u8 list \<Rightarrow> string" where
  "text_before (x # y # r) =
     (if x = 0 \<and> y = 0 then run_text (skip_pairs r)
      else '':'' @ to_hex (pair_value x y) @ text_before r)"
| "text_before _ = ''''"

fun v6_text :: "u8 list \<Rightarrow> string" where
  "v6_text (x # y # r) =
     (if x = 0 \<and> y = 0 then run_text (skip_pairs r)
      else to_hex (pair_value x y) @ text_before r)"
| "v6_text _ = ''''"

lemma to_hex_length: "n < 65536 \<Longrightarrow> length (to_hex n) \<le> 4"
  by (subst to_hex.simps, subst to_hex.simps, subst to_hex.simps, subst to_hex.simps) auto

lemma even_room: "even b \<Longrightarrow> b < 16 \<Longrightarrow> b + 2 \<le> 16" for b :: nat
  by presburger

lemma drop_pair:
  assumes "length bytes = 16" "even b" "b < 16"
  shows "drop b bytes = bytes ! b # bytes ! (b + 1) # drop (b + 2) bytes"
proof -
  have "b + 1 < 16" using assms by presburger
  with assms show ?thesis by (simp add: Cons_nth_drop_Suc flip: Suc_eq_plus1)
qed

lemma group_at_pair: "group_at bytes b = pair_value (bytes ! b) (bytes ! (b + 1))"
  by (simp add: group_at_def pair_value_def)

lemma group_length: "length (to_hex (group_at bytes b)) \<le> 4"
  unfolding group_at_pair by (intro to_hex_length pair_value_less)

lemma skip_zeros_pairs:
  "length bytes = 16 \<Longrightarrow> even b \<Longrightarrow> b \<le> 16 \<Longrightarrow>
   drop (skip_zeros bytes b) bytes = skip_pairs (drop b bytes) \<and>
   even (skip_zeros bytes b) \<and> skip_zeros bytes b \<le> 16"
proof (induction bytes b rule: skip_zeros.induct)
  case (1 bytes b)
  show ?case
  proof (cases "b < 16 \<and> zero_group bytes b")
    case True
    then have "b + 2 \<le> 16" using "1.prems" by (intro even_room) simp_all
    with True "1.IH" "1.prems" drop_pair [of bytes b] show ?thesis
      by (subst (1 2 3) skip_zeros.simps) (simp add: zero_group_def)
  next
    case False
    then have "skip_zeros bytes b = b" by (subst skip_zeros.simps) auto
    moreover have "skip_pairs (drop b bytes) = drop b bytes"
      using False "1.prems" drop_pair [of bytes b] by (cases "b < 16") (auto simp: zero_group_def)
    ultimately show ?thesis using "1.prems" by simp
  qed
qed

lemma ntop_after:
  "length bytes = 16 \<Longrightarrow> even b \<Longrightarrow> b \<le> 16 \<Longrightarrow> 2 * length dest \<le> 5 * b \<Longrightarrow> 0 < b \<Longrightarrow>
   ntop_loop max_addr_v6_str_len bytes dest b 1 = dest @ text_after (drop b bytes)"
proof (induction "16 - b" arbitrary: b dest rule: less_induct)
  case less
  show ?case
  proof (cases "b < 16")
    case True
    let ?d = "dest @ '':'' @ to_hex (group_at bytes b)"
    have "b + 2 \<le> 16" using True less.prems by (intro even_room)
    then have "ntop_loop max_addr_v6_str_len bytes ?d (b + 2) 1 = ?d @ text_after (drop (b + 2) bytes)"
      using less.prems True group_length [of bytes b] by (intro less.hyps) auto
    moreover have "ntop_loop max_addr_v6_str_len bytes dest b 1 =
        ntop_loop max_addr_v6_str_len bytes ?d (b + 2) 1"
      using True less.prems by (subst ntop_loop.simps) (simp add: max_addr_v6_str_len_def)
    ultimately show ?thesis
      using drop_pair [OF less.prems(1,2) True] by (simp add: group_at_pair)
  next
    case False
    then show ?thesis using less.prems by (subst ntop_loop.simps) simp
  qed
qed

lemma ntop_run:
  assumes "length bytes = 16" "even b" "b < 16" "2 * length dest \<le> 5 * b" "zero_group bytes b"
  shows "ntop_loop max_addr_v6_str_len bytes dest b 0 =
         dest @ run_text (skip_pairs (drop (b + 2) bytes))"
proof -
  let ?b = "skip_zeros bytes (b + 2)"
  let ?d = "dest @ '':'' @ (if ?b < 16 then '''' else '':'')"
  have "b + 2 \<le> 16" by (rule even_room [OF assms(2,3)])
  then have b: "drop ?b bytes = skip_pairs (drop (b + 2) bytes)" "even ?b" "?b \<le> 16"
    using skip_zeros_pairs [of bytes "b + 2"] assms by auto
  have le: "b + 2 \<le> ?b" by (rule skip_zeros_le)
  have all: "skip_pairs (drop (b + 2) bytes) = [] \<longleftrightarrow> \<not> ?b < 16"
    using b(1,3) assms(1) by (metis drop_eq_Nil le_antisym not_le)
  have "2 * length ?d \<le> 5 * ?b" using le assms(4) by simp
  then have "ntop_loop max_addr_v6_str_len bytes ?d ?b 1 = ?d @ text_after (drop ?b bytes)"
    using assms(1) b le by (intro ntop_after) simp_all
  moreover have "ntop_loop max_addr_v6_str_len bytes dest b 0 = ntop_loop max_addr_v6_str_len bytes ?d ?b 1"
    using assms by (subst ntop_loop.simps) (simp add: max_addr_v6_str_len_def Let_def)
  ultimately have *: "ntop_loop max_addr_v6_str_len bytes dest b 0 = ?d @ text_after (drop ?b bytes)"
    by (simp only:)
  show ?thesis
    unfolding * run_text_def all b(1) by (cases "?b < 16") (simp_all only: if_True if_False append.simps append_assoc simp_thms)
qed

lemma ntop_before:
  "length bytes = 16 \<Longrightarrow> even b \<Longrightarrow> b \<le> 16 \<Longrightarrow> 2 * length dest \<le> 5 * b \<Longrightarrow> 0 < b \<Longrightarrow>
   ntop_loop max_addr_v6_str_len bytes dest b 0 = dest @ text_before (drop b bytes)"
proof (induction "16 - b" arbitrary: b dest rule: less_induct)
  case less
  show ?case
  proof (cases "b < 16")
    case True
    note pair = drop_pair [OF less.prems(1,2) True]
    show ?thesis
    proof (cases "zero_group bytes b")
      case zero: True
      then show ?thesis using ntop_run [OF less.prems(1,2) True less.prems(4) zero]
        by (simp add: pair zero_group_def)
    next
      case False
      let ?d = "dest @ '':'' @ to_hex (group_at bytes b)"
      have "b + 2 \<le> 16" using True less.prems by (intro even_room)
      then have "ntop_loop max_addr_v6_str_len bytes ?d (b + 2) 0 = ?d @ text_before (drop (b + 2) bytes)"
        using less.prems True group_length [of bytes b] by (intro less.hyps) auto
      moreover have "ntop_loop max_addr_v6_str_len bytes dest b 0 =
          ntop_loop max_addr_v6_str_len bytes ?d (b + 2) 0"
        using True False less.prems by (subst ntop_loop.simps) (simp add: max_addr_v6_str_len_def)
      ultimately show ?thesis using False by (auto simp: pair group_at_pair zero_group_def)
    qed
  next
    case False
    then show ?thesis using less.prems by (subst ntop_loop.simps) simp
  qed
qed

lemma inet_ntop_v6_text:
  assumes "length bytes = 16"
  shows "inet_ntop_v6 bytes scope =
         v6_text bytes @ (if scope \<noteq> 0 then ''%'' @ to_string (unat scope) else '''')"
proof -
  note pair = drop_pair [OF assms, of 0, simplified]
  have "ntop_loop max_addr_v6_str_len bytes '''' 0 0 = v6_text bytes"
  proof (cases "zero_group bytes 0")
    case True
    then show ?thesis using ntop_run [OF assms, of 0 "''''"] by (subst pair) (simp add: zero_group_def)
  next
    case False
    let ?d = "to_hex (group_at bytes 0)"
    have "ntop_loop max_addr_v6_str_len bytes ?d 2 0 = ?d @ text_before (drop 2 bytes)"
      using assms group_length [of bytes 0] by (intro ntop_before) auto
    moreover have "ntop_loop max_addr_v6_str_len bytes '''' 0 0 = ntop_loop max_addr_v6_str_len bytes ?d 2 0"
      using False by (subst ntop_loop.simps) (simp add: max_addr_v6_str_len_def numeral_2_eq_2)
    ultimately show ?thesis
      using False by (subst pair) (auto simp: group_at_pair zero_group_def numeral_2_eq_2)
  qed
  then show ?thesis by (simp add: inet_ntop_v6_def)
qed

section \<open>Reading back\<close>

named_theorems pton_simps "single steps of the machine"

lemma peek_simps [pton_simps]: "peek [] = 0" "peek (c # r) = of_char c"
  by (simp_all add: peek_def)

lemma xdigit_hex [pton_simps]: "d < 16 \<Longrightarrow> xdigit (hex_lower d # r) = Some d"
  by (auto simp: xdigit_def peek_def hex_lower_def)

lemma xdigit_none [pton_simps]:
  "xdigit [] = None" "xdigit (CHR '':'' # r) = None" "xdigit (CHR ''%'' # r) = None"
  by (simp_all add: xdigit_def peek_def)

lemma pton_fword [pton_simps]:
  "w \<le> 65535 \<Longrightarrow> length f \<noteq> 16 \<Longrightarrow>
   pton_loop Fword (CHR '':'' # r) w f b = pton_loop Fcolon r 0 (f @ group_bytes w) b"
  "w \<le> 65535 \<Longrightarrow> length f \<noteq> 16 \<Longrightarrow>
   pton_loop Fword (CHR ''%'' # r) w f b = pton_loop Scope r 0 (f @ group_bytes w) b"
  "w \<le> 65535 \<Longrightarrow> length f \<noteq> 16 \<Longrightarrow> pton_loop Fword [] w f b = Some (f @ group_bytes w, b, 0)"
  by (subst pton_loop.simps; simp add: pton_simps)+

lemma pton_fcolon [pton_simps]:
  "pton_loop Fcolon (CHR '':'' # r) 0 f b = pton_loop Bword r 0 f b"
  "d < 16 \<Longrightarrow> pton_loop Fcolon (hex_lower d # r) 0 f b = pton_loop Fword (hex_lower d # r) 0 f b"
  by (subst pton_loop.simps; simp add: pton_simps hex_lower_def)+

lemma pton_bword [pton_simps]:
  "w \<le> 65535 \<Longrightarrow> length f + length b \<noteq> 16 \<Longrightarrow>
   pton_loop Bword (CHR '':'' # r) w f b = pton_loop Bword r 0 f (b @ group_bytes w)"
  "w \<le> 65535 \<Longrightarrow> length f + length b \<noteq> 16 \<Longrightarrow>
   pton_loop Bword (CHR ''%'' # r) w f b = pton_loop Scope r 0 f (b @ group_bytes w)"
  "w \<le> 65535 \<Longrightarrow> length f + length b \<noteq> 16 \<Longrightarrow>
   pton_loop Bword [] w f b = Some (f, b @ group_bytes w, 0)"
  by (subst pton_loop.simps; simp add: pton_simps)+

lemma pton_digit:
  assumes "st = Fword \<or> st = Bword" "w \<le> 65535" "d < 16"
  shows "pton_loop st (hex_lower d # r) w f b = pton_loop st r (w * 16 + d) f b"
  using assms by (subst pton_loop.simps) (auto simp: pton_simps)

lemma pton_hex:
  "st = Fword \<or> st = Bword \<Longrightarrow> n \<le> 65535 \<Longrightarrow>
   pton_loop st (to_hex n @ r) 0 f b = pton_loop st r n f b"
proof (induction n arbitrary: r rule: to_hex.induct)
  case (1 n)
  have step: "pton_loop st (hex_lower (n mod 16) # r) (n div 16) f b = pton_loop st r n f b"
    using pton_digit [of st "n div 16" "n mod 16" r f b] "1.prems" by simp
  show ?case
  proof (cases "n < 16")
    case True
    then show ?thesis using step by (subst to_hex.simps) simp
  next
    case False
    then show ?thesis using "1.IH" [OF False "1.prems"(1)] "1.prems"(2) step
      by (subst to_hex.simps) simp
  qed
qed

lemma pton_hex_start:
  assumes "n \<le> 65535"
  shows "pton_loop Fcolon (to_hex n @ r) 0 f b = pton_loop Fword (to_hex n @ r) 0 f b"
proof -
  obtain d s where "to_hex n = hex_lower d # s" "d < 16"
  proof (induction n rule: to_hex.induct)
    case (1 n)
    show ?case
    proof (cases "n < 16")
      case True
      show ?thesis by (rule 1(2) [of n "[]"]) (use True in \<open>subst to_hex.simps, simp\<close>, use True in simp)
    next
      case False
      show ?thesis
        by (rule 1(1) [OF False]) (rule 1(2) [rotated], assumption, subst to_hex.simps, simp add: False)
    qed
  qed
  then show ?thesis by (simp add: pton_simps)
qed

text \<open>The scope: at most the 65535 that the machine lets any number grow to.\<close>

definition scope_text :: "nat \<Rightarrow> string" where
  "scope_text s = (if s \<noteq> 0 then ''%'' @ to_string s else '''')"

lemma pton_scope_digit:
  assumes "w \<le> 65535" "d < 10"
  shows "pton_loop Scope (digit_char d # r) w f b = pton_loop Scope r (w * 10 + d) f b"
  using assms by (subst pton_loop.simps) (simp add: peek_def of_char_digit)

lemma pton_scope:
  "n \<le> 65535 \<Longrightarrow> pton_loop Scope (to_string n @ r) 0 f b = pton_loop Scope r n f b"
proof (induction n arbitrary: r rule: to_string.induct)
  case (1 n)
  have step: "pton_loop Scope (digit_char (n mod 10) # r) (n div 10) f b = pton_loop Scope r n f b"
    using pton_scope_digit [of "n div 10" "n mod 10" r f b] "1.prems" by simp
  show ?case
  proof (cases "n < 10")
    case True
    then show ?thesis using step by (subst to_string.simps) simp
  next
    case False
    then show ?thesis using "1.IH" [OF False] "1.prems" step by (subst to_string.simps) simp
  qed
qed

lemma pton_scope_end: "n \<le> 65535 \<Longrightarrow> pton_loop Scope [] n f b = Some (f, b, n)"
  by (subst pton_loop.simps) (simp add: peek_def)

lemma pton_end:
  "w \<le> 65535 \<Longrightarrow> length f \<noteq> 16 \<Longrightarrow> s \<le> 65535 \<Longrightarrow>
   pton_loop Fword (scope_text s) w f b = Some (f @ group_bytes w, b, s)"
  "w \<le> 65535 \<Longrightarrow> length f + length b \<noteq> 16 \<Longrightarrow> s \<le> 65535 \<Longrightarrow>
   pton_loop Bword (scope_text s) w f b = Some (f, b @ group_bytes w, s)"
  using pton_scope [of s "[]"] by (auto simp: scope_text_def pton_simps pton_scope_end)

lemma length_group_bytes [simp]: "length (group_bytes w) = 2"
  by (simp add: group_bytes_def)

lemma pair_value_le: "pair_value x y \<le> 65535"
  using pair_value_less [of x y] by simp

lemma pton_after:
  "w \<le> 65535 \<Longrightarrow> length f + length b + 2 + length r \<le> 16 \<Longrightarrow> even (length r) \<Longrightarrow> s \<le> 65535 \<Longrightarrow>
   pton_loop Bword (text_after r @ scope_text s) w f b = Some (f, b @ group_bytes w @ r, s)"
proof (induction r arbitrary: w b rule: text_after.induct)
  case (1 x y r)
  then show ?case using pton_hex [of Bword "pair_value x y"] pair_value_le [of x y]
    by (simp add: pton_simps)
qed (auto simp: pton_end)

lemma pton_run:
  assumes "w \<le> 65535" "length f + 2 + length r \<le> 16" "length f \<le> 12" "even (length r)" "s \<le> 65535"
  shows "pton_loop Fword (run_text r @ scope_text s) w f [] =
         Some (f @ group_bytes w, if r = [] then group_bytes 0 else r, s)"
proof (cases r rule: text_after.cases)
  case (1 x y r')
  then show ?thesis
    using assms pton_hex [of Bword "pair_value x y"] pair_value_le [of x y]
    by (simp add: run_text_def pton_simps pton_after)
qed (use assms in \<open>auto simp: run_text_def pton_simps pton_end\<close>)

lemma skip_pairs_zeros:
  "even (length r) \<Longrightarrow> \<exists>k. r = replicate k 0 @ skip_pairs r \<and> even (length (skip_pairs r))"
proof (induction r rule: skip_pairs.induct)
  case (1 x y r)
  show ?case
  proof (cases "x = 0 \<and> y = 0")
    case True
    with 1 obtain k where "r = replicate k 0 @ skip_pairs r" "even (length (skip_pairs r))" by auto
    with True show ?thesis by (intro exI [of _ "Suc (Suc k)"]) simp
  next
    case False
    with 1 show ?thesis by (intro exI [of _ 0]) auto
  qed
qed (auto intro: exI [of _ 0])

text \<open>What the sixteen bytes are filled with.\<close>

definition filled :: "u8 list \<Rightarrow> u8 list \<Rightarrow> u8 list" where
  "filled front back = take (16 - length back) (front @ replicate (16 - length front) 0) @ back"

lemma filled_run:
  assumes "length f + k + length r = 16" "r = [] \<Longrightarrow> 2 \<le> k"
  shows "filled f (if r = [] then group_bytes 0 else r) = f @ replicate k 0 @ r"
proof (cases "r = []")
  case True
  then have "replicate k 0 = replicate (k - 2) 0 @ replicate 2 (0 :: u8)"
    using assms(2) by (metis le_add_diff_inverse2 replicate_add)
  moreover have "replicate 2 (0 :: u8) = group_bytes 0"
    by (simp add: group_bytes_def numeral_2_eq_2)
  ultimately have "replicate k 0 = replicate (k - 2) 0 @ group_bytes 0" by (simp only:)
  then show ?thesis
    using True assms by (simp add: filled_def)
next
  case False
  then show ?thesis using assms(1) by (simp add: filled_def)
qed

lemma filled_all: "length f = 16 \<Longrightarrow> filled f [] = f"
  by (simp add: filled_def)

lemma pton_before:
  "w \<le> 65535 \<Longrightarrow> length f + 2 + length r = 16 \<Longrightarrow> even (length r) \<Longrightarrow> s \<le> 65535 \<Longrightarrow>
   \<exists>f' b'. pton_loop Fword (text_before r @ scope_text s) w f [] = Some (f', b', s) \<and>
     filled f' b' = f @ group_bytes w @ r"
proof (induction r arbitrary: w f rule: text_before.induct)
  case (1 x y r)
  show ?case
  proof (cases "x = 0 \<and> y = 0")
    case True
    obtain k where k: "r = replicate k 0 @ skip_pairs r" "even (length (skip_pairs r))"
      using skip_pairs_zeros [of r] 1 by auto
    then have len: "length r = k + length (skip_pairs r)" by (metis length_append length_replicate)
    have "pton_loop Fword (text_before (x # y # r) @ scope_text s) w f [] =
        Some (f @ group_bytes w, if skip_pairs r = [] then group_bytes 0 else skip_pairs r, s)"
      using True 1(2-) len k(2) by (simp add: pton_run)
    moreover have "filled (f @ group_bytes w) (if skip_pairs r = [] then group_bytes 0 else skip_pairs r) =
        (f @ group_bytes w) @ replicate (k + 2) 0 @ skip_pairs r"
      using filled_run [of "f @ group_bytes w" "k + 2" "skip_pairs r"] 1(3) len k(2) by simp
    ultimately show ?thesis using True k(1) by simp
  next
    case False
    have "pton_loop Fword (text_before (x # y # r) @ scope_text s) w f [] =
        pton_loop Fword (text_before r @ scope_text s) (pair_value x y) (f @ group_bytes w) []"
      using False 1(2,3) pton_hex [of Fword "pair_value x y"] pair_value_le [of x y]
      by (auto simp: pton_simps pton_hex_start)
    with 1(1) [OF False pair_value_le, of "f @ group_bytes w"] 1(3-) show ?thesis by simp
  qed
qed (auto simp: pton_end filled_all)

text \<open>
  For all sixteen bytes and every scope id up to 65535, \<open>inet_pton\<close> gives from what
  \<open>inet_ntop\<close> has printed exactly those bytes and that scope.
\<close>

lemma inet_pton_ntop_v6:
  assumes "length bytes = 16" "scope \<le> 65535"
  shows "inet_pton_v6 (inet_ntop_v6 bytes scope) = Some (bytes, scope)"
proof -
  have s: "unat scope \<le> 65535" using assms(2) by (simp add: word_le_nat_alt)
  have printed: "inet_ntop_v6 bytes scope = v6_text bytes @ scope_text (unat scope)"
    using inet_ntop_v6_text [OF assms(1)] by (simp add: scope_text_def unat_eq_zero)
  obtain x y r where b: "bytes = x # y # r" using assms(1) by (auto simp: length_Suc_conv numeral_eq_Suc)
  have "\<exists>f' b'. pton_loop Fword (v6_text bytes @ scope_text (unat scope)) 0 [] [] = Some (f', b', unat scope) \<and>
      filled f' b' = bytes"
  proof (cases "x = 0 \<and> y = 0")
    case True
    obtain k where k: "r = replicate k 0 @ skip_pairs r" "even (length (skip_pairs r))"
      using skip_pairs_zeros [of r] assms b by auto
    then have len: "length r = k + length (skip_pairs r)" by (metis length_append length_replicate)
    have "filled (group_bytes 0) (if skip_pairs r = [] then group_bytes 0 else skip_pairs r) =
        group_bytes 0 @ replicate k 0 @ skip_pairs r"
      using len assms(1) by (intro filled_run) (auto simp: b)
    moreover have "group_bytes 0 @ r = bytes" using True by (simp add: b group_bytes_def)
    moreover have "pton_loop Fword (v6_text bytes @ scope_text (unat scope)) 0 [] [] =
        Some (group_bytes 0, if skip_pairs r = [] then group_bytes 0 else skip_pairs r, unat scope)"
      using True len assms(1) k(2) s pton_run [of 0 "[]" "skip_pairs r" "unat scope"] by (simp add: b)
    ultimately show ?thesis using k(1) by simp
  next
    case False
    then show ?thesis
      using pton_before [of "pair_value x y" "[]" r "unat scope"] pton_hex [of Fword "pair_value x y"]
        pair_value_le [of x y] s assms(1)
      by (auto simp: b)
  qed
  then show ?thesis unfolding inet_pton_v6_def printed by (auto simp: filled_def)
qed

text \<open>The machine never writes outside its sixteen bytes, whatever the text.\<close>

definition in_room :: "pton_state \<Rightarrow> u8 list \<Rightarrow> u8 list \<Rightarrow> bool" where
  "in_room state f b \<longleftrightarrow> length f + length b \<le> 16 \<and> even (length f) \<and> even (length b) \<and>
     (state = Fword \<or> state = Fcolon \<longrightarrow> b = [])"

lemma in_room_front:
  "in_room Fword f b \<Longrightarrow> length f \<noteq> 16 \<Longrightarrow> st = Fcolon \<or> st = Scope \<Longrightarrow> in_room st (f @ group_bytes w) b"
  using even_room [of "length f"] by (auto simp: in_room_def)

lemma in_room_back:
  "in_room Bword f b \<Longrightarrow> length f + length b \<noteq> 16 \<Longrightarrow> st = Bword \<or> st = Scope \<Longrightarrow>
   in_room st f (b @ group_bytes w)"
  using even_room [of "length f + length b"] by (auto simp: in_room_def)

lemma in_room_mono: "in_room Fcolon f b \<Longrightarrow> in_room st f b"
  by (auto simp: in_room_def)

lemma pton_loop_room:
  "pton_loop state p w f b = Some (f', b', s) \<Longrightarrow> in_room state f b \<Longrightarrow> in_room Scope f' b'"
proof (induction state p w f b rule: pton_loop.induct)
  case (1 state p w f b)
  note step = "1.prems"(1) [unfolded pton_loop.simps [of state p w f b]]
  show ?case
  proof (cases "w > 65535")
    case False
    show ?thesis
    proof (cases state)
      case Fword
      with "1.prems"(2) have room: "length f \<noteq> 16 \<Longrightarrow> st = Fcolon \<or> st = Scope \<Longrightarrow> in_room st (f @ group_bytes w) b" for st
        by (simp add: in_room_front)
      show ?thesis
        using step False Fword "1.IH"(1-3) "1.prems"(2) room
        by (cases "xdigit p") (auto simp: Let_def split: if_splits)
    next
      case Fcolon
      with "1.prems"(2) have "in_room st f b" for st by (simp add: in_room_mono)
      with step False Fcolon "1.IH"(4,5) show ?thesis by (auto split: if_splits)
    next
      case Bword
      with "1.prems"(2) have room: "length f + length b \<noteq> 16 \<Longrightarrow> st = Bword \<or> st = Scope \<Longrightarrow>
          in_room st f (b @ group_bytes w)" for st
        by (simp add: in_room_back)
      show ?thesis
        using step False Bword "1.IH"(6-8) "1.prems"(2) room
        by (cases "xdigit p") (auto simp: Let_def split: if_splits)
    next
      case Scope
      show ?thesis using step False Scope "1.IH"(9) "1.prems"(2) by (auto split: if_splits)
    qed
  qed (use step in simp)
qed

lemma inet_pton_v6_length: "inet_pton_v6 src = Some (bytes, scope) \<Longrightarrow> length bytes = 16"
  using pton_loop_room [of Fword src 0 "[]" "[]"]
  by (auto simp: inet_pton_v6_def in_room_def)
end
