(* ===== verification/Address_V6.thy ===== *)
theory Address_V6
  imports V6_Text "HOL-Library.List_Lexorder"
begin

text \<open>
  \<open>asio::ip::address_v6\<close> (\<open>ip/impl/address_v6.ipp\<close>) and the iterator over such addresses
  (\<open>ip/address_v6_iterator.hpp\<close>): sixteen bytes in network order and a scope id, the classes of
  addresses, the order, the IPv4 addresses mapped into them, and the text.
\<close>

section \<open>The address\<close>

datatype address_v6 = Address_V6 (s6_addr: "u8 list") (scope_id: u32)

definition v6_wf :: "address_v6 \<Rightarrow> bool" where
  "v6_wf a \<longleftrightarrow> length (s6_addr a) = 16"

definition v6_any :: address_v6 where
  "v6_any = Address_V6 (replicate 16 0) 0"

definition v6_from_bytes :: "u8 list \<Rightarrow> u32 \<Rightarrow> address_v6" where
  "v6_from_bytes bytes scope = Address_V6 bytes scope"

definition v6_to_bytes :: "address_v6 \<Rightarrow> u8 list" where
  "v6_to_bytes a = s6_addr a"

definition v6_to_string :: "address_v6 \<Rightarrow> string" where
  "v6_to_string a = inet_ntop_v6 (s6_addr a) (scope_id a)"

definition v6_loopback :: address_v6 where
  "v6_loopback = (let tmp = v6_any in Address_V6 ((s6_addr tmp)[15 := 1]) (scope_id tmp))"

text \<open>Text: \<open>None\<close> where \<open>make_address_v6\<close> throws, or sets the error code.\<close>

definition make_address_v6 :: "string \<Rightarrow> address_v6 option" where
  "make_address_v6 str = map_option (\<lambda>(bytes, scope). v6_from_bytes bytes scope) (inet_pton_v6 str)"

section \<open>Classes of addresses\<close>

text \<open>The first bytes are all zero: the long conjunctions of the code.\<close>

definition zero_to :: "nat \<Rightarrow> address_v6 \<Rightarrow> bool" where
  "zero_to n a \<longleftrightarrow> list_all (\<lambda>i. s6_addr a ! i = 0) [0..<n]"

definition v6_is_loopback :: "address_v6 \<Rightarrow> bool" where
  "v6_is_loopback a \<longleftrightarrow> zero_to 15 a \<and> s6_addr a ! 15 = 1"

definition v6_is_unspecified :: "address_v6 \<Rightarrow> bool" where
  "v6_is_unspecified a \<longleftrightarrow> zero_to 16 a"

definition v6_is_link_local :: "address_v6 \<Rightarrow> bool" where
  "v6_is_link_local a \<longleftrightarrow> s6_addr a ! 0 = 0xfe \<and> and (s6_addr a ! 1) 0xc0 = 0x80"

definition v6_is_site_local :: "address_v6 \<Rightarrow> bool" where
  "v6_is_site_local a \<longleftrightarrow> s6_addr a ! 0 = 0xfe \<and> and (s6_addr a ! 1) 0xc0 = 0xc0"

definition v6_is_v4_mapped :: "address_v6 \<Rightarrow> bool" where
  "v6_is_v4_mapped a \<longleftrightarrow> zero_to 10 a \<and> s6_addr a ! 10 = 0xff \<and> s6_addr a ! 11 = 0xff"

definition v6_is_v4_compatible :: "address_v6 \<Rightarrow> bool" where
  "v6_is_v4_compatible a \<longleftrightarrow> zero_to 12 a \<and>
     \<not> (s6_addr a ! 12 = 0 \<and> s6_addr a ! 13 = 0 \<and> s6_addr a ! 14 = 0 \<and>
        (s6_addr a ! 15 = 0 \<or> s6_addr a ! 15 = 1))"

definition v6_is_multicast :: "address_v6 \<Rightarrow> bool" where
  "v6_is_multicast a \<longleftrightarrow> s6_addr a ! 0 = 0xff"

definition v6_is_multicast_global :: "address_v6 \<Rightarrow> bool" where
  "v6_is_multicast_global a \<longleftrightarrow> s6_addr a ! 0 = 0xff \<and> and (s6_addr a ! 1) 0x0f = 0x0e"

definition v6_is_multicast_link_local :: "address_v6 \<Rightarrow> bool" where
  "v6_is_multicast_link_local a \<longleftrightarrow> s6_addr a ! 0 = 0xff \<and> and (s6_addr a ! 1) 0x0f = 0x02"

definition v6_is_multicast_node_local :: "address_v6 \<Rightarrow> bool" where
  "v6_is_multicast_node_local a \<longleftrightarrow> s6_addr a ! 0 = 0xff \<and> and (s6_addr a ! 1) 0x0f = 0x01"

definition v6_is_multicast_org_local :: "address_v6 \<Rightarrow> bool" where
  "v6_is_multicast_org_local a \<longleftrightarrow> s6_addr a ! 0 = 0xff \<and> and (s6_addr a ! 1) 0x0f = 0x08"

definition v6_is_multicast_site_local :: "address_v6 \<Rightarrow> bool" where
  "v6_is_multicast_site_local a \<longleftrightarrow> s6_addr a ! 0 = 0xff \<and> and (s6_addr a ! 1) 0x0f = 0x05"

section \<open>IPv4 addresses inside\<close>

definition v6_v4_mapped :: "address_v4 \<Rightarrow> address_v6" where
  "v6_v4_mapped addr =
     (let v4_bytes = v4_to_bytes addr
      in v6_from_bytes ([0, 0, 0, 0, 0, 0, 0, 0, 0, 0, 0xFF, 0xFF,
           v4_bytes ! 0, v4_bytes ! 1, v4_bytes ! 2, v4_bytes ! 3]) 0)"

definition v6_v4_compatible :: "address_v4 \<Rightarrow> address_v6" where
  "v6_v4_compatible addr =
     (let v4_bytes = v4_to_bytes addr
      in v6_from_bytes ([0, 0, 0, 0, 0, 0, 0, 0, 0, 0, 0, 0,
           v4_bytes ! 0, v4_bytes ! 1, v4_bytes ! 2, v4_bytes ! 3]) 0)"

text \<open>\<open>None\<close> where the casts throw \<open>bad_address_cast\<close>.\<close>

definition v6_to_v4 :: "address_v6 \<Rightarrow> address_v4 option" where
  "v6_to_v4 a =
     (if \<not> v6_is_v4_mapped a \<and> \<not> v6_is_v4_compatible a then None
      else Some (v4_from_bytes
             [s6_addr a ! 12, s6_addr a ! 13, s6_addr a ! 14, s6_addr a ! 15]))"

definition make_address_v4_mapped :: "address_v6 \<Rightarrow> address_v4 option" where
  "make_address_v4_mapped a =
     (if \<not> v6_is_v4_mapped a then None
      else let v6_bytes = v6_to_bytes a
           in Some (v4_from_bytes [v6_bytes ! 12, v6_bytes ! 13, v6_bytes ! 14, v6_bytes ! 15]))"

definition make_address_v6_mapped :: "address_v4 \<Rightarrow> address_v6" where
  "make_address_v6_mapped v4_addr =
     (let v4_bytes = v4_to_bytes v4_addr
      in v6_from_bytes ([0, 0, 0, 0, 0, 0, 0, 0, 0, 0,
           0xFF, 0xFF, v4_bytes ! 0, v4_bytes ! 1, v4_bytes ! 2, v4_bytes ! 3]) 0)"

section \<open>The order\<close>

text \<open>\<open>memcmp\<close>: the first byte that differs decides.\<close>

fun memcmp :: "u8 list \<Rightarrow> u8 list \<Rightarrow> int" where
  "memcmp (x # xs) (y # ys) = (if x < y then - 1 else if y < x then 1 else memcmp xs ys)"
| "memcmp [] (y # ys) = - 1"
| "memcmp (x # xs) [] = 1"
| "memcmp [] [] = 0"

definition v6_equal :: "address_v6 \<Rightarrow> address_v6 \<Rightarrow> bool" where
  "v6_equal a1 a2 \<longleftrightarrow> memcmp (s6_addr a1) (s6_addr a2) = 0 \<and> scope_id a1 = scope_id a2"

lemma memcmp_zero [simp]: "memcmp xs ys = 0 \<longleftrightarrow> xs = ys"
  by (induction xs ys rule: memcmp.induct) auto

lemma memcmp_less: "memcmp xs ys < 0 \<longleftrightarrow> xs < ys"
  by (induction xs ys rule: memcmp.induct) auto

lemma memcmp_greater: "0 < memcmp xs ys \<longleftrightarrow> ys < xs"
  by (induction xs ys rule: memcmp.induct) auto

lemma v6_equal_eq [simp]: "v6_equal a b \<longleftrightarrow> a = b"
  by (cases a; cases b) (simp add: v6_equal_def)

definition v6_less :: "address_v6 \<Rightarrow> address_v6 \<Rightarrow> bool" where
  "v6_less a1 a2 =
     (let memcmp_result = memcmp (s6_addr a1) (s6_addr a2)
      in if memcmp_result < 0 then True
         else if 0 < memcmp_result then False
         else scope_id a1 < scope_id a2)"

instantiation address_v6 :: linorder
begin

definition less_address_v6 :: "address_v6 \<Rightarrow> address_v6 \<Rightarrow> bool" where
  "less_address_v6 = v6_less"

definition less_eq_address_v6 :: "address_v6 \<Rightarrow> address_v6 \<Rightarrow> bool" where
  "less_eq_address_v6 a1 a2 = (\<not> a2 < a1)"

instance
proof
  fix x y z :: address_v6
  note defs = less_address_v6_def v6_less_def less_eq_address_v6_def Let_def memcmp_less memcmp_greater
  show "(x < y) = (x \<le> y \<and> \<not> y \<le> x)" "x \<le> x" "x \<le> y \<or> y \<le> x"
    by (auto simp: defs split: if_splits)
  show "x \<le> y \<Longrightarrow> y \<le> z \<Longrightarrow> x \<le> z"
    by (force simp: defs not_less split: if_splits)
  show "x \<le> y \<Longrightarrow> y \<le> x \<Longrightarrow> x = y"
    by (auto simp: defs not_less address_v6.expand split: if_splits)
qed

end

section \<open>The iterator\<close>

fun inc_bytes :: "nat \<Rightarrow> u8 list \<Rightarrow> u8 list" where
  "inc_bytes 0 bytes = bytes"
| "inc_bytes (Suc i) bytes =
     (if bytes ! i < 0xFF then bytes[i := bytes ! i + 1] else inc_bytes i (bytes[i := 0]))"

fun dec_bytes :: "nat \<Rightarrow> u8 list \<Rightarrow> u8 list" where
  "dec_bytes 0 bytes = bytes"
| "dec_bytes (Suc i) bytes =
     (if 0 < bytes ! i then bytes[i := bytes ! i - 1] else dec_bytes i (bytes[i := 0xFF]))"

definition v6_next :: "address_v6 \<Rightarrow> address_v6" where
  "v6_next a = Address_V6 (inc_bytes 16 (s6_addr a)) (scope_id a)"

definition v6_prev :: "address_v6 \<Rightarrow> address_v6" where
  "v6_prev a = Address_V6 (dec_bytes 16 (s6_addr a)) (scope_id a)"

text \<open>The bytes as one number of 128 bits.\<close>

definition bytes_value :: "u8 list \<Rightarrow> nat" where
  "bytes_value bs = foldl (\<lambda>v b. 256 * v + unat b) 0 bs"

lemma bytes_value_snoc [simp]: "bytes_value (bs @ [b]) = 256 * bytes_value bs + unat b"
  by (simp add: bytes_value_def)

lemma bytes_value_Nil [simp]: "bytes_value [] = 0"
  by (simp add: bytes_value_def)

lemma bytes_value_less: "bytes_value bs < 256 ^ length bs"
proof (induction bs rule: rev_induct)
  case (snoc b bs)
  have "256 * bytes_value bs + unat b < 256 * (bytes_value bs + 1)"
    using unat_u8 [of b] by simp
  also have "\<dots> \<le> 256 * 256 ^ length bs" using snoc by (intro mult_le_mono2) simp
  finally show ?case by simp
qed simp

lemma byte_inject:
  "256 * v + unat (a :: u8) = 256 * w + unat (b :: u8) \<longleftrightarrow> v = w \<and> a = b"
proof
  assume eq: "256 * v + unat a = 256 * w + unat b"
  then have "(256 * v + unat a) div 256 = (256 * w + unat b) div 256" by (simp only:)
  then have "v = w" using unat_u8 [of a] unat_u8 [of b] by simp
  with eq show "v = w \<and> a = b" by (simp add: word_unat_eq_iff)
qed simp

lemma bytes_value_inject:
  "length as = length bs \<Longrightarrow> bytes_value as = bytes_value bs \<longleftrightarrow> as = bs"
proof (induction as arbitrary: bs rule: rev_induct)
  case (snoc a as)
  then obtain bs' b where bs: "bs = bs' @ [b]" "length as = length bs'"
    by (cases bs rule: rev_cases) auto
  note byte_inject [of "bytes_value as" a "bytes_value bs'" b]
  with snoc.IH [OF bs(2)] show ?case by (simp add: bs)
qed simp

lemma inc_bytes_suffix:
  "n \<le> length bs \<Longrightarrow> inc_bytes n (bs @ r) = inc_bytes n bs @ r"
  by (induction n arbitrary: bs) (auto simp: nth_append list_update_append)

lemma dec_bytes_suffix:
  "n \<le> length bs \<Longrightarrow> dec_bytes n (bs @ r) = dec_bytes n bs @ r"
  by (induction n arbitrary: bs) (auto simp: nth_append list_update_append)

lemma length_inc_bytes [simp]: "length (inc_bytes n bs) = length bs"
  by (induction n arbitrary: bs) auto

lemma length_dec_bytes [simp]: "length (dec_bytes n bs) = length bs"
  by (induction n arbitrary: bs) auto

lemma inc_bytes_value:
  "bytes_value (inc_bytes (length bs) bs) = (bytes_value bs + 1) mod 256 ^ length bs"
proof (induction bs rule: rev_induct)
  case (snoc b bs)
  let ?v = "bytes_value bs" and ?m = "256 ^ length bs :: nat"
  show ?case
  proof (cases "b < 255")
    case True
    then have "unat b < 255" by (simp add: word_less_nat_alt)
    then have "unat (b + 1) = unat b + 1" by (simp add: unat_word_ariths)
    moreover have "256 * ?v + unat b + 1 < 256 * ?m"
      using bytes_value_less [of bs] \<open>unat b < 255\<close> by linarith
    ultimately show ?thesis using True by simp
  next
    case False
    then have b: "unat b = 255" using unat_u8 [of b] by (simp add: word_less_nat_alt)
    have "bytes_value (inc_bytes (length (bs @ [b])) (bs @ [b])) = 256 * ((?v + 1) mod ?m)"
      using False snoc by (simp add: inc_bytes_suffix)
    also have "\<dots> = (256 * ?v + unat b + 1) mod (256 * ?m)"
      by (simp add: b mult_mod_right)
    finally show ?thesis by simp
  qed
qed simp

lemma mod_pred: "0 < x \<Longrightarrow> x < m \<Longrightarrow> (x + (m - 1)) mod m = x - 1" for x :: nat
proof -
  assume "0 < x" "x < m"
  then have "x + (m - 1) = (x - 1) + m" by linarith
  with \<open>x < m\<close> show ?thesis by (simp only: mod_add_self2) simp
qed

lemma dec_bytes_value:
  "bytes_value (dec_bytes (length bs) bs) = (bytes_value bs + (256 ^ length bs - 1)) mod 256 ^ length bs"
proof (induction bs rule: rev_induct)
  case (snoc b bs)
  let ?v = "bytes_value bs" and ?m = "256 ^ length bs :: nat"
  have m: "0 < ?m" by simp
  show ?case
  proof (cases "0 < b")
    case True
    then have b: "0 < unat b" by (simp add: word_less_nat_alt)
    then have "unat (b - 1) = unat b - 1" using unat_sub [of 1 b] by (simp add: word_le_nat_alt)
    then have "bytes_value (dec_bytes (length (bs @ [b])) (bs @ [b])) = bytes_value (bs @ [b]) - 1"
      using True b by simp
    moreover have "0 < bytes_value (bs @ [b])" using b by simp
    ultimately show ?thesis using mod_pred [OF _ bytes_value_less [of "bs @ [b]"]] by (simp only:)
  next
    case False
    then have b: "b = 0" by (simp add: word_gt_0)
    have "bytes_value (dec_bytes (length (bs @ [b])) (bs @ [b])) = 256 * ((?v + (?m - 1)) mod ?m) + 255"
      using False snoc by (simp add: dec_bytes_suffix)
    also have "\<dots> = (256 * (?v + (?m - 1)) + 255) mod (256 * ?m)"
      unfolding mod_mult2_eq [of _ 256 ?m] by simp
    also have "256 * (?v + (?m - 1)) + 255 = 256 * ?v + (256 * ?m - 1)"
    proof -
      obtain k where k: "?m = Suc k" using m by (cases ?m) auto
      show ?thesis unfolding k by simp
    qed
    finally show ?thesis by (simp add: b)
  qed
qed simp

lemma inc_dec_value:
  assumes "length bs = n"
  shows "dec_bytes n (inc_bytes n bs) = bs" "inc_bytes n (dec_bytes n bs) = bs"
proof -
  have "(k + 1 + (m - 1)) mod m = k" "(k + (m - 1) + 1) mod m = k" if "k < m" for k m :: nat
    using that by (simp_all add: mod_add_left_eq)
  then have "bytes_value (dec_bytes n (inc_bytes n bs)) = bytes_value bs"
    "bytes_value (inc_bytes n (dec_bytes n bs)) = bytes_value bs"
    using assms inc_bytes_value [of bs] dec_bytes_value [of bs] bytes_value_less [of bs]
      inc_bytes_value [of "dec_bytes n bs"] dec_bytes_value [of "inc_bytes n bs"]
    by (simp_all only: length_inc_bytes length_dec_bytes mod_add_left_eq)
  then show "dec_bytes n (inc_bytes n bs) = bs" "inc_bytes n (dec_bytes n bs) = bs"
    using bytes_value_inject [of _ bs] assms by auto
qed

lemma bytes_less_value:
  "length as = length bs \<Longrightarrow> as < bs \<longleftrightarrow> bytes_value as < bytes_value bs"
  for as bs :: "u8 list"
proof (induction as arbitrary: bs rule: rev_induct)
  case (snoc a as)
  then obtain bs' b where bs: "bs = bs' @ [b]" "length as = length bs'"
    by (cases bs rule: rev_cases) auto
  have "256 * bytes_value as + unat a < 256 * bytes_value bs' + unat b \<longleftrightarrow>
      bytes_value as < bytes_value bs' \<or> bytes_value as = bytes_value bs' \<and> unat a < unat b"
    using unat_u8 [of a] unat_u8 [of b] by linarith
  moreover have "as @ [a] < bs' @ [b] \<longleftrightarrow> as < bs' \<or> as = bs' \<and> a < b"
    using bs(2) by (induction as bs' rule: list_induct2) auto
  ultimately show ?case
    using snoc.IH [OF bs(2)] bytes_value_inject [OF bs(2)] by (simp add: bs(1) word_less_nat_alt)
qed simp

text \<open>
  The iterator steps through the addresses as through the numbers of 128 bits. For an address
  of sixteen bytes, \<open>++\<close> adds one to the number its bytes spell, modulo 2 to the 128th, \<open>--\<close>
  takes one away and undoes it, the scope id stays, and the order of two addresses with one
  scope is the order of their numbers.
\<close>

theorem v6_iterator_counts:
  assumes "v6_wf a" "v6_wf b" "scope_id a = scope_id b"
  shows "bytes_value (s6_addr (v6_next a)) = (bytes_value (s6_addr a) + 1) mod 2 ^ 128 \<and>
         v6_prev (v6_next a) = a \<and> v6_next (v6_prev a) = a \<and> v6_wf (v6_next a) \<and>
         v6_wf (v6_prev a) \<and> scope_id (v6_next a) = scope_id a \<and>
         (a < b \<longleftrightarrow> bytes_value (s6_addr a) < bytes_value (s6_addr b))"
proof -
  have len: "length (s6_addr a) = 16" "length (s6_addr b) = 16"
    using assms by (simp_all add: v6_wf_def)
  have "(256 :: nat) ^ 16 = 2 ^ 128" by simp
  with inc_bytes_value [of "s6_addr a"] len
  have "bytes_value (s6_addr (v6_next a)) = (bytes_value (s6_addr a) + 1) mod 2 ^ 128"
    by (simp only: v6_next_def address_v6.sel)
  moreover have "v6_prev (v6_next a) = a" "v6_next (v6_prev a) = a"
    using inc_dec_value [OF len(1)] by (simp_all add: v6_prev_def v6_next_def)
  moreover have "a < b \<longleftrightarrow> bytes_value (s6_addr a) < bytes_value (s6_addr b)"
    using assms(3) len bytes_less_value [of "s6_addr a" "s6_addr b"]
    by (auto simp: less_address_v6_def v6_less_def Let_def memcmp_less memcmp_greater)
  ultimately show ?thesis
    using len by (simp add: v6_wf_def v6_next_def v6_prev_def)
qed

lemma v6_iterator_counts_witness:
  "bytes_value (s6_addr (v6_next (Address_V6 (replicate 16 255) 3))) = 0 \<and> v6_any < v6_loopback"
proof -
  have wf: "v6_wf v6_any" "v6_wf v6_loopback" "v6_wf (Address_V6 (replicate 16 255) 3)"
    by (simp_all add: v6_wf_def v6_any_def v6_loopback_def Let_def)
  have rep: "replicate 16 x = [x, x, x, x, x, x, x, x, x, x, x, x, x, x, x, x]" for x :: u8
    by (simp add: numeral_eq_Suc)
  have "bytes_value (s6_addr (Address_V6 (replicate 16 255) 3)) = 2 ^ 128 - 1"
    unfolding rep by (simp add: bytes_value_def)
  with v6_iterator_counts [OF wf(3,3) refl]
  have "bytes_value (s6_addr (v6_next (Address_V6 (replicate 16 255) 3))) = 0" by simp
  moreover have "scope_id v6_any = scope_id v6_loopback"
    by (simp add: v6_any_def v6_loopback_def Let_def)
  from v6_iterator_counts [OF wf(1,2) this] have "v6_any < v6_loopback"
    unfolding v6_any_def v6_loopback_def rep by (simp add: bytes_value_def Let_def)
  ultimately show ?thesis by blast
qed

section \<open>Facts\<close>

lemma v6_wf_simps [simp]:
  "v6_wf v6_any" "v6_wf v6_loopback" "v6_wf (v6_v4_mapped x)" "v6_wf (v6_v4_compatible x)"
  "v6_wf (make_address_v6_mapped x)" "v6_wf (v6_next a) = v6_wf a" "v6_wf (v6_prev a) = v6_wf a"
  by (simp_all add: v6_wf_def v6_any_def v6_loopback_def v6_v4_mapped_def v6_v4_compatible_def
      v6_from_bytes_def make_address_v6_mapped_def v6_next_def v6_prev_def Let_def)

lemma make_address_v6_wf: "make_address_v6 s = Some a \<Longrightarrow> v6_wf a"
  by (auto simp: make_address_v6_def v6_wf_def v6_from_bytes_def dest: inet_pton_v6_length)

lemma make_address_v6_to_string:
  "v6_wf a \<Longrightarrow> scope_id a \<le> 65535 \<Longrightarrow> make_address_v6 (v6_to_string a) = Some a"
  by (simp add: make_address_v6_def v6_to_string_def v6_from_bytes_def v6_wf_def inet_pton_ntop_v6)

lemma v4_bytes_list: "[v4_to_bytes x ! 0, v4_to_bytes x ! 1, v4_to_bytes x ! 2, v4_to_bytes x ! 3] = v4_to_bytes x"
proof -
  obtain a b c d where "v4_to_bytes x = [a, b, c, d]"
    using length_v4_to_bytes [of x]
    by (auto simp: length_Suc_conv numeral_eq_Suc simp del: length_v4_to_bytes)
  then show ?thesis by simp
qed

lemma mapped_back: "make_address_v4_mapped (make_address_v6_mapped x) = Some x"
  unfolding make_address_v4_mapped_def make_address_v6_mapped_def v6_is_v4_mapped_def zero_to_def
  by (simp add: v6_from_bytes_def v6_to_bytes_def Let_def v4_bytes_list [unfolded One_nat_def] upt_rec)

end
