(* ===== verification/Ip_Address.thy ===== *)
theory Ip_Address
  imports Address_V6
begin

text \<open>
  The rest of \<open>asio::ip::address_v4\<close> (\<open>ip/impl/address_v4.ipp\<close>), \<open>asio::ip::address\<close>, which is one
  of either version (\<open>ip/impl/address.ipp\<close>), and the endpoint over the system's socket
  addresses (\<open>ip/detail/impl/endpoint.ipp\<close>) that the endpoints of the node are made of.
\<close>

section \<open>IPv4\<close>

definition v4_is_loopback :: "address_v4 \<Rightarrow> bool" where
  "v4_is_loopback a \<longleftrightarrow> and a 0xFF000000 = 0x7F000000"

definition v4_is_unspecified :: "address_v4 \<Rightarrow> bool" where
  "v4_is_unspecified a \<longleftrightarrow> a = 0"

definition v4_is_class_a :: "address_v4 \<Rightarrow> bool" where
  "v4_is_class_a a \<longleftrightarrow> and a 0x80000000 = 0"

definition v4_is_class_b :: "address_v4 \<Rightarrow> bool" where
  "v4_is_class_b a \<longleftrightarrow> and a 0xC0000000 = 0x80000000"

definition v4_is_class_c :: "address_v4 \<Rightarrow> bool" where
  "v4_is_class_c a \<longleftrightarrow> and a 0xE0000000 = 0xC0000000"

definition v4_is_multicast :: "address_v4 \<Rightarrow> bool" where
  "v4_is_multicast a \<longleftrightarrow> and a 0xF0000000 = 0xE0000000"

definition v4_broadcast :: "address_v4 \<Rightarrow> address_v4 \<Rightarrow> address_v4" where
  "v4_broadcast addr net_mask = or addr (xor net_mask 0xFFFFFFFF)"

definition v4_netmask :: "address_v4 \<Rightarrow> address_v4" where
  "v4_netmask addr =
     (if v4_is_class_a addr then 0xFF000000
      else if v4_is_class_b addr then 0xFFFF0000
      else if v4_is_class_c addr then 0xFFFFFF00
      else 0xFFFFFFFF)"

section \<open>Either version\<close>

datatype ip_type = Ipv4 | Ipv6

datatype address =
  Address (addr_type: ip_type) (ipv4_address: address_v4) (ipv6_address: address_v6)

definition no_address :: address where
  "no_address = Address Ipv4 0 v6_any"

definition address_of_v4 :: "address_v4 \<Rightarrow> address" where
  "address_of_v4 a = Address Ipv4 a v6_any"

definition address_of_v6 :: "address_v6 \<Rightarrow> address" where
  "address_of_v6 a = Address Ipv6 0 a"

definition assign_v4 :: "address_v4 \<Rightarrow> address \<Rightarrow> address" where
  "assign_v4 ipv4 a = (case a of Address _ _ _ \<Rightarrow> Address Ipv4 ipv4 v6_any)"

definition assign_v6 :: "address_v6 \<Rightarrow> address \<Rightarrow> address" where
  "assign_v6 ipv6 a = (case a of Address _ _ _ \<Rightarrow> Address Ipv6 0 ipv6)"

definition addr_is_v4 :: "address \<Rightarrow> bool" where
  "addr_is_v4 a \<longleftrightarrow> addr_type a = Ipv4"

definition addr_is_v6 :: "address \<Rightarrow> bool" where
  "addr_is_v6 a \<longleftrightarrow> addr_type a = Ipv6"

text \<open>\<open>None\<close> where the casts throw \<open>bad_address_cast\<close> and the parser sets an error.\<close>

definition addr_to_v4 :: "address \<Rightarrow> address_v4 option" where
  "addr_to_v4 a = (if addr_type a \<noteq> Ipv4 then None else Some (ipv4_address a))"

definition addr_to_v6 :: "address \<Rightarrow> address_v6 option" where
  "addr_to_v6 a = (if addr_type a \<noteq> Ipv6 then None else Some (ipv6_address a))"

definition make_address :: "string \<Rightarrow> address option" where
  "make_address str =
     (case make_address_v6 str of
        Some ipv6 \<Rightarrow> Some (address_of_v6 ipv6)
      | None \<Rightarrow>
          case make_address_v4 str of
            Some ipv4 \<Rightarrow> Some (address_of_v4 ipv4)
          | None \<Rightarrow> None)"

definition addr_to_string :: "address \<Rightarrow> string" where
  "addr_to_string a =
     (if addr_type a = Ipv6 then v6_to_string (ipv6_address a) else v4_to_string (ipv4_address a))"

definition addr_is_loopback :: "address \<Rightarrow> bool" where
  "addr_is_loopback a =
     (if addr_type a = Ipv4 then v4_is_loopback (ipv4_address a) else v6_is_loopback (ipv6_address a))"

definition addr_is_unspecified :: "address \<Rightarrow> bool" where
  "addr_is_unspecified a =
     (if addr_type a = Ipv4 then v4_is_unspecified (ipv4_address a)
      else v6_is_unspecified (ipv6_address a))"

definition addr_is_multicast :: "address \<Rightarrow> bool" where
  "addr_is_multicast a =
     (if addr_type a = Ipv4 then v4_is_multicast (ipv4_address a)
      else v6_is_multicast (ipv6_address a))"

definition addr_equal :: "address \<Rightarrow> address \<Rightarrow> bool" where
  "addr_equal a1 a2 =
     (if addr_type a1 \<noteq> addr_type a2 then False
      else if addr_type a1 = Ipv6 then v6_equal (ipv6_address a1) (ipv6_address a2)
      else ipv4_address a1 = ipv4_address a2)"

fun type_index :: "ip_type \<Rightarrow> nat" where
  "type_index Ipv4 = 0"
| "type_index Ipv6 = 1"

definition addr_less :: "address \<Rightarrow> address \<Rightarrow> bool" where
  "addr_less a1 a2 =
     (if type_index (addr_type a1) < type_index (addr_type a2) then True
      else if type_index (addr_type a1) > type_index (addr_type a2) then False
      else if addr_type a1 = Ipv6 then ipv6_address a1 < ipv6_address a2
      else ipv4_address a1 < ipv4_address a2)"

text \<open>
  The part of the version that is not in use is the unspecified address in everything the
  operations return, so the comparison may leave it out.
\<close>

definition addr_wf :: "address \<Rightarrow> bool" where
  "addr_wf a \<longleftrightarrow>
     (if addr_type a = Ipv4 then ipv6_address a = v6_any
      else ipv4_address a = 0 \<and> v6_wf (ipv6_address a))"

lemma addr_wf_cases:
  assumes "addr_wf a"
  obtains (V4) x where "a = address_of_v4 x" | (V6) x where "a = address_of_v6 x" "v6_wf x"
  using assms by (cases a, cases "addr_type a")
    (auto simp: addr_wf_def address_of_v4_def address_of_v6_def)

named_theorems address_simps "the operations on the two forms of an address"

lemma address_forms [address_simps]:
  "addr_wf (address_of_v4 x)" "addr_wf (address_of_v6 y) = v6_wf y"
  "assign_v4 x a = address_of_v4 x" "assign_v6 y a = address_of_v6 y"
  "no_address = address_of_v4 0"
  "addr_is_v4 (address_of_v4 x)" "\<not> addr_is_v4 (address_of_v6 y)"
  "addr_is_v6 (address_of_v6 y)" "\<not> addr_is_v6 (address_of_v4 x)"
  "addr_to_v4 (address_of_v4 x) = Some x" "addr_to_v4 (address_of_v6 y) = None"
  "addr_to_v6 (address_of_v6 y) = Some y" "addr_to_v6 (address_of_v4 x) = None"
  "ipv4_address (address_of_v4 x) = x" "ipv6_address (address_of_v6 y) = y"
  "addr_to_string (address_of_v4 x) = v4_to_string x"
  "addr_to_string (address_of_v6 y) = v6_to_string y"
  "address_of_v4 x = address_of_v4 x' \<longleftrightarrow> x = x'" "address_of_v6 y = address_of_v6 y' \<longleftrightarrow> y = y'"
  "address_of_v4 x \<noteq> address_of_v6 y" "address_of_v6 y \<noteq> address_of_v4 x"
  by (simp_all add: addr_wf_def address_of_v4_def address_of_v6_def assign_v4_def assign_v6_def
      no_address_def addr_is_v4_def addr_is_v6_def addr_to_v4_def addr_to_v6_def addr_to_string_def
      split: address.split)

lemma addr_less_forms [address_simps]:
  "addr_less (address_of_v4 x) (address_of_v4 x') = (x < x')"
  "addr_less (address_of_v6 y) (address_of_v6 y') = (y < y')"
  "addr_less (address_of_v4 x) (address_of_v6 y)" "\<not> addr_less (address_of_v6 y) (address_of_v4 x)"
  "addr_equal (address_of_v4 x) (address_of_v4 x') = (x = x')"
  "addr_equal (address_of_v6 y) (address_of_v6 y') = (y = y')"
  "\<not> addr_equal (address_of_v4 x) (address_of_v6 y)" "\<not> addr_equal (address_of_v6 y) (address_of_v4 x)"
  by (simp_all add: addr_less_def addr_equal_def address_of_v4_def address_of_v6_def)

lemma make_address_wf: "make_address s = Some a \<Longrightarrow> addr_wf a"
  by (auto simp: make_address_def address_simps make_address_v6_wf split: option.splits)

text \<open>The addresses a program can have: from the constructors, the parser and assignments.\<close>

inductive obtained :: "address \<Rightarrow> bool" where
  default: "obtained no_address"
| from_v4: "obtained (address_of_v4 x)"
| from_v6: "v6_wf y \<Longrightarrow> obtained (address_of_v6 y)"
| parsed: "make_address s = Some a \<Longrightarrow> obtained a"
| assigned_v4: "obtained a \<Longrightarrow> obtained (assign_v4 x a)"
| assigned_v6: "obtained a \<Longrightarrow> v6_wf y \<Longrightarrow> obtained (assign_v6 y a)"

lemma obtained_wf: "obtained a \<Longrightarrow> addr_wf a"
  by (induction rule: obtained.induct) (simp_all add: address_simps make_address_wf)

lemma addr_less_irreflexive: "addr_wf x \<Longrightarrow> \<not> addr_less x x"
  by (erule addr_wf_cases) (simp_all add: address_simps)

lemma addr_compare:
  "addr_wf x \<Longrightarrow> addr_wf y \<Longrightarrow>
   (addr_equal x y \<longleftrightarrow> x = y) \<and> (addr_less x y \<or> addr_less y x \<or> x = y)"
  by (erule addr_wf_cases; erule addr_wf_cases) (auto simp: address_simps)

lemma addr_less_trans:
  "addr_wf x \<Longrightarrow> addr_wf y \<Longrightarrow> addr_wf z \<Longrightarrow> addr_less x y \<Longrightarrow> addr_less y z \<Longrightarrow> addr_less x z"
  by (erule addr_wf_cases; erule addr_wf_cases; erule addr_wf_cases) (auto simp: address_simps)

text \<open>
  C38. Every address a program can have is well-formed: it has only the part of its own version in
  use, with sixteen bytes where that is version 6. On such addresses \<open>==\<close> is equality and
  \<open><\<close> a strict linear order, although both look at one part only.
\<close>

theorem addresses_well_formed:
  assumes "obtained x" "obtained y" "obtained z"
  shows "addr_wf x \<and> (addr_equal x y \<longleftrightarrow> x = y) \<and> \<not> addr_less x x \<and>
         (addr_less x y \<or> addr_less y x \<or> x = y) \<and>
         \<not> (addr_less x y \<and> addr_less y z \<and> \<not> addr_less x z)"
proof -
  note wf = assms [THEN obtained_wf]
  show ?thesis
    using wf addr_less_irreflexive [OF wf(1)] addr_compare [OF wf(1,2)] addr_less_trans [OF wf]
    by blast
qed

lemma addresses_well_formed_witness:
  "addr_less (address_of_v4 0xFFFFFFFF) (address_of_v6 v6_any) \<and>
   \<not> addr_equal (address_of_v4 0) (address_of_v6 v6_any)"
proof -
  have "obtained (assign_v4 0xFFFFFFFF no_address)" "obtained (assign_v6 v6_any no_address)"
    "obtained no_address"
    by (simp_all add: obtained.intros)
  from addresses_well_formed [OF this] addresses_well_formed [OF this(3,2,1)] show ?thesis
    by (simp add: address_simps)
qed

section \<open>Text\<close>

lemma v6_rejects_dots:
  "list_all is_digit ds \<Longrightarrow> pton_loop Fword (ds @ CHR ''.'' # r) w [] [] = None"
proof (induction ds arbitrary: w)
  case Nil
  have "xdigit (CHR ''.'' # r) = None" "peek (CHR ''.'' # r) = 46"
    by (simp_all add: xdigit_def peek_def)
  then show ?case by (subst pton_loop.simps) simp
next
  case (Cons c ds)
  then have "xdigit (c # ds @ CHR ''.'' # r) = Some (of_char c - 48)"
    by (simp add: xdigit_def peek_def is_digit_def)
  with Cons show ?case by (subst pton_loop.simps) simp
qed

lemma v6_rejects_v4: "make_address_v6 (v4_to_string x) = None"
  by (simp add: make_address_v6_def inet_pton_v6_def v4_to_string_def inet_ntop_v4_def
      v6_rejects_dots to_string_digits)

text \<open>
  C37. An address of either version is read back from its text: the text of an IPv4 address is not
  taken for one of version 6, which is tried first, and sixteen bytes with a scope id up to
  65535 come back from the text of version 6 with its run of zeros left out.
\<close>

theorem address_text_roundtrip:
  assumes "addr_wf a" "addr_is_v6 a \<Longrightarrow> scope_id (ipv6_address a) \<le> 65535"
  shows "make_address (addr_to_string a) = Some a"
  using assms(1)
proof (cases rule: addr_wf_cases)
  case V4
  then show ?thesis by (simp add: address_simps make_address_def v6_rejects_v4)
next
  case V6
  with assms(2) show ?thesis
    by (simp add: address_simps make_address_def make_address_v6_to_string)
qed

lemma address_text_roundtrip_witness:
  "make_address (addr_to_string (address_of_v6 v6_loopback)) = Some (address_of_v6 v6_loopback)"
  by (rule address_text_roundtrip)
    (simp add: address_simps, simp add: address_simps v6_loopback_def v6_any_def Let_def)

end
