(* ===== verification/Ip_Endpoint.thy ===== *)
theory Ip_Endpoint
  imports Ip_Address
begin

text \<open>
  \<open>asio::ip::detail::endpoint\<close> (\<open>ip/detail/impl/endpoint.ipp\<close>, \<open>ip/detail/endpoint.hpp\<close>): the
  socket address that the system calls take, with port and address in network byte order,
  and what \<open>basic_endpoint\<close> makes of it. The endpoints of the node are its IPv4 case, which
  the last section shows as a refinement.
\<close>

section \<open>Socket addresses\<close>

text \<open>The union of the two structures, told apart by the family.\<close>

datatype sockaddr =
    Sockaddr_in (sin_port: "u8 list") (sin_addr: "u8 list")
  | Sockaddr_in6 (sin6_port: "u8 list") (sin6_flowinfo: u32) (sin6_addr: "u8 list")
      (sin6_scope_id: u32)

definition host_to_network_short :: "u16 \<Rightarrow> u8 list" where
  "host_to_network_short v = [ucast (and (drop_bit 8 v) 0xFF), ucast (and v 0xFF)]"

definition network_to_host_short :: "u8 list \<Rightarrow> u16" where
  "network_to_host_short p = or (push_bit 8 (ucast (p ! 0))) (ucast (p ! 1))"

definition host_to_network_long :: "u32 \<Rightarrow> u8 list" where
  "host_to_network_long v =
     [ucast (and (drop_bit 24 v) 0xFF), ucast (and (drop_bit 16 v) 0xFF),
      ucast (and (drop_bit 8 v) 0xFF), ucast (and v 0xFF)]"

definition network_to_host_long :: "u8 list \<Rightarrow> u32" where
  "network_to_host_long p =
     or (or (or (push_bit 24 (ucast (p ! 0))) (push_bit 16 (ucast (p ! 1))))
            (push_bit 8 (ucast (p ! 2)))) (ucast (p ! 3))"

definition sa_is_v4 :: "sockaddr \<Rightarrow> bool" where
  "sa_is_v4 e \<longleftrightarrow> (case e of Sockaddr_in _ _ \<Rightarrow> True | Sockaddr_in6 _ _ _ _ \<Rightarrow> False)"

definition new_endpoint :: sockaddr where
  "new_endpoint = Sockaddr_in (host_to_network_short 0) (host_to_network_long 0)"

definition family_endpoint :: "bool \<Rightarrow> u16 \<Rightarrow> sockaddr" where
  "family_endpoint af_inet port_num =
     (if af_inet then Sockaddr_in (host_to_network_short port_num) (host_to_network_long 0)
      else Sockaddr_in6 (host_to_network_short port_num) 0
             [0, 0, 0, 0, 0, 0, 0, 0, 0, 0, 0, 0, 0, 0, 0, 0] 0)"

text \<open>The casts cannot fail behind the test of the version.\<close>

definition address_endpoint :: "address \<Rightarrow> u16 \<Rightarrow> sockaddr" where
  "address_endpoint addr port_num =
     (if addr_is_v4 addr
      then Sockaddr_in (host_to_network_short port_num)
             (host_to_network_long (the (addr_to_v4 addr)))
      else let v6_addr = the (addr_to_v6 addr)
           in Sockaddr_in6 (host_to_network_short port_num) 0 (v6_to_bytes v6_addr)
                (scope_id v6_addr))"

text \<open>\<open>resize\<close> throws for more than the storage of any socket address.\<close>

definition sa_resize :: "nat \<Rightarrow> nat \<Rightarrow> unit result" where
  "sa_resize sizeof_storage new_size =
     (if sizeof_storage < new_size then Inl UncaughtException else Inr ())"

definition sa_port :: "sockaddr \<Rightarrow> u16" where
  "sa_port e = (if sa_is_v4 e then network_to_host_short (sin_port e)
                else network_to_host_short (sin6_port e))"

definition sa_set_port :: "u16 \<Rightarrow> sockaddr \<Rightarrow> sockaddr" where
  "sa_set_port port_num e =
     (case e of
        Sockaddr_in _ a \<Rightarrow> Sockaddr_in (host_to_network_short port_num) a
      | Sockaddr_in6 _ fl a s \<Rightarrow> Sockaddr_in6 (host_to_network_short port_num) fl a s)"

definition sa_address :: "sockaddr \<Rightarrow> address" where
  "sa_address e =
     (if sa_is_v4 e then address_of_v4 (network_to_host_long (sin_addr e))
      else address_of_v6 (v6_from_bytes (sin6_addr e) (sin6_scope_id e)))"

definition sa_set_address :: "address \<Rightarrow> sockaddr \<Rightarrow> sockaddr" where
  "sa_set_address addr e = address_endpoint addr (sa_port e)"

definition sa_equal :: "sockaddr \<Rightarrow> sockaddr \<Rightarrow> bool" where
  "sa_equal e1 e2 \<longleftrightarrow> addr_equal (sa_address e1) (sa_address e2) \<and> sa_port e1 = sa_port e2"

definition sa_less :: "sockaddr \<Rightarrow> sockaddr \<Rightarrow> bool" where
  "sa_less e1 e2 =
     (if addr_less (sa_address e1) (sa_address e2) then True
      else if \<not> addr_equal (sa_address e1) (sa_address e2) then False
      else sa_port e1 < sa_port e2)"

definition sa_to_string :: "sockaddr \<Rightarrow> string" where
  "sa_to_string e =
     (if sa_is_v4 e then addr_to_string (sa_address e)
      else ''['' @ addr_to_string (sa_address e) @ '']'') @ '':'' @ to_string (unat (sa_port e))"

section \<open>The operations\<close>

text \<open>The family says which structure is meant, and both parts have their length.\<close>

definition sa_wf :: "sockaddr \<Rightarrow> bool" where
  "sa_wf e \<longleftrightarrow>
     (case e of
        Sockaddr_in p a \<Rightarrow> length p = 2 \<and> length a = 4
      | Sockaddr_in6 p fl a s \<Rightarrow> length p = 2 \<and> fl = 0 \<and> length a = 16)"

named_theorems endpoint_simps "reading back what was put into a socket address"

lemma low_byte: "and w 0xFF = take_bit 8 (w :: 'a::len word)"
  by (simp add: take_bit_eq_mask mask_eq_exp_minus_1)

lemma short_of_bytes: "network_to_host_short [a, b] = le_word [b, a]"
  by (simp add: network_to_host_short_def or.commute)

lemma long_of_bytes: "network_to_host_long [a, b, c, d] = le_word [d, c, b, a]"
  by (simp add: network_to_host_long_def push_bit_or or.assoc or.commute or.left_commute)

lemma bytes_of_short: "host_to_network_short v = rev (le_bytes v)"
  unfolding host_to_network_short_def le_bytes_def low_byte
  by (simp add: upt_rec) (auto intro!: bit_word_eqI simp: bit_simps)

lemma bytes_of_long: "host_to_network_long v = rev (le_bytes v)"
  unfolding host_to_network_long_def le_bytes_def low_byte
  by (simp add: upt_rec) (auto intro!: bit_word_eqI simp: bit_simps)

lemma short_of_bytes_list: "length ps = 2 \<Longrightarrow> network_to_host_short ps = le_word (rev ps)"
  by (auto simp: length_Suc_conv numeral_eq_Suc short_of_bytes simp del: le_word.simps)

lemma long_of_bytes_list: "length ps = 4 \<Longrightarrow> network_to_host_long ps = le_word (rev ps)"
  by (auto simp: length_Suc_conv numeral_eq_Suc long_of_bytes simp del: le_word.simps)

lemma byte_order_simps [endpoint_simps]:
  "network_to_host_short (host_to_network_short p) = p"
  "network_to_host_long (host_to_network_long a) = a"
  "length (host_to_network_short p) = 2" "length (host_to_network_long a) = 4"
  "length ps = 2 \<Longrightarrow> host_to_network_short (network_to_host_short ps) = ps"
  "length bs = 4 \<Longrightarrow> host_to_network_long (network_to_host_long bs) = bs"
  by (simp_all add: bytes_of_short bytes_of_long short_of_bytes_list long_of_bytes_list
      le_word_le_bytes le_bytes_le_word)

lemma address_endpoint_forms [endpoint_simps]:
  "address_endpoint (address_of_v4 x) p =
     Sockaddr_in (host_to_network_short p) (host_to_network_long x)"
  "address_endpoint (address_of_v6 y) p =
     Sockaddr_in6 (host_to_network_short p) 0 (s6_addr y) (scope_id y)"
  by (simp_all add: address_endpoint_def address_simps v6_to_bytes_def)

lemma sa_simps [endpoint_simps]:
  "sa_is_v4 (Sockaddr_in p a)" "\<not> sa_is_v4 (Sockaddr_in6 p fl b s)"
  "sa_port (Sockaddr_in p a) = network_to_host_short p"
  "sa_port (Sockaddr_in6 p fl b s) = network_to_host_short p"
  "sa_address (Sockaddr_in p a) = address_of_v4 (network_to_host_long a)"
  "sa_address (Sockaddr_in6 p fl b s) = address_of_v6 (Address_V6 b s)"
  by (simp_all add: sa_is_v4_def sa_port_def sa_address_def v6_from_bytes_def)

lemma endpoint_parts [endpoint_simps]:
  "addr_wf a \<Longrightarrow> sa_address (address_endpoint a p) = a"
  "addr_wf a \<Longrightarrow> sa_port (address_endpoint a p) = p"
  "addr_wf a \<Longrightarrow> sa_wf (address_endpoint a p)"
  by (erule addr_wf_cases; simp add: endpoint_simps sa_wf_def v6_wf_def)+

lemma endpoint_of_parts [endpoint_simps]:
  "sa_wf e \<Longrightarrow> address_endpoint (sa_address e) (sa_port e) = e"
  "sa_wf e \<Longrightarrow> addr_wf (sa_address e)"
  by (cases e; simp add: endpoint_simps address_simps sa_wf_def v6_wf_def)+

lemma sa_set_port_parts:
  "sa_wf e \<Longrightarrow> sa_set_port p e = address_endpoint (sa_address e) p"
  by (cases e) (simp_all add: sa_set_port_def endpoint_simps sa_wf_def)

text \<open>
  An endpoint is its address and its port, whatever the byte order inside. Making an endpoint
  and asking for its parts gives them back, setting one part changes that part alone, and two
  well-formed endpoints are equal for \<open>==\<close> exactly when they are the same socket address.
\<close>

theorem endpoint_is_its_parts:
  assumes "addr_wf a" "sa_wf e" "sa_wf e'"
  shows "sa_address (address_endpoint a p) = a \<and> sa_port (address_endpoint a p) = p \<and>
         sa_address (sa_set_port p e) = sa_address e \<and> sa_port (sa_set_port p e) = p \<and>
         sa_address (sa_set_address a e) = a \<and> sa_port (sa_set_address a e) = sa_port e \<and>
         sa_wf (sa_set_port p e) \<and> sa_wf (sa_set_address a e) \<and> (sa_equal e e' \<longleftrightarrow> e = e')"
proof -
  note wf = endpoint_of_parts(2) [OF assms(2)] endpoint_of_parts(2) [OF assms(3)]
  have "e = e'" if "sa_address e = sa_address e'" "sa_port e = sa_port e'"
    using that endpoint_of_parts(1) assms(2,3) by metis
  then have "sa_equal e e' \<longleftrightarrow> e = e'"
    using addr_compare [OF wf] by (auto simp: sa_equal_def)
  then show ?thesis
    using assms(1) wf sa_set_port_parts [OF assms(2), of p]
    by (simp add: endpoint_simps sa_set_address_def)
qed

lemma endpoint_is_its_parts_witness:
  "sa_port (sa_set_address (address_of_v6 v6_loopback) (sa_set_port 0x1234 new_endpoint)) = 0x1234 \<and>
   sa_address (family_endpoint True 80) = no_address"
proof -
  have wf: "addr_wf (address_of_v6 v6_loopback)" "sa_wf new_endpoint" "addr_wf no_address"
    by (simp_all add: address_simps new_endpoint_def sa_wf_def endpoint_simps)
  have *: "sa_wf (sa_set_port 0x1234 new_endpoint)" "sa_port (sa_set_port 0x1234 new_endpoint) = 0x1234"
    using endpoint_is_its_parts [OF wf(1,2,2)] by blast+
  have "family_endpoint True 80 = address_endpoint no_address 80"
    by (simp add: family_endpoint_def address_simps endpoint_simps)
  then show ?thesis
    using endpoint_is_its_parts [OF wf(1) *(1) wf(2)] endpoint_is_its_parts [OF wf(3,2,2)] *(2)
    by simp
qed

section \<open>The endpoints of the node\<close>

definition sockaddr_of :: "endpoint \<Rightarrow> sockaddr" where
  "sockaddr_of e = address_endpoint (address_of_v4 (ep_addr e)) (ep_port e)"

text \<open>
  C39. The node's endpoints refine the socket addresses: an endpoint of an IPv4 address has its
  address and port as parts, the order and the equality are those of the socket addresses, the
  default endpoint is the default socket address and the text is the same.
\<close>

theorem node_endpoints_refine:
  "sa_address (sockaddr_of e) = address_of_v4 (ep_addr e) \<and> sa_port (sockaddr_of e) = ep_port e \<and>
   (sa_less (sockaddr_of e) (sockaddr_of e') \<longleftrightarrow> e < e') \<and>
   (sa_equal (sockaddr_of e) (sockaddr_of e') \<longleftrightarrow> e = e') \<and>
   sockaddr_of no_endpoint = new_endpoint \<and> sa_to_string (sockaddr_of e) = endpoint_to_string e"
  by (cases e; cases e') (auto simp: sockaddr_of_def endpoint_simps address_simps sa_less_def
      sa_equal_def less_endpoint_def ep_less_def no_endpoint_def new_endpoint_def sa_to_string_def
      endpoint_to_string_def)

end
