(* ===== verification/Network_V4.thy ===== *)
theory Network_V4
  imports Ip_Address
begin

text \<open>
  \<open>asio::ip::network_v4\<close> (\<open>ip/network_v4.hpp\<close>, \<open>ip/impl/network_v4.ipp\<close>): an address with the
  length of its prefix, its mask and bounds, its text, and the range of its hosts
  (\<open>ip/address_v4_range.hpp\<close>) with the iterator over it (\<open>ip/address_v4_iterator.hpp\<close>). The
  lemmas read the bit masks as division by a power of two, and a network as the set of the
  addresses that agree with it on the mask.
\<close>

section \<open>Iterators and ranges\<close>

definition v4_next :: "address_v4 \<Rightarrow> address_v4" where
  "v4_next a = and (a + 1) 0xFFFFFFFF"

definition v4_prev :: "address_v4 \<Rightarrow> address_v4" where
  "v4_prev a = and (a - 1) 0xFFFFFFFF"

record v4_range =
  range_begin :: address_v4
  range_end :: address_v4

definition no_v4_range :: v4_range where
  "no_v4_range = \<lparr>range_begin = 0, range_end = 0\<rparr>"

text \<open>The difference is taken in 32 bits.\<close>

definition range_size :: "v4_range \<Rightarrow> nat" where
  "range_size r = unat (range_end r - range_begin r)"

definition range_empty :: "v4_range \<Rightarrow> bool" where
  "range_empty r \<longleftrightarrow> range_size r = 0"

definition range_find :: "address_v4 \<Rightarrow> v4_range \<Rightarrow> address_v4" where
  "range_find addr r =
     (if range_begin r \<le> addr \<and> addr < range_end r then addr else range_end r)"

section \<open>Networks\<close>

datatype network_v4 = Network_V4 (net4_address: address_v4) (net4_prefix: nat)

datatype net_error = Out_of_range | Invalid_argument

definition no_network_v4 :: network_v4 where
  "no_network_v4 = Network_V4 0 0"

definition new_network_v4 :: "address_v4 \<Rightarrow> nat \<Rightarrow> net_error + network_v4" where
  "new_network_v4 addr prefix_len =
     (if 32 < prefix_len then Inl Out_of_range else Inr (Network_V4 addr prefix_len))"

text \<open>The switch over a byte of the mask: the bits it adds, and whether it is the last with any.\<close>

definition mask_byte :: "u8 \<Rightarrow> (nat \<times> bool) option" where
  "mask_byte b =
     (if b = 255 then Some (8, False)
      else if b = 254 then Some (7, True)
      else if b = 252 then Some (6, True)
      else if b = 248 then Some (5, True)
      else if b = 240 then Some (4, True)
      else if b = 224 then Some (3, True)
      else if b = 192 then Some (2, True)
      else if b = 128 then Some (1, True)
      else if b = 0 then Some (0, True)
      else None)"

fun mask_loop :: "bool \<Rightarrow> nat \<Rightarrow> u8 list \<Rightarrow> net_error + nat" where
  "mask_loop finished prefix_length [] = Inr prefix_length"
| "mask_loop finished prefix_length (b # bs) =
     (if finished then if b \<noteq> 0 then Inl Invalid_argument else mask_loop finished prefix_length bs
      else case mask_byte b of
             Some (n, fin) \<Rightarrow> mask_loop fin (prefix_length + n) bs
           | None \<Rightarrow> Inl Out_of_range)"

definition mask_network_v4 :: "address_v4 \<Rightarrow> address_v4 \<Rightarrow> net_error + network_v4" where
  "mask_network_v4 addr net_mask =
     (case mask_loop False 0 (v4_to_bytes net_mask) of
        Inl e \<Rightarrow> Inl e
      | Inr prefix_length \<Rightarrow> Inr (Network_V4 addr prefix_length))"

definition net4_netmask :: "network_v4 \<Rightarrow> address_v4" where
  "net4_netmask n =
     (let nmbits = 0xffffffff
      in if net4_prefix n = 0 then 0 else push_bit (32 - net4_prefix n) nmbits)"

definition net4_network :: "network_v4 \<Rightarrow> address_v4" where
  "net4_network n = and (net4_address n) (net4_netmask n)"

definition net4_broadcast :: "network_v4 \<Rightarrow> address_v4" where
  "net4_broadcast n = or (net4_network n) (xor (net4_netmask n) 0xFFFFFFFF)"

definition net4_is_host :: "network_v4 \<Rightarrow> bool" where
  "net4_is_host n \<longleftrightarrow> net4_prefix n = 32"

definition net4_hosts :: "network_v4 \<Rightarrow> v4_range" where
  "net4_hosts n =
     (if net4_is_host n
      then \<lparr>range_begin = net4_address n, range_end = net4_address n + 1\<rparr>
      else \<lparr>range_begin = net4_network n + 1, range_end = net4_broadcast n\<rparr>)"

definition net4_canonical :: "network_v4 \<Rightarrow> net_error + network_v4" where
  "net4_canonical n = new_network_v4 (net4_network n) (net4_prefix n)"

definition net4_equal :: "network_v4 \<Rightarrow> network_v4 \<Rightarrow> bool" where
  "net4_equal a b \<longleftrightarrow> net4_address a = net4_address b \<and> net4_prefix a = net4_prefix b"

definition net4_is_subnet_of :: "network_v4 \<Rightarrow> network_v4 \<Rightarrow> net_error + bool" where
  "net4_is_subnet_of n other =
     (if net4_prefix n \<le> net4_prefix other then Inr False
      else case new_network_v4 (net4_address n) (net4_prefix other) of
             Inl e \<Rightarrow> Inl e
           | Inr me \<Rightarrow>
               case net4_canonical other of
                 Inl e \<Rightarrow> Inl e
               | Inr c \<Rightarrow>
                   case net4_canonical me of
                     Inl e \<Rightarrow> Inl e
                   | Inr c' \<Rightarrow> Inr (net4_equal c c'))"

definition net4_to_string :: "network_v4 \<Rightarrow> string" where
  "net4_to_string n = v4_to_string (net4_address n) @ ''/'' @ to_string (net4_prefix n)"

text \<open>
  The text of a network of either version: the part before the first slash and the number
  after it, \<open>None\<close> where the code sets \<open>invalid_argument\<close>. \<open>atoi\<close> is undefined for a number
  that no \<open>int\<close> holds.
\<close>

definition atoi :: "string \<Rightarrow> int result" where
  "atoi ds = (if digits_value ds < 2 ^ 31 then Inr (int (digits_value ds)) else Inl OutOfRange)"

definition parse_network :: "(string \<Rightarrow> 'a option) \<Rightarrow> int \<Rightarrow> string \<Rightarrow> ('a \<times> nat) option result" where
  "parse_network make_addr max_prefix str =
     (let pos = length (takeWhile (\<lambda>c. c \<noteq> CHR ''/'') str)
      in if pos = length str then Inr None
         else if pos = length str - 1 then Inr None
         else if \<not> list_all is_digit (drop (pos + 1) str) then Inr None
         else case make_addr (take pos str) of
                None \<Rightarrow> Inr None
              | Some addr \<Rightarrow>
                  bindR (atoi (drop (pos + 1) str)) (\<lambda>prefix_len.
                    if prefix_len < 0 \<or> max_prefix < prefix_len then Inr None
                    else Inr (Some (addr, nat prefix_len))))"

definition make_network_v4 :: "string \<Rightarrow> network_v4 option result" where
  "make_network_v4 str =
     bindR (parse_network make_address_v4 32 str) (\<lambda>r.
       Inr (map_option (\<lambda>(addr, prefix_len). Network_V4 addr prefix_len) r))"

section \<open>Masks as powers of two\<close>

definition net4_wf :: "network_v4 \<Rightarrow> bool" where
  "net4_wf n \<longleftrightarrow> net4_prefix n \<le> 32"

definition host_bits :: "network_v4 \<Rightarrow> nat" where
  "host_bits n = 32 - net4_prefix n"

lemma host_bits_le: "host_bits n \<le> 32"
  by (simp add: host_bits_def)

lemma all_ones_32: "(0xFFFFFFFF :: u32) = - 1"
  by simp

lemma netmask_not_mask:
  assumes "net4_wf n"
  shows "net4_netmask n = not (mask (host_bits n))"
proof (rule bit_word_eqI)
  fix i assume "i < LENGTH(32)"
  with assms show "bit (net4_netmask n) i = bit (not (mask (host_bits n)) :: u32) i"
    unfolding net4_netmask_def all_ones_32 Let_def
    by (auto simp: bit_simps host_bits_def net4_wf_def)
qed

lemma unat_u32: "unat (x :: u32) < 2 ^ 32"
proof -
  have "unat x < 2 ^ LENGTH(32)" by (rule unsigned_less)
  then show ?thesis by simp
qed

lemma unat_mask_word:
  assumes "k \<le> LENGTH('a)"
  shows "unat (mask k :: 'a::len word) = 2 ^ k - 1"
proof -
  have "(mask k :: 'a word) = word_of_nat (2 ^ k - 1)"
    by (simp add: of_nat_mask_eq flip: mask_eq_exp_minus_1)
  moreover have "(2 :: nat) ^ k \<le> 2 ^ LENGTH('a)" using assms by (intro power_increasing) simp_all
  then have "(2 :: nat) ^ k - 1 < 2 ^ LENGTH('a)" using zero_less_power [of "2 :: nat" k] by linarith
  ultimately show ?thesis by (simp only: word_of_nat_unat_less)
qed

lemma and_not_mask_value: "unat (and x (not (mask k))) = unat x div 2 ^ k * 2 ^ k"
  for x :: "'a::len word"
proof -
  have "and x (not (mask k)) = push_bit k (drop_bit k x)"
    by (rule bit_word_eqI) (auto simp: bit_simps)
  then have "unat (and x (not (mask k))) = take_bit LENGTH('a) (push_bit k (drop_bit k (unat x)))"
    by (simp only: unsigned_push_bit_eq unat_drop_bit_eq)
  also have "push_bit k (drop_bit k (unat x)) = unat x div 2 ^ k * 2 ^ k"
    by (simp only: push_bit_eq_mult drop_bit_eq_div mult.commute)
  also have "take_bit LENGTH('a) \<dots> = \<dots>"
    using le_less_trans [OF div_times_less_eq_dividend unsigned_less [of x]]
    by (intro take_bit_nat_eq_self) (simp only: mult.commute)
  finally show ?thesis .
qed

lemma or_mask_value:
  fixes x :: "'a::len word"
  assumes "k \<le> LENGTH('a)"
  shows "unat (or x (mask k)) = unat x div 2 ^ k * 2 ^ k + (2 ^ k - 1)"
proof -
  have "or x (mask k) = or (and x (not (mask k))) (mask k)"
    by (rule bit_word_eqI) (auto simp: bit_simps)
  moreover have "and (and x (not (mask k))) (mask k) = 0"
    by (rule bit_word_eqI) (auto simp: bit_simps)
  ultimately have sum: "or x (mask k) = and x (not (mask k)) + mask k"
    by (simp add: disjunctive_add_eq_or)
  have "unat x < 2 ^ LENGTH('a)" by (rule unsigned_less)
  then have "unat x div 2 ^ k < 2 ^ (LENGTH('a) - k)"
    using assms by (simp add: less_mult_imp_div_less flip: power_add)
  then have "(unat x div 2 ^ k + 1) * 2 ^ k \<le> 2 ^ (LENGTH('a) - k) * 2 ^ k"
    by (intro mult_le_mono1) simp
  also have "\<dots> = (2 ^ LENGTH('a) :: nat)" using assms by (simp flip: power_add)
  finally have "unat x div 2 ^ k * 2 ^ k + (2 ^ k - 1) < 2 ^ LENGTH('a)"
    using zero_less_power [of "2 :: nat" k] unfolding distrib_right by linarith
  then show ?thesis
    unfolding sum
    by (simp add: unat_add_lem [THEN iffD1] and_not_mask_value unat_mask_word [OF assms])
qed

lemma network_value:
  "net4_wf n \<Longrightarrow> unat (net4_network n) = unat (net4_address n) div 2 ^ host_bits n * 2 ^ host_bits n"
  by (simp add: net4_network_def netmask_not_mask and_not_mask_value)

lemma broadcast_value:
  assumes "net4_wf n"
  shows "unat (net4_broadcast n) =
         unat (net4_address n) div 2 ^ host_bits n * 2 ^ host_bits n + (2 ^ host_bits n - 1)"
proof -
  have "xor (net4_netmask n) 0xFFFFFFFF = mask (host_bits n)"
    unfolding netmask_not_mask [OF assms] all_ones_32 by (rule bit_word_eqI) (simp add: bit_simps)
  then show ?thesis
    using or_mask_value [of "host_bits n" "net4_network n"] host_bits_le [of n]
    by (simp add: net4_broadcast_def network_value [OF assms])
qed

text \<open>The addresses of a network.\<close>

definition members :: "network_v4 \<Rightarrow> address_v4 set" where
  "members n = {x. and x (net4_netmask n) = net4_network n}"

lemma member_block:
  assumes "net4_wf n"
  shows "x \<in> members n \<longleftrightarrow> unat x div 2 ^ host_bits n = unat (net4_address n) div 2 ^ host_bits n"
proof -
  have "x \<in> members n \<longleftrightarrow> unat (and x (not (mask (host_bits n)))) = unat (net4_network n)"
    by (simp add: members_def netmask_not_mask [OF assms] word_unat_eq_iff)
  then show ?thesis by (simp add: and_not_mask_value network_value [OF assms])
qed

lemma address_in_own_network: "net4_wf n \<Longrightarrow> net4_address n \<in> members n"
  by (simp add: member_block)

lemma div_block: "0 < k \<Longrightarrow> v div k = q \<longleftrightarrow> q * k \<le> v \<and> v \<le> q * k + (k - 1)" for k v q :: nat
proof
  assume "0 < k" "q * k \<le> v \<and> v \<le> q * k + (k - 1)"
  then show "v div k = q" by (intro div_nat_eqI) (auto simp: mult.commute)
next
  assume "0 < k" "v div k = q"
  then show "q * k \<le> v \<and> v \<le> q * k + (k - 1)"
    using dividend_less_times_div [of k v] div_times_less_eq_dividend [of v k]
    by (auto simp: mult.commute)
qed

lemma members_between:
  assumes "net4_wf n"
  shows "x \<in> members n \<longleftrightarrow> net4_network n \<le> x \<and> x \<le> net4_broadcast n"
proof -
  have "(0 :: nat) < 2 ^ host_bits n" by simp
  note block = div_block [OF this]
  show ?thesis
    unfolding member_block [OF assms] word_le_nat_alt network_value [OF assms] broadcast_value [OF assms]
    by (rule block)
qed

section \<open>Masks and prefixes\<close>

lemma mask_loop_finished: "mask_loop True p bs = Inr q \<longleftrightarrow> q = p \<and> list_all (\<lambda>b. b = 0) bs"
  by (induction bs) auto

text \<open>The masks that the constructor takes are those of the prefixes, by the place of the last bit.\<close>

lemma mask_loop_step:
  "mask_loop False p (b # bs) = Inr q \<longleftrightarrow>
     (if b = 255 then mask_loop False (p + 8) bs = Inr q
      else list_all (\<lambda>b. b = 0) bs \<and> (\<exists>n. mask_byte b = Some (n, True) \<and> q = p + n))"
  by (auto simp: mask_byte_def mask_loop_finished)

lemma mask_byte_last: "mask_byte b = Some (n, True) \<longleftrightarrow> n < 8 \<and> b = push_bit (8 - n) 0xFF"
proof
  assume "mask_byte b = Some (n, True)"
  then show "n < 8 \<and> b = push_bit (8 - n) 0xFF"
    by (auto simp: mask_byte_def split: if_splits)
next
  assume "n < 8 \<and> b = push_bit (8 - n) 0xFF"
  then have "n \<in> {0, 1, 2, 3, 4, 5, 6, 7}" "b = push_bit (8 - n) 0xFF" by auto
  then show "mask_byte b = Some (n, True)"
    by (auto simp: mask_byte_def)
qed

fun mask_bytes :: "nat \<Rightarrow> nat \<Rightarrow> u8 list" where
  "mask_bytes 0 k = []"
| "mask_bytes (Suc l) k =
     (if 8 \<le> k then 255 # mask_bytes l (k - 8) else push_bit (8 - k) 0xFF # replicate l 0)"

lemma all_zero: "list_all (\<lambda>b. b = (0 :: u8)) bs \<longleftrightarrow> bs = replicate (length bs) 0"
  by (induction bs) auto

lemma last_not_all: "k < 8 \<Longrightarrow> push_bit (8 - k) 0xFF \<noteq> (255 :: u8)"
proof -
  assume "k < 8"
  then have "\<not> bit (push_bit (8 - k) 0xFF :: u8) 0" by (simp add: bit_simps)
  moreover have "bit (255 :: u8) 0" by simp
  ultimately show ?thesis by metis
qed

lemma mask_loop_bytes:
  "mask_loop False p bs = Inr q \<longleftrightarrow>
     (\<exists>k. k \<le> 8 * length bs \<and> q = p + k \<and> bs = mask_bytes (length bs) k)"
proof (induction bs arbitrary: p)
  case (Cons b bs)
  show ?case
  proof (cases "b = 255")
    case True
    have "(\<exists>k. k \<le> 8 * length bs \<and> q = p + 8 + k \<and> bs = mask_bytes (length bs) k) \<longleftrightarrow>
        (\<exists>k. k \<le> 8 + 8 * length bs \<and> q = p + k \<and> 8 \<le> k \<and> bs = mask_bytes (length bs) (k - 8))"
    proof (intro iffI; elim exE)
      fix k assume "k \<le> 8 * length bs \<and> q = p + 8 + k \<and> bs = mask_bytes (length bs) k"
      then show "\<exists>k. k \<le> 8 + 8 * length bs \<and> q = p + k \<and> 8 \<le> k \<and> bs = mask_bytes (length bs) (k - 8)"
        by (intro exI [of _ "k + 8"]) auto
    next
      fix k assume "k \<le> 8 + 8 * length bs \<and> q = p + k \<and> 8 \<le> k \<and> bs = mask_bytes (length bs) (k - 8)"
      then show "\<exists>k. k \<le> 8 * length bs \<and> q = p + 8 + k \<and> bs = mask_bytes (length bs) k"
        by (intro exI [of _ "k - 8"]) auto
    qed
    with Cons.IH [of "p + 8"] True last_not_all show ?thesis
      unfolding mask_loop_step by (auto simp: not_le)
  next
    case False
    then show ?thesis
      unfolding mask_loop_step mask_byte_last
      by (auto simp: all_zero [of bs] not_le split: if_splits intro: exI [of _ "q - p"])
  qed
qed auto

lemma netmask_bytes:
  assumes "net4_wf n"
  shows "v4_to_bytes (net4_netmask n) = mask_bytes 4 (net4_prefix n)"
proof -
  have "list_all (\<lambda>p. v4_to_bytes (net4_netmask (Network_V4 0 p)) = mask_bytes 4 p) [0..<33]"
    by code_simp
  moreover have "net4_prefix n \<in> set [0..<33]" using assms by (auto simp: net4_wf_def)
  ultimately have "v4_to_bytes (net4_netmask (Network_V4 0 (net4_prefix n))) = mask_bytes 4 (net4_prefix n)"
    by (simp only: list_all_iff)
  then show ?thesis by (simp only: net4_netmask_def network_v4.sel)
qed

text \<open>
  The masks of the prefixes are exactly the masks the constructor takes. A network made from
  an address and a mask has that address and a prefix of at most 32 bits whose mask is the one
  given, and every mask of such a prefix is taken; all others are refused.
\<close>

theorem netmask_roundtrip:
  "mask_network_v4 addr m = Inr n \<longleftrightarrow> net4_wf n \<and> net4_address n = addr \<and> net4_netmask n = m"
proof -
  have "mask_network_v4 addr m = Inr n \<longleftrightarrow>
      net4_address n = addr \<and> mask_loop False 0 (v4_to_bytes m) = Inr (net4_prefix n)"
    by (cases n) (auto simp: mask_network_v4_def split: sum.splits)
  also have "mask_loop False 0 (v4_to_bytes m) = Inr (net4_prefix n) \<longleftrightarrow>
      net4_wf n \<and> v4_to_bytes m = mask_bytes 4 (net4_prefix n)"
    unfolding mask_loop_bytes by (auto simp: net4_wf_def)
  finally show ?thesis
    using netmask_bytes [of n] v4_from_to_bytes by metis
qed

section \<open>Hosts\<close>

lemma mask_32: "mask 32 = (0xFFFFFFFF :: u32)"
  by (simp add: mask_eq_exp_minus_1)

lemma v4_next_plus: "v4_next a = a + 1"
  by (rule bit_word_eqI) (simp add: v4_next_def bit_simps flip: mask_32)

lemma iterate_next: "(v4_next ^^ k) a = a + word_of_nat k"
  by (induction k) (simp_all add: v4_next_plus algebra_simps)

text \<open>
  C40. The range of hosts has every address of the network but the first and the last. For a prefix
  of at most 31 bits, going on from the range's begin as often as its size says visits exactly
  the addresses of the network other than its own address and its broadcast address, each
  once; there are as many as fit into the bits the prefix leaves, less the two.
\<close>

theorem hosts_of_network:
  assumes "net4_prefix n \<le> 31"
  shows "(\<lambda>k. (v4_next ^^ k) (range_begin (net4_hosts n))) ` {..<range_size (net4_hosts n)} =
           members n - {net4_network n, net4_broadcast n} \<and>
         range_size (net4_hosts n) = 2 ^ (32 - net4_prefix n) - 2"
proof -
  have wf: "net4_wf n" using assms by (simp add: net4_wf_def)
  define m where "m = (2 :: nat) ^ host_bits n"
  define v where "v = unat (net4_network n)"
  have "2 ^ 1 \<le> m" unfolding m_def using assms by (intro power_increasing) (auto simp: host_bits_def)
  then have m: "2 \<le> m" by simp
  have b: "unat (net4_broadcast n) = v + (m - 1)"
    by (simp add: broadcast_value [OF wf] network_value [OF wf] v_def m_def)
  have room: "v + m \<le> 2 ^ 32" using b m unat_u32 [of "net4_broadcast n"] by linarith
  define first where "first = net4_network n + 1"
  have hosts: "net4_hosts n = \<lparr>range_begin = first, range_end = net4_broadcast n\<rparr>"
    using assms by (simp add: net4_hosts_def net4_is_host_def first_def)
  have first: "unat first = v + 1"
  proof -
    have "first = word_of_nat (v + 1)" by (simp add: first_def v_def add.commute)
    moreover have "v + 1 < 2 ^ LENGTH(32)" using room m by simp
    ultimately show ?thesis by (simp only: word_of_nat_unat_less)
  qed
  have size: "range_size (net4_hosts n) = m - 2"
  proof -
    have "first \<le> net4_broadcast n" using b first m by (simp add: word_le_nat_alt)
    then show ?thesis using b first m by (simp add: range_size_def hosts unat_sub)
  qed
  have step: "unat ((v4_next ^^ k) first) = v + 1 + k" if "k < m - 2" for k
  proof -
    have "(v4_next ^^ k) first = word_of_nat (v + 1 + k)"
      unfolding iterate_next by (simp add: first_def v_def add.commute)
    moreover have "v + 1 + k < 2 ^ LENGTH(32)" using that room by simp
    ultimately show ?thesis by (simp only: word_of_nat_unat_less)
  qed
  have inner: "x \<in> members n - {net4_network n, net4_broadcast n} \<longleftrightarrow> v < unat x \<and> unat x < v + (m - 1)" for x
    unfolding Diff_iff members_between [OF wf] word_le_nat_alt b insert_iff empty_iff word_unat_eq_iff
    by (auto simp: v_def)
  have "(\<lambda>k. (v4_next ^^ k) first) ` {..<m - 2} = members n - {net4_network n, net4_broadcast n}"
  proof (intro set_eqI iffI)
    fix x assume "x \<in> (\<lambda>k. (v4_next ^^ k) first) ` {..<m - 2}"
    then show "x \<in> members n - {net4_network n, net4_broadcast n}"
      unfolding inner using step by auto
  next
    fix x assume "x \<in> members n - {net4_network n, net4_broadcast n}"
    then have x: "v < unat x" "unat x < v + (m - 1)" unfolding inner by auto
    then have "unat x - (v + 1) < m - 2" by linarith
    moreover from x step [OF this] have "(v4_next ^^ (unat x - (v + 1))) first = x"
      by (simp add: word_unat_eq_iff)
    ultimately show "x \<in> (\<lambda>k. (v4_next ^^ k) first) ` {..<m - 2}" by force
  qed
  then show ?thesis using size by (simp add: hosts m_def host_bits_def)
qed

lemma hosts_of_network_witness:
  "range_size (net4_hosts (Network_V4 0xC0A80105 24)) = 254 \<and>
   0xC0A80105 \<in> (\<lambda>k. (v4_next ^^ k) (range_begin (net4_hosts (Network_V4 0xC0A80105 24)))) ` {..<254}"
proof -
  let ?n = "Network_V4 0xC0A80105 24"
  have "net4_prefix ?n \<le> 31" by simp
  note hosts = hosts_of_network [OF this]
  then have size: "range_size (net4_hosts ?n) = 254" by simp
  have "0xC0A80105 \<in> members ?n" using address_in_own_network [of ?n] by (simp add: net4_wf_def)
  moreover have "net4_network ?n \<noteq> 0xC0A80105" "net4_broadcast ?n \<noteq> 0xC0A80105"
    by (simp_all add: net4_network_def net4_netmask_def net4_broadcast_def)
  ultimately show ?thesis using hosts size by auto
qed

section \<open>Subnets\<close>

lemma div_nested: "x div (2 :: nat) ^ k = y div 2 ^ k \<Longrightarrow> k \<le> l \<Longrightarrow> x div 2 ^ l = y div 2 ^ l"
proof -
  assume eq: "x div 2 ^ k = y div 2 ^ k" and "k \<le> l"
  then have "(2 :: nat) ^ l = 2 ^ k * 2 ^ (l - k)" by (simp flip: power_add)
  with eq show ?thesis by (simp add: div_mult2_eq)
qed

lemma members_nested:
  assumes "net4_wf n" "net4_wf other" "net4_prefix other \<le> net4_prefix n"
    "net4_address n \<in> members other"
  shows "members n \<subseteq> members other"
proof
  fix x assume "x \<in> members n"
  with assms(1) have "unat x div 2 ^ host_bits n = unat (net4_address n) div 2 ^ host_bits n"
    by (simp add: member_block)
  moreover have "host_bits n \<le> host_bits other" using assms(3) by (simp add: host_bits_def)
  ultimately show "x \<in> members other"
    using div_nested [of "unat x" "host_bits n" "unat (net4_address n)" "host_bits other"] assms(4)
    by (simp add: member_block [OF assms(2)])
qed

lemma member_bounds:
  assumes "net4_wf n"
  shows "net4_network n \<in> members n" "net4_broadcast n \<in> members n"
    "unat (net4_broadcast n) = unat (net4_network n) + (2 ^ host_bits n - 1)"
proof -
  show sum: "unat (net4_broadcast n) = unat (net4_network n) + (2 ^ host_bits n - 1)"
    by (simp only: broadcast_value [OF assms] network_value [OF assms])
  then have "net4_network n \<le> net4_broadcast n" unfolding word_le_nat_alt by linarith
  then show "net4_network n \<in> members n" "net4_broadcast n \<in> members n"
    by (simp_all add: members_between [OF assms])
qed

text \<open>A longer prefix leaves addresses out.\<close>

lemma members_smaller:
  assumes "net4_wf n" "net4_wf other" "net4_prefix other < net4_prefix n"
  shows "\<not> members other \<subseteq> members n"
proof
  assume "members other \<subseteq> members n"
  then have "net4_network n \<le> net4_network other" "net4_broadcast other \<le> net4_broadcast n"
    using member_bounds [OF assms(2)] members_between [OF assms(1)] by blast+
  then have "(2 :: nat) ^ host_bits other - 1 \<le> 2 ^ host_bits n - 1"
    using member_bounds(3) [OF assms(1)] member_bounds(3) [OF assms(2)] by (simp add: word_le_nat_alt)
  moreover have "(2 :: nat) ^ host_bits n < 2 ^ host_bits other"
    using assms by (intro power_strict_increasing) (auto simp: host_bits_def net4_wf_def)
  ultimately show False using zero_less_power [of "2 :: nat" "host_bits n"] by linarith
qed

lemma members_same_prefix:
  assumes "net4_prefix a = net4_prefix b"
  shows "net4_network a = net4_network b \<longleftrightarrow> net4_address a \<in> members b"
  using assms by (simp add: members_def net4_network_def net4_netmask_def)

text \<open>
  A network is a subnet of another for the code exactly when its addresses are some but not
  all of the other's. The test never throws on networks of at most 32 bits.
\<close>

theorem subnet_iff_subset:
  assumes "net4_wf n" "net4_wf other"
  shows "net4_is_subnet_of n other = Inr (members n \<subset> members other)"
proof (cases "net4_prefix n \<le> net4_prefix other")
  case True
  have "\<not> members n \<subset> members other"
  proof
    assume less: "members n \<subset> members other"
    then have "net4_address n \<in> members other" using address_in_own_network [OF assms(1)] by blast
    show False
    proof (cases "net4_address other \<in> members n")
      case True
      with members_nested [OF assms(2,1)] \<open>net4_prefix n \<le> net4_prefix other\<close> less show False by blast
    next
      case False
      have "host_bits other \<le> host_bits n" using True by (simp add: host_bits_def)
      with \<open>net4_address n \<in> members other\<close> have "net4_address other \<in> members n"
        using div_nested [of "unat (net4_address n)" "host_bits other" "unat (net4_address other)" "host_bits n"]
        by (simp add: member_block assms)
      with False show False by blast
    qed
  qed
  with True show ?thesis by (simp add: net4_is_subnet_of_def)
next
  case False
  then have less: "net4_prefix other < net4_prefix n" by simp
  let ?me = "Network_V4 (net4_address n) (net4_prefix other)"
  have "net4_is_subnet_of n other = Inr (net4_network other = net4_network ?me)"
    using less assms by (simp add: net4_is_subnet_of_def new_network_v4_def net4_canonical_def
        net4_wf_def net4_equal_def)
  moreover have "net4_network other = net4_network ?me \<longleftrightarrow> net4_address n \<in> members other"
    using members_same_prefix [of ?me other] by auto
  moreover have "net4_address n \<in> members other \<longleftrightarrow> members n \<subset> members other"
    using members_nested [OF assms less_imp_le [OF less]] members_smaller [OF assms less]
      address_in_own_network [OF assms(1)] by blast
  ultimately show ?thesis by simp
qed

lemma subnet_iff_subset_witness:
  "members (Network_V4 0xC0A80105 24) \<subset> members (Network_V4 0xC0A80000 16)"
proof -
  have "net4_wf (Network_V4 0xC0A80105 24)" "net4_wf (Network_V4 0xC0A80000 16)"
    by (simp_all add: net4_wf_def)
  from subnet_iff_subset [OF this] show ?thesis
    by (simp add: net4_is_subnet_of_def new_network_v4_def net4_canonical_def net4_equal_def
        net4_network_def net4_netmask_def)
qed

section \<open>Text\<close>

text \<open>What is printed is parsed, whatever the version, when the address has no slash in it.\<close>

lemma parse_network_printed:
  assumes "CHR ''/'' \<notin> set s" "make_addr s = Some a" "int p \<le> max_prefix" "p < 2 ^ 31"
  shows "parse_network make_addr max_prefix (s @ ''/'' @ to_string p) = Inr (Some (a, p))"
proof -
  have "takeWhile (\<lambda>c. c \<noteq> CHR ''/'') (s @ ''/'' @ to_string p) = s"
    using assms(1) by (induction s) auto
  moreover have "atoi (to_string p) = Inr (int p)" using assms(4) by (simp add: atoi_def)
  moreover have "0 < length (to_string p)" by simp
  ultimately show ?thesis
    using assms(2,3) to_string_digits [of p] by (simp add: parse_network_def Let_def)
qed

lemma no_slash_digits: "CHR ''/'' \<notin> set (to_string n)"
  using to_string_digits [of n] by (auto simp: list_all_iff is_digit_def)

lemma no_slash_v4: "CHR ''/'' \<notin> set (v4_to_string a)"
  by (simp add: v4_to_string_def inet_ntop_v4_def no_slash_digits)

lemma make_network_v4_to_string:
  "net4_wf n \<Longrightarrow> make_network_v4 (net4_to_string n) = Inr (Some n)"
  using parse_network_printed [OF no_slash_v4, of make_address_v4 _ _ "net4_prefix n" 32]
  by (simp add: make_network_v4_def net4_to_string_def net4_wf_def)

end
