(* ===== verification/Network_V6.thy ===== *)
theory Network_V6
  imports Network_V4
begin

text \<open>
  \<open>asio::ip::network_v6\<close> (\<open>ip/network_v6.hpp\<close>, \<open>ip/impl/network_v6.ipp\<close>): an IPv6 address with
  the length of its prefix. Its bounds are computed byte by byte; the lemmas read the bytes as
  one number, where a network is a block whose size is a power of two.
\<close>

section \<open>Networks\<close>

datatype network_v6 = Network_V6 (net6_address: address_v6) (net6_prefix: nat)

record v6_range =
  range6_begin :: address_v6
  range6_end :: address_v6

definition no_network_v6 :: network_v6 where
  "no_network_v6 = Network_V6 v6_any 0"

definition new_network_v6 :: "address_v6 \<Rightarrow> nat \<Rightarrow> net_error + network_v6" where
  "new_network_v6 addr prefix_len =
     (if 128 < prefix_len then Inl Out_of_range else Inr (Network_V6 addr prefix_len))"

text \<open>The loops over the bytes, from index \<open>i\<close>.\<close>

fun begin_loop :: "nat \<Rightarrow> nat \<Rightarrow> u8 list \<Rightarrow> u8 list" where
  "begin_loop prefix_length i [] = []"
| "begin_loop prefix_length i (b # bs) =
     (if prefix_length \<le> i * 8 then 0
      else if prefix_length < (i + 1) * 8
      then and b (word_of_nat (drop_bit (prefix_length mod 8) 0xFF00))
      else b) # begin_loop prefix_length (i + 1) bs"

fun end_loop :: "nat \<Rightarrow> nat \<Rightarrow> u8 list \<Rightarrow> u8 list" where
  "end_loop prefix_length i [] = []"
| "end_loop prefix_length i (b # bs) =
     (if prefix_length \<le> i * 8 then 0xFF
      else if prefix_length < (i + 1) * 8
      then or b (word_of_nat (drop_bit (prefix_length mod 8) 0xFF))
      else b) # end_loop prefix_length (i + 1) bs"

definition net6_network :: "network_v6 \<Rightarrow> address_v6" where
  "net6_network n =
     v6_from_bytes (begin_loop (net6_prefix n) 0 (v6_to_bytes (net6_address n)))
       (scope_id (net6_address n))"

definition net6_hosts :: "network_v6 \<Rightarrow> v6_range" where
  "net6_hosts n =
     (let begin_bytes = begin_loop (net6_prefix n) 0 (v6_to_bytes (net6_address n));
          end_bytes = end_loop (net6_prefix n) 0 (v6_to_bytes (net6_address n))
      in \<lparr>range6_begin = v6_from_bytes begin_bytes (scope_id (net6_address n)),
          range6_end = v6_next (v6_from_bytes end_bytes (scope_id (net6_address n)))\<rparr>)"

definition net6_canonical :: "network_v6 \<Rightarrow> net_error + network_v6" where
  "net6_canonical n = new_network_v6 (net6_network n) (net6_prefix n)"

definition net6_is_host :: "network_v6 \<Rightarrow> bool" where
  "net6_is_host n \<longleftrightarrow> net6_prefix n = 128"

definition net6_equal :: "network_v6 \<Rightarrow> network_v6 \<Rightarrow> bool" where
  "net6_equal a b \<longleftrightarrow> v6_equal (net6_address a) (net6_address b) \<and> net6_prefix a = net6_prefix b"

definition net6_is_subnet_of :: "network_v6 \<Rightarrow> network_v6 \<Rightarrow> net_error + bool" where
  "net6_is_subnet_of n other =
     (if net6_prefix n \<le> net6_prefix other then Inr False
      else case new_network_v6 (net6_address n) (net6_prefix other) of
             Inl e \<Rightarrow> Inl e
           | Inr me \<Rightarrow>
               case net6_canonical other of
                 Inl e \<Rightarrow> Inl e
               | Inr c \<Rightarrow>
                   case net6_canonical me of
                     Inl e \<Rightarrow> Inl e
                   | Inr c' \<Rightarrow> Inr (net6_equal c c'))"

definition net6_to_string :: "network_v6 \<Rightarrow> string" where
  "net6_to_string n = v6_to_string (net6_address n) @ ''/'' @ to_string (net6_prefix n)"

definition make_network_v6 :: "string \<Rightarrow> network_v6 option result" where
  "make_network_v6 str =
     bindR (parse_network make_address_v6 128 str) (\<lambda>r.
       Inr (map_option (\<lambda>(addr, prefix_len). Network_V6 addr prefix_len) r))"

section \<open>The bounds as numbers\<close>

definition net6_wf :: "network_v6 \<Rightarrow> bool" where
  "net6_wf n \<longleftrightarrow> v6_wf (net6_address n) \<and> net6_prefix n \<le> 128"

lemma bytes_value_Cons: "bytes_value (b # bs) = unat b * 256 ^ length bs + bytes_value bs"
proof (induction bs rule: rev_induct)
  case Nil
  show ?case by (simp add: bytes_value_def)
next
  case (snoc c bs)
  have "bytes_value ((b # bs) @ [c]) = 256 * bytes_value (b # bs) + unat c" by (rule bytes_value_snoc)
  with snoc show ?case by (simp add: algebra_simps)
qed

lemma length_begin_loop [simp]: "length (begin_loop p i bs) = length bs"
  by (induction bs arbitrary: i) simp_all

lemma length_end_loop [simp]: "length (end_loop p i bs) = length bs"
  by (induction bs arbitrary: i) simp_all

lemma begin_mask:
  assumes "q < 8"
  shows "(word_of_nat (drop_bit q 0xFF00) :: u8) = not (mask (8 - q))"
    "(word_of_nat (drop_bit q 0xFF) :: u8) = mask (8 - q)"
proof -
  have "q \<in> {0, 1, 2, 3, 4, 5, 6, 7}" using assms by auto
  then show "(word_of_nat (drop_bit q 0xFF00) :: u8) = not (mask (8 - q))"
    "(word_of_nat (drop_bit q 0xFF) :: u8) = mask (8 - q)"
    by (auto simp: drop_bit_eq_div mask_eq_exp_minus_1)
qed

lemma block_head:
  fixes v h k l :: nat
  assumes "k \<le> l" 
  shows "(h * 2 ^ l + v) div 2 ^ k * 2 ^ k = h * 2 ^ l + v div 2 ^ k * 2 ^ k"
proof -
  have "(2 :: nat) ^ l = 2 ^ k * 2 ^ (l - k)" using assms by (simp flip: power_add)
  then have "h * 2 ^ l = (h * 2 ^ (l - k)) * 2 ^ k" by (simp only: mult_ac)
  moreover have "(m * 2 ^ k + v) div 2 ^ k * 2 ^ k = m * 2 ^ k + v div 2 ^ k * 2 ^ k" for m
    by (simp add: add_mult_distrib)
  ultimately show ?thesis by (simp only:)
qed

lemma block_inside:
  fixes v h r l :: nat
  assumes "v < 2 ^ l"
  shows "(h * 2 ^ l + v) div 2 ^ (l + r) = h div 2 ^ r" "v div 2 ^ (l + r) = 0"
proof -
  show "(h * 2 ^ l + v) div 2 ^ (l + r) = h div 2 ^ r"
    using assms by (simp add: power_add div_mult2_eq)
  have "(2 :: nat) ^ l \<le> 2 ^ (l + r)" by (intro power_increasing) simp_all
  with assms have "v < 2 ^ (l + r)" by linarith
  then show "v div 2 ^ (l + r) = 0" by (rule div_less)
qed

lemma mid_byte: "i * 8 < p \<Longrightarrow> p < (i + 1) * 8 \<Longrightarrow> 8 - p mod 8 = (i + 1) * 8 - p" for i p :: nat
proof -
  assume "i * 8 < p" "p < (i + 1) * 8"
  then obtain q where "p = q + i * 8" "q < 8"
    by (metis add.commute le_add_diff_inverse less_diff_conv2 less_or_eq_imp_le add_mult_distrib mult_1 less_diff_conv)
  then show ?thesis by simp
qed

lemma begin_loop_value:
  "p \<le> 8 * (i + length bs) \<Longrightarrow>
   bytes_value (begin_loop p i bs) =
     bytes_value bs div 2 ^ (8 * (i + length bs) - p) * 2 ^ (8 * (i + length bs) - p)"
proof (induction bs arbitrary: i)
  case (Cons b bs)
  define k where "k = 8 * (i + length (b # bs)) - p"
  define l where "l = 8 * length bs"
  have pow: "(256 :: nat) ^ length bs = 2 ^ l" by (simp add: l_def power_mult)
  have v: "bytes_value bs < 2 ^ l" using bytes_value_less [of bs] by (simp add: pow)
  let ?b = "if p \<le> i * 8 then 0 else if p < (i + 1) * 8
      then and b (word_of_nat (drop_bit (p mod 8) 0xFF00)) else b"
  have "i + 1 + length bs = i + length (b # bs)" by simp
  with Cons.IH [of "i + 1"] Cons.prems
  have ih: "bytes_value (begin_loop p (i + 1) bs) = bytes_value bs div 2 ^ k * 2 ^ k"
    by (simp only: k_def)
  have "bytes_value (begin_loop p i (b # bs)) = unat ?b * 2 ^ l + bytes_value bs div 2 ^ k * 2 ^ k"
    by (simp add: bytes_value_Cons ih [unfolded Suc_eq_plus1 [symmetric]] pow)
  also have "\<dots> = (unat b * 2 ^ l + bytes_value bs) div 2 ^ k * 2 ^ k"
  proof (cases "p < (i + 1) * 8")
    case False
    then have "k \<le> l" by (simp add: k_def l_def)
    with False show ?thesis by (simp add: block_head)
  next
    case True
    define r where "r = (i + 1) * 8 - p"
    have k: "k = l + r" using True by (simp add: k_def l_def r_def)
    show ?thesis
    proof (cases "p \<le> i * 8")
      case True
      then have "8 \<le> r" by (simp add: r_def)
      then have "(2 :: nat) ^ 8 \<le> 2 ^ r" by (intro power_increasing) simp_all
      then have "unat b div 2 ^ r = 0" using unat_u8 [of b] by simp
      with True show ?thesis by (simp add: k block_inside [OF v])
    next
      case False
      with True have "p mod 8 < 8" "8 - p mod 8 = r" using mid_byte [of i p] by (simp_all add: r_def)
      with False True show ?thesis
        by (simp add: k block_inside [OF v] begin_mask and_not_mask_value) (simp add: power_add)
    qed
  qed
  finally show ?case by (simp only: bytes_value_Cons pow k_def)
qed simp

text \<open>The last address of the block, over the part of the bytes from index \<open>i\<close>.\<close>

lemma end_loop_value:
  "p \<le> 8 * (i + length bs) \<Longrightarrow>
   bytes_value (end_loop p i bs) + 1 =
     bytes_value (begin_loop p i bs) + min (2 ^ (8 * (i + length bs) - p)) (256 ^ length bs)"
proof (induction bs arbitrary: i)
  case (Cons b bs)
  define k where "k = 8 * (i + length (b # bs)) - p"
  define l where "l = 8 * length bs"
  have pow: "(256 :: nat) ^ length bs = 2 ^ l" by (simp add: l_def power_mult)
  let ?v = "bytes_value (begin_loop p (i + 1) bs)" and ?w = "bytes_value (end_loop p (i + 1) bs)"
  let ?b = "if p \<le> i * 8 then 0 else if p < (i + 1) * 8
      then and b (word_of_nat (drop_bit (p mod 8) 0xFF00)) else b"
  let ?c = "if p \<le> i * 8 then 0xFF else if p < (i + 1) * 8
      then or b (word_of_nat (drop_bit (p mod 8) 0xFF)) else b"
  have "i + 1 + length bs = i + length (b # bs)" by simp
  with Cons.IH [of "i + 1"] Cons.prems have ih: "?w + 1 = ?v + min (2 ^ k) (2 ^ l)"
    by (simp only: k_def pow)
  have vals: "bytes_value (begin_loop p i (b # bs)) = unat ?b * 2 ^ l + ?v"
    "bytes_value (end_loop p i (b # bs)) = unat ?c * 2 ^ l + ?w"
    by (simp_all add: bytes_value_Cons pow)
  have small: "(2 :: nat) ^ m \<le> 2 ^ n" if "m \<le> n" for m n using that by (intro power_increasing) simp_all
  have "unat ?c * 2 ^ l + ?w + 1 = unat ?b * 2 ^ l + ?v + min (2 ^ k) (256 * 2 ^ l)"
  proof (cases "p < (i + 1) * 8")
    case False
    then have "k \<le> l" by (simp add: k_def l_def)
    from small [OF this] have "min (2 ^ k) (2 ^ l) = (2 :: nat) ^ k" "min (2 ^ k) (256 * 2 ^ l) = (2 :: nat) ^ k"
      by (intro min_absorb1; linarith)+
    with False ih show ?thesis by simp
  next
    case True
    define r where "r = (i + 1) * 8 - p"
    have k: "k = l + r" using True by (simp add: k_def l_def r_def)
    from small [of l k] have "min (2 ^ k) (2 ^ l) = (2 :: nat) ^ l" by (simp add: k)
    with ih have ih: "?w + 1 = ?v + 2 ^ l" by simp
    show ?thesis
    proof (cases "p \<le> i * 8")
      case True
      then have "8 + l \<le> k" by (simp add: r_def k)
      from small [OF this] have "min (2 ^ k) (256 * 2 ^ l) = (256 :: nat) * 2 ^ l"
        by (simp add: power_add)
      with True ih show ?thesis by simp
    next
      case False
      with True have q: "p mod 8 < 8" "8 - p mod 8 = r" using mid_byte [of i p] by (simp_all add: r_def)
      then have r: "r \<le> LENGTH(8)" by simp
      have "k \<le> 8 + l" using r by (simp add: k)
      from small [OF this] have "min (2 ^ k) (256 * 2 ^ l) = (2 :: nat) ^ r * 2 ^ l"
        by (simp add: power_add k mult.commute)
      moreover have "unat ?c + 1 = unat ?b + 2 ^ r"
        using False True or_mask_value [OF r, of b] by (simp add: begin_mask q and_not_mask_value)
      then have "(unat ?c + 1) * 2 ^ l = (unat ?b + 2 ^ r) * 2 ^ l" by (simp only:)
      ultimately show ?thesis using ih by (simp add: add_mult_distrib)
    qed
  qed
  then show ?case by (simp only: vals k_def) (simp add: pow)
qed simp

text \<open>
  The bounds of an IPv6 network. Read as a number, the network address is the address with
  the bits behind the prefix cleared; the range of hosts begins there and ends one block of
  addresses later, modulo 2 to the 128th, with the scope id kept. With no prefix at all the
  end is the begin: the range of all addresses is the empty one.
\<close>

theorem v6_network_block:
  assumes "net6_wf n"
  shows "let a = net6_address n; k = 128 - net6_prefix n; hosts = net6_hosts n in
         bytes_value (s6_addr (net6_network n)) = bytes_value (s6_addr a) div 2 ^ k * 2 ^ k \<and>
         range6_begin hosts = net6_network n \<and>
         bytes_value (s6_addr (range6_end hosts)) =
           (bytes_value (s6_addr (net6_network n)) + 2 ^ k) mod 2 ^ 128 \<and>
         scope_id (net6_network n) = scope_id a \<and> scope_id (range6_end hosts) = scope_id a \<and>
         v6_wf (net6_network n) \<and> v6_wf (range6_end hosts) \<and>
         (net6_prefix n = 0 \<longrightarrow> range6_begin hosts = range6_end hosts)"
proof -
  define bs where "bs = s6_addr (net6_address n)"
  define p where "p = net6_prefix n"
  have len: "length bs = 16" and p: "p \<le> 8 * (0 + length bs)"
    using assms by (simp_all add: net6_wf_def v6_wf_def bs_def p_def)
  have k: "8 * (0 + length bs) - p = 128 - p" by (simp add: len)
  have pow: "(256 :: nat) ^ 16 = 2 ^ 128" by simp
  have "(2 :: nat) ^ (128 - p) \<le> 2 ^ 128" by (intro power_increasing) simp_all
  then have "min (2 ^ (128 - p)) (256 ^ length bs) = (2 :: nat) ^ (128 - p)"
    unfolding len pow by (rule min_absorb1)
  with end_loop_value [OF p]
  have last: "bytes_value (end_loop p 0 bs) + 1 = bytes_value (begin_loop p 0 bs) + 2 ^ (128 - p)"
    by (simp only: k)
  have "bytes_value (inc_bytes 16 (end_loop p 0 bs)) =
      (bytes_value (begin_loop p 0 bs) + 2 ^ (128 - p)) mod 2 ^ 128"
    using inc_bytes_value [of "end_loop p 0 bs"] by (simp only: length_end_loop len pow last)
  moreover have network: "net6_network n = Address_V6 (begin_loop p 0 bs) (scope_id (net6_address n))"
    by (simp add: net6_network_def v6_from_bytes_def v6_to_bytes_def bs_def p_def)
  moreover have hosts: "range6_begin (net6_hosts n) = net6_network n"
    "range6_end (net6_hosts n) = Address_V6 (inc_bytes 16 (end_loop p 0 bs)) (scope_id (net6_address n))"
    by (simp_all add: net6_hosts_def net6_network_def v6_from_bytes_def v6_to_bytes_def v6_next_def
        Let_def bs_def p_def)
  moreover have "begin_loop p 0 bs = inc_bytes 16 (end_loop p 0 bs)" if "p = 0"
  proof -
    have "bytes_value (begin_loop p 0 bs) = 0"
      using begin_loop_value [OF p] bytes_value_less [of bs] unfolding k that len pow by simp
    with calculation(1) that have "bytes_value (inc_bytes 16 (end_loop p 0 bs)) = 0" by simp
    with \<open>bytes_value (begin_loop p 0 bs) = 0\<close> show ?thesis
      by (intro bytes_value_inject [THEN iffD1]) simp_all
  qed
  ultimately show ?thesis
    using begin_loop_value [OF p] len unfolding Let_def k
    by (simp add: v6_wf_def bs_def p_def)
qed

lemma v6_network_block_witness:
  "range6_begin (net6_hosts (Network_V6 v6_loopback 0)) = range6_end (net6_hosts (Network_V6 v6_loopback 0))"
proof -
  have "net6_wf (Network_V6 v6_loopback 0)" by (simp add: net6_wf_def)
  from v6_network_block [OF this] show ?thesis unfolding Let_def network_v6.sel by blast
qed

text \<open>The test for subnets compares the numbers up to the shorter prefix.\<close>

lemma net6_network_value:
  assumes "net6_wf n"
  shows "bytes_value (s6_addr (net6_network n)) =
         bytes_value (s6_addr (net6_address n)) div 2 ^ (128 - net6_prefix n) * 2 ^ (128 - net6_prefix n)"
    "length (s6_addr (net6_network n)) = 16"
proof -
  have len: "length (s6_addr (net6_address n)) = 16" and p: "net6_prefix n \<le> 128"
    using assms by (simp_all add: net6_wf_def v6_wf_def)
  then show "bytes_value (s6_addr (net6_network n)) =
      bytes_value (s6_addr (net6_address n)) div 2 ^ (128 - net6_prefix n) * 2 ^ (128 - net6_prefix n)"
    using begin_loop_value [of "net6_prefix n" 0 "s6_addr (net6_address n)"]
    by (simp add: net6_network_def v6_from_bytes_def v6_to_bytes_def)
  show "length (s6_addr (net6_network n)) = 16"
    using len by (simp add: net6_network_def v6_from_bytes_def v6_to_bytes_def)
qed

lemma net6_subnet:
  assumes "net6_wf n" "net6_wf other"
  shows "net6_is_subnet_of n other =
         Inr (net6_prefix other < net6_prefix n \<and> scope_id (net6_address n) = scope_id (net6_address other) \<and>
           bytes_value (s6_addr (net6_address n)) div 2 ^ (128 - net6_prefix other) =
           bytes_value (s6_addr (net6_address other)) div 2 ^ (128 - net6_prefix other))"
proof (cases "net6_prefix n \<le> net6_prefix other")
  case True
  then show ?thesis by (simp add: net6_is_subnet_of_def)
next
  case False
  let ?me = "Network_V6 (net6_address n) (net6_prefix other)"
  have wf: "net6_wf ?me" using assms by (simp add: net6_wf_def)
  have same: "net6_network other = net6_network ?me \<longleftrightarrow>
      scope_id (net6_network other) = scope_id (net6_network ?me) \<and>
      bytes_value (s6_addr (net6_network other)) = bytes_value (s6_addr (net6_network ?me))"
    using bytes_value_inject [of "s6_addr (net6_network other)" "s6_addr (net6_network ?me)"]
    by (auto simp: net6_network_value [OF assms(2)] net6_network_value [OF wf] intro: address_v6.expand)
  have "net6_is_subnet_of n other = Inr (net6_network other = net6_network ?me)"
    using False assms by (simp add: net6_is_subnet_of_def new_network_v6_def net6_canonical_def
        net6_wf_def net6_equal_def)
  with False show ?thesis
    unfolding same net6_network_value(1) [OF assms(2)] net6_network_value(1) [OF wf]
    by (auto simp: net6_network_def v6_from_bytes_def)
qed

section \<open>Text\<close>

lemma no_slash_hex: "CHR ''/'' \<notin> set (to_hex n)"
proof (induction n rule: to_hex.induct)
  case (1 n)
  have "hex_lower (n mod 16) \<noteq> CHR ''/''"
    using xdigit_hex [of "n mod 16" "[]"] by (auto simp: xdigit_def peek_def)
  with 1 show ?case by (subst to_hex.simps) (simp add: eq_commute)
qed

lemma no_slash_groups:
  "CHR ''/'' \<notin> set (text_after bs)" "CHR ''/'' \<notin> set (text_before bs)" "CHR ''/'' \<notin> set (v6_text bs)"
proof -
  show after: "CHR ''/'' \<notin> set (text_after bs)" for bs
    by (induction bs rule: text_after.induct) (simp_all add: no_slash_hex)
  show before: "CHR ''/'' \<notin> set (text_before bs)" for bs
    by (induction bs rule: text_before.induct) (simp_all add: no_slash_hex run_text_def after)
  show "CHR ''/'' \<notin> set (v6_text bs)"
    by (cases bs rule: v6_text.cases) (simp_all add: no_slash_hex run_text_def after before)
qed

lemma no_slash_v6: "v6_wf a \<Longrightarrow> CHR ''/'' \<notin> set (v6_to_string a)"
  by (simp add: v6_to_string_def v6_wf_def inet_ntop_v6_text no_slash_groups no_slash_digits)

text \<open>
  A network of either version is read back from its text: the address, a slash and the prefix
  length, for scope ids up to 65535, without ever meeting a number that \<open>atoi\<close> cannot hold.
\<close>

theorem network_text_roundtrip:
  assumes "net4_wf n" "net6_wf m" "scope_id (net6_address m) \<le> 65535"
  shows "make_network_v4 (net4_to_string n) = Inr (Some n) \<and>
         make_network_v6 (net6_to_string m) = Inr (Some m)"
proof -
  have "v6_wf (net6_address m)" "net6_prefix m \<le> 128" using assms(2) by (simp_all add: net6_wf_def)
  with parse_network_printed [OF no_slash_v6, of "net6_address m" make_address_v6 _ "net6_prefix m" 128]
  have "make_network_v6 (net6_to_string m) = Inr (Some m)"
    using assms(3) by (simp add: make_network_v6_def net6_to_string_def make_address_v6_to_string)
  with make_network_v4_to_string [OF assms(1)] show ?thesis by blast
qed

lemma network_text_roundtrip_witness:
  "make_network_v6 (net6_to_string (Network_V6 v6_loopback 128)) = Inr (Some (Network_V6 v6_loopback 128))"
proof -
  have "net4_wf no_network_v4" "net6_wf (Network_V6 v6_loopback 128)"
    "scope_id (net6_address (Network_V6 v6_loopback 128)) \<le> 65535"
    by (simp_all add: net4_wf_def no_network_v4_def net6_wf_def)
      (simp add: v6_loopback_def v6_any_def Let_def)
  from network_text_roundtrip [OF this] show ?thesis by blast
qed

end
