(* ===== verification/Epoll_Reactor.thy ===== *)
theory Epoll_Reactor
  imports Prelude "HOL-Library.Multiset"
begin

unbundle bit_operations_syntax

text \<open>
  The descriptors of \<open>asio::detail::epoll_reactor\<close> (\<open>detail/impl/epoll_reactor.ipp\<close>): the queues of
  operations that wait for a descriptor, how they are started, performed, cancelled and
  given up. What is outside the code is a parameter with its own state \<open>'k\<close>: \<open>perform\<close>, which
  is the system call behind an operation, and \<open>epoll_ctl\<close>.
\<close>

section \<open>Operations\<close>

text \<open>
  The error codes of \<open>error.hpp\<close> that the code names; the system has others. On Linux \<open>would_block\<close>
  (\<open>EWOULDBLOCK\<close>) and \<open>try_again\<close> (\<open>EAGAIN\<close>) are one number.
\<close>

datatype io_error =
    No_error | Operation_aborted | Bad_descriptor | Operation_not_supported | Try_again | Interrupted
  | In_progress | No_buffer_space | Already_open | Eof | Invalid_argument | Connection_aborted
  | Not_socket | Errno int

abbreviation Would_block :: io_error where "Would_block \<equiv> Try_again"

datatype status = Not_done | Done | Done_and_exhausted

record reactor_op =
  ro_id :: nat
  ec :: io_error
  cancellation_key :: nat
  bytes_transferred :: nat

datatype op_type = Read_op | Write_op | Except_op

definition op_types :: "op_type list" where
  "op_types = [Read_op, Write_op, Except_op]"

section \<open>Events\<close>

definition EPOLLIN :: "32 word" where "EPOLLIN = 0x001"
definition EPOLLPRI :: "32 word" where "EPOLLPRI = 0x002"
definition EPOLLOUT :: "32 word" where "EPOLLOUT = 0x004"
definition EPOLLERR :: "32 word" where "EPOLLERR = 0x008"
definition EPOLLHUP :: "32 word" where "EPOLLHUP = 0x010"
definition EPOLLET :: "32 word" where "EPOLLET = 0x80000000"

lemmas epoll_flags = EPOLLIN_def EPOLLPRI_def EPOLLOUT_def EPOLLERR_def EPOLLHUP_def EPOLLET_def

fun flag :: "op_type \<Rightarrow> 32 word" where
  "flag Read_op = EPOLLIN"
| "flag Write_op = EPOLLOUT"
| "flag Except_op = EPOLLPRI"

definition covers :: "32 word \<Rightarrow> op_type \<Rightarrow> bool" where
  "covers events j \<longleftrightarrow> events AND (flag j OR EPOLLERR OR EPOLLHUP) \<noteq> 0"

section \<open>Descriptor states\<close>

record descriptor_state =
  descriptor :: int
  registered_events :: "32 word"
  fd_queue :: "op_type \<Rightarrow> reactor_op list"
  try_speculative :: "op_type \<Rightarrow> bool"
  fd_shutdown :: bool

definition set_queue :: "op_type \<Rightarrow> reactor_op list \<Rightarrow> descriptor_state \<Rightarrow> descriptor_state" where
  "set_queue j q d = d\<lparr>fd_queue := (fd_queue d)(j := q)\<rparr>"

definition set_speculative :: "op_type \<Rightarrow> bool \<Rightarrow> descriptor_state \<Rightarrow> descriptor_state" where
  "set_speculative j b d = d\<lparr>try_speculative := (try_speculative d)(j := b)\<rparr>"

text \<open>The calls of \<open>epoll_ctl\<close>, with the events they ask for; the result is the error number, or 0.\<close>

datatype epoll_call = Ctl_add "32 word" | Ctl_mod "32 word" | Ctl_del

type_synonym 'k epoll_ctl = "epoll_call \<Rightarrow> 'k \<Rightarrow> int \<times> 'k"
type_synonym 'k perform = "op_type \<Rightarrow> reactor_op \<Rightarrow> 'k \<Rightarrow> status \<times> reactor_op \<times> 'k"

definition EPERM :: int where "EPERM = 1"

definition all_events :: "32 word" where
  "all_events = EPOLLIN OR EPOLLERR OR EPOLLHUP OR EPOLLPRI OR EPOLLET"

text \<open>
  A state from the pool has empty queues. The result is the error number and, when there is none or
  the descriptor's type is not supported by epoll, the state in use.
\<close>

definition register_descriptor ::
  "'k epoll_ctl \<Rightarrow> int \<Rightarrow> descriptor_state \<Rightarrow> 'k \<Rightarrow> int \<times> descriptor_state \<times> 'k" where
  "register_descriptor epoll_ctl fd d k =
     (let d = d\<lparr>descriptor := fd, fd_shutdown := False, try_speculative := (\<lambda>_. True),
               registered_events := all_events\<rparr>;
          (result, k) = epoll_ctl (Ctl_add all_events) k
      in if result \<noteq> 0
         then if result = EPERM then (0, d\<lparr>registered_events := 0\<rparr>, k) else (result, d, k)
         else (0, d, k))"

definition register_internal_descriptor ::
  "'k epoll_ctl \<Rightarrow> op_type \<Rightarrow> int \<Rightarrow> reactor_op \<Rightarrow> descriptor_state \<Rightarrow> 'k \<Rightarrow> int \<times> descriptor_state \<times> 'k" where
  "register_internal_descriptor epoll_ctl j fd op d k =
     (let d = d\<lparr>descriptor := fd, fd_shutdown := False\<rparr>;
          d = set_queue j (fd_queue d j @ [op]) d;
          d = d\<lparr>try_speculative := (\<lambda>_. True), registered_events := all_events\<rparr>;
          (result, k) = epoll_ctl (Ctl_add all_events) k
      in if result \<noteq> 0 then (result, d, k) else (0, d, k))"

section \<open>Starting an operation\<close>

text \<open>
  Either the operation is completed at once, with what it has in its error code, or it is queued and
  counts as work.
\<close>

datatype started = Immediate reactor_op | Queued

definition enqueue :: "op_type \<Rightarrow> reactor_op \<Rightarrow> descriptor_state \<Rightarrow> descriptor_state" where
  "enqueue j op d = set_queue j (fd_queue d j @ [op]) d"

text \<open>Behind a speculative try: an operation that is not supported, or one that needs \<open>EPOLLOUT\<close>.\<close>

definition start_waiting ::
  "'k epoll_ctl \<Rightarrow> op_type \<Rightarrow> reactor_op \<Rightarrow> descriptor_state \<Rightarrow> 'k \<Rightarrow> started \<times> descriptor_state \<times> 'k" where
  "start_waiting epoll_ctl j op d k =
     (if registered_events d = 0 then (Immediate (op\<lparr>ec := Operation_not_supported\<rparr>), d, k)
      else if j = Write_op \<and> registered_events d AND EPOLLOUT = 0 then
        let events = registered_events d OR EPOLLOUT;
            (result, k) = epoll_ctl (Ctl_mod events) k
        in if result = 0
           then (Queued, enqueue j op (d\<lparr>registered_events := registered_events d OR events\<rparr>), k)
           else (Immediate (op\<lparr>ec := Errno result\<rparr>), d, k)
      else (Queued, enqueue j op d, k))"

definition start_registered ::
  "'k perform \<Rightarrow> 'k epoll_ctl \<Rightarrow> op_type \<Rightarrow> reactor_op \<Rightarrow> bool \<Rightarrow> descriptor_state \<Rightarrow> 'k \<Rightarrow>
   started \<times> descriptor_state \<times> 'k" where
  "start_registered perform epoll_ctl j op allow_speculative d k =
     (if fd_shutdown d then (Immediate op, d, k)
      else if fd_queue d j = [] then
        if allow_speculative \<and> (j \<noteq> Read_op \<or> fd_queue d Except_op = []) then
          if try_speculative d j then
            case perform j op k of
              (Not_done, op, k) \<Rightarrow> start_waiting epoll_ctl j op d k
            | (Done, op, k) \<Rightarrow> (Immediate op, d, k)
            | (Done_and_exhausted, op, k) \<Rightarrow>
                (Immediate op, if registered_events d \<noteq> 0 then set_speculative j False d else d, k)
          else start_waiting epoll_ctl j op d k
        else if registered_events d = 0 then (Immediate (op\<lparr>ec := Operation_not_supported\<rparr>), d, k)
        else
          let d = (if j = Write_op then d\<lparr>registered_events := registered_events d OR EPOLLOUT\<rparr> else d);
              (result, k) = epoll_ctl (Ctl_mod (registered_events d)) k
          in (Queued, enqueue j op d, k)
      else (Queued, enqueue j op d, k))"

definition start_op ::
  "'k perform \<Rightarrow> 'k epoll_ctl \<Rightarrow> op_type \<Rightarrow> reactor_op \<Rightarrow> bool \<Rightarrow> descriptor_state option \<Rightarrow> 'k \<Rightarrow>
   started \<times> descriptor_state option \<times> 'k" where
  "start_op perform epoll_ctl j op allow_speculative descriptor_data k =
     (case descriptor_data of
        None \<Rightarrow> (Immediate (op\<lparr>ec := Bad_descriptor\<rparr>), None, k)
      | Some d \<Rightarrow>
          (case start_registered perform epoll_ctl j op allow_speculative d k of
             (r, d, k) \<Rightarrow> (r, Some d, k)))"

section \<open>Performing\<close>

text \<open>The operations at the front of a queue: those done, those left, and whether the last was exhausted.\<close>

fun perform_queue ::
  "'k perform \<Rightarrow> op_type \<Rightarrow> reactor_op list \<Rightarrow> 'k \<Rightarrow> reactor_op list \<times> reactor_op list \<times> bool \<times> 'k" where
  "perform_queue perform j [] k = ([], [], False, k)"
| "perform_queue perform j (op # q) k =
     (case perform j op k of
        (Not_done, op, k) \<Rightarrow> ([], op # q, False, k)
      | (Done, op, k) \<Rightarrow>
          (case perform_queue perform j q k of (ops, q, exhausted, k) \<Rightarrow> (op # ops, q, exhausted, k))
      | (Done_and_exhausted, op, k) \<Rightarrow> ([op], q, True, k))"

definition perform_type ::
  "'k perform \<Rightarrow> 32 word \<Rightarrow> op_type \<Rightarrow> reactor_op list \<times> descriptor_state \<times> 'k \<Rightarrow>
   reactor_op list \<times> descriptor_state \<times> 'k" where
  "perform_type perform events j = (\<lambda>(ops, d, k).
     if covers events j then
       case perform_queue perform j (fd_queue d j) k of
         (done_ops, q, exhausted, k) \<Rightarrow>
           (ops @ done_ops, set_speculative j (\<not> exhausted) (set_queue j q d), k)
     else (ops, d, k))"

text \<open>Exception operations come first. All operations done are returned, the first one for completion now.\<close>

definition perform_all ::
  "'k perform \<Rightarrow> 32 word \<Rightarrow> descriptor_state \<Rightarrow> 'k \<Rightarrow> reactor_op list \<times> descriptor_state \<times> 'k" where
  "perform_all perform events d k =
     perform_type perform events Read_op
       (perform_type perform events Write_op (perform_type perform events Except_op ([], d, k)))"

text \<open>
  What the scheduler gets: the operation to complete, those posted for later, and whether the work
  that the scheduler will take off has to be made good because nothing was completed.
\<close>

record io_result =
  first_op :: "reactor_op option"
  posted_ops :: "reactor_op list"
  compensate :: bool

definition perform_io ::
  "'k perform \<Rightarrow> 32 word \<Rightarrow> descriptor_state \<Rightarrow> 'k \<Rightarrow> io_result \<times> descriptor_state \<times> 'k" where
  "perform_io perform events d k =
     (case perform_all perform events d k of
        ([], d, k) \<Rightarrow> (\<lparr>first_op = None, posted_ops = [], compensate = True\<rparr>, d, k)
      | (op # ops, d, k) \<Rightarrow> (\<lparr>first_op = Some op, posted_ops = ops, compensate = False\<rparr>, d, k))"

section \<open>Cancelling and giving up\<close>

definition abort :: "reactor_op \<Rightarrow> reactor_op" where
  "abort op = op\<lparr>ec := Operation_aborted\<rparr>"

text \<open>The operations that are posted, and the state that is left.\<close>

definition cancel_ops :: "descriptor_state \<Rightarrow> reactor_op list \<times> descriptor_state" where
  "cancel_ops d =
     (map abort (concat (map (fd_queue d) op_types)), d\<lparr>fd_queue := (\<lambda>_. [])\<rparr>)"

definition cancel_ops_by_key :: "op_type \<Rightarrow> nat \<Rightarrow> descriptor_state \<Rightarrow> reactor_op list \<times> descriptor_state" where
  "cancel_ops_by_key j key d =
     (map abort (filter (\<lambda>op. cancellation_key op = key) (fd_queue d j)),
      set_queue j (filter (\<lambda>op. cancellation_key op \<noteq> key) (fd_queue d j)) d)"

text \<open>
  A descriptor given up: its state, for \<open>cleanup_descriptor_data\<close> to free, or nothing when the reactor
  has shut down and frees it itself.
\<close>

definition deregister_descriptor ::
  "'k epoll_ctl \<Rightarrow> bool \<Rightarrow> descriptor_state \<Rightarrow> 'k \<Rightarrow> reactor_op list \<times> descriptor_state option \<times> 'k" where
  "deregister_descriptor epoll_ctl closing d k =
     (if \<not> fd_shutdown d then
        let k = (if closing then k
                 else if registered_events d \<noteq> 0 then snd (epoll_ctl Ctl_del k) else k);
            (ops, d) = cancel_ops d
        in (ops, Some (d\<lparr>descriptor := -1, fd_shutdown := True\<rparr>), k)
      else ([], None, k))"

text \<open>The operations of an internal descriptor are dropped.\<close>

definition deregister_internal_descriptor ::
  "'k epoll_ctl \<Rightarrow> descriptor_state \<Rightarrow> 'k \<Rightarrow> reactor_op list \<times> descriptor_state option \<times> 'k" where
  "deregister_internal_descriptor epoll_ctl d k =
     (if \<not> fd_shutdown d then
        let k = snd (epoll_ctl Ctl_del k)
        in (concat (map (fd_queue d) op_types),
            Some (d\<lparr>fd_queue := (\<lambda>_. []), descriptor := -1, fd_shutdown := True\<rparr>), k)
      else ([], None, k))"

definition reactor_shutdown :: "descriptor_state list \<Rightarrow> reactor_op list \<times> descriptor_state list" where
  "reactor_shutdown ds =
     (concat (map (\<lambda>d. concat (map (fd_queue d) op_types)) ds),
      map (\<lambda>d. d\<lparr>fd_queue := (\<lambda>_. []), fd_shutdown := True\<rparr>) ds)"

section \<open>Dispatching events\<close>

text \<open>
  What \<open>epoll_wait\<close> returns: events of the interrupter, of the timer and of descriptors. The loop
  gives the queue of descriptor operations and the events each is to be performed with.
\<close>

datatype event_source = Interrupter | Timer_fd | Of_descriptor nat

fun dispatch_event ::
  "bool \<Rightarrow> event_source \<times> 32 word \<Rightarrow> nat list \<times> (nat \<Rightarrow> 32 word) \<times> bool \<Rightarrow>
   nat list \<times> (nat \<Rightarrow> 32 word) \<times> bool" where
  "dispatch_event timerfd (Interrupter, events) (ops, task_result, check_timers) =
     (ops, task_result, check_timers \<or> \<not> timerfd)"
| "dispatch_event timerfd (Timer_fd, events) (ops, task_result, check_timers) = (ops, task_result, True)"
| "dispatch_event timerfd (Of_descriptor p, events) (ops, task_result, check_timers) =
     (if p \<notin> set ops then (ops @ [p], task_result(p := events), check_timers)
      else (ops, task_result(p := task_result p OR events), check_timers))"

definition dispatch_events ::
  "bool \<Rightarrow> (event_source \<times> 32 word) list \<Rightarrow> (nat \<Rightarrow> 32 word) \<Rightarrow>
   nat list \<times> (nat \<Rightarrow> 32 word) \<times> bool" where
  "dispatch_events timerfd events task_result = fold (dispatch_event timerfd) events ([], task_result, \<not> timerfd)"

end
