(* ===== verification/Epoll_Props.thy ===== *)
theory Epoll_Props
  imports Epoll_Reactor
begin

unbundle bit_operations_syntax

text \<open>
  Every operation on a descriptor completes once and in order, and none is left waiting for a
  descriptor that is ready: the kernel reports only changes (\<open>EPOLLET\<close>), so the code may
  never queue an operation behind a change that it has seen and dropped.
\<close>

section \<open>The kernel\<close>

text \<open>
  What the kernel keeps of a descriptor: for which operations it is ready (something is at hand; the
  end of a stream is not, once it has been read), the changes to be
  reported by the next \<open>epoll_wait\<close>, and the events it was registered for.
\<close>

record kernel =
  ready :: "op_type \<Rightarrow> bool"
  edge :: "32 word"
  interest :: "32 word"

definition wants :: "32 word \<Rightarrow> op_type \<Rightarrow> bool" where
  "wants events j \<longleftrightarrow> events AND flag j \<noteq> 0"

definition missed :: "kernel \<Rightarrow> op_type \<Rightarrow> bool" where
  "missed k j \<longleftrightarrow> ready k j \<and> \<not> covers (edge k) j"

text \<open>
  A descriptor that becomes ready for an event it is registered for is reported, and a report is
  dropped only when the descriptor is no longer ready.
\<close>

definition kernel_moves :: "kernel \<Rightarrow> kernel \<Rightarrow> bool" where
  "kernel_moves k k' \<longleftrightarrow> interest k' = interest k \<and>
     list_all (\<lambda>j. wants (interest k) j \<and> missed k' j \<longrightarrow> missed k j) op_types"

text \<open>
  The documented behaviour of the system calls: one that would block, or that took all there was,
  leaves the descriptor not ready until the next report; \<open>epoll_ctl\<close> with an event for which the
  descriptor is ready reports it, and does not fail for a registered descriptor.
\<close>

definition honest_perform :: "kernel perform \<Rightarrow> bool" where
  "honest_perform perform \<longleftrightarrow>
     (\<forall>j op k st op' k'. perform j op k = (st, op', k') \<longrightarrow>
        ro_id op' = ro_id op \<and> kernel_moves k k' \<and>
        (st \<noteq> Done \<longrightarrow> wants (interest k) j \<longrightarrow> \<not> missed k' j))"

definition honest_ctl :: "kernel epoll_ctl \<Rightarrow> bool" where
  "honest_ctl epoll_ctl \<longleftrightarrow>
     (\<forall>w k k'. epoll_ctl (Ctl_add w) k = (0, k') \<longrightarrow>
        interest k' = w \<and> (\<forall>j. wants w j \<longrightarrow> \<not> missed k' j)) \<and>
     (\<forall>w k. \<exists>k'. epoll_ctl (Ctl_mod w) k = (0, k') \<and>
        interest k' = w \<and> (\<forall>j. wants w j \<longrightarrow> \<not> missed k' j))"

lemma op_types_all [simp]: "j \<in> set op_types"
  by (cases j) (simp_all add: op_types_def)

lemma kernel_moves_iff:
  "kernel_moves k k' \<longleftrightarrow> interest k' = interest k \<and> (\<forall>j. wants (interest k) j \<and> missed k' j \<longrightarrow> missed k j)"
  by (auto simp: kernel_moves_def list_all_iff)

lemma kernel_moves_trans: "kernel_moves k1 k2 \<Longrightarrow> kernel_moves k2 k3 \<Longrightarrow> kernel_moves k1 k3"
  by (auto simp: kernel_moves_iff)

section \<open>The steps on a descriptor\<close>

text \<open>
  \<open>carried\<close> has the events returned by \<open>epoll_wait\<close> and not yet performed, queued or in the hands of
  a thread. Operations are logged when they are given to the reactor and when they complete.
\<close>

record fd_system =
  fd_state :: descriptor_state
  fd_kernel :: kernel
  carried :: "32 word list"
  accepted :: "(op_type \<times> nat) list"
  completed :: "(op_type \<times> reactor_op) list"

text \<open>
  The kernel moves, an operation is started, \<open>epoll_wait\<close> returns the descriptor, a thread performs
  with some events (those it carries, or others left from an earlier use of the state), or
  operations are cancelled, or the descriptor is given up.
\<close>

datatype fd_event =
    Kernel kernel | Start_op op_type reactor_op bool | Epoll_wait | Perform_io "32 word"
  | Cancel_ops | Cancel_key op_type nat | Deregister bool

text \<open>The operations that left the queues, each with its type, in the order of the types.\<close>

definition tagged :: "op_type list \<Rightarrow> descriptor_state \<Rightarrow> descriptor_state \<Rightarrow> reactor_op list \<Rightarrow>
    (op_type \<times> reactor_op) list" where
  "tagged js d d' ops =
     zip (concat (map (\<lambda>j. replicate (length (fd_queue d j) - length (fd_queue d' j)) j) js)) ops"

definition io_ops :: "io_result \<Rightarrow> reactor_op list" where
  "io_ops r = (case first_op r of None \<Rightarrow> [] | Some op \<Rightarrow> [op]) @ posted_ops r"

fun fd_step :: "kernel perform \<Rightarrow> kernel epoll_ctl \<Rightarrow> fd_event \<Rightarrow> fd_system \<Rightarrow> fd_system option" where
  "fd_step perform ctl (Kernel k) s =
     (if kernel_moves (fd_kernel s) k then Some (s\<lparr>fd_kernel := k\<rparr>) else None)"
| "fd_step perform ctl (Start_op j op allow_speculative) s =
     (let s = s\<lparr>accepted := accepted s @ [(j, ro_id op)]\<rparr>
      in case start_registered perform ctl j op allow_speculative (fd_state s) (fd_kernel s) of
           (Immediate op, d, k) \<Rightarrow>
             Some (s\<lparr>fd_state := d, fd_kernel := k, completed := completed s @ [(j, op)]\<rparr>)
         | (Queued, d, k) \<Rightarrow> Some (s\<lparr>fd_state := d, fd_kernel := k\<rparr>))"
| "fd_step perform ctl Epoll_wait s =
     (if edge (fd_kernel s) = 0 then None
      else Some (s\<lparr>carried := carried s @ [edge (fd_kernel s)], fd_kernel := (fd_kernel s)\<lparr>edge := 0\<rparr>\<rparr>))"
| "fd_step perform ctl (Perform_io events) s =
     (case perform_io perform events (fd_state s) (fd_kernel s) of
        (r, d, k) \<Rightarrow>
          Some (s\<lparr>fd_state := d, fd_kernel := k, carried := remove1 events (carried s),
             completed := completed s @ tagged [Except_op, Write_op, Read_op] (fd_state s) d (io_ops r)\<rparr>))"
| "fd_step perform ctl Cancel_ops s =
     (case cancel_ops (fd_state s) of
        (ops, d) \<Rightarrow> Some (s\<lparr>fd_state := d, completed := completed s @ tagged op_types (fd_state s) d ops\<rparr>))"
| "fd_step perform ctl (Cancel_key j key) s =
     (case cancel_ops_by_key j key (fd_state s) of
        (ops, d) \<Rightarrow> Some (s\<lparr>fd_state := d, completed := completed s @ map (Pair j) ops\<rparr>))"
| "fd_step perform ctl (Deregister closing) s =
     (case deregister_descriptor ctl closing (fd_state s) (fd_kernel s) of
        (ops, None, k) \<Rightarrow> None
      | (ops, Some d, k) \<Rightarrow>
          Some (s\<lparr>fd_state := d, fd_kernel := k, completed := completed s @ tagged op_types (fd_state s) d ops\<rparr>))"

fun fd_steps :: "kernel perform \<Rightarrow> kernel epoll_ctl \<Rightarrow> fd_event list \<Rightarrow> fd_system \<Rightarrow> fd_system option" where
  "fd_steps perform ctl [] s = Some s"
| "fd_steps perform ctl (e # es) s = Option.bind (fd_step perform ctl e s) (fd_steps perform ctl es)"

text \<open>A descriptor as it is registered, with a state from the pool.\<close>

definition no_ops :: descriptor_state where
  "no_ops = \<lparr>descriptor = -1, registered_events = 0, fd_queue = (\<lambda>_. []), try_speculative = (\<lambda>_. False),
             fd_shutdown = True\<rparr>"

definition new_fd :: "kernel epoll_ctl \<Rightarrow> int \<Rightarrow> kernel \<Rightarrow> fd_system" where
  "new_fd ctl fd k =
     (case register_descriptor ctl fd no_ops k of
        (result, d, k) \<Rightarrow> \<lparr>fd_state = d, fd_kernel = k, carried = [], accepted = [], completed = []\<rparr>)"

section \<open>No readiness is lost\<close>

definition carries :: "32 word list \<Rightarrow> op_type \<Rightarrow> bool" where
  "carries es j \<longleftrightarrow> (\<exists>e\<in>set es. covers e j)"

text \<open>
  A waiting operation, or one that would not be tried, whose descriptor is ready without a report
  to come has its report carried; \<open>J\<close> are the operations for which that is left open.
\<close>

definition alert_but :: "op_type set \<Rightarrow> descriptor_state \<Rightarrow> kernel \<Rightarrow> 32 word list \<Rightarrow> bool" where
  "alert_but J d k es \<longleftrightarrow>
     (registered_events d \<noteq> 0 \<longrightarrow> interest k = registered_events d \<and>
        wants (registered_events d) Read_op \<and> wants (registered_events d) Except_op) \<and>
     (\<forall>j. fd_queue d j \<noteq> [] \<longrightarrow> wants (registered_events d) j) \<and>
     (\<forall>j. j \<notin> J \<longrightarrow> wants (registered_events d) j \<longrightarrow> missed k j \<longrightarrow>
        fd_queue d j \<noteq> [] \<or> \<not> try_speculative d j \<longrightarrow> carries es j)"

abbreviation alert_fd :: "descriptor_state \<Rightarrow> kernel \<Rightarrow> 32 word list \<Rightarrow> bool" where
  "alert_fd \<equiv> alert_but {}"

lemma wants_0 [simp]: "\<not> wants 0 j"
  by (simp add: wants_def)

lemma wants_or: "wants (a OR b) j \<longleftrightarrow> wants a j \<or> wants b j"
  by (simp add: wants_def word_ao_dist or_eq_0_iff)

lemma covers_or: "covers (a OR b) j \<longleftrightarrow> covers a j \<or> covers b j"
  by (simp add: covers_def word_ao_dist or_eq_0_iff)


lemma wants_flags:
  "wants EPOLLOUT Write_op" "wants all_events Read_op" "wants all_events Except_op" "\<not> wants all_events Write_op"
  by (simp_all add: wants_def all_events_def epoll_flags)

lemma wants_interest:
  "alert_but J d k es \<Longrightarrow> wants (registered_events d) j \<Longrightarrow> wants (interest k) j"
  by (cases "registered_events d = 0") (auto simp: alert_but_def)

lemma alert_moves: "alert_but J d k es \<Longrightarrow> kernel_moves k k' \<Longrightarrow> alert_but J d k' es"
  using wants_interest unfolding alert_but_def kernel_moves_iff by metis

lemma honest_performD:
  assumes "honest_perform perform" "perform j op k = (st, op', k')"
  shows "ro_id op' = ro_id op" "kernel_moves k k'" "st \<noteq> Done \<Longrightarrow> wants (interest k) j \<Longrightarrow> \<not> missed k' j"
  using assms unfolding honest_perform_def by blast+

lemma perform_queue_spec:
  assumes "honest_perform perform" "perform_queue perform j q k = (ops, q', exhausted, k')"
  shows "map ro_id q = map ro_id ops @ map ro_id q' \<and> kernel_moves k k' \<and>
    (q' \<noteq> [] \<or> exhausted \<longrightarrow> wants (interest k) j \<longrightarrow> \<not> missed k' j)"
  using assms(2)
proof (induction q arbitrary: k ops)
  case (Cons op q)
  obtain st op' k1 where p: "perform j op k = (st, op', k1)" using prod_cases3 by blast
  note h = honest_performD [OF assms(1) p]
  show ?case
  proof (cases st)
    case Done
    then obtain ops1 where r: "perform_queue perform j q k1 = (ops1, q', exhausted, k')" "ops = op' # ops1"
      using Cons.prems p by (auto split: prod.splits)
    have "interest k1 = interest k" using h(2) by (simp add: kernel_moves_iff)
    then show ?thesis using Cons.IH [OF r(1)] r(2) h kernel_moves_trans by auto
  qed (use Cons.prems p h in auto)
qed (simp add: kernel_moves_iff)

lemma perform_type_spec:
  assumes "honest_perform perform" "perform_type perform e j (ops, d, k) = (ops', d', k')" "alert_but J d k es"
    and "j \<in> J \<Longrightarrow> covers e j"
  shows "alert_but (J - {j}) d' k' es"
    and "\<exists>new. ops' = ops @ new \<and> map ro_id (fd_queue d j) = map ro_id new @ map ro_id (fd_queue d' j)"
    and "\<And>i. i \<noteq> j \<Longrightarrow> fd_queue d' i = fd_queue d i" "fd_shutdown d' = fd_shutdown d"
proof -
  obtain new q x k1 where p: "perform_queue perform j (fd_queue d j) k = (new, q, x, k1)"
    using prod_cases4 by blast
  note spec = perform_queue_spec [OF assms(1) p]
  have c: "d' = (if covers e j then set_speculative j (\<not> x) (set_queue j q d) else d)"
    "ops' = (if covers e j then ops @ new else ops)" "k' = (if covers e j then k1 else k)"
    using assms(2) p by (simp_all add: perform_type_def split: if_splits)
  show "\<exists>new. ops' = ops @ new \<and> map ro_id (fd_queue d j) = map ro_id new @ map ro_id (fd_queue d' j)"
    using spec by (auto simp: c set_speculative_def set_queue_def)
  show "\<And>i. i \<noteq> j \<Longrightarrow> fd_queue d' i = fd_queue d i" "fd_shutdown d' = fd_shutdown d"
    by (simp_all add: c set_speculative_def set_queue_def)
  show "alert_but (J - {j}) d' k' es"
  proof (cases "covers e j")
    case True
    have a: "alert_but J d k1 es" using alert_moves assms(3) spec by blast
    have q: "q \<noteq> [] \<Longrightarrow> fd_queue d j \<noteq> []" using spec by auto
    have "wants (registered_events d) j \<Longrightarrow> q \<noteq> [] \<or> x \<Longrightarrow> \<not> missed k1 j"
      using spec wants_interest [OF assms(3)] by blast
    then show ?thesis using True a q
      by (auto simp: c alert_but_def set_speculative_def set_queue_def)
  next
    case False
    then have "J - {j} = J" using assms(4) by auto
    then show ?thesis using assms(3) False by (simp add: c)
  qed
qed


lemma perform_all_spec:
  assumes h: "honest_perform perform" and p: "perform_all perform e d k = (ops, d', k')"
    and a: "alert_but {j. covers e j} d k es"
  shows "alert_fd d' k' es" "fd_shutdown d' = fd_shutdown d"
    and "\<exists>new. ops = new Except_op @ new Write_op @ new Read_op \<and>
      (\<forall>j. map ro_id (fd_queue d j) = map ro_id (new j) @ map ro_id (fd_queue d' j))"
proof -
  obtain o1 d1 k1 where p1: "perform_type perform e Except_op ([], d, k) = (o1, d1, k1)" using prod_cases3 by blast
  obtain o2 d2 k2 where p2: "perform_type perform e Write_op (o1, d1, k1) = (o2, d2, k2)" using prod_cases3 by blast
  have p3: "perform_type perform e Read_op (o2, d2, k2) = (ops, d', k')" using p p1 p2 by (simp add: perform_all_def)
  note s1 = perform_type_spec [OF h p1 a]
  note s2 = perform_type_spec [OF h p2 s1(1)]
  note s3 = perform_type_spec [OF h p3 s2(1)]
  have all: "{j. covers e j} - {Except_op} - {Write_op} - {Read_op} = {}"
    using op_type.exhaust by auto
  show "alert_fd d' k' es" using s3(1) unfolding all by simp
  show "fd_shutdown d' = fd_shutdown d" using s1(4) s2(4) s3(4) by simp
  obtain n1 n2 n3 where n: "o1 = n1" "o2 = o1 @ n2" "ops = o2 @ n3"
    "map ro_id (fd_queue d Except_op) = map ro_id n1 @ map ro_id (fd_queue d1 Except_op)"
    "map ro_id (fd_queue d1 Write_op) = map ro_id n2 @ map ro_id (fd_queue d2 Write_op)"
    "map ro_id (fd_queue d2 Read_op) = map ro_id n3 @ map ro_id (fd_queue d' Read_op)"
    using s1(2) s2(2) s3(2) by auto
  let ?new = "\<lambda>j. case j of Except_op \<Rightarrow> n1 | Write_op \<Rightarrow> n2 | Read_op \<Rightarrow> n3"
  have "map ro_id (fd_queue d j) = map ro_id (?new j) @ map ro_id (fd_queue d' j)" for j
    using n s1(3) s2(3) s3(3) by (cases j) auto
  moreover have "ops = ?new Except_op @ ?new Write_op @ ?new Read_op" using n by simp
  ultimately show "\<exists>new. ops = new Except_op @ new Write_op @ new Read_op \<and>
      (\<forall>j. map ro_id (fd_queue d j) = map ro_id (new j) @ map ro_id (fd_queue d' j))" by blast
qed

lemma perform_io_all:
  "perform_io perform e d k = (r, d', k') \<Longrightarrow> perform_all perform e d k = (io_ops r, d', k')"
  by (auto simp: perform_io_def io_ops_def split: prod.splits list.splits)

lemma alert_carried:
  assumes "alert_fd d k es"
  shows "alert_but {j. covers e j} d k (remove1 e es)"
proof -
  have "carries es j \<Longrightarrow> \<not> covers e j \<Longrightarrow> carries (remove1 e es) j" for j
    unfolding carries_def by (metis in_set_remove1)
  then show ?thesis using assms by (auto simp: alert_but_def)
qed

section \<open>Starting\<close>

lemma enqueue_alert:
  assumes "alert_fd d k es" "wants (registered_events d) j"
    and "fd_queue d j = [] \<Longrightarrow> missed k j \<Longrightarrow> carries es j"
  shows "alert_fd (enqueue j op d) k es"
  using assms by (auto simp: alert_but_def enqueue_def set_queue_def)

lemma ctl_mod_alert:
  assumes "honest_ctl ctl" "ctl (Ctl_mod (registered_events d)) k = (n, k')" "alert_fd d k es"
  shows "n = 0" "alert_fd d k' es" "wants (registered_events d) j \<Longrightarrow> \<not> missed k' j"
proof -
  have m: "n = 0" "interest k' = registered_events d" "\<And>j. wants (registered_events d) j \<Longrightarrow> \<not> missed k' j"
    using assms(1,2) unfolding honest_ctl_def by (metis fst_conv snd_conv)+
  then show "n = 0" "wants (registered_events d) j \<Longrightarrow> \<not> missed k' j" by simp_all
  show "alert_fd d k' es" using assms(3) m by (auto simp: alert_but_def)
qed

text \<open>\<open>EPOLLOUT\<close> is asked for when the first write has to wait.\<close>

lemma add_out_alert:
  assumes "honest_ctl ctl" "alert_fd d k es" "registered_events d \<noteq> 0"
    and "ctl (Ctl_mod (registered_events d OR EPOLLOUT)) k = (n, k')"
  shows "n = 0" "alert_fd (d\<lparr>registered_events := registered_events d OR EPOLLOUT\<rparr>) k' es"
    and "wants (registered_events d OR EPOLLOUT) j \<Longrightarrow> \<not> missed k' j"
proof -
  have m: "n = 0" "interest k' = registered_events d OR EPOLLOUT"
    "\<And>j. wants (registered_events d OR EPOLLOUT) j \<Longrightarrow> \<not> missed k' j"
    using assms(1,4) unfolding honest_ctl_def by (metis fst_conv snd_conv)+
  then show "n = 0" "wants (registered_events d OR EPOLLOUT) j \<Longrightarrow> \<not> missed k' j" by simp_all
  show "alert_fd (d\<lparr>registered_events := registered_events d OR EPOLLOUT\<rparr>) k' es"
    using assms(2,3) m by (auto simp: alert_but_def wants_or)
qed

lemma start_waiting_spec:
  assumes ctl: "honest_ctl ctl" and a: "alert_fd d k es" and q: "fd_queue d j = []"
    and m: "wants (registered_events d) j \<Longrightarrow> missed k j \<Longrightarrow> carries es j"
    and r: "start_waiting ctl j op d k = (r, d', k')"
  shows "alert_fd d' k' es \<and> fd_shutdown d' = fd_shutdown d \<and>
    (case r of Queued \<Rightarrow> fd_queue d' = (fd_queue d)(j := [op])
     | Immediate op' \<Rightarrow> fd_queue d' = fd_queue d \<and> ro_id op' = ro_id op)"
proof (cases "registered_events d = 0")
  case True
  then show ?thesis using r a by (auto simp: start_waiting_def)
next
  case reg: False
  show ?thesis
  proof (cases "j = Write_op \<and> registered_events d AND EPOLLOUT = 0")
    case True
    obtain n k1 where c: "ctl (Ctl_mod (registered_events d OR EPOLLOUT)) k = (n, k1)" by fastforce
    note add = add_out_alert [OF ctl a reg c]
    let ?d = "d\<lparr>registered_events := registered_events d OR EPOLLOUT\<rparr>"
    have "wants (registered_events ?d) j" using True wants_flags by (simp add: wants_or)
    then have "alert_fd (enqueue j op ?d) k1 es" using add by (intro enqueue_alert) auto
    moreover have "r = Queued" "d' = enqueue j op ?d" "k' = k1"
      using r reg True c add(1) by (simp_all add: start_waiting_def Let_def)
    ultimately show ?thesis using q by (simp add: enqueue_def set_queue_def)
  next
    case False
    have "wants (registered_events d) j"
      using False a reg by (cases j) (auto simp: alert_but_def wants_def)
    then have "alert_fd (enqueue j op d) k es" using a m by (intro enqueue_alert) auto
    moreover have "r = Queued" "d' = enqueue j op d" "k' = k"
      using r reg False by (auto simp: start_waiting_def split: if_splits)
    ultimately show ?thesis using q by (simp add: enqueue_def set_queue_def)
  qed
qed


lemma start_registered_spec:
  assumes hp: "honest_perform perform" and hc: "honest_ctl ctl" and a: "\<not> fd_shutdown d \<Longrightarrow> alert_fd d k es"
    and r: "start_registered perform ctl j op spec d k = (r, d', k')"
  shows "(\<not> fd_shutdown d \<longrightarrow> alert_fd d' k' es) \<and> fd_shutdown d' = fd_shutdown d \<and>
    (case r of Queued \<Rightarrow> \<not> fd_shutdown d \<and> (\<exists>op'. ro_id op' = ro_id op \<and> fd_queue d' = (fd_queue d)(j := fd_queue d j @ [op']))
     | Immediate op' \<Rightarrow> fd_queue d' = fd_queue d \<and> ro_id op' = ro_id op \<and> (fd_shutdown d \<or> fd_queue d j = []))"
proof (cases "fd_shutdown d")
  case True
  then show ?thesis using r by (auto simp: start_registered_def)
next
  case opn: False
  note al = a [OF opn]
  show ?thesis
  proof (cases "fd_queue d j = []")
    case False
    then have "alert_fd (enqueue j op d) k es" using al by (intro enqueue_alert) (auto simp: alert_but_def)
    then show ?thesis using r opn False by (auto simp: start_registered_def enqueue_def set_queue_def)
  next
    case q: True
    show ?thesis
    proof (cases "spec \<and> (j \<noteq> Read_op \<or> fd_queue d Except_op = [])")
      case True
      show ?thesis
      proof (cases "try_speculative d j")
        case tried: True
        obtain st op1 k1 where p: "perform j op k = (st, op1, k1)" using prod_cases3 by blast
        note h = honest_performD [OF hp p]
        have a1: "alert_fd d k1 es" using alert_moves [OF al h(2)] .
        show ?thesis
        proof (cases st)
          case Not_done
          have "start_waiting ctl j op1 d k1 = (r, d', k')"
            using r opn q True tried p Not_done by (simp add: start_registered_def)
          moreover have "wants (registered_events d) j \<Longrightarrow> missed k1 j \<Longrightarrow> carries es j"
            using h(3) Not_done wants_interest [OF al] by auto
          ultimately show ?thesis using start_waiting_spec [OF hc a1 q] h(1) q opn
            by (fastforce split: started.splits)
        next
          case Done
          then show ?thesis using r opn q True tried p a1 h(1) by (auto simp: start_registered_def)
        next
          case Done_and_exhausted
          have "alert_fd (set_speculative j False d) k1 es" if "registered_events d \<noteq> 0"
            using a1 h(3) Done_and_exhausted wants_interest [OF al] by (auto simp: alert_but_def set_speculative_def)
          then show ?thesis using r opn q True tried p a1 h(1) Done_and_exhausted
            by (auto simp: start_registered_def set_speculative_def split: if_splits)
        qed
      next
        case False
        have "start_waiting ctl j op d k = (r, d', k')"
          using r opn q True False by (simp add: start_registered_def)
        moreover have "wants (registered_events d) j \<Longrightarrow> missed k j \<Longrightarrow> carries es j"
          using al False by (auto simp: alert_but_def)
        ultimately show ?thesis using start_waiting_spec [OF hc al q] q opn
          by (fastforce split: started.splits)
      qed
    next
      case False
      show ?thesis
      proof (cases "registered_events d = 0")
        case True
        then show ?thesis using r opn q False al by (auto simp: start_registered_def)
      next
        case reg: False
        let ?d = "if j = Write_op then d\<lparr>registered_events := registered_events d OR EPOLLOUT\<rparr> else d"
        obtain n k1 where c: "ctl (Ctl_mod (registered_events ?d)) k = (n, k1)" by fastforce
        have w: "wants (registered_events ?d) j"
          using al reg wants_flags by (cases j) (auto simp: alert_but_def wants_or)
        have "alert_fd ?d k1 es \<and> \<not> missed k1 j"
          using c w add_out_alert [OF hc al reg] ctl_mod_alert [OF hc _ al] by (auto split: if_splits)
        then have "alert_fd (enqueue j op ?d) k1 es" using w by (intro enqueue_alert) auto
        moreover have "r = Queued" "d' = enqueue j op ?d" "k' = k1"
          using r opn q False reg c by (auto simp: start_registered_def Let_def)
        ultimately show ?thesis using opn by (auto simp: enqueue_def set_queue_def)
      qed
    qed
  qed
qed

section \<open>Every step\<close>

text \<open>The operations of a type that have completed, and those that were given, in order.\<close>

definition finished :: "op_type \<Rightarrow> fd_system \<Rightarrow> nat list" where
  "finished j s = map (ro_id \<circ> snd) (filter (\<lambda>(i, op). i = j) (completed s))"

definition given_to :: "op_type \<Rightarrow> fd_system \<Rightarrow> nat list" where
  "given_to j s = map snd (filter (\<lambda>(i, n). i = j) (accepted s))"

definition waiting :: "op_type \<Rightarrow> fd_system \<Rightarrow> nat list" where
  "waiting j s = map ro_id (fd_queue (fd_state s) j)"

definition fd_ok :: "fd_system \<Rightarrow> bool" where
  "fd_ok s \<longleftrightarrow>
     (if fd_shutdown (fd_state s) then \<forall>j. fd_queue (fd_state s) j = []
      else alert_fd (fd_state s) (fd_kernel s) (carried s))"

definition all_kept :: "fd_system \<Rightarrow> bool" where
  "all_kept s \<longleftrightarrow> (\<forall>j. mset (given_to j s) = mset (finished j s) + mset (waiting j s))"

definition in_turn :: "fd_system \<Rightarrow> bool" where
  "in_turn s \<longleftrightarrow> (\<forall>j. given_to j s = finished j s @ waiting j s)"

lemma tagged_concat:
  assumes "\<And>j. j \<in> set js \<Longrightarrow> length (new j) = length (fd_queue d j) - length (fd_queue d' j)"
  shows "tagged js d d' (concat (map new js)) = concat (map (\<lambda>j. map (Pair j) (new j)) js)"
  using assms
proof (induction js)
  case (Cons j js)
  have "tagged (j # js) d d' (concat (map new (j # js))) =
      zip (replicate (length (new j)) j @ concat (map (\<lambda>j. replicate (length (fd_queue d j) - length (fd_queue d' j)) j) js))
        (new j @ concat (map new js))"
    using Cons.prems by (simp add: tagged_def)
  also have "\<dots> = zip (replicate (length (new j)) j) (new j) @ tagged js d d' (concat (map new js))"
    by (simp add: tagged_def)
  also have "zip (replicate (length (new j)) j) (new j) = map (Pair j) (new j)"
    by (simp add: zip_replicate1)
  finally show ?case using Cons by simp
qed (simp add: tagged_def)

lemma finished_types:
  assumes "distinct js" "i \<in> set js"
  shows "map (ro_id \<circ> snd) (filter (\<lambda>(t, op). t = i) (concat (map (\<lambda>j. map (Pair j) (new j)) js))) = map ro_id (new i)"
  using assms by (induction js) (auto simp: filter_concat o_def filter_empty_conv)


text \<open>One step takes operations of each type from the front of what waits, and adds to its end.\<close>

definition passes :: "fd_system \<Rightarrow> fd_system \<Rightarrow> op_type \<Rightarrow> bool" where
  "passes s s' j \<longleftrightarrow> (\<exists>new add. finished j s' = finished j s @ new \<and> given_to j s' = given_to j s @ add \<and>
     waiting j s @ add = new @ waiting j s')"

lemma passes_kept: "\<forall>j. passes s s' j \<Longrightarrow> all_kept s \<Longrightarrow> all_kept s'"
proof -
  assume p: "\<forall>j. passes s s' j" and k: "all_kept s"
  have "mset (given_to j s') = mset (finished j s') + mset (waiting j s')" for j
  proof -
    from p obtain new add where n: "finished j s' = finished j s @ new" "given_to j s' = given_to j s @ add"
      "waiting j s @ add = new @ waiting j s'" unfolding passes_def by blast
    have "mset (waiting j s) + mset add = mset new + mset (waiting j s')"
      using arg_cong [OF n(3), of mset] by simp
    then show ?thesis using k n(1,2) by (simp add: all_kept_def ac_simps)
  qed
  then show ?thesis by (simp add: all_kept_def)
qed

lemma passes_turn: "\<forall>j. passes s s' j \<Longrightarrow> in_turn s \<Longrightarrow> in_turn s'"
proof -
  assume p: "\<forall>j. passes s s' j" and k: "in_turn s"
  have "given_to j s' = finished j s' @ waiting j s'" for j
  proof -
    from p obtain new add where "finished j s' = finished j s @ new" "given_to j s' = given_to j s @ add"
      "waiting j s @ add = new @ waiting j s'" unfolding passes_def by blast
    then show ?thesis using k by (simp add: in_turn_def)
  qed
  then show ?thesis by (simp add: in_turn_def)
qed

lemma passesI:
  assumes "completed s' = completed s @ tagged js (fd_state s) (fd_state s') (concat (map new js))"
    and "distinct js" "set js = UNIV" "accepted s' = accepted s"
    and "\<And>j. map ro_id (fd_queue (fd_state s) j) = map ro_id (new j) @ map ro_id (fd_queue (fd_state s') j)"
  shows "passes s s' j"
proof -
  have "length (new i) = length (fd_queue (fd_state s) i) - length (fd_queue (fd_state s') i)" for i
    using arg_cong [OF assms(5), of length i] by simp
  then have "completed s' = completed s @ concat (map (\<lambda>j. map (Pair j) (new j)) js)"
    using assms(1) by (subst (asm) tagged_concat) auto
  then have "finished j s' = finished j s @ map ro_id (new j)"
    using finished_types [OF assms(2), of j new] assms(3) by (simp add: finished_def)
  moreover have "given_to j s' = given_to j s @ []" using assms(4) by (simp add: given_to_def)
  moreover have "waiting j s @ [] = map ro_id (new j) @ waiting j s'" using assms(5) by (simp add: waiting_def)
  ultimately show ?thesis unfolding passes_def by blast
qed

lemma op_types_univ: "distinct op_types" "set op_types = UNIV"
  "distinct [Except_op, Write_op, Read_op]" "set [Except_op, Write_op, Read_op] = UNIV"
  using op_type.exhaust by (auto simp: op_types_def)

lemma abort_ids [simp]: "map ro_id (map abort ops) = map ro_id ops" "ro_id (abort op) = ro_id op"
  by (simp_all add: abort_def)

lemma start_passes:
  assumes hp: "honest_perform perform" and hc: "honest_ctl ctl" and ok: "fd_ok s"
    and st: "fd_step perform ctl (Start_op j op spec) s = Some s'"
  shows "fd_ok s'" "passes s s' i"
proof -
  let ?d = "fd_state s" and ?k = "fd_kernel s"
  obtain r d' k' where q: "start_registered perform ctl j op spec ?d ?k = (r, d', k')" using prod_cases3 by blast
  have "\<not> fd_shutdown ?d \<Longrightarrow> alert_fd ?d ?k (carried s)" using ok by (simp add: fd_ok_def)
  note sp = start_registered_spec [OF hp hc this q]
  show "fd_ok s'"
    using st q sp ok by (auto simp: fd_ok_def split: started.splits)
  show "passes s s' i"
  proof (cases r)
    case (Immediate op')
    then have w: "fd_queue d' = fd_queue ?d" "ro_id op' = ro_id op" "fd_queue ?d j = []"
      using sp ok by (auto simp: fd_ok_def)
    let ?new = "if i = j then [ro_id op] else []"
    have "finished i s' = finished i s @ ?new" "given_to i s' = given_to i s @ ?new" "waiting i s @ ?new = ?new @ waiting i s'"
      using st q Immediate w by (auto simp: finished_def given_to_def waiting_def)
    then show ?thesis unfolding passes_def by blast
  next
    case Queued
    then obtain op' where w: "ro_id op' = ro_id op" "fd_queue d' = (fd_queue ?d)(j := fd_queue ?d j @ [op'])"
      using sp by auto
    let ?add = "if i = j then [ro_id op] else []"
    have "finished i s' = finished i s @ []" "given_to i s' = given_to i s @ ?add" "waiting i s @ ?add = [] @ waiting i s'"
      using st q Queued w by (auto simp: finished_def given_to_def waiting_def)
    then show ?thesis unfolding passes_def by blast
  qed
qed

lemma perform_passes:
  assumes hp: "honest_perform perform" and ok: "fd_ok s"
    and st: "fd_step perform ctl (Perform_io e) s = Some s'"
  shows "fd_ok s'" "passes s s' i"
proof -
  let ?d = "fd_state s" and ?k = "fd_kernel s" and ?es = "remove1 e (carried s)"
  obtain r d' k' where q: "perform_io perform e ?d ?k = (r, d', k')" using prod_cases3 by blast
  then have p: "perform_all perform e ?d ?k = (io_ops r, d', k')" by (rule perform_io_all)
  have s': "s' = s\<lparr>fd_state := d', fd_kernel := k', carried := ?es,
      completed := completed s @ tagged [Except_op, Write_op, Read_op] ?d d' (io_ops r)\<rparr>"
    using st q by simp
  have all: "fd_ok s' \<and> (\<exists>new. io_ops r = new Except_op @ new Write_op @ new Read_op \<and>
      (\<forall>j. map ro_id (fd_queue ?d j) = map ro_id (new j) @ map ro_id (fd_queue d' j)))"
  proof (cases "fd_shutdown ?d")
    case True
    then have e: "\<And>j. fd_queue ?d j = []" using ok by (simp add: fd_ok_def)
    have "perform_type perform e j (ops, d, k) = (ops, if covers e j then set_speculative j True (set_queue j [] d) else d, k)"
      if "fd_queue d j = []" for j ops d k using that by (simp add: perform_type_def)
    then have "io_ops r = [] \<and> fd_shutdown d' \<and> (\<forall>j. fd_queue d' j = [])"
      using p e True by (auto simp: perform_all_def set_speculative_def set_queue_def split: if_splits)
    then show ?thesis using e unfolding s' by (auto simp: fd_ok_def intro!: exI [of _ "\<lambda>_. []"])
  next
    case False
    then have "alert_fd ?d ?k (carried s)" using ok by (simp add: fd_ok_def)
    note sp = perform_all_spec [OF hp p alert_carried [OF this]]
    have "fd_ok s'" using sp(1,2) False unfolding s' by (simp add: fd_ok_def)
    then show ?thesis using sp(3) by blast
  qed
  then show "fd_ok s'" by blast
  from all obtain new where new: "io_ops r = concat (map new [Except_op, Write_op, Read_op])"
    "\<And>j. map ro_id (fd_queue ?d j) = map ro_id (new j) @ map ro_id (fd_queue d' j)" by auto
  show "passes s s' i"
    by (rule passesI [where js = "[Except_op, Write_op, Read_op]" and new = new])
      (use new op_types_univ in \<open>simp_all add: s'\<close>)
qed


lemma cancel_passes:
  assumes "cancel_ops (fd_state s) = (ops, d')" "fd_state s' = d'" "accepted s' = accepted s"
    and "completed s' = completed s @ tagged op_types (fd_state s) d' ops"
  shows "passes s s' i" "\<And>j. fd_queue d' j = []"
proof -
  have ops: "ops = concat (map (\<lambda>j. map abort (fd_queue (fd_state s) j)) op_types)"
    and d': "d' = (fd_state s)\<lparr>fd_queue := \<lambda>_. []\<rparr>"
    using assms(1) by (auto simp: cancel_ops_def map_concat o_def)
  show "passes s s' i"
    by (rule passesI [where js = op_types and new = "\<lambda>j. map abort (fd_queue (fd_state s) j)"])
      (use assms(2-4) ops d' op_types_univ in simp_all)
  show "\<And>j. fd_queue d' j = []" by (simp add: d')
qed

lemma quiet_passes:
  "completed s' = completed s \<Longrightarrow> accepted s' = accepted s \<Longrightarrow> fd_queue (fd_state s') = fd_queue (fd_state s) \<Longrightarrow>
   passes s s' j"
  by (simp add: passes_def finished_def given_to_def waiting_def)

lemma empty_alert: "alert_fd d k es \<Longrightarrow> (\<And>j. fd_queue d' j = []) \<Longrightarrow> try_speculative d' = try_speculative d \<Longrightarrow>
    registered_events d' = registered_events d \<Longrightarrow> alert_fd d' k es"
  by (auto simp: alert_but_def)

lemma fd_step_passes:
  assumes hp: "honest_perform perform" and hc: "honest_ctl ctl" and ok: "fd_ok s"
    and st: "fd_step perform ctl e s = Some s'" and e: "\<forall>j key. e \<noteq> Cancel_key j key"
  shows "fd_ok s' \<and> passes s s' i"
proof (cases e)
  case (Kernel k)
  then have s': "s' = s\<lparr>fd_kernel := k\<rparr>" "kernel_moves (fd_kernel s) k" using st by (simp_all split: if_splits)
  then show ?thesis using ok alert_moves by (auto simp: fd_ok_def intro!: quiet_passes)
next
  case (Start_op j op spec)
  then show ?thesis using start_passes [OF hp hc ok] st by blast
next
  case Epoll_wait
  let ?k = "fd_kernel s"
  have s': "s' = s\<lparr>carried := carried s @ [edge ?k], fd_kernel := ?k\<lparr>edge := 0\<rparr>\<rparr>"
    using st Epoll_wait by (simp split: if_splits)
  have "missed (?k\<lparr>edge := 0\<rparr>) j \<Longrightarrow> missed ?k j \<or> covers (edge ?k) j" for j by (auto simp: missed_def)
  then have "alert_fd (fd_state s) ?k (carried s) \<Longrightarrow> alert_fd (fd_state s) (?k\<lparr>edge := 0\<rparr>) (carried s @ [edge ?k])"
    by (auto simp: alert_but_def carries_def)
  then show ?thesis using ok by (auto simp: s' fd_ok_def intro!: quiet_passes)
next
  case (Perform_io ev)
  then show ?thesis using perform_passes [OF hp ok] st by blast
next
  case Cancel_ops
  obtain ops d' where c: "cancel_ops (fd_state s) = (ops, d')" by fastforce
  have s': "s' = s\<lparr>fd_state := d', completed := completed s @ tagged op_types (fd_state s) d' ops\<rparr>"
    using st c Cancel_ops by simp
  have d': "d' = (fd_state s)\<lparr>fd_queue := \<lambda>_. []\<rparr>" using c by (auto simp: cancel_ops_def)
  have "fd_ok s'" using ok empty_alert [of "fd_state s" _ _ d'] by (simp add: s' d' fd_ok_def)
  then show ?thesis using cancel_passes [OF c, of s'] by (simp add: s')
next
  case (Deregister closing)
  obtain ops d1 where c: "cancel_ops (fd_state s) = (ops, d1)" by fastforce
  let ?k = "if closing then fd_kernel s
    else if registered_events (fd_state s) \<noteq> 0 then snd (ctl Ctl_del (fd_kernel s)) else fd_kernel s"
  have s': "s' = s\<lparr>fd_state := d1\<lparr>descriptor := -1, fd_shutdown := True\<rparr>, fd_kernel := ?k,
         completed := completed s @ tagged op_types (fd_state s) (d1\<lparr>descriptor := -1, fd_shutdown := True\<rparr>) ops\<rparr>"
    using st Deregister c by (simp add: deregister_descriptor_def Let_def split: if_splits)
  have t: "tagged op_types (fd_state s) (d1\<lparr>descriptor := -1, fd_shutdown := True\<rparr>) ops = tagged op_types (fd_state s) d1 ops"
    by (simp add: tagged_def)
  let ?u = "s'\<lparr>fd_state := d1\<rparr>"
  have u: "passes s ?u i" "\<And>j. fd_queue d1 j = []" using cancel_passes [OF c, of ?u] by (simp_all add: s' t)
  have "passes s s' i" using u(1) by (simp add: passes_def finished_def given_to_def waiting_def s')
  then show ?thesis using u(2) by (simp add: s' fd_ok_def)
qed (use e in simp)

lemma cancel_key_kept:
  assumes ok: "fd_ok s" and k: "all_kept s" and st: "fd_step perform ctl (Cancel_key j key) s = Some s'"
  shows "fd_ok s' \<and> all_kept s'"
proof -
  let ?q = "fd_queue (fd_state s) j"
  let ?d = "set_queue j (filter (\<lambda>op. cancellation_key op \<noteq> key) ?q) (fd_state s)"
  let ?ops = "map abort (filter (\<lambda>op. cancellation_key op = key) ?q)"
  have s': "s' = s\<lparr>fd_state := ?d, completed := completed s @ map (Pair j) ?ops\<rparr>"
    using st by (simp add: cancel_ops_by_key_def)
  have "filter (\<lambda>op. cancellation_key op \<noteq> key) ?q \<noteq> [] \<Longrightarrow> ?q \<noteq> []" by auto
  then have "fd_ok s'" using ok by (auto simp: s' fd_ok_def set_queue_def alert_but_def simp del: filter_False)
  moreover have "mset (given_to i s') = mset (finished i s') + mset (waiting i s')" for i
  proof (cases "i = j")
    case True
    have "mset ?q = mset (filter (\<lambda>op. cancellation_key op = key) ?q) + mset (filter (\<lambda>op. cancellation_key op \<noteq> key) ?q)"
      by (simp add: multiset_partition)
    then have "mset (map ro_id ?q) = mset (map ro_id ?ops) + mset (map ro_id (filter (\<lambda>op. cancellation_key op \<noteq> key) ?q))"
      by (metis abort_ids(1) image_mset_union mset_map)
    moreover have "finished j s' = finished j s @ map ro_id ?ops"
      by (simp add: finished_def s' filter_map o_def)
    ultimately show ?thesis using k True
      by (simp add: all_kept_def given_to_def waiting_def s' set_queue_def)
  next
    case False
    then have "finished i s' = finished i s" by (simp add: finished_def s' filter_map o_def)
    then show ?thesis using k False by (simp add: all_kept_def given_to_def waiting_def s' set_queue_def)
  qed
  ultimately show ?thesis by (simp add: all_kept_def)
qed

lemma fd_steps_ok:
  assumes "honest_perform perform" "honest_ctl ctl"
  shows "fd_ok s \<Longrightarrow> all_kept s \<Longrightarrow> fd_steps perform ctl es s = Some s' \<Longrightarrow>
     fd_ok s' \<and> all_kept s' \<and> (in_turn s \<longrightarrow> list_all (\<lambda>e. \<forall>j key. e \<noteq> Cancel_key j key) es \<longrightarrow> in_turn s')"
proof (induction es arbitrary: s)
  case (Cons e es)
  then obtain r where r: "fd_step perform ctl e s = Some r" "fd_steps perform ctl es r = Some s'"
    by (auto split: bind_splits)
  have step: "fd_ok r \<and> all_kept r \<and> ((\<forall>j key. e \<noteq> Cancel_key j key) \<longrightarrow> in_turn s \<longrightarrow> in_turn r)"
  proof (cases "\<forall>j key. e \<noteq> Cancel_key j key")
    case True
    then show ?thesis
      using fd_step_passes [OF assms Cons.prems(1) r(1)] passes_kept [of s r] passes_turn [of s r] Cons.prems(2) by blast
  next
    case False
    then show ?thesis using cancel_key_kept [OF Cons.prems(1,2)] r(1) by blast
  qed
  then show ?case using Cons.IH [OF _ _ r(2)] by auto
qed simp


section \<open>The properties\<close>

lemma new_fd_ok:
  assumes "honest_ctl ctl" "fst (ctl (Ctl_add all_events) k) = 0"
  shows "fd_ok (new_fd ctl fd k)" "all_kept (new_fd ctl fd k)" "in_turn (new_fd ctl fd k)"
proof -
  obtain k' where c: "ctl (Ctl_add all_events) k = (0, k')" using assms(2) by (metis prod.collapse)
  have m: "interest k' = all_events \<and> (\<forall>j. wants all_events j \<longrightarrow> \<not> missed k' j)"
    using assms(1) c unfolding honest_ctl_def by blast
  show "fd_ok (new_fd ctl fd k)"
    using c m wants_flags by (simp add: new_fd_def register_descriptor_def no_ops_def fd_ok_def alert_but_def)
  show "all_kept (new_fd ctl fd k)" "in_turn (new_fd ctl fd k)"
    using c by (simp_all add: new_fd_def register_descriptor_def no_ops_def all_kept_def in_turn_def
        given_to_def finished_def waiting_def)
qed


text \<open>A kernel whose calls take one datagram at a time and report readiness on \<open>epoll_ctl\<close>.\<close>

definition example_perform :: "kernel perform" where
  "example_perform j op k = (if ready k j then (Done, op, k) else (Not_done, op\<lparr>ec := Would_block\<rparr>, k))"

fun example_ctl :: "kernel epoll_ctl" where
  "example_ctl (Ctl_add w) k = (0, k\<lparr>interest := w, edge := foldr (\<lambda>j e. if ready k j \<and> wants w j then flag j OR e else e) op_types (edge k)\<rparr>)"
| "example_ctl (Ctl_mod w) k = (0, k\<lparr>interest := w, edge := foldr (\<lambda>j e. if ready k j \<and> wants w j then flag j OR e else e) op_types (edge k)\<rparr>)"
| "example_ctl Ctl_del k = (0, k)"

lemma example_honest: "honest_perform example_perform" "honest_ctl example_ctl"
proof -
  show "honest_perform example_perform"
    by (auto simp: honest_perform_def example_perform_def kernel_moves_iff missed_def split: if_splits)
  have own: "covers EPOLLIN Read_op" "covers EPOLLOUT Write_op" "covers EPOLLPRI Except_op"
    by (simp_all add: covers_def epoll_flags)
  have "ready k j \<Longrightarrow> wants w j \<Longrightarrow>
      covers (foldr (\<lambda>j e. if ready k j \<and> wants w j then flag j OR e else e) op_types e) j" for k w j e
    by (cases j) (auto simp: op_types_def covers_or own)
  then show "honest_ctl example_ctl" by (auto simp: honest_ctl_def missed_def)
qed

definition idle_kernel :: kernel where
  "idle_kernel = \<lparr>ready = (\<lambda>_. False), edge = 0, interest = 0\<rparr>"

definition example_op :: "nat \<Rightarrow> reactor_op" where
  "example_op n = \<lparr>ro_id = n, ec = No_error, cancellation_key = 0, bytes_transferred = 0\<rparr>"

definition example_fd_events :: "fd_event list" where
  "example_fd_events = [Start_op Read_op (example_op 1) True, Start_op Read_op (example_op 2) True,
     Kernel \<lparr>ready = (\<lambda>j. j = Read_op), edge = EPOLLIN, interest = all_events\<rparr>, Epoll_wait]"


text \<open>
  C25. Every operation given to a descriptor completes once: at any time the operations given for
  reading, writing or out-of-band data are those that have completed (at once, by a performed
  event, or aborted) together with those that wait, and as long as none is cancelled by its
  key they complete in the order in which they were given.
\<close>
theorem descriptor_ops_complete_once:
  assumes "honest_perform perform" "honest_ctl ctl" "fst (ctl (Ctl_add all_events) k) = 0"
    and "fd_steps perform ctl es (new_fd ctl fd k) = Some s"
  shows "mset (given_to j s) = mset (finished j s) + mset (waiting j s) \<and>
    (list_all (\<lambda>e. \<forall>i key. e \<noteq> Cancel_key i key) es \<longrightarrow> given_to j s = finished j s @ waiting j s)"
proof -
  have "all_kept s \<and> (list_all (\<lambda>e. \<forall>i key. e \<noteq> Cancel_key i key) es \<longrightarrow> in_turn s)"
    using fd_steps_ok [OF assms(1,2) new_fd_ok(1,2) [OF assms(2,3)] assms(4)] new_fd_ok(3) [OF assms(2,3)] by blast
  then show ?thesis by (simp add: all_kept_def in_turn_def)
qed

lemma descriptor_ops_complete_once_witness:
  "\<exists>s. fd_steps example_perform example_ctl (example_fd_events @ [Perform_io EPOLLIN, Start_op Write_op (example_op 3) True])
         (new_fd example_ctl 5 idle_kernel) = Some s \<and>
       given_to Read_op s = [1, 2] \<and> mset (given_to Read_op s) = mset (finished Read_op s) + mset (waiting Read_op s)"
proof -
  let ?es = "example_fd_events @ [Perform_io EPOLLIN, Start_op Write_op (example_op 3) True]"
  let ?r = "fd_steps example_perform example_ctl ?es (new_fd example_ctl 5 idle_kernel)"
  have r: "?r \<noteq> None \<and> given_to Read_op (the ?r) = [1, 2] \<and>
      fst (example_ctl (Ctl_add all_events) idle_kernel) = 0"
    by code_simp
  then show ?thesis
    using descriptor_ops_complete_once [OF example_honest, of idle_kernel ?es 5 "the ?r" Read_op] by auto
qed

section \<open>Aborted operations, and dispatch\<close>

lemma cancelled_ops_aborted:
  "cancel_ops d = (ops, d') \<Longrightarrow> op \<in> set ops \<Longrightarrow> ec op = Operation_aborted"
  "cancel_ops_by_key j key d = (ops, d') \<Longrightarrow> op \<in> set ops \<Longrightarrow> ec op = Operation_aborted"
  by (auto simp: cancel_ops_def cancel_ops_by_key_def abort_def)

text \<open>
  The events of a descriptor are put together, and each descriptor is queued once, in the order of
  the first event.
\<close>

definition events_of :: "nat \<Rightarrow> (event_source \<times> 32 word) list \<Rightarrow> 32 word list" where
  "events_of p evs = map snd (filter (\<lambda>(src, e). src = Of_descriptor p) evs)"

lemma dispatch_fold:
  assumes "fold (dispatch_event timerfd) evs (ops, tr, ct) = (ops', tr', ct')" "distinct ops"
  shows "distinct ops' \<and> set ops' = set ops \<union> {p. events_of p evs \<noteq> []} \<and>
    (ct' \<longleftrightarrow> ct \<or> (\<exists>e. (Timer_fd, e) \<in> set evs) \<or> (\<not> timerfd \<and> (\<exists>e. (Interrupter, e) \<in> set evs))) \<and>
    (\<forall>p. tr' p = (if p \<in> set ops \<or> events_of p evs = [] then foldl (OR) (tr p) (events_of p evs)
                 else foldl (OR) (hd (events_of p evs)) (tl (events_of p evs))))"
  using assms
proof (induction evs arbitrary: ops tr ct)
  case (Cons x evs)
  obtain src e where x: "x = (src, e)" by fastforce
  obtain o1 t1 c1 where s: "dispatch_event timerfd x (ops, tr, ct) = (o1, t1, c1)" using prod_cases3 by blast
  have f: "fold (dispatch_event timerfd) evs (o1, t1, c1) = (ops', tr', ct')" using Cons.prems(1) s by simp
  show ?case
  proof (cases src)
    case (Of_descriptor p)
    show ?thesis
    proof (cases "p \<in> set ops")
      case True
      then have "o1 = ops" "t1 = tr(p := tr p OR e)" "c1 = ct" using s x Of_descriptor by auto
      then show ?thesis using Cons.IH [OF f] Cons.prems(2) True
        by (auto simp: x Of_descriptor events_of_def)
    next
      case False
      then have "o1 = ops @ [p]" "t1 = tr(p := e)" "c1 = ct" using s x Of_descriptor by auto
      then show ?thesis using Cons.IH [OF f] Cons.prems(2) False
        by (auto simp: x Of_descriptor events_of_def)
    qed
  qed (use Cons.IH [OF f] Cons.prems(2) s x in \<open>auto simp: events_of_def\<close>)
qed (simp add: events_of_def)

lemma dispatch_merges:
  assumes "dispatch_events timerfd evs tr = (ops, tr', check_timers)"
  shows "distinct ops \<and> set ops = {p. events_of p evs \<noteq> []} \<and>
    (\<forall>p\<in>set ops. tr' p = foldl (OR) (hd (events_of p evs)) (tl (events_of p evs)))"
  using dispatch_fold [OF assms [unfolded dispatch_events_def]] by auto

end
