(* ===== verification/Socket_Ops.thy ===== *)
theory Socket_Ops
  imports Epoll_Props
begin

unbundle bit_operations_syntax

text \<open>
  The calls of \<open>detail/impl/socket_ops.ipp\<close> on a socket: loops over the system calls that read and
  write, and the flags that say whether a socket blocks. A system call is a parameter: its
  result, the error number it leaves, and the state of the system after it.
\<close>

type_synonym 'k syscall = "'k \<Rightarrow> int \<times> io_error \<times> 'k"
type_synonym state_type = u8

section \<open>The state of a socket\<close>

definition user_set_non_blocking :: state_type where "user_set_non_blocking = 1"
definition internal_non_blocking :: state_type where "internal_non_blocking = 2"
definition non_blocking :: state_type where "non_blocking = user_set_non_blocking OR internal_non_blocking"
definition enable_connection_aborted :: state_type where "enable_connection_aborted = 4"
definition user_set_linger :: state_type where "user_set_linger = 8"
definition stream_oriented :: state_type where "stream_oriented = 16"
definition datagram_oriented :: state_type where "datagram_oriented = 32"
definition possible_dup :: state_type where "possible_dup = 64"

lemmas state_flags = user_set_non_blocking_def internal_non_blocking_def non_blocking_def
  enable_connection_aborted_def user_set_linger_def stream_oriented_def datagram_oriented_def possible_dup_def

definition has_flag :: "state_type \<Rightarrow> state_type \<Rightarrow> bool" where
  "has_flag state f \<longleftrightarrow> state AND f \<noteq> 0"

definition get_last_error :: "io_error \<Rightarrow> bool \<Rightarrow> io_error" where
  "get_last_error errno is_error_condition = (if \<not> is_error_condition then No_error else errno)"

definition would_wait :: "io_error \<Rightarrow> bool" where
  "would_wait e \<longleftrightarrow> e = Would_block \<or> e = Try_again"

definition set_user_non_blocking ::
  "'k syscall \<Rightarrow> int \<Rightarrow> state_type \<Rightarrow> bool \<Rightarrow> 'k \<Rightarrow> bool \<times> io_error \<times> state_type \<times> 'k" where
  "set_user_non_blocking ioctl s state v k =
     (if s = -1 then (False, Bad_descriptor, state, k)
      else let (result, errno, k) = ioctl k; e = get_last_error errno (result < 0)
           in if 0 \<le> result
              then (True, e, if v then state OR user_set_non_blocking
                             else state AND NOT (user_set_non_blocking OR internal_non_blocking), k)
              else (False, e, state, k))"

definition set_internal_non_blocking ::
  "'k syscall \<Rightarrow> int \<Rightarrow> state_type \<Rightarrow> bool \<Rightarrow> 'k \<Rightarrow> bool \<times> io_error \<times> state_type \<times> 'k" where
  "set_internal_non_blocking ioctl s state v k =
     (if s = -1 then (False, Bad_descriptor, state, k)
      else if \<not> v \<and> has_flag state user_set_non_blocking then (False, Invalid_argument, state, k)
      else let (result, errno, k) = ioctl k; e = get_last_error errno (result < 0)
           in if 0 \<le> result
              then (True, e, if v then state OR internal_non_blocking else state AND NOT internal_non_blocking, k)
              else (False, e, state, k))"

text \<open>Closing, with a second attempt in blocking mode; \<open>set_linger\<close> and \<open>ioctl\<close> are without a result here.\<close>

definition close_socket ::
  "'k syscall \<Rightarrow> ('k \<Rightarrow> 'k) \<Rightarrow> 'k syscall \<Rightarrow> int \<Rightarrow> state_type \<Rightarrow> bool \<Rightarrow> 'k \<Rightarrow>
   int \<times> io_error \<times> state_type \<times> 'k" where
  "close_socket close set_linger ioctl s state destruction k =
     (if s \<noteq> -1 then
        let k = (if destruction \<and> has_flag state user_set_linger then set_linger k else k);
            (result, errno, k) = close k;
            e = get_last_error errno (result \<noteq> 0)
        in if result \<noteq> 0 \<and> would_wait e then
             let (_, _, k) = ioctl k;
                 (result, errno, k) = close k
             in (result, get_last_error errno (result \<noteq> 0), state AND NOT non_blocking, k)
           else (result, e, state, k)
      else (0, No_error, state, k))"

section \<open>Reading and writing\<close>

definition recv1 :: "'k syscall \<Rightarrow> 'k syscall" where
  "recv1 recv k = (case recv k of (result, errno, k) \<Rightarrow> (result, get_last_error errno (result < 0), k))"

definition recvfrom1 :: "'k syscall \<Rightarrow> 'k syscall" where
  "recvfrom1 recvfrom k = (case recvfrom k of (result, errno, k) \<Rightarrow> (result, get_last_error errno (result < 0), k))"

definition send1 :: "'k syscall \<Rightarrow> 'k syscall" where
  "send1 send k = (case send k of (result, errno, k) \<Rightarrow> (result, get_last_error errno (result < 0), k))"

definition sendto1 :: "'k syscall \<Rightarrow> 'k syscall" where
  "sendto1 sendto k = (case sendto k of (result, errno, k) \<Rightarrow> (result, get_last_error errno (result < 0), k))"

text \<open>
  The loops of the non-blocking calls: whether the call is finished, its error, and the number of
  bytes, which is as it was (\<open>n\<close>) when the call is to be run again.
\<close>

partial_function (option) non_blocking_loop ::
  "bool \<Rightarrow> 'k syscall \<Rightarrow> nat \<Rightarrow> 'k \<Rightarrow> (bool \<times> io_error \<times> nat \<times> 'k) option" where
  "non_blocking_loop is_stream call n k =
     (case call k of (bytes, e, k) \<Rightarrow>
        if is_stream \<and> bytes = 0 then Some (True, Eof, n, k)
        else if 0 \<le> bytes then Some (True, e, nat bytes, k)
        else if e = Interrupted then non_blocking_loop is_stream call n k
        else if would_wait e then Some (False, e, n, k)
        else Some (True, e, 0, k))"

definition non_blocking_recv1 :: "'k syscall \<Rightarrow> bool \<Rightarrow> nat \<Rightarrow> 'k \<Rightarrow> (bool \<times> io_error \<times> nat \<times> 'k) option" where
  "non_blocking_recv1 recv is_stream = non_blocking_loop is_stream (recv1 recv)"

definition non_blocking_recvfrom1 :: "'k syscall \<Rightarrow> nat \<Rightarrow> 'k \<Rightarrow> (bool \<times> io_error \<times> nat \<times> 'k) option" where
  "non_blocking_recvfrom1 recvfrom = non_blocking_loop False (recvfrom1 recvfrom)"

definition non_blocking_send1 :: "'k syscall \<Rightarrow> nat \<Rightarrow> 'k \<Rightarrow> (bool \<times> io_error \<times> nat \<times> 'k) option" where
  "non_blocking_send1 send = non_blocking_loop False (send1 send)"

definition non_blocking_sendto1 :: "'k syscall \<Rightarrow> nat \<Rightarrow> 'k \<Rightarrow> (bool \<times> io_error \<times> nat \<times> 'k) option" where
  "non_blocking_sendto1 sendto = non_blocking_loop False (sendto1 sendto)"

text \<open>Waiting for a socket, for as long as \<open>msec\<close> says (for ever, if it is negative).\<close>

definition poll_read :: "(int \<Rightarrow> 'k syscall) \<Rightarrow> int \<Rightarrow> state_type \<Rightarrow> int \<Rightarrow> 'k syscall" where
  "poll_read poll s state msec k =
     (if s = -1 then (-1, Bad_descriptor, k)
      else let timeout = (if has_flag state user_set_non_blocking then 0 else msec);
               (result, errno, k) = poll timeout k;
               e = get_last_error errno (result < 0)
           in (result, if result = 0 \<and> has_flag state user_set_non_blocking then Would_block else e, k))"

definition poll_write :: "(int \<Rightarrow> 'k syscall) \<Rightarrow> int \<Rightarrow> state_type \<Rightarrow> int \<Rightarrow> 'k syscall" where
  "poll_write poll s state msec k =
     (if s = -1 then (-1, Bad_descriptor, k)
      else let timeout = (if has_flag state user_set_non_blocking then 0 else msec);
               (result, errno, k) = poll timeout k;
               e = get_last_error errno (result < 0)
           in (result, if result = 0 \<and> has_flag state user_set_non_blocking then Would_block else e, k))"

definition poll_connect :: "(int \<Rightarrow> 'k syscall) \<Rightarrow> int \<Rightarrow> int \<Rightarrow> 'k syscall" where
  "poll_connect poll s msec k =
     (if s = -1 then (-1, Bad_descriptor, k)
      else case poll msec k of (result, errno, k) \<Rightarrow> (result, get_last_error errno (result < 0), k))"

text \<open>The loop of the calls that block: the number of bytes and the error.\<close>

partial_function (option) sync_loop ::
  "bool \<Rightarrow> 'k syscall \<Rightarrow> 'k syscall \<Rightarrow> state_type \<Rightarrow> 'k \<Rightarrow> (nat \<times> io_error \<times> 'k) option" where
  "sync_loop check_eof call wait state k =
     (case call k of (bytes, e, k) \<Rightarrow>
        if check_eof \<and> has_flag state stream_oriented \<and> bytes = 0 then Some (0, Eof, k)
        else if 0 \<le> bytes then Some (nat bytes, e, k)
        else if has_flag state user_set_non_blocking \<or> \<not> would_wait e then Some (0, e, k)
        else case wait k of (result, e, k) \<Rightarrow>
          if result < 0 then Some (0, e, k) else sync_loop check_eof call wait state k)"

definition sync_recv1 ::
  "'k syscall \<Rightarrow> (int \<Rightarrow> 'k syscall) \<Rightarrow> int \<Rightarrow> state_type \<Rightarrow> nat \<Rightarrow> 'k \<Rightarrow> (nat \<times> io_error \<times> 'k) option" where
  "sync_recv1 recv poll s state buffer_size k =
     (if s = -1 then Some (0, Bad_descriptor, k)
      else if buffer_size = 0 \<and> has_flag state stream_oriented then Some (0, No_error, k)
      else sync_loop True (recv1 recv) (poll_read poll s 0 (-1)) state k)"

definition sync_recvfrom1 ::
  "'k syscall \<Rightarrow> (int \<Rightarrow> 'k syscall) \<Rightarrow> int \<Rightarrow> state_type \<Rightarrow> 'k \<Rightarrow> (nat \<times> io_error \<times> 'k) option" where
  "sync_recvfrom1 recvfrom poll s state k =
     (if s = -1 then Some (0, Bad_descriptor, k)
      else sync_loop False (recvfrom1 recvfrom) (poll_read poll s 0 (-1)) state k)"

definition sync_send1 ::
  "'k syscall \<Rightarrow> (int \<Rightarrow> 'k syscall) \<Rightarrow> int \<Rightarrow> state_type \<Rightarrow> nat \<Rightarrow> 'k \<Rightarrow> (nat \<times> io_error \<times> 'k) option" where
  "sync_send1 send poll s state buffer_size k =
     (if s = -1 then Some (0, Bad_descriptor, k)
      else if buffer_size = 0 \<and> has_flag state stream_oriented then Some (0, No_error, k)
      else sync_loop False (send1 send) (poll_write poll s 0 (-1)) state k)"

definition sync_sendto1 ::
  "'k syscall \<Rightarrow> (int \<Rightarrow> 'k syscall) \<Rightarrow> int \<Rightarrow> state_type \<Rightarrow> 'k \<Rightarrow> (nat \<times> io_error \<times> 'k) option" where
  "sync_sendto1 sendto poll s state k =
     (if s = -1 then Some (0, Bad_descriptor, k)
      else sync_loop False (sendto1 sendto) (poll_write poll s 0 (-1)) state k)"

section \<open>Connecting\<close>

text \<open>On Linux; \<open>unix\<close> says that the address is of the family \<open>AF_UNIX\<close>.\<close>

definition connect_socket :: "'k syscall \<Rightarrow> bool \<Rightarrow> int \<Rightarrow> 'k syscall" where
  "connect_socket connect unix s k =
     (if s = -1 then (-1, Bad_descriptor, k)
      else let (result, errno, k) = connect k; e = get_last_error errno (result \<noteq> 0)
           in (result, if result \<noteq> 0 \<and> e = Try_again then if unix then In_progress else No_buffer_space else e, k))"

text \<open>
  The error that the connect operation has ended with (\<open>getsockopt\<close> with \<open>SO_ERROR\<close>), if the call
  works, is read from the socket: here with the result, error and connect error of the call.
\<close>

definition non_blocking_connect ::
  "(int \<Rightarrow> 'k syscall) \<Rightarrow> ('k \<Rightarrow> int \<times> io_error \<times> io_error \<times> 'k) \<Rightarrow> io_error \<Rightarrow> 'k \<Rightarrow> bool \<times> io_error \<times> 'k" where
  "non_blocking_connect poll getsockopt_error e k =
     (case poll 0 k of (n_ready, errno, k) \<Rightarrow>
        if n_ready = 0 then (False, e, k)
        else case getsockopt_error k of (result, e', connect_error, k) \<Rightarrow>
          (True, if result = 0 then connect_error else e', k))"

definition sync_connect ::
  "'k syscall \<Rightarrow> (int \<Rightarrow> 'k syscall) \<Rightarrow> ('k \<Rightarrow> int \<times> io_error \<times> io_error \<times> 'k) \<Rightarrow> bool \<Rightarrow> int \<Rightarrow> 'k \<Rightarrow>
   io_error \<times> 'k" where
  "sync_connect connect poll getsockopt_error unix s k =
     (case connect_socket connect unix s k of (_, e, k) \<Rightarrow>
        if e \<noteq> In_progress \<and> e \<noteq> Would_block then (e, k)
        else case poll_connect poll s (-1) k of (result, e, k) \<Rightarrow>
          if result < 0 then (e, k)
          else case getsockopt_error k of (result, e, connect_error, k) \<Rightarrow>
            if result = -1 then (e, k) else (connect_error, k))"

section \<open>Accepting\<close>

definition EPROTO :: io_error where "EPROTO = Errno 71"

definition accept_socket :: "'k syscall \<Rightarrow> int \<Rightarrow> 'k syscall" where
  "accept_socket accept s k =
     (if s = -1 then (-1, Bad_descriptor, k)
      else case accept k of (new_s, errno, k) \<Rightarrow>
        if new_s = -1 then (new_s, get_last_error errno True, k) else (new_s, No_error, k))"

text \<open>
  Whether a failed accept is tried again later: one that would block, and a connection that was given
  up before it was accepted, unless the user has asked for these errors.
\<close>

definition accept_again :: "state_type \<Rightarrow> io_error \<Rightarrow> bool" where
  "accept_again state e \<longleftrightarrow> would_wait e \<or>
     (e = Connection_aborted \<or> e = EPROTO) \<and> \<not> has_flag state enable_connection_aborted"

partial_function (option) sync_accept ::
  "'k syscall \<Rightarrow> (int \<Rightarrow> 'k syscall) \<Rightarrow> int \<Rightarrow> state_type \<Rightarrow> 'k \<Rightarrow> (int \<times> io_error \<times> 'k) option" where
  "sync_accept accept poll s state k =
     (case accept_socket accept s k of (new_s, e, k) \<Rightarrow>
        if new_s \<noteq> -1 then Some (new_s, e, k)
        else if would_wait e \<and> has_flag state user_set_non_blocking \<or> \<not> accept_again state e
        then Some (-1, e, k)
        else case poll_read poll s 0 (-1) k of (result, e, k) \<Rightarrow>
          if result < 0 then Some (-1, e, k) else sync_accept accept poll s state k)"

partial_function (option) non_blocking_accept ::
  "'k syscall \<Rightarrow> int \<Rightarrow> state_type \<Rightarrow> 'k \<Rightarrow> (bool \<times> io_error \<times> int \<times> 'k) option" where
  "non_blocking_accept accept s state k =
     (case accept_socket accept s k of (new_s, e, k) \<Rightarrow>
        if new_s \<noteq> -1 then Some (True, e, new_s, k)
        else if e = Interrupted then non_blocking_accept accept s state k
        else if accept_again state e then Some (False, e, -1, k)
        else Some (True, e, -1, k))"

section \<open>Calls that do not wait\<close>

definition bind_socket :: "'k syscall \<Rightarrow> int \<Rightarrow> 'k syscall" where
  "bind_socket bind s k =
     (if s = -1 then (-1, Bad_descriptor, k)
      else case bind k of (result, errno, k) \<Rightarrow> (result, get_last_error errno (result \<noteq> 0), k))"

definition listen_socket :: "'k syscall \<Rightarrow> int \<Rightarrow> 'k syscall" where
  "listen_socket listen s k =
     (if s = -1 then (-1, Bad_descriptor, k)
      else case listen k of (result, errno, k) \<Rightarrow> (result, get_last_error errno (result \<noteq> 0), k))"

definition shutdown_socket :: "'k syscall \<Rightarrow> int \<Rightarrow> 'k syscall" where
  "shutdown_socket shutdown s k =
     (if s = -1 then (-1, Bad_descriptor, k)
      else case shutdown k of (result, errno, k) \<Rightarrow> (result, get_last_error errno (result \<noteq> 0), k))"

text \<open>Calls of \<open>ioctl\<close> that read a number, with the number.\<close>

definition ENOTTY :: io_error where "ENOTTY = Errno 25"

definition ioctl_number :: "('k \<Rightarrow> int \<times> io_error \<times> int \<times> 'k) \<Rightarrow> 'k \<Rightarrow> io_error \<times> int \<times> 'k" where
  "ioctl_number ioctl k =
     (case ioctl k of (result, errno, n, k) \<Rightarrow>
        let e = get_last_error errno (result < 0)
        in (if e = ENOTTY then Not_socket else e, n, k))"

definition sockatmark :: "('k \<Rightarrow> int \<times> io_error \<times> int \<times> 'k) \<Rightarrow> int \<Rightarrow> 'k \<Rightarrow> bool \<times> io_error \<times> 'k" where
  "sockatmark ioctl s k =
     (if s = -1 then (False, Bad_descriptor, k)
      else case ioctl_number ioctl k of (e, n, k) \<Rightarrow> (e = No_error \<and> n \<noteq> 0, e, k))"

definition available :: "('k \<Rightarrow> int \<times> io_error \<times> int \<times> 'k) \<Rightarrow> int \<Rightarrow> 'k \<Rightarrow> nat \<times> io_error \<times> 'k" where
  "available ioctl s k =
     (if s = -1 then (0, Bad_descriptor, k)
      else case ioctl_number ioctl k of (e, n, k) \<Rightarrow> (if e = No_error then nat n else 0, e, k))"

text \<open>A command of the user: \<open>FIONBIO\<close> changes the mode, with \<open>arg\<close> what it is set to.\<close>

definition ioctl_socket ::
  "'k syscall \<Rightarrow> int \<Rightarrow> state_type \<Rightarrow> bool \<Rightarrow> int \<Rightarrow> 'k \<Rightarrow> int \<times> io_error \<times> state_type \<times> 'k" where
  "ioctl_socket ioctl s state fionbio arg k =
     (if s = -1 then (-1, Bad_descriptor, state, k)
      else case ioctl k of (result, errno, k) \<Rightarrow>
        (result, get_last_error errno (result < 0),
         if 0 \<le> result \<and> fionbio
         then if arg \<noteq> 0 then state OR user_set_non_blocking
              else state AND NOT (user_set_non_blocking OR internal_non_blocking)
         else state, k))"

section \<open>What an operation performs\<close>

text \<open>
  The \<open>do_perform\<close> functions of the operations on sockets, for a single buffer. A stream that gives
  nothing, or does not take all of the buffer, is exhausted.
\<close>

definition finish_perform ::
  "(bool \<times> io_error \<times> nat \<times> 'k) option \<Rightarrow> (nat \<Rightarrow> bool) \<Rightarrow> reactor_op \<Rightarrow> (status \<times> reactor_op \<times> 'k) option" where
  "finish_perform r exhausted op =
     map_option (\<lambda>(completes, e, n, k).
       (if \<not> completes then Not_done else if exhausted n then Done_and_exhausted else Done,
        op\<lparr>ec := e, bytes_transferred := n\<rparr>, k)) r"

definition recv_op_perform ::
  "'k syscall \<Rightarrow> state_type \<Rightarrow> reactor_op \<Rightarrow> 'k \<Rightarrow> (status \<times> reactor_op \<times> 'k) option" where
  "recv_op_perform recv state op k =
     finish_perform (non_blocking_recv1 recv (has_flag state stream_oriented) (bytes_transferred op) k)
       (\<lambda>n. has_flag state stream_oriented \<and> n = 0) op"

definition recvfrom_op_perform ::
  "'k syscall \<Rightarrow> reactor_op \<Rightarrow> 'k \<Rightarrow> (status \<times> reactor_op \<times> 'k) option" where
  "recvfrom_op_perform recvfrom op k =
     finish_perform (non_blocking_recvfrom1 recvfrom (bytes_transferred op) k) (\<lambda>_. False) op"

definition send_op_perform ::
  "'k syscall \<Rightarrow> state_type \<Rightarrow> nat \<Rightarrow> reactor_op \<Rightarrow> 'k \<Rightarrow> (status \<times> reactor_op \<times> 'k) option" where
  "send_op_perform send state buffer_size op k =
     finish_perform (non_blocking_send1 send (bytes_transferred op) k)
       (\<lambda>n. has_flag state stream_oriented \<and> n < buffer_size) op"

definition sendto_op_perform ::
  "'k syscall \<Rightarrow> reactor_op \<Rightarrow> 'k \<Rightarrow> (status \<times> reactor_op \<times> 'k) option" where
  "sendto_op_perform sendto op k =
     finish_perform (non_blocking_sendto1 sendto (bytes_transferred op) k) (\<lambda>_. False) op"

definition connect_op_perform ::
  "(int \<Rightarrow> 'k syscall) \<Rightarrow> ('k \<Rightarrow> int \<times> io_error \<times> io_error \<times> 'k) \<Rightarrow> reactor_op \<Rightarrow> 'k \<Rightarrow> status \<times> reactor_op \<times> 'k" where
  "connect_op_perform poll getsockopt_error op k =
     (case non_blocking_connect poll getsockopt_error (ec op) k of
        (completes, e, k) \<Rightarrow> (if completes then Done else Not_done, op\<lparr>ec := e\<rparr>, k))"

text \<open>The socket that was accepted is given with the operation.\<close>

definition accept_op_perform ::
  "'k syscall \<Rightarrow> int \<Rightarrow> state_type \<Rightarrow> reactor_op \<Rightarrow> 'k \<Rightarrow> (status \<times> reactor_op \<times> int \<times> 'k) option" where
  "accept_op_perform accept s state op k =
     map_option (\<lambda>(completes, e, new_s, k). (if completes then Done else Not_done, op\<lparr>ec := e\<rparr>, new_s, k))
       (non_blocking_accept accept s state k)"

end
