(* ===== verification/Socket_Service.thy ===== *)
theory Socket_Service
  imports Socket_Ops
begin

unbundle bit_operations_syntax

text \<open>
  The sockets of asio: \<open>reactive_socket_service_base\<close> and the calls of \<open>reactive_socket_service\<close> that
  start operations. A socket is a descriptor with its flags and the state that the reactor keeps for
  it. The system calls are the fields of \<open>os\<close>, on a state \<open>'k\<close> of the system.
\<close>

section \<open>Sockets\<close>

record socket_impl =
  socket_fd :: int
  socket_state :: state_type
  reactor_data :: "descriptor_state option"

record 'k os =
  os_socket :: "int \<Rightarrow> 'k syscall"
  os_epoll_ctl :: "int \<Rightarrow> 'k epoll_ctl"
  os_close :: "int \<Rightarrow> 'k syscall"
  os_set_linger :: "int \<Rightarrow> 'k \<Rightarrow> 'k"
  os_fionbio :: "int \<Rightarrow> bool \<Rightarrow> 'k syscall"
  os_connect :: "int \<Rightarrow> 'k syscall"
  os_perform :: "'k perform"

definition SOCK_STREAM :: int where "SOCK_STREAM = 1"
definition SOCK_DGRAM :: int where "SOCK_DGRAM = 2"

definition construct :: socket_impl where
  "construct = \<lparr>socket_fd = -1, socket_state = 0, reactor_data = None\<rparr>"

definition socket_is_open :: "socket_impl \<Rightarrow> bool" where
  "socket_is_open impl \<longleftrightarrow> socket_fd impl \<noteq> -1"

text \<open>The socket made, and the one that was moved from.\<close>

definition base_move_construct :: "socket_impl \<Rightarrow> socket_impl \<times> socket_impl" where
  "base_move_construct other =
     (\<lparr>socket_fd = socket_fd other, socket_state = socket_state other, reactor_data = reactor_data other\<rparr>,
      other\<lparr>socket_fd := -1, socket_state := 0, reactor_data := None\<rparr>)"

section \<open>Closing\<close>

text \<open>The states given back to the reactor's pool are a list, of one or none.\<close>

definition cleanup_descriptor_data :: "descriptor_state option \<Rightarrow> descriptor_state list" where
  "cleanup_descriptor_data data = (case data of None \<Rightarrow> [] | Some d \<Rightarrow> [d])"

definition deregister_data ::
  "'k epoll_ctl \<Rightarrow> bool \<Rightarrow> descriptor_state option \<Rightarrow> 'k \<Rightarrow> reactor_op list \<times> descriptor_state option \<times> 'k" where
  "deregister_data epoll_ctl closing data k =
     (case data of None \<Rightarrow> ([], None, k) | Some d \<Rightarrow> deregister_descriptor epoll_ctl closing d k)"

definition os_close_socket :: "'k os \<Rightarrow> int \<Rightarrow> state_type \<Rightarrow> bool \<Rightarrow> 'k \<Rightarrow> int \<times> io_error \<times> state_type \<times> 'k" where
  "os_close_socket os fd = close_socket (os_close os fd) (os_set_linger os fd) (os_fionbio os fd False) fd"

text \<open>The operations completed, the states freed, and the socket as it is left.\<close>

definition destroy_socket ::
  "'k os \<Rightarrow> socket_impl \<Rightarrow> 'k \<Rightarrow> reactor_op list \<times> descriptor_state list \<times> socket_impl \<times> 'k" where
  "destroy_socket os impl k =
     (if socket_is_open impl then
        let (ops, data, k) = deregister_data (os_epoll_ctl os (socket_fd impl))
              (socket_state impl AND possible_dup = 0) (reactor_data impl) k;
            (_, _, state, k) = os_close_socket os (socket_fd impl) (socket_state impl) True k
        in (ops, cleanup_descriptor_data data, impl\<lparr>socket_state := state, reactor_data := None\<rparr>, k)
      else ([], [], impl, k))"

definition base_move_assign ::
  "'k os \<Rightarrow> socket_impl \<Rightarrow> socket_impl \<Rightarrow> 'k \<Rightarrow>
   reactor_op list \<times> descriptor_state list \<times> socket_impl \<times> socket_impl \<times> 'k" where
  "base_move_assign os impl other k =
     (case destroy_socket os impl k of
        (ops, freed, impl, k) \<Rightarrow>
          (ops, freed,
           impl\<lparr>socket_fd := socket_fd other, socket_state := socket_state other, reactor_data := reactor_data other\<rparr>,
           other\<lparr>socket_fd := -1, socket_state := 0, reactor_data := None\<rparr>, k))"

definition close_impl ::
  "'k os \<Rightarrow> socket_impl \<Rightarrow> 'k \<Rightarrow> reactor_op list \<times> descriptor_state list \<times> io_error \<times> socket_impl \<times> 'k" where
  "close_impl os impl k =
     (if socket_is_open impl then
        let (ops, data, k) = deregister_data (os_epoll_ctl os (socket_fd impl))
              (socket_state impl AND possible_dup = 0) (reactor_data impl) k;
            (_, e, _, k) = os_close_socket os (socket_fd impl) (socket_state impl) False k
        in (ops, cleanup_descriptor_data data, e, construct, k)
      else ([], [], No_error, construct, k))"

definition release_impl ::
  "'k os \<Rightarrow> socket_impl \<Rightarrow> 'k \<Rightarrow> reactor_op list \<times> descriptor_state list \<times> int \<times> io_error \<times> socket_impl \<times> 'k" where
  "release_impl os impl k =
     (if \<not> socket_is_open impl then ([], [], -1, Bad_descriptor, impl, k)
      else let (ops, data, k) = deregister_data (os_epoll_ctl os (socket_fd impl)) False (reactor_data impl) k
           in (ops, cleanup_descriptor_data data, socket_fd impl, No_error, construct, k))"

text \<open>A descriptor without data, or whose reactor has shut down (its queues are empty), has nothing to cancel.\<close>

definition cancel_impl :: "socket_impl \<Rightarrow> reactor_op list \<times> io_error \<times> socket_impl" where
  "cancel_impl impl =
     (if \<not> socket_is_open impl then ([], Bad_descriptor, impl)
      else case reactor_data impl of
        None \<Rightarrow> ([], No_error, impl)
      | Some d \<Rightarrow> (case cancel_ops d of (ops, d) \<Rightarrow> (ops, No_error, impl\<lparr>reactor_data := Some d\<rparr>)))"

section \<open>Opening\<close>

definition type_flags :: "int \<Rightarrow> state_type" where
  "type_flags type = (if type = SOCK_STREAM then stream_oriented
                      else if type = SOCK_DGRAM then datagram_oriented else 0)"

text \<open>A socket whose descriptor cannot be registered is closed again by its \<open>socket_holder\<close>.\<close>

definition do_open :: "'k os \<Rightarrow> int \<Rightarrow> socket_impl \<Rightarrow> 'k \<Rightarrow> io_error \<times> socket_impl \<times> 'k" where
  "do_open os type impl k =
     (if socket_is_open impl then (Already_open, impl, k)
      else let (s, errno, k) = os_socket os type k;
               e = get_last_error errno (s < 0)
           in if s = -1 then (e, impl, k)
              else let (err, d, k) = register_descriptor (os_epoll_ctl os s) s no_ops k
                   in if err \<noteq> 0 then
                        let (_, _, _, k) = os_close_socket os s 0 True k
                        in (Errno err, impl\<lparr>reactor_data := Some d\<rparr>, k)
                      else (No_error, \<lparr>socket_fd = s, socket_state = type_flags type, reactor_data = Some d\<rparr>, k))"

definition do_assign :: "'k os \<Rightarrow> int \<Rightarrow> int \<Rightarrow> socket_impl \<Rightarrow> 'k \<Rightarrow> io_error \<times> socket_impl \<times> 'k" where
  "do_assign os type native_socket impl k =
     (if socket_is_open impl then (Already_open, impl, k)
      else let (err, d, k) = register_descriptor (os_epoll_ctl os native_socket) native_socket no_ops k
           in if err \<noteq> 0 then (Errno err, impl\<lparr>reactor_data := Some d\<rparr>, k)
              else (No_error, \<lparr>socket_fd = native_socket, socket_state = type_flags type OR possible_dup,
                               reactor_data = Some d\<rparr>, k))"

section \<open>Starting operations\<close>

text \<open>The condition of both functions below: the descriptor is non-blocking, or can be made so.\<close>

definition ensure_non_blocking ::
  "'k os \<Rightarrow> reactor_op \<Rightarrow> socket_impl \<Rightarrow> 'k \<Rightarrow> bool \<times> reactor_op \<times> socket_impl \<times> 'k" where
  "ensure_non_blocking os op impl k =
     (if has_flag (socket_state impl) non_blocking then (True, op, impl, k)
      else case set_internal_non_blocking (os_fionbio os (socket_fd impl) True) (socket_fd impl)
                  (socket_state impl) True k of
        (ok, e, state, k) \<Rightarrow> (ok, op\<lparr>ec := e\<rparr>, impl\<lparr>socket_state := state\<rparr>, k))"

definition reactor_start ::
  "'k os \<Rightarrow> op_type \<Rightarrow> reactor_op \<Rightarrow> bool \<Rightarrow> socket_impl \<Rightarrow> 'k \<Rightarrow> started \<times> socket_impl \<times> 'k" where
  "reactor_start os j op allow_speculative impl k =
     (case start_op (os_perform os) (os_epoll_ctl os (socket_fd impl)) j op allow_speculative (reactor_data impl) k of
        (r, data, k) \<Rightarrow> (r, impl\<lparr>reactor_data := data\<rparr>, k))"

definition do_start_op ::
  "'k os \<Rightarrow> op_type \<Rightarrow> reactor_op \<Rightarrow> bool \<Rightarrow> bool \<Rightarrow> socket_impl \<Rightarrow> 'k \<Rightarrow> started \<times> socket_impl \<times> 'k" where
  "do_start_op os j op is_non_blocking noop impl k =
     (if noop then (Immediate op, impl, k)
      else let (ok, op, impl, k) = ensure_non_blocking os op impl k
           in if ok then reactor_start os j op is_non_blocking impl k else (Immediate op, impl, k))"

definition do_start_accept_op ::
  "'k os \<Rightarrow> reactor_op \<Rightarrow> bool \<Rightarrow> socket_impl \<Rightarrow> 'k \<Rightarrow> started \<times> socket_impl \<times> 'k" where
  "do_start_accept_op os op peer_is_open impl k =
     (if \<not> peer_is_open then do_start_op os Read_op op True False impl k
      else (Immediate (op\<lparr>ec := Already_open\<rparr>), impl, k))"

text \<open>A connect waits as a write does; the address is not of the family \<open>AF_UNIX\<close>.\<close>

definition do_start_connect_op ::
  "'k os \<Rightarrow> reactor_op \<Rightarrow> socket_impl \<Rightarrow> 'k \<Rightarrow> started \<times> socket_impl \<times> 'k" where
  "do_start_connect_op os op impl k =
     (let (ok, op, impl, k) = ensure_non_blocking os op impl k
      in if \<not> ok then (Immediate op, impl, k)
         else case connect_socket (os_connect os (socket_fd impl)) False (socket_fd impl) k of
           (result, e, k) \<Rightarrow>
             if result \<noteq> 0 \<and> (e = In_progress \<or> e = Would_block)
             then reactor_start os Write_op (op\<lparr>ec := No_error\<rparr>) False impl k
             else (Immediate (op\<lparr>ec := e\<rparr>), impl, k))"

section \<open>The asynchronous calls\<close>

datatype wait_type = Wait_read | Wait_write | Wait_error | Wait_other

fun async_wait :: "'k os \<Rightarrow> wait_type \<Rightarrow> reactor_op \<Rightarrow> socket_impl \<Rightarrow> 'k \<Rightarrow> started \<times> socket_impl \<times> 'k" where
  "async_wait os Wait_read op impl k = do_start_op os Read_op op False False impl k"
| "async_wait os Wait_write op impl k = do_start_op os Write_op op False False impl k"
| "async_wait os Wait_error op impl k = do_start_op os Except_op op False False impl k"
| "async_wait os Wait_other op impl k = do_start_op os Read_op (op\<lparr>ec := Invalid_argument\<rparr>) False True impl k"

definition async_send :: "'k os \<Rightarrow> bool \<Rightarrow> reactor_op \<Rightarrow> socket_impl \<Rightarrow> 'k \<Rightarrow> started \<times> socket_impl \<times> 'k" where
  "async_send os all_empty op impl k =
     do_start_op os Write_op op True (has_flag (socket_state impl) stream_oriented \<and> all_empty) impl k"

definition async_receive ::
  "'k os \<Rightarrow> bool \<Rightarrow> bool \<Rightarrow> reactor_op \<Rightarrow> socket_impl \<Rightarrow> 'k \<Rightarrow> started \<times> socket_impl \<times> 'k" where
  "async_receive os out_of_band all_empty op impl k =
     do_start_op os (if out_of_band then Except_op else Read_op) op (\<not> out_of_band)
       (has_flag (socket_state impl) stream_oriented \<and> all_empty) impl k"

definition async_send_to :: "'k os \<Rightarrow> reactor_op \<Rightarrow> socket_impl \<Rightarrow> 'k \<Rightarrow> started \<times> socket_impl \<times> 'k" where
  "async_send_to os op impl k = do_start_op os Write_op op True False impl k"

definition async_receive_from ::
  "'k os \<Rightarrow> bool \<Rightarrow> reactor_op \<Rightarrow> socket_impl \<Rightarrow> 'k \<Rightarrow> started \<times> socket_impl \<times> 'k" where
  "async_receive_from os out_of_band op impl k =
     do_start_op os (if out_of_band then Except_op else Read_op) op True False impl k"

end
