(* ===== verification/Socket_Runs.thy ===== *)
theory Socket_Runs
  imports Socket_Service
begin

unbundle bit_operations_syntax

text \<open>
  What the calls of a socket do to the operations that wait on it: none of them loses or doubles
  an operation, and each keeps the socket well formed. The lives of sockets, in \<open>Socket_Life\<close>, are
  made of these steps.
\<close>

section \<open>Operations are neither lost nor doubled\<close>

definition queued_ids :: "descriptor_state \<Rightarrow> nat multiset" where
  "queued_ids d = mset (map ro_id (concat (map (fd_queue d) op_types)))"

definition waiting_on :: "socket_impl \<Rightarrow> nat multiset" where
  "waiting_on impl = (case reactor_data impl of None \<Rightarrow> {#} | Some d \<Rightarrow> queued_ids d)"

definition op_ids :: "reactor_op list \<Rightarrow> nat multiset" where
  "op_ids ops = mset (map ro_id ops)"

definition started_ids :: "started \<Rightarrow> nat multiset" where
  "started_ids r = (case r of Immediate op \<Rightarrow> {#ro_id op#} | Queued \<Rightarrow> {#})"

text \<open>Performing an operation changes its result only.\<close>

definition keeps_ids :: "'k perform \<Rightarrow> bool" where
  "keeps_ids perform \<longleftrightarrow> (\<forall>j op k. ro_id (fst (snd (perform j op k))) = ro_id op)"

lemma keeps_idsD: "keeps_ids perform \<Longrightarrow> perform j op k = (st, op', k') \<Longrightarrow> ro_id op' = ro_id op"
  unfolding keeps_ids_def by (metis fst_conv snd_conv)

lemma op_ids_simps [simp]: "op_ids [] = {#}" "op_ids (op # ops) = add_mset (ro_id op) (op_ids ops)"
    "op_ids (ops @ ops') = op_ids ops + op_ids ops'" "op_ids (map abort ops) = op_ids ops"
  by (simp_all add: op_ids_def abort_def o_def)

lemma queued_ids_split:
  "queued_ids d = op_ids (fd_queue d Read_op) + op_ids (fd_queue d Write_op) + op_ids (fd_queue d Except_op)"
  by (simp add: queued_ids_def op_types_def op_ids_def)

lemma queued_set_queue:
  "queued_ids (set_queue j q d) + op_ids (fd_queue d j) = queued_ids d + op_ids q"
  by (cases j) (simp_all add: queued_ids_split set_queue_def)

lemma queued_other [simp]:
  "queued_ids (set_speculative j b d) = queued_ids d" "queued_ids (d\<lparr>registered_events := w\<rparr>) = queued_ids d"
  "queued_ids (d\<lparr>fd_queue := (\<lambda>_. [])\<rparr>) = {#}"
  "queued_ids (d\<lparr>descriptor := fd\<rparr>) = queued_ids d" "queued_ids (d\<lparr>fd_shutdown := b\<rparr>) = queued_ids d"
  by (simp_all add: queued_ids_split set_speculative_def)

lemma queued_enqueue [simp]: "queued_ids (enqueue j op d) = add_mset (ro_id op) (queued_ids d)"
  using queued_set_queue [of j "fd_queue d j @ [op]" d] by (simp add: enqueue_def)

text \<open>What stays when operations are started or performed.\<close>

definition same_fd :: "descriptor_state \<Rightarrow> descriptor_state \<Rightarrow> bool" where
  "same_fd d d' \<longleftrightarrow> descriptor d' = descriptor d \<and> fd_shutdown d' = fd_shutdown d"

lemma same_fd_intros [simp]:
  "same_fd d d" "same_fd d (set_queue j q d)" "same_fd d (set_speculative j b d)" "same_fd d (enqueue j op d)"
  "same_fd d (enqueue j op (d\<lparr>registered_events := w\<rparr>))" "same_fd d (set_speculative j b (set_queue i q d))"
  "same_fd d (d\<lparr>registered_events := w\<rparr>)"
  by (simp_all add: same_fd_def set_queue_def set_speculative_def enqueue_def)

lemma start_waiting_ids:
  "start_waiting ctl j op d k = (r, d', k') \<Longrightarrow>
   queued_ids d' + started_ids r = add_mset (ro_id op) (queued_ids d) \<and> same_fd d d'"
  by (auto simp: start_waiting_def started_ids_def Let_def split: if_splits prod.splits)

lemma start_registered_ids:
  assumes "keeps_ids perform" "start_registered perform ctl j op spec d k = (r, d', k')"
  shows "queued_ids d' + started_ids r = add_mset (ro_id op) (queued_ids d) \<and> same_fd d d' \<and>
    (fd_shutdown d \<longrightarrow> d' = d \<and> r = Immediate op)"
proof -
  obtain st op1 k1 where p: "perform j op k = (st, op1, k1)" using prod_cases3 by blast
  have i: "ro_id op1 = ro_id op" using keeps_idsD [OF assms(1) p] .
  have w: "start_waiting ctl j op' d k2 = (r, d', k') \<Longrightarrow> ro_id op' = ro_id op \<Longrightarrow>
      queued_ids d' + started_ids r = add_mset (ro_id op) (queued_ids d) \<and> same_fd d d'" for op' k2
    using start_waiting_ids by metis
  show ?thesis
  proof (cases "fd_shutdown d \<or> fd_queue d j \<noteq> []")
    case True
    then show ?thesis using assms(2) by (auto simp: start_registered_def started_ids_def split: if_splits)
  next
    case q: False
    show ?thesis
    proof (cases "spec \<and> (j \<noteq> Read_op \<or> fd_queue d Except_op = [])")
      case True
      show ?thesis using assms(2) q True p i w
        by (cases st) (auto simp: start_registered_def started_ids_def split: if_splits)
    next
      case False
      then show ?thesis using assms(2) q
        by (auto simp: start_registered_def started_ids_def Let_def split: if_splits prod.splits)
    qed
  qed
qed

lemma perform_queue_ids:
  "keeps_ids perform \<Longrightarrow> perform_queue perform j q k = (ops, q', x, k') \<Longrightarrow> op_ids q = op_ids ops + op_ids q'"
proof (induction q arbitrary: k ops)
  case (Cons op q)
  obtain st op1 k1 where p: "perform j op k = (st, op1, k1)" using prod_cases3 by blast
  have "ro_id op1 = ro_id op" using keeps_idsD [OF Cons.prems(1) p] .
  then show ?case using Cons p by (cases st) (auto split: prod.splits)
qed simp

lemma perform_type_ids:
  assumes "keeps_ids perform" "perform_type perform e j (ops, d, k) = (ops', d', k')"
  shows "op_ids ops' + queued_ids d' = op_ids ops + queued_ids d \<and> same_fd d d'"
proof (cases "covers e j")
  case True
  obtain new q x k1 where p: "perform_queue perform j (fd_queue d j) k = (new, q, x, k1)"
    using prod_cases4 by blast
  have i: "op_ids (fd_queue d j) = op_ids new + op_ids q" using perform_queue_ids [OF assms(1) p] .
  have "op_ids new + queued_ids (set_queue j q d) = queued_ids d"
    using queued_set_queue [of j q d] unfolding i by (simp add: ac_simps)
  moreover have "ops' = ops @ new" "d' = set_speculative j (\<not> x) (set_queue j q d)"
    using assms(2) True p by (simp_all add: perform_type_def)
  ultimately show ?thesis by (simp add: ac_simps)
next
  case False
  then show ?thesis using assms(2) by (simp add: perform_type_def)
qed

lemma perform_io_ids:
  assumes "keeps_ids perform" "perform_io perform e d k = (r, d', k')"
  shows "op_ids (io_ops r) + queued_ids d' = queued_ids d \<and> same_fd d d'"
proof -
  have all: "perform_all perform e d k = (io_ops r, d', k')" using perform_io_all [OF assms(2)] .
  obtain o1 d1 k1 where p1: "perform_type perform e Except_op ([], d, k) = (o1, d1, k1)" using prod_cases3 by blast
  obtain o2 d2 k2 where p2: "perform_type perform e Write_op (o1, d1, k1) = (o2, d2, k2)" using prod_cases3 by blast
  have p3: "perform_type perform e Read_op (o2, d2, k2) = (io_ops r, d', k')" using all p1 p2 by (simp add: perform_all_def)
  show ?thesis
    using perform_type_ids [OF assms(1) p1] perform_type_ids [OF assms(1) p2] perform_type_ids [OF assms(1) p3]
    by (simp add: same_fd_def)
qed

lemma cancel_ids:
  "cancel_ops d = (ops, d') \<Longrightarrow> op_ids ops = queued_ids d \<and> queued_ids d' = {#} \<and> same_fd d d'"
  by (auto simp: cancel_ops_def op_types_def queued_ids_split same_fd_def)

lemma filter_op_ids: "op_ids (filter P ops) + op_ids (filter (\<lambda>op. \<not> P op) ops) = op_ids ops"
  by (induction ops) auto

lemma cancel_key_ids:
  assumes "cancel_ops_by_key j key d = (ops, d')"
  shows "op_ids ops + queued_ids d' = queued_ids d \<and> same_fd d d'"
proof -
  let ?q = "filter (\<lambda>op. cancellation_key op \<noteq> key) (fd_queue d j)"
  have o: "op_ids ops + op_ids ?q = op_ids (fd_queue d j)" and d': "d' = set_queue j ?q d"
    using assms filter_op_ids [of "\<lambda>op. cancellation_key op = key"] by (auto simp: cancel_ops_by_key_def)
  have "op_ids ops + queued_ids d' = queued_ids d"
    using queued_set_queue [of j ?q d] unfolding o [symmetric] d' by (simp add: ac_simps)
  then show ?thesis by (simp add: d')
qed

lemma deregister_ids:
  assumes "deregister_descriptor ctl closing d k = (ops, d', k')" "fd_shutdown d \<Longrightarrow> queued_ids d = {#}"
  shows "op_ids ops = queued_ids d"
proof (cases "fd_shutdown d")
  case False
  then have "ops = fst (cancel_ops d)" using assms(1) by (auto simp: deregister_descriptor_def Let_def split: prod.splits)
  then show ?thesis using cancel_ids by (metis prod.collapse)
qed (use assms in \<open>simp add: deregister_descriptor_def\<close>)

section \<open>Sockets that are well formed\<close>

text \<open>
  An open socket has the data of its own descriptor, and a closed one no flags and nothing waiting
  (it may have data, left by an \<open>open\<close> that failed).
\<close>

definition data_ok :: "int \<Rightarrow> descriptor_state \<Rightarrow> bool" where
  "data_ok fd d \<longleftrightarrow> (if fd_shutdown d then queued_ids d = {#} else descriptor d = fd)"

definition impl_ok :: "socket_impl \<Rightarrow> bool" where
  "impl_ok impl \<longleftrightarrow>
     (if socket_is_open impl then \<exists>d. reactor_data impl = Some d \<and> data_ok (socket_fd impl) d
      else socket_state impl = 0 \<and> waiting_on impl = {#})"

text \<open>\<open>epoll_ctl\<close> refuses what is not a descriptor (\<open>EBADF\<close>).\<close>

definition refuses_invalid :: "'k os \<Rightarrow> bool" where
  "refuses_invalid os \<longleftrightarrow> (\<forall>w k. fst (os_epoll_ctl os (-1) (Ctl_add w) k) \<notin> {0, EPERM})"

lemma data_ok_same: "data_ok fd d \<Longrightarrow> same_fd d d' \<Longrightarrow> (fd_shutdown d \<Longrightarrow> queued_ids d' = {#}) \<Longrightarrow> data_ok fd d'"
  by (simp add: data_ok_def same_fd_def)

lemma impl_ok_open:
  assumes "impl_ok impl" "socket_is_open impl"
  obtains d where "reactor_data impl = Some d" "data_ok (socket_fd impl) d" "waiting_on impl = queued_ids d"
  using assms by (auto simp: impl_ok_def waiting_on_def)

lemma construct_ok [simp]: "impl_ok construct" "waiting_on construct = {#}"
  by (simp_all add: impl_ok_def socket_is_open_def construct_def waiting_on_def)

lemma deregister_data_ids:
  assumes "deregister_data ctl closing (reactor_data impl) k = (ops, data, k')" "impl_ok impl" "socket_is_open impl"
  shows "op_ids ops = waiting_on impl"
proof -
  obtain d where d: "reactor_data impl = Some d" "data_ok (socket_fd impl) d" "waiting_on impl = queued_ids d"
    using impl_ok_open assms(2,3) by blast
  have "deregister_descriptor ctl closing d k = (ops, data, k')" using assms(1) d by (simp add: deregister_data_def)
  then show ?thesis using d deregister_ids by (fastforce simp: data_ok_def)
qed

lemma close_impl_ids:
  assumes "close_impl os impl k = (ops, freed, e, impl', k')" "impl_ok impl"
  shows "op_ids ops = waiting_on impl" "impl' = construct"
proof -
  show "impl' = construct" using assms(1) by (auto simp: close_impl_def Let_def split: if_splits prod.splits)
  show "op_ids ops = waiting_on impl"
  proof (cases "socket_is_open impl")
    case True
    then show ?thesis using assms deregister_data_ids [OF _ assms(2) True]
      by (auto simp: close_impl_def Let_def split: prod.splits)
  qed (use assms in \<open>auto simp: close_impl_def impl_ok_def\<close>)
qed

lemma release_impl_ids:
  assumes "release_impl os impl k = (ops, freed, fd, e, impl', k')" "impl_ok impl"
  shows "op_ids ops + waiting_on impl' = waiting_on impl" "impl_ok impl'"
proof -
  show "op_ids ops + waiting_on impl' = waiting_on impl"
  proof (cases "socket_is_open impl")
    case True
    then show ?thesis using assms deregister_data_ids [OF _ assms(2) True]
      by (auto simp: release_impl_def Let_def split: prod.splits)
  qed (use assms in \<open>auto simp: release_impl_def\<close>)
  show "impl_ok impl'" using assms by (auto simp: release_impl_def Let_def split: if_splits prod.splits)
qed

lemma cancel_impl_ids:
  assumes "cancel_impl impl = (ops, e, impl')" "impl_ok impl"
  shows "op_ids ops + waiting_on impl' = waiting_on impl" "impl_ok impl'"
proof -
  have "op_ids ops + waiting_on impl' = waiting_on impl \<and> impl_ok impl'"
  proof (cases "socket_is_open impl")
    case True
    obtain d where d: "reactor_data impl = Some d" "data_ok (socket_fd impl) d" "waiting_on impl = queued_ids d"
      using impl_ok_open assms(2) True by blast
    obtain ops1 d1 where c: "cancel_ops d = (ops1, d1)" by fastforce
    then have i: "impl' = impl\<lparr>reactor_data := Some d1\<rparr>" "ops = ops1"
      using assms(1) True d(1) by (simp_all add: cancel_impl_def)
    have "data_ok (socket_fd impl) d1" using cancel_ids [OF c] data_ok_same [OF d(2)] by blast
    then show ?thesis using cancel_ids [OF c] d True by (simp add: i impl_ok_def socket_is_open_def waiting_on_def)
  qed (use assms in \<open>simp add: cancel_impl_def\<close>)
  then show "op_ids ops + waiting_on impl' = waiting_on impl" "impl_ok impl'" by simp_all
qed

lemma registered_new:
  assumes "register_descriptor ctl fd no_ops k = (err, d, k')"
  shows "queued_ids d = {#} \<and> descriptor d = fd \<and> \<not> fd_shutdown d \<and>
    (err = 0 \<longrightarrow> fst (ctl (Ctl_add all_events) k) \<in> {0, EPERM})"
  using assms by (auto simp: register_descriptor_def no_ops_def queued_ids_split Let_def split: if_splits prod.splits)

lemma do_open_ok:
  assumes "do_open os type impl k = (e, impl', k')" "impl_ok impl"
  shows "impl_ok impl' \<and> waiting_on impl' = waiting_on impl"
proof (cases "socket_is_open impl")
  case closed: False
  obtain s errno k1 where s: "os_socket os type k = (s, errno, k1)" using prod_cases3 by blast
  obtain err d k2 where r: "register_descriptor (os_epoll_ctl os s) s no_ops k1 = (err, d, k2)" using prod_cases3 by blast
  note reg = registered_new [OF r]
  show ?thesis using assms closed s r reg
    by (auto simp: do_open_def impl_ok_def waiting_on_def socket_is_open_def data_ok_def
        split: if_splits prod.splits)
qed (use assms in \<open>simp add: do_open_def\<close>)

lemma do_assign_ok:
  assumes "do_assign os type fd impl k = (e, impl', k')" "impl_ok impl" "refuses_invalid os"
  shows "impl_ok impl' \<and> waiting_on impl' = waiting_on impl"
proof (cases "socket_is_open impl")
  case closed: False
  obtain err d k2 where r: "register_descriptor (os_epoll_ctl os fd) fd no_ops k = (err, d, k2)" using prod_cases3 by blast
  have "err = 0 \<Longrightarrow> fd \<noteq> -1" using registered_new [OF r] assms(3) unfolding refuses_invalid_def by blast
  then show ?thesis using assms(1,2) closed r registered_new [OF r]
    by (auto simp: do_assign_def impl_ok_def waiting_on_def socket_is_open_def data_ok_def split: if_splits)
qed (use assms in \<open>simp add: do_assign_def\<close>)

section \<open>Starting keeps them so\<close>

lemma ensure_ok:
  assumes "ensure_non_blocking os op impl k = (b, op', impl', k')" "impl_ok impl"
  shows "impl_ok impl'" "waiting_on impl' = waiting_on impl" "ro_id op' = ro_id op"
    "b \<Longrightarrow> socket_is_open impl'"
proof -
  have flags: "has_flag (socket_state impl) non_blocking \<Longrightarrow> socket_is_open impl"
    using assms(2) by (auto simp: impl_ok_def has_flag_def split: if_splits)
  show "impl_ok impl'" "waiting_on impl' = waiting_on impl" "ro_id op' = ro_id op" "b \<Longrightarrow> socket_is_open impl'"
    using assms flags
    by (auto simp: ensure_non_blocking_def set_internal_non_blocking_def impl_ok_def socket_is_open_def
        waiting_on_def Let_def split: if_splits prod.splits)
qed

lemma reactor_start_ok:
  assumes "keeps_ids (os_perform os)" "reactor_start os j op spec impl k = (r, impl', k')"
    and "impl_ok impl" "socket_is_open impl"
  shows "impl_ok impl' \<and> waiting_on impl' + started_ids r = add_mset (ro_id op) (waiting_on impl)"
proof -
  obtain d where d: "reactor_data impl = Some d" "data_ok (socket_fd impl) d" "waiting_on impl = queued_ids d"
    using impl_ok_open assms(3,4) by blast
  obtain r1 d1 k1 where s: "start_registered (os_perform os) (os_epoll_ctl os (socket_fd impl)) j op spec d k = (r1, d1, k1)"
    using prod_cases3 by blast
  have i: "r = r1" "impl' = impl\<lparr>reactor_data := Some d1\<rparr>"
    using assms(2) d(1) s by (simp_all add: reactor_start_def start_op_def)
  note spec = start_registered_ids [OF assms(1) s]
  have "data_ok (socket_fd impl) d1" using spec d(2) by (auto simp: data_ok_def same_fd_def)
  then show ?thesis using spec d assms(4) by (simp add: i impl_ok_def socket_is_open_def waiting_on_def)
qed

definition start_keeps :: "reactor_op \<Rightarrow> socket_impl \<Rightarrow> started \<times> socket_impl \<times> 'k \<Rightarrow> bool" where
  "start_keeps op impl = (\<lambda>(r, impl', k).
     impl_ok impl' \<and> waiting_on impl' + started_ids r = add_mset (ro_id op) (waiting_on impl))"

lemma immediate_keeps: "impl_ok impl \<Longrightarrow> ro_id op' = ro_id op \<Longrightarrow> start_keeps op impl (Immediate op', impl, k)"
  by (simp add: start_keeps_def started_ids_def)

lemma do_start_op_keeps:
  assumes "keeps_ids (os_perform os)" "impl_ok impl"
  shows "start_keeps op impl (do_start_op os j op nb noop impl k)"
proof (cases noop)
  case False
  obtain b op1 i1 k1 where e: "ensure_non_blocking os op impl k = (b, op1, i1, k1)" using prod_cases4 by blast
  note en = ensure_ok [OF e assms(2)]
  show ?thesis
  proof (cases b)
    case True
    then have r: "do_start_op os j op nb noop impl k = reactor_start os j op1 nb i1 k1"
      using e False by (simp add: do_start_op_def)
    obtain r1 i2 k2 where s: "reactor_start os j op1 nb i1 k1 = (r1, i2, k2)" using prod_cases3 by blast
    show ?thesis using reactor_start_ok [OF assms(1) s en(1) en(4) [OF True]] en by (simp add: start_keeps_def r s)
  qed (use e False en in \<open>simp add: do_start_op_def start_keeps_def started_ids_def\<close>)
qed (use assms in \<open>simp add: do_start_op_def immediate_keeps\<close>)

lemma do_start_accept_keeps:
  "keeps_ids (os_perform os) \<Longrightarrow> impl_ok impl \<Longrightarrow>
   start_keeps op impl (do_start_accept_op os op peer_is_open impl k)"
  by (simp add: do_start_accept_op_def do_start_op_keeps immediate_keeps)

lemma do_start_connect_keeps:
  assumes "keeps_ids (os_perform os)" "impl_ok impl"
  shows "start_keeps op impl (do_start_connect_op os op impl k)"
proof -
  obtain b op1 i1 k1 where e: "ensure_non_blocking os op impl k = (b, op1, i1, k1)" using prod_cases4 by blast
  note en = ensure_ok [OF e assms(2)]
  obtain n e2 k2 where c: "connect_socket (os_connect os (socket_fd i1)) False (socket_fd i1) k1 = (n, e2, k2)"
    using prod_cases3 by blast
  let ?op = "op1\<lparr>ec := No_error\<rparr>"
  obtain r1 i3 k3 where s: "reactor_start os Write_op ?op False i1 k2 = (r1, i3, k3)" using prod_cases3 by blast
  show ?thesis
  proof (cases "b \<and> n \<noteq> 0 \<and> (e2 = In_progress \<or> e2 = Would_block)")
    case True
    then have "do_start_connect_op os op impl k = (r1, i3, k3)" using e c s by (simp add: do_start_connect_op_def)
    then show ?thesis using reactor_start_ok [OF assms(1) s en(1)] en True by (simp add: start_keeps_def)
  next
    case False
    then obtain op' k' where "do_start_connect_op os op impl k = (Immediate op', i1, k')" "ro_id op' = ro_id op"
      using e c en(3) by (cases b) (auto simp: do_start_connect_op_def)
    then show ?thesis using en by (simp add: start_keeps_def started_ids_def)
  qed
qed

end
