(* ===== verification/Socket_Life.thy ===== *)
theory Socket_Life
  imports Socket_Runs
begin

unbundle bit_operations_syntax

text \<open>
  A socket over its life: opened, used, cancelled, closed and opened again, with the reactor
  performing events in between. Every operation ever started on it completes once (or is dropped
  when the reactor shuts down), and a closed socket has none left.
\<close>

section \<open>The life of a socket\<close>

record 'k socket_system =
  sk_impl :: socket_impl
  sk_os :: 'k
  sk_started :: "nat list"
  sk_completed :: "reactor_op list"
  sk_dropped :: "reactor_op list"

datatype socket_event =
    Sock_open int | Sock_assign int int
  | Sock_start op_type reactor_op bool bool | Sock_accept reactor_op bool | Sock_connect reactor_op
  | Sock_cancel | Sock_cancel_key op_type nat | Sock_events "32 word"
  | Sock_user_mode bool | Sock_native_mode bool | Sock_close | Sock_release | Sock_move | Sock_shutdown

definition start_on :: "reactor_op \<Rightarrow> started \<times> socket_impl \<times> 'k \<Rightarrow> 'k socket_system \<Rightarrow> 'k socket_system" where
  "start_on op = (\<lambda>(r, impl, k) s.
     s\<lparr>sk_impl := impl, sk_os := k, sk_started := sk_started s @ [ro_id op],
       sk_completed := sk_completed s @ (case r of Immediate op \<Rightarrow> [op] | Queued \<Rightarrow> [])\<rparr>)"

text \<open>
  Events are performed on the data of the socket, if it has any; a socket that is moved goes on as the
  one it is moved to.
\<close>

fun socket_step :: "'k os \<Rightarrow> socket_event \<Rightarrow> 'k socket_system \<Rightarrow> 'k socket_system" where
  "socket_step os (Sock_open type) s =
     (case do_open os type (sk_impl s) (sk_os s) of (e, impl, k) \<Rightarrow> s\<lparr>sk_impl := impl, sk_os := k\<rparr>)"
| "socket_step os (Sock_assign type fd) s =
     (case do_assign os type fd (sk_impl s) (sk_os s) of (e, impl, k) \<Rightarrow> s\<lparr>sk_impl := impl, sk_os := k\<rparr>)"
| "socket_step os (Sock_start j op is_non_blocking noop) s =
     start_on op (do_start_op os j op is_non_blocking noop (sk_impl s) (sk_os s)) s"
| "socket_step os (Sock_accept op peer_is_open) s =
     start_on op (do_start_accept_op os op peer_is_open (sk_impl s) (sk_os s)) s"
| "socket_step os (Sock_connect op) s = start_on op (do_start_connect_op os op (sk_impl s) (sk_os s)) s"
| "socket_step os Sock_cancel s =
     (case cancel_impl (sk_impl s) of
        (ops, e, impl) \<Rightarrow> s\<lparr>sk_impl := impl, sk_completed := sk_completed s @ ops\<rparr>)"
| "socket_step os (Sock_cancel_key j key) s =
     (case reactor_data (sk_impl s) of
        None \<Rightarrow> s
      | Some d \<Rightarrow> (case cancel_ops_by_key j key d of
          (ops, d) \<Rightarrow> s\<lparr>sk_impl := (sk_impl s)\<lparr>reactor_data := Some d\<rparr>, sk_completed := sk_completed s @ ops\<rparr>))"
| "socket_step os (Sock_events events) s =
     (case reactor_data (sk_impl s) of
        None \<Rightarrow> s
      | Some d \<Rightarrow> (case perform_io (os_perform os) events d (sk_os s) of
          (r, d, k) \<Rightarrow> s\<lparr>sk_impl := (sk_impl s)\<lparr>reactor_data := Some d\<rparr>, sk_os := k,
                          sk_completed := sk_completed s @ io_ops r\<rparr>))"
| "socket_step os (Sock_user_mode mode) s =
     (let fd = socket_fd (sk_impl s)
      in case set_user_non_blocking (os_fionbio os fd mode) fd (socket_state (sk_impl s)) mode (sk_os s) of
        (ok, e, state, k) \<Rightarrow> s\<lparr>sk_impl := (sk_impl s)\<lparr>socket_state := state\<rparr>, sk_os := k\<rparr>)"
| "socket_step os (Sock_native_mode mode) s =
     (let fd = socket_fd (sk_impl s)
      in case set_internal_non_blocking (os_fionbio os fd mode) fd (socket_state (sk_impl s)) mode (sk_os s) of
        (ok, e, state, k) \<Rightarrow> s\<lparr>sk_impl := (sk_impl s)\<lparr>socket_state := state\<rparr>, sk_os := k\<rparr>)"
| "socket_step os Sock_close s =
     (case close_impl os (sk_impl s) (sk_os s) of
        (ops, freed, e, impl, k) \<Rightarrow> s\<lparr>sk_impl := impl, sk_os := k, sk_completed := sk_completed s @ ops\<rparr>)"
| "socket_step os Sock_release s =
     (case release_impl os (sk_impl s) (sk_os s) of
        (ops, freed, fd, e, impl, k) \<Rightarrow> s\<lparr>sk_impl := impl, sk_os := k, sk_completed := sk_completed s @ ops\<rparr>)"
| "socket_step os Sock_move s = s\<lparr>sk_impl := fst (base_move_construct (sk_impl s))\<rparr>"
| "socket_step os Sock_shutdown s =
     (case reactor_data (sk_impl s) of
        None \<Rightarrow> s
      | Some d \<Rightarrow> (case reactor_shutdown [d] of
          (ops, ds) \<Rightarrow> s\<lparr>sk_impl := (sk_impl s)\<lparr>reactor_data := Some (hd ds)\<rparr>, sk_dropped := sk_dropped s @ ops\<rparr>))"

definition socket_run :: "'k os \<Rightarrow> socket_event list \<Rightarrow> 'k \<Rightarrow> 'k socket_system" where
  "socket_run os es k = fold (socket_step os) es
     \<lparr>sk_impl = construct, sk_os = k, sk_started = [], sk_completed = [], sk_dropped = []\<rparr>"

section \<open>Every operation completes once\<close>

definition all_accounted :: "'k socket_system \<Rightarrow> bool" where
  "all_accounted s \<longleftrightarrow> impl_ok (sk_impl s) \<and>
     mset (sk_started s) = op_ids (sk_completed s) + op_ids (sk_dropped s) + waiting_on (sk_impl s)"

lemma start_on_accounted:
  assumes "start_keeps op (sk_impl s) x" "all_accounted s"
  shows "all_accounted (start_on op x s)"
proof -
  obtain r impl k where x: "x = (r, impl, k)" using prod_cases3 by blast
  have "op_ids (case r of Immediate op \<Rightarrow> [op] | Queued \<Rightarrow> []) = started_ids r"
    by (simp add: started_ids_def split: started.split)
  then show ?thesis using assms by (simp add: all_accounted_def start_on_def start_keeps_def x ac_simps)
qed

text \<open>A step that moves operations from the queues to the log, and keeps the data in order.\<close>

lemma finish_accounted:
  assumes "all_accounted s" "op_ids ops + waiting_on impl = waiting_on (sk_impl s)" "impl_ok impl"
  shows "all_accounted (s\<lparr>sk_impl := impl, sk_os := k, sk_completed := sk_completed s @ ops\<rparr>)"
    and "all_accounted (s\<lparr>sk_impl := impl, sk_completed := sk_completed s @ ops\<rparr>)"
    and "all_accounted (s\<lparr>sk_impl := impl, sk_dropped := sk_dropped s @ ops\<rparr>)"
proof -
  have m: "mset (sk_started s) = op_ids (sk_completed s) + op_ids (sk_dropped s) + (op_ids ops + waiting_on impl)"
    using assms(1,2) by (simp add: all_accounted_def)
  show "all_accounted (s\<lparr>sk_impl := impl, sk_os := k, sk_completed := sk_completed s @ ops\<rparr>)"
    "all_accounted (s\<lparr>sk_impl := impl, sk_completed := sk_completed s @ ops\<rparr>)"
    "all_accounted (s\<lparr>sk_impl := impl, sk_dropped := sk_dropped s @ ops\<rparr>)"
    using assms(3) m by (simp_all add: all_accounted_def ac_simps)
qed

lemma quiet_accounted:
  "all_accounted s \<Longrightarrow> waiting_on impl = waiting_on (sk_impl s) \<Longrightarrow> impl_ok impl \<Longrightarrow>
   all_accounted (s\<lparr>sk_impl := impl, sk_os := k\<rparr>)"
  by (simp add: all_accounted_def)

lemma data_step:
  assumes "impl_ok impl" "reactor_data impl = Some d" "op_ids ops + queued_ids d' = queued_ids d" "same_fd d d'"
  shows "op_ids ops + waiting_on (impl\<lparr>reactor_data := Some d'\<rparr>) = waiting_on impl"
    and "impl_ok (impl\<lparr>reactor_data := Some d'\<rparr>)"
proof -
  show "op_ids ops + waiting_on (impl\<lparr>reactor_data := Some d'\<rparr>) = waiting_on impl"
    using assms by (simp add: waiting_on_def)
  have "data_ok (socket_fd impl) d \<Longrightarrow> data_ok (socket_fd impl) d'"
    using assms(3,4) by (auto simp: data_ok_def same_fd_def)
  then show "impl_ok (impl\<lparr>reactor_data := Some d'\<rparr>)"
    using assms(1,2,3) by (auto simp: impl_ok_def socket_is_open_def waiting_on_def)
qed

lemma shutdown_step:
  assumes "impl_ok impl" "reactor_data impl = Some d" "reactor_shutdown [d] = (ops, ds)"
  shows "op_ids ops + waiting_on (impl\<lparr>reactor_data := Some (hd ds)\<rparr>) = waiting_on impl"
    and "impl_ok (impl\<lparr>reactor_data := Some (hd ds)\<rparr>)"
proof -
  have r: "ops = concat (map (fd_queue d) op_types)" "hd ds = d\<lparr>fd_queue := (\<lambda>_. []), fd_shutdown := True\<rparr>"
    using assms(3) by (auto simp: reactor_shutdown_def)
  have e: "queued_ids (hd ds) = {#}" "fd_shutdown (hd ds)" by (simp_all add: r queued_ids_split)
  show "op_ids ops + waiting_on (impl\<lparr>reactor_data := Some (hd ds)\<rparr>) = waiting_on impl"
    using assms(2) e by (simp add: waiting_on_def queued_ids_split r op_types_def)
  show "impl_ok (impl\<lparr>reactor_data := Some (hd ds)\<rparr>)"
    using assms(1) e by (auto simp: impl_ok_def socket_is_open_def waiting_on_def data_ok_def)
qed

lemma mode_ok:
  assumes "impl_ok impl" "socket_state impl = state' \<or> socket_fd impl \<noteq> -1"
  shows "impl_ok (impl\<lparr>socket_state := state'\<rparr>)" "waiting_on (impl\<lparr>socket_state := state'\<rparr>) = waiting_on impl"
  using assms by (auto simp: impl_ok_def socket_is_open_def waiting_on_def)

lemma set_user_state:
  "set_user_non_blocking ioctl fd state v k = (ok, e, state', k') \<Longrightarrow> state = state' \<or> fd \<noteq> -1"
  by (auto simp: set_user_non_blocking_def)

lemma set_internal_state:
  "set_internal_non_blocking ioctl fd state v k = (ok, e, state', k') \<Longrightarrow> state = state' \<or> fd \<noteq> -1"
  by (auto simp: set_internal_non_blocking_def)

lemma close_step:
  "close_impl os impl k = (ops, freed, e, impl', k') \<Longrightarrow> impl_ok impl \<Longrightarrow>
   op_ids ops + waiting_on impl' = waiting_on impl \<and> impl_ok impl'"
  using close_impl_ids by fastforce

lemma release_step:
  "release_impl os impl k = (ops, freed, fd, e, impl', k') \<Longrightarrow> impl_ok impl \<Longrightarrow>
   op_ids ops + waiting_on impl' = waiting_on impl \<and> impl_ok impl'"
  by (blast dest: release_impl_ids)

lemma socket_step_accounted:
  assumes os: "keeps_ids (os_perform os)" "refuses_invalid os" and s: "all_accounted s"
  shows "all_accounted (socket_step os e s)"
proof -
  have ok: "impl_ok (sk_impl s)" using s by (simp add: all_accounted_def)
  show ?thesis
  proof (cases e)
    case (Sock_open type)
    then show ?thesis using s by (auto intro!: quiet_accounted dest: do_open_ok [OF _ ok] split: prod.split)
  next
    case (Sock_assign type fd)
    then show ?thesis using s by (auto intro!: quiet_accounted dest: do_assign_ok [OF _ ok os(2)] split: prod.split)
  next
    case (Sock_start j op nb noop)
    then show ?thesis by (simp add: start_on_accounted [OF do_start_op_keeps [OF os(1) ok] s])
  next
    case (Sock_accept op p)
    then show ?thesis by (simp add: start_on_accounted [OF do_start_accept_keeps [OF os(1) ok] s])
  next
    case (Sock_connect op)
    then show ?thesis by (simp add: start_on_accounted [OF do_start_connect_keeps [OF os(1) ok] s])
  next
    case Sock_cancel
    then show ?thesis using s by (auto intro!: finish_accounted(2) dest: cancel_impl_ids [OF _ ok] split: prod.split)
  next
    case (Sock_cancel_key j key)
    then show ?thesis using s
      by (auto intro!: finish_accounted(2) data_step [OF ok] dest: cancel_key_ids split: prod.split option.split)
  next
    case (Sock_events events)
    then show ?thesis using s
      by (auto intro!: finish_accounted(1) data_step [OF ok] dest: perform_io_ids [OF os(1)] split: prod.split option.split)
  next
    case (Sock_user_mode mode)
    then show ?thesis using s
      by (auto simp: Let_def intro!: quiet_accounted mode_ok [OF ok] dest: set_user_state split: prod.split)
  next
    case (Sock_native_mode mode)
    then show ?thesis using s
      by (auto simp: Let_def intro!: quiet_accounted mode_ok [OF ok] dest: set_internal_state split: prod.split)
  next
    case Sock_close
    then show ?thesis using s by (auto intro!: finish_accounted(1) dest: close_step [OF _ ok] split: prod.split)
  next
    case Sock_release
    then show ?thesis using s by (auto intro!: finish_accounted(1) dest: release_step [OF _ ok] split: prod.split)
  next
    case Sock_move
    have "fst (base_move_construct (sk_impl s)) = sk_impl s"
      by (cases "sk_impl s") (simp add: base_move_construct_def)
    then show ?thesis using s Sock_move by simp
  next
    case Sock_shutdown
    then show ?thesis using s by (auto intro!: finish_accounted(3) shutdown_step [OF ok] split: prod.split option.split)
  qed
qed

lemma socket_fold_accounted:
  "keeps_ids (os_perform os) \<Longrightarrow> refuses_invalid os \<Longrightarrow> all_accounted s \<Longrightarrow>
   all_accounted (fold (socket_step os) es s)"
  by (induction es arbitrary: s) (simp_all add: socket_step_accounted)

lemma socket_run_accounted:
  assumes "keeps_ids (os_perform os)" "refuses_invalid os"
  shows "all_accounted (socket_run os es k)"
  unfolding socket_run_def by (rule socket_fold_accounted [OF assms]) (simp add: all_accounted_def)

text \<open>
  C24. Every operation started on a socket completes once. In every life of a socket, opened and closed
  any number of times, the operations started on it are those that have completed, those that the
  shutdown of the reactor has dropped, and those that wait; and when the socket is closed none waits.
\<close>
theorem socket_operations_complete:
  assumes "keeps_ids (os_perform os)" "refuses_invalid os" "socket_run os es k = s"
  shows "mset (sk_started s) = op_ids (sk_completed s) + op_ids (sk_dropped s) + waiting_on (sk_impl s) \<and>
    (socket_is_open (sk_impl s) \<or> waiting_on (sk_impl s) = {#} \<and> socket_state (sk_impl s) = 0)"
proof -
  have "all_accounted s" using socket_run_accounted [OF assms(1,2)] assms(3) by blast
  then show ?thesis by (auto simp: all_accounted_def impl_ok_def split: if_splits)
qed

text \<open>A system that gives the descriptors 5, 6, \<dots>, with nothing to read.\<close>

definition example_os :: "int os" where
  "example_os = \<lparr>os_socket = (\<lambda>type k. (k, No_error, k + 1)),
     os_epoll_ctl = (\<lambda>fd c k. (if fd < 0 then 9 else 0, k)), os_close = (\<lambda>fd k. (0, No_error, k)),
     os_set_linger = (\<lambda>fd k. k), os_fionbio = (\<lambda>fd v k. (0, No_error, k)),
     os_connect = (\<lambda>fd k. (-1, In_progress, k)),
     os_perform = (\<lambda>j op k. if j = Write_op then (Done, op\<lparr>bytes_transferred := 20\<rparr>, k)
                            else (Not_done, op\<lparr>ec := Would_block\<rparr>, k))\<rparr>"

definition example_life :: "socket_event list" where
  "example_life = [Sock_open SOCK_DGRAM, Sock_start Read_op (example_op 1) True False,
     Sock_start Read_op (example_op 2) True False, Sock_start Write_op (example_op 3) True False, Sock_close]"

lemma example_os_ok: "keeps_ids (os_perform example_os)" "refuses_invalid example_os"
  by (simp_all add: keeps_ids_def refuses_invalid_def example_os_def EPERM_def)

lemma socket_operations_complete_witness:
  "mset [1, 2, 3] = op_ids (sk_completed (socket_run example_os example_life 5)) +
     op_ids (sk_dropped (socket_run example_os example_life 5)) + waiting_on (sk_impl (socket_run example_os example_life 5)) \<and>
   map ec (sk_completed (socket_run example_os example_life 5)) = [No_error, Operation_aborted, Operation_aborted]"
proof -
  have "sk_started (socket_run example_os example_life 5) = [1, 2, 3] \<and>
      map ec (sk_completed (socket_run example_os example_life 5)) = [No_error, Operation_aborted, Operation_aborted]"
    by code_simp
  then show ?thesis using socket_operations_complete [OF example_os_ok refl, of example_life 5] by simp
qed

section \<open>Closed sockets\<close>

text \<open>
  C28. A closed socket refuses operations: an operation started on it completes at once with
  \<open>bad_descriptor\<close>, the system is not called and the socket stays as it is; that is so for a read,
  a write, an accept and a connect, and for every socket just constructed, closed or released.
\<close>
theorem closed_socket_refuses:
  assumes "\<not> socket_is_open impl" "socket_state impl = 0"
  shows "do_start_op os j op is_non_blocking False impl k = (Immediate (op\<lparr>ec := Bad_descriptor\<rparr>), impl, k) \<and>
    do_start_accept_op os op False impl k = (Immediate (op\<lparr>ec := Bad_descriptor\<rparr>), impl, k) \<and>
    do_start_connect_op os op impl k = (Immediate (op\<lparr>ec := Bad_descriptor\<rparr>), impl, k) \<and>
    cancel_impl impl = ([], Bad_descriptor, impl) \<and> close_impl os impl k = ([], [], No_error, construct, k)"
proof -
  have "ensure_non_blocking os op impl k = (False, op\<lparr>ec := Bad_descriptor\<rparr>, impl, k)" for op k
    using assms by (simp add: ensure_non_blocking_def set_internal_non_blocking_def socket_is_open_def has_flag_def)
  then show ?thesis using assms(1)
    by (simp add: do_start_op_def do_start_accept_op_def do_start_connect_op_def cancel_impl_def close_impl_def)
qed

lemma closed_socket_refuses_witness:
  "do_start_connect_op example_os (example_op 1) construct 5 =
     (Immediate ((example_op 1)\<lparr>ec := Bad_descriptor\<rparr>), construct, 5)"
  using closed_socket_refuses [of construct example_os Read_op "example_op 1" True 5]
  by (simp add: construct_def socket_is_open_def)

section \<open>Closing\<close>

text \<open>
  Closing aborts what waits, in the order of the types and of the queues, gives the data back and
  closes the descriptor; a close that would block is done again.
\<close>

lemma close_aborts:
  assumes "impl_ok impl" "socket_is_open impl" "reactor_data impl = Some d" "\<not> fd_shutdown d"
    and "close_impl os impl k = (ops, freed, e, impl', k')"
  shows "ops = map abort (concat (map (fd_queue d) op_types)) \<and> length freed = 1 \<and> impl' = construct"
  using assms(2-5)
  by (auto simp: close_impl_def deregister_data_def deregister_descriptor_def cancel_ops_def
      cleanup_descriptor_data_def Let_def split: prod.splits)

lemma close_would_block:
  assumes "s \<noteq> -1" "close k = (-1, Would_block, k1)" "ioctl k1 = (n, x, k2)" "close k2 = (0, y, k3)"
  shows "close_socket close set_linger ioctl s state False k = (0, No_error, state AND NOT non_blocking, k3)"
  using assms by (simp add: close_socket_def get_last_error_def would_wait_def)

text \<open>
  An \<open>open\<close> that fails to register its descriptor leaves the data of the reactor behind: the socket is
  closed, so that neither closing nor destroying it frees them.
\<close>

lemma failed_open_keeps_data:
  assumes "\<not> socket_is_open impl" "os_socket os type k = (s, x, k1)" "s \<noteq> -1"
    and "register_descriptor (os_epoll_ctl os s) s no_ops k1 = (err, d, k2)" "err \<noteq> 0"
    and "do_open os type impl k = (e, impl', k')"
  shows "reactor_data impl' = Some d" "fst (snd (destroy_socket os impl' k')) = []"
    "fst (snd (close_impl os impl' k')) = []"
  using assms by (auto simp: do_open_def destroy_socket_def close_impl_def socket_is_open_def split: prod.splits)

end
