(* ===== verification/Socket_Props.thy ===== *)
theory Socket_Props
  imports Socket_Ops
begin

unbundle bit_operations_syntax

text \<open>
  The loops around the system calls return as soon as a call is not interrupted, with the outcome of
  that call, and the operations made of them keep the contract that the reactor relies on.
\<close>

section \<open>The loop of the non-blocking calls\<close>

definition interrupted_call :: "'k syscall \<Rightarrow> 'k \<Rightarrow> bool" where
  "interrupted_call call k = (case call k of (bytes, e, k') \<Rightarrow> bytes < 0 \<and> e = Interrupted)"

text \<open>The state after so many calls, all of them interrupted.\<close>

fun after_interrupts :: "'k syscall \<Rightarrow> nat \<Rightarrow> 'k \<Rightarrow> 'k option" where
  "after_interrupts call 0 k = Some k"
| "after_interrupts call (Suc n) k =
     (if interrupted_call call k then after_interrupts call n (snd (snd (call k))) else None)"

text \<open>What a call that is not interrupted means: \<open>m\<close> is the number of bytes that was there before.\<close>

definition call_outcome :: "bool \<Rightarrow> nat \<Rightarrow> int \<times> io_error \<times> 'k \<Rightarrow> bool \<times> io_error \<times> nat \<times> 'k" where
  "call_outcome is_stream m = (\<lambda>(bytes, e, k).
     if is_stream \<and> bytes = 0 then (True, Eof, m, k)
     else if 0 \<le> bytes then (True, e, nat bytes, k)
     else if would_wait e then (False, e, m, k)
     else (True, e, 0, k))"

lemma loop_interrupted:
  "interrupted_call call k \<Longrightarrow>
   non_blocking_loop is_stream call m k = non_blocking_loop is_stream call m (snd (snd (call k)))"
  by (subst non_blocking_loop.simps) (auto simp: interrupted_call_def split: prod.splits)

lemma loop_settled:
  "\<not> interrupted_call call k \<Longrightarrow> non_blocking_loop is_stream call m k = Some (call_outcome is_stream m (call k))"
  by (subst non_blocking_loop.simps)
     (auto simp: interrupted_call_def call_outcome_def would_wait_def split: prod.splits)

lemma loop_after_interrupts:
  "after_interrupts call n k = Some k' \<Longrightarrow>
   non_blocking_loop is_stream call m k = non_blocking_loop is_stream call m k'"
  by (induction n arbitrary: k) (auto simp: loop_interrupted split: if_splits)

lemma loop_returns_only:
  assumes "non_blocking_loop is_stream call m k = Some r"
  shows "\<exists>n k'. after_interrupts call n k = Some k' \<and> \<not> interrupted_call call k'"
proof (rule non_blocking_loop.raw_induct [OF _ assms])
  fix loop is_stream call m k r
  assume IH: "\<And>is_stream call m k r. loop is_stream call m k = Some r \<Longrightarrow>
      \<exists>n k'. after_interrupts call n k = Some k' \<and> \<not> interrupted_call call k'"
    and r: "(case call k of (bytes, e, k) \<Rightarrow>
        if is_stream \<and> bytes = 0 then Some (True, Eof, m, k)
        else if 0 \<le> bytes then Some (True, e, nat bytes, k)
        else if e = Interrupted then loop is_stream call m k
        else if would_wait e then Some (False, e, m, k)
        else Some (True, e, 0, k)) = Some r"
  show "\<exists>n k'. after_interrupts call n k = Some k' \<and> \<not> interrupted_call call k'"
  proof (cases "interrupted_call call k")
    case True
    then have "loop is_stream call m (snd (snd (call k))) = Some r"
      using r by (auto simp: interrupted_call_def split: prod.splits)
    then obtain n k' where
      "after_interrupts call n (snd (snd (call k))) = Some k'" "\<not> interrupted_call call k'" using IH by blast
    then have "after_interrupts call (Suc n) k = Some k'" using True by simp
    then show ?thesis using \<open>\<not> interrupted_call call k'\<close> by blast
  next
    case False
    then show ?thesis by (intro exI [of _ 0] exI [of _ k]) simp
  qed
qed

lemma loop_iff:
  "non_blocking_loop is_stream call m k = Some r \<longleftrightarrow>
   (\<exists>n k'. after_interrupts call n k = Some k' \<and> \<not> interrupted_call call k' \<and>
      r = call_outcome is_stream m (call k'))"
  using loop_returns_only loop_after_interrupts loop_settled by (metis option.inject)

text \<open>
  C27. A non-blocking read of a datagram returns exactly when, after some number of interrupted calls,
  there is one that is not; and its result is then that call's: the number of bytes received,
  \<open>False\<close> (to be run again, with the number of bytes untouched) if the call would block, or else the
  error with no bytes.
\<close>
theorem non_blocking_receive_outcome:
  "non_blocking_recvfrom1 recvfrom m k = Some r \<longleftrightarrow>
   (\<exists>n k'. after_interrupts (recvfrom1 recvfrom) n k = Some k' \<and> \<not> interrupted_call (recvfrom1 recvfrom) k' \<and>
      r = (case recvfrom k' of (bytes, errno, k'') \<Rightarrow>
             if 0 \<le> bytes then (True, No_error, nat bytes, k'')
             else (\<not> would_wait errno, errno, if would_wait errno then m else 0, k'')))"
proof -
  have "call_outcome False m (recvfrom1 recvfrom k') = (case recvfrom k' of (bytes, errno, k'') \<Rightarrow>
             if 0 \<le> bytes then (True, No_error, nat bytes, k'')
             else (\<not> would_wait errno, errno, if would_wait errno then m else 0, k''))" for k'
    by (auto simp: call_outcome_def recvfrom1_def get_last_error_def split: prod.splits)
  then show ?thesis by (simp add: non_blocking_recvfrom1_def loop_iff)
qed

section \<open>The contract of the reactor\<close>

text \<open>
  The documented behaviour of a system call for one type of operation: it does not un-report what is
  ready, and when it would block the descriptor is not ready; it is not interrupted for ever.
\<close>

definition honest_call :: "op_type \<Rightarrow> kernel syscall \<Rightarrow> bool" where
  "honest_call j call \<longleftrightarrow>
     (\<forall>k n e k'. call k = (n, e, k') \<longrightarrow> kernel_moves k k' \<and>
        (n < 0 \<and> would_wait e \<longrightarrow> wants (interest k) j \<longrightarrow> \<not> missed k' j)) \<and>
     (\<forall>k. \<exists>n k'. after_interrupts call n k = Some k' \<and> \<not> interrupted_call call k')"

lemma interrupts_move:
  "honest_call j call \<Longrightarrow> after_interrupts call n k = Some k' \<Longrightarrow> kernel_moves k k'"
proof (induction n arbitrary: k)
  case (Suc n)
  obtain a e k1 where c: "call k = (a, e, k1)" using prod_cases3 by blast
  then have "kernel_moves k k1" using Suc.prems(1) unfolding honest_call_def by blast
  moreover have "after_interrupts call n k1 = Some k'" using Suc.prems(2) c by (simp split: if_splits)
  ultimately show ?case using Suc.IH [OF Suc.prems(1)] kernel_moves_trans by blast
qed (simp add: kernel_moves_iff)

lemma honest_loop:
  assumes "honest_call j call"
  obtains b e n k' where "non_blocking_loop False call m k = Some (b, e, n, k')" "kernel_moves k k'"
    "\<not> b \<Longrightarrow> wants (interest k) j \<Longrightarrow> \<not> missed k' j"
proof -
  obtain i k1 where i: "after_interrupts call i k = Some k1" "\<not> interrupted_call call k1"
    using assms unfolding honest_call_def by blast
  obtain a e k' where c: "call k1 = (a, e, k')" using prod_cases3 by blast
  have m: "kernel_moves k k1" using interrupts_move [OF assms i(1)] .
  have h: "kernel_moves k1 k'" "a < 0 \<and> would_wait e \<Longrightarrow> wants (interest k1) j \<Longrightarrow> \<not> missed k' j"
    using assms c unfolding honest_call_def by blast+
  have r: "non_blocking_loop False call m k = Some (call_outcome False m (a, e, k'))"
    using loop_after_interrupts [OF i(1)] loop_settled [OF i(2)] c by simp
  have same: "interest k1 = interest k" using m by (simp add: kernel_moves_iff)
  obtain b e' n where o: "call_outcome False m (a, e, k') = (b, e', n, k')"
    unfolding call_outcome_def by (cases "0 \<le> a"; cases "would_wait e") simp_all
  have "\<not> b \<Longrightarrow> a < 0 \<and> would_wait e" using o by (auto simp: call_outcome_def split: if_splits)
  then show ?thesis using that r o h same kernel_moves_trans [OF m h(1)] by metis
qed

text \<open>
  The operations of a datagram socket: it reads with \<open>recvfrom\<close>, out-of-band data with the flag for
  them (\<open>recv_oob\<close>), and writes with \<open>sendto\<close>.
\<close>

fun datagram_perform :: "kernel syscall \<Rightarrow> kernel syscall \<Rightarrow> kernel syscall \<Rightarrow> kernel perform" where
  "datagram_perform recvfrom recv_oob sendto Read_op op k = the (recvfrom_op_perform recvfrom op k)"
| "datagram_perform recvfrom recv_oob sendto Write_op op k = the (sendto_op_perform sendto op k)"
| "datagram_perform recvfrom recv_oob sendto Except_op op k = the (recvfrom_op_perform recv_oob op k)"

lemma recvfrom1_honest: "honest_call j (recvfrom1 recvfrom) \<Longrightarrow>
  \<exists>r op' k'. recvfrom_op_perform recvfrom op k = Some (r, op', k') \<and> ro_id op' = ro_id op \<and>
    kernel_moves k k' \<and> (r \<noteq> Done \<longrightarrow> wants (interest k) j \<longrightarrow> \<not> missed k' j)"
  by (rule honest_loop [of j "recvfrom1 recvfrom" "bytes_transferred op" k])
     (auto simp: recvfrom_op_perform_def non_blocking_recvfrom1_def finish_perform_def)

lemma sendto1_honest: "honest_call j (sendto1 sendto) \<Longrightarrow>
  \<exists>r op' k'. sendto_op_perform sendto op k = Some (r, op', k') \<and> ro_id op' = ro_id op \<and>
    kernel_moves k k' \<and> (r \<noteq> Done \<longrightarrow> wants (interest k) j \<longrightarrow> \<not> missed k' j)"
  by (rule honest_loop [of j "sendto1 sendto" "bytes_transferred op" k])
     (auto simp: sendto_op_perform_def non_blocking_sendto1_def finish_perform_def)

text \<open>
  C26. The operations of a datagram socket keep the contract on which the reactor's queues rest: given
  system calls that behave as documented, performing one returns, it stays the same operation, and
  when it is not done the kernel will report the next change.
\<close>
theorem datagram_operations_honest:
  assumes "honest_call Read_op (recvfrom1 recvfrom)" "honest_call Write_op (sendto1 sendto)"
    and "honest_call Except_op (recvfrom1 recv_oob)"
  shows "honest_perform (datagram_perform recvfrom recv_oob sendto) \<and>
    recvfrom_op_perform recvfrom op k \<noteq> None \<and> sendto_op_perform sendto op k \<noteq> None"
proof (intro conjI)
  show "recvfrom_op_perform recvfrom op k \<noteq> None" "sendto_op_perform sendto op k \<noteq> None"
    using recvfrom1_honest [OF assms(1), of op k] sendto1_honest [OF assms(2), of op k] by auto
  show "honest_perform (datagram_perform recvfrom recv_oob sendto)" unfolding honest_perform_def
  proof (intro allI impI)
    fix j op k st op' k'
    assume p: "datagram_perform recvfrom recv_oob sendto j op k = (st, op', k')"
    show "ro_id op' = ro_id op \<and> kernel_moves k k' \<and> (st \<noteq> Done \<longrightarrow> wants (interest k) j \<longrightarrow> \<not> missed k' j)"
      using p recvfrom1_honest [OF assms(1), of op k] sendto1_honest [OF assms(2), of op k]
        recvfrom1_honest [OF assms(3), of op k]
      by (cases j) (auto simp: kernel_moves_iff)
  qed
qed

text \<open>A socket whose reads and writes take or give one datagram when the descriptor is ready.\<close>

definition example_call :: "op_type \<Rightarrow> kernel syscall" where
  "example_call j k = (if ready k j then (20, No_error, k) else (-1, Try_again, k))"

lemma example_call_honest:
  "honest_call j (recvfrom1 (example_call j))" "honest_call j (sendto1 (example_call j))"
proof -
  have "\<not> interrupted_call (recvfrom1 (example_call j)) k" "\<not> interrupted_call (sendto1 (example_call j)) k" for k
    by (auto simp: interrupted_call_def recvfrom1_def sendto1_def example_call_def get_last_error_def)
  then have settle: "\<exists>n k'. after_interrupts (recvfrom1 (example_call j)) n k = Some k' \<and> \<not> interrupted_call (recvfrom1 (example_call j)) k'"
    "\<exists>n k'. after_interrupts (sendto1 (example_call j)) n k = Some k' \<and> \<not> interrupted_call (sendto1 (example_call j)) k'" for k
    by (metis after_interrupts.simps(1))+
  show "honest_call j (recvfrom1 (example_call j))" "honest_call j (sendto1 (example_call j))"
    unfolding honest_call_def using settle
    by (auto simp: recvfrom1_def sendto1_def example_call_def kernel_moves_iff missed_def split: if_splits)
qed

lemma datagram_operations_honest_witness:
  "honest_perform (datagram_perform (example_call Read_op) (example_call Except_op) (example_call Write_op)) \<and>
   recvfrom_op_perform (example_call Read_op) (example_op 1) idle_kernel \<noteq> None"
  using datagram_operations_honest [OF example_call_honest(1) example_call_honest(2) example_call_honest(1),
      of "example_op 1" idle_kernel] by simp

section \<open>Reads after the end of a stream\<close>

text \<open>
  A read that finds the end of a stream counts as having exhausted it, so the next read is queued
  without a try, to wait for a change that the kernel has no reason to report.
\<close>

lemma read_after_end_waits:
  assumes "start_registered perform ctl Read_op op True d k = (Immediate op', d', k')"
    and "perform Read_op op k = (Done_and_exhausted, op', k')"
    and "\<not> fd_shutdown d" "fd_queue d Read_op = []" "fd_queue d Except_op = []"
    and "try_speculative d Read_op" "registered_events d \<noteq> 0"
  shows "start_registered perform ctl Read_op op2 True d' k' = (Queued, enqueue Read_op op2 d', k')"
proof -
  have "d' = set_speculative Read_op False d" using assms by (simp add: start_registered_def)
  then show ?thesis using assms by (simp add: start_registered_def start_waiting_def set_speculative_def)
qed

lemma end_of_stream_exhausts:
  assumes "recv k = (0, errno, k')" "has_flag state stream_oriented" "bytes_transferred op = 0"
  shows "recv_op_perform recv state op k = Some (Done_and_exhausted, op\<lparr>ec := Eof, bytes_transferred := 0\<rparr>, k')"
  using assms
  by (simp add: recv_op_perform_def non_blocking_recv1_def non_blocking_loop.simps [of True] recv1_def finish_perform_def)

section \<open>Connecting\<close>

text \<open>A \<open>poll\<close> that fails, as one interrupted by a signal does, is taken for a connect that has ended.\<close>

lemma failed_poll_connects:
  assumes "poll 0 k = (-1, Interrupted, k')" "getsockopt_error k' = (0, No_error, No_error, k')"
  shows "connect_op_perform poll getsockopt_error op k = (Done, op\<lparr>ec := No_error\<rparr>, k')"
  using assms by (simp add: connect_op_perform_def non_blocking_connect_def)

section \<open>Accepting\<close>

text \<open>
  A connection that was given up before it was accepted counts as if the call would block, although
  another one may be waiting behind it: the operation waits for a change that the kernel, which
  reports changes only, has already reported.
\<close>

lemma aborted_accept_waits:
  assumes "s \<noteq> -1" "accept k = (-1, Connection_aborted, k')" "\<not> has_flag state enable_connection_aborted"
  shows "accept_op_perform accept s state op k = Some (Not_done, op\<lparr>ec := Connection_aborted\<rparr>, -1, k')"
  using assms
  by (simp add: accept_op_perform_def non_blocking_accept.simps [of accept] accept_socket_def accept_again_def
      get_last_error_def)

lemma aborted_accept_misses:
  assumes "s \<noteq> -1" "\<not> has_flag state enable_connection_aborted" "wants (interest k) Read_op" "missed k Read_op"
  shows "\<not> honest_perform (\<lambda>j op k. case the (accept_op_perform (\<lambda>k. (-1, Connection_aborted, k)) s state op k) of
      (st, op, new_s, k) \<Rightarrow> (st, op, k))"
proof
  let ?perform = "\<lambda>j op k. case the (accept_op_perform (\<lambda>k. (-1, Connection_aborted, k)) s state op k) of
      (st, op, new_s, k) \<Rightarrow> (st, op, k)"
  assume h: "honest_perform ?perform"
  have "accept_op_perform (\<lambda>k. (-1, Connection_aborted, k)) s state (example_op 1) k =
      Some (Not_done, (example_op 1)\<lparr>ec := Connection_aborted\<rparr>, -1, k)"
    using assms(1,2) by (simp add: aborted_accept_waits)
  then have "?perform Read_op (example_op 1) k = (Not_done, (example_op 1)\<lparr>ec := Connection_aborted\<rparr>, k)" by simp
  from honest_performD(3) [OF h this] show False using assms(3,4) by simp
qed

section \<open>The calls that block\<close>

lemma sync_loop_stops:
  assumes "call k = (bytes, e, k')" "0 \<le> bytes \<or> has_flag state user_set_non_blocking \<or> \<not> would_wait e"
  shows "sync_loop False call wait state k = Some (if 0 \<le> bytes then nat bytes else 0, e, k')"
  using assms by (subst sync_loop.simps) (auto simp: would_wait_def)

lemma poll_non_blocking:
  "s \<noteq> -1 \<Longrightarrow> has_flag state user_set_non_blocking \<Longrightarrow> poll 0 k = (0, errno, k') \<Longrightarrow>
   poll_read poll s state msec k = (0, Would_block, k')"
  by (simp add: poll_read_def)

end
