(* ===== verification/Spec2Isabelle.thy ===== *)
theory Spec2Isabelle
  imports Node_Main File_System_Props Timer_Service Op_Queue Server_Context Ip_Endpoint Network_V6 Socket_Life
    Socket_Props
begin

text \<open>
  NTorrent is a peer-to-peer file-sharing node in C++. A node keeps a set of UDP sessions to
  other nodes, learns its public endpoint from a STUN server, introduces its peers to each
  other, floods requests for files through the network and transfers files in pieces. Its
  own code is under \<open>src/\<close>; it is built on the vendored header library asio
  (\<open>src/libs/asio-1.28.0/include/asio/\<close>), of which the parts with logic that the node rests on
  are modelled too.

  The parts and how they interact. \<open>main.cpp\<close> reads commands and calls \<open>Node\<close>
  (\<open>netlib_node.h\<close>), which owns a \<open>NodeServer\<close> (\<open>netlib_nodeserver.h\<close>) and a thread that runs
  its main loop. \<open>NodeServer\<close> extends \<open>Server\<close> (\<open>netlib_server.h\<close>) by three managers, for
  connections, paths and files; the loop takes received messages from a \<open>SafeQueue\<close>
  (\<open>netlib_safequeue.h\<close>) and hands each to the managers. \<open>Server\<close> keeps one \<open>Session\<close>
  (\<open>netlib_session.h\<close>) per port, prepared by a \<open>StunSession\<close> (\<open>netlib_natkiller.h\<close>); a session
  numbers, acknowledges and repeats the messages of \<open>netlib_message.h\<close>. The file manager works
  on the catalogue of \<open>modules/netlib_filesystem.h\<close>, which names files by the SHA-1 of
  \<open>modules/netlib_sha1.h\<close>. Sessions and STUN cycles wait on asio timers and name each other by
  asio addresses and endpoints.

  Theories and what they model, in the order of the code.

  \<^item> \<open>Prelude\<close>, \<open>Byte_Order\<close>, \<open>Std_Map\<close>, \<open>Std_Stream\<close>: machine integers, faults and their monad,
    byte order, and what the code uses of \<open>std::map\<close> (with the locale \<open>dictionary\<close> and its
    interpretation) and of the standard streams.
  \<^item> \<open>Types_Enum\<close>, \<open>Message_Codec\<close>: message types and the stack-like message body. Writing and
    reading are inverse; reading from a short body is exactly the fault it is in the code.
  \<^item> \<open>Safe_Queue\<close>: the locked deque, its contract as a locale, and the consumer loop against any
    number of producers.
  \<^item> \<open>Sha1\<close>, \<open>Sha1_Spec\<close>, \<open>Sha1_Stream\<close>: the unrolled streaming code, the standard's definition, and
    the proof that they agree on every input.
  \<^item> \<open>File_System\<close>, \<open>File_System_Props\<close>: upload, download and merge of pieces over a disk that is
    a map from paths to contents.
  \<^item> \<open>Nat_Killer\<close>: the STUN cycle as a state machine over completions and datagrams.
  \<^item> \<open>Session\<close>, \<open>Session_Receive\<close>, \<open>Session_Send\<close>, \<open>Session_Read\<close>: one session. \<open>complete\<close> runs the
    handler of a pending operation; the receiving side is specified by the set of ids that
    have arrived, the sending side by the place of every message given to \<open>send\<close>.
  \<^item> \<open>Server\<close>, \<open>Node_State\<close>, \<open>Connect_Manager\<close>, \<open>Path_Manager\<close>, \<open>File_Manager\<close>, \<open>Node_Server\<close>, \<open>Node_Main\<close>:
    the sessions of a node, the tables of the managers, their handlers, the dispatch, the
    invite codes and the command loop; \<open>Connect_Props\<close>, \<open>Path_Search\<close> and \<open>File_Transfer\<close> have
    the properties that take several handlers and several nodes.
  \<^item> \<open>Op_Queue\<close>: \<open>detail/op_queue.hpp\<close>, the intrusive queue of handlers, over a store of next
    pointers; it refines lists.
  \<^item> \<open>Scheduler\<close>, \<open>Scheduler_Runs\<close>, \<open>Scheduler_Wakeups\<close>: the scheduler behind \<open>io_context::run\<close>
    (\<open>detail/impl/scheduler.ipp\<close>) with its event (\<open>detail/posix_event.hpp\<close>), as the interleaved steps
    of any number of threads. \<open>books\<close> relates the count of work to what is queued and running, and
    \<open>alert\<close> the sleeping threads to the queue: handlers run once and in order, the scheduler is
    stopped only when nothing is left, and no wake-up is lost. \<open>Server_Context\<close> puts \<open>start\<close> and
    \<open>stop\<close> of the server on it: the thread stays in \<open>run\<close> until \<open>stop\<close>, which it then leaves.
  \<^item> \<open>Chrono_Time\<close>, \<open>Timer_Heap\<close>, \<open>Timer_Queue\<close>, \<open>Timer_Waits\<close>, \<open>Timer_Set\<close>, \<open>Timer_Service\<close>: the timers,
    from the arithmetic of time points (\<open>detail/chrono_time_traits.hpp\<close>) over the heap and the
    list of timers (\<open>detail/timer_queue.hpp\<close>) and the set of queues
    (\<open>detail/impl/timer_queue_set.ipp\<close>) to the timer service
    (\<open>detail/deadline_timer_service.hpp\<close>) on the reactor (\<open>detail/impl/epoll_reactor.hpp\<close>). The
    queue is abstracted to a map from timers to expiry and waits; the locale \<open>timer_source\<close> is
    what the set needs of a queue, and the steady clock's queue provides it twice.
  \<^item> \<open>Epoll_Reactor\<close>, \<open>Epoll_Props\<close>: the descriptors of the reactor (\<open>detail/impl/epoll_reactor.ipp\<close>), their
    queues of operations and the dispatch of events. \<open>Epoll_Props\<close> has a kernel that reports changes only
    and the steps of kernel, threads and users on one descriptor; \<open>honest_perform\<close> and \<open>honest_ctl\<close> are
    the documented behaviour of the system calls. No operation is left behind a change that was
    reported (\<open>alert_but\<close>), and each completes once and in order (\<open>passes\<close>).
  \<^item> \<open>Socket_Ops\<close>, \<open>Socket_Props\<close>: the calls on sockets of \<open>detail/impl/socket_ops.ipp\<close> for Linux and one
    buffer, blocking and not, and the \<open>do_perform\<close> functions of \<open>detail/reactive_socket_*_op.hpp\<close>. The loops
    return as soon as a call is not interrupted, and datagram operations meet \<open>honest_perform\<close>; the
    operations that do not are shown too.
  \<^item> \<open>Socket_Service\<close>, \<open>Socket_Runs\<close>, \<open>Socket_Life\<close>: sockets
    (\<open>detail/impl/reactive_socket_service_base.ipp\<close>) on both: opening, assigning, moving, starting
    operations, cancelling, releasing and closing. \<open>impl_ok\<close> is the well-formedness of a socket, and
    \<open>socket_run\<close> its life under any sequence of calls and events; a closed socket has no operation left.
  \<^item> \<open>Net_Address\<close>, \<open>V6_Text\<close>, \<open>Address_V6\<close>, \<open>Ip_Address\<close>, \<open>Ip_Endpoint\<close>: addresses of both versions, their
    text and order, and endpoints (\<open>ip/impl/\<close>, \<open>ip/detail/impl/endpoint.ipp\<close>,
    \<open>detail/impl/socket_ops.ipp\<close>); the node's endpoints refine the socket addresses.
  \<^item> \<open>Network_V4\<close>, \<open>Network_V6\<close>: networks, masks, subnets and ranges of hosts (\<open>ip/impl/network_v4.ipp\<close>,
    \<open>ip/impl/network_v6.ipp\<close>), read as sets of addresses and as blocks of numbers.

  Conventions. A C++ integer is a word of its width; a throw, an undefined operation or a
  dereference of a null pointer is an \<open>Inl\<close> of the result type or a \<open>None\<close>. What the code gets from
  outside is an argument: the clock, random draws, the resolver, the ports that can be bound
  and the datagrams of the network (\<open>env\<close>, \<open>net_env\<close>), and the completions of asynchronous
  operations, which arrive in any order. In the node the handlers run one at a time, as one
  thread runs the io_context; what threads share (the queue of received messages, the
  scheduler) has its interleavings explicit. In the scheduler a signal counts to the locked
  section in front of it.

  Loops. Recursion over data and loops with a measure are total functions; the loops over
  pointers, and the waits that depend on the clock, are \<open>partial_function\<close>s in the option
  monad, with theorems that they return (\<open>ready_timers_terminate\<close>, \<open>wait_loop_returns\<close>,
  \<open>op_drain\<close>, \<open>non_blocking_receive_outcome\<close>). The main loop of the program runs for a given number of turns, so that statements about
  every number of turns can be made. There is no fuel elsewhere.

  Not modelled. Screen output beyond the lines the command loop prints, the thread objects
  and mutexes themselves (their atomic sections are the steps), the system calls (their results are
  inputs) and the resolver, socket options and the calls on several buffers, the pool of descriptor
  states, move assignment of timers between two services, hashing of addresses, and the parts of asio that the node
  does not use: executors, coroutines, SSL, serial ports, other reactors.

  Of the scheduler, polling, timed waits and a thread of its own are left out, and so is the
  compensation for work that the reactor asks for.

  The sessions of the node stay on their own model of pending operations: what a completed operation
  gives them is an input there, and not derived from the socket model.

  Possible extensions: strands, the resolver's result lists, the composition of the sessions with
  the sockets, and of two whole nodes over a lossy network.
\<close>

end
